(* ===== verification/Min_Heap.thy ===== *)
theory Min_Heap
  imports Main "HOL-Library.Multiset"
begin

text \<open>
  The binary heap of \<^verbatim>\<open>kznet/timer.c\<close> as functions on lists: \<open>sift_up\<close> and \<open>sift_down\<close> are the
  loops of \<^verbatim>\<open>_shift_up\<close> and \<^verbatim>\<open>_shift_down\<close> without the back indices, which move a hole until the
  element \<open>t\<close> fits in. \<open>Timer\<close> shows that the loops over the timer structures compute them.
\<close>

definition par :: "nat \<Rightarrow> nat" where
  "par i = (i - 1) div 2"

lemma par_less [simp]: "0 < i \<Longrightarrow> par i < i"
  by (simp add: par_def)

lemma par_child: "par j = i \<Longrightarrow> 0 < j \<Longrightarrow> j = 2 * i + 1 \<or> j = 2 * i + 2"
  unfolding par_def by presburger

lemma par_children [simp]: "par (2 * i + 1) = i" "par (2 * i + 2) = i" "par (Suc (2 * i)) = i"
    "par (Suc (Suc (2 * i))) = i"
  by (simp_all add: par_def)

text \<open>
  \<open>heap_on\<close>: the first \<open>n\<close> elements are ordered as a heap. \<open>heap_above\<close> and \<open>heap_below\<close>: they are,
  except that the element at \<open>i\<close> may be too small for its place, or too large.
\<close>

definition heap_on :: "('a \<Rightarrow> int) \<Rightarrow> nat \<Rightarrow> 'a list \<Rightarrow> bool" where
  "heap_on key n xs \<longleftrightarrow> (\<forall>j. 0 < j \<and> j < n \<longrightarrow> key (xs ! par j) \<le> key (xs ! j))"

definition heap_above :: "('a \<Rightarrow> int) \<Rightarrow> nat \<Rightarrow> 'a list \<Rightarrow> nat \<Rightarrow> bool" where
  "heap_above key n xs i \<longleftrightarrow>
     (\<forall>j. 0 < j \<and> j < n \<and> j \<noteq> i \<longrightarrow> key (xs ! par j) \<le> key (xs ! j))
   \<and> (\<forall>j. 0 < j \<and> j < n \<and> par j = i \<and> 0 < i \<longrightarrow> key (xs ! par i) \<le> key (xs ! j))"

definition heap_below :: "('a \<Rightarrow> int) \<Rightarrow> nat \<Rightarrow> 'a list \<Rightarrow> nat \<Rightarrow> bool" where
  "heap_below key n xs i \<longleftrightarrow>
     (\<forall>j. 0 < j \<and> j < n \<and> par j \<noteq> i \<longrightarrow> key (xs ! par j) \<le> key (xs ! j))
   \<and> (\<forall>j. 0 < j \<and> j < n \<and> par j = i \<and> 0 < i \<longrightarrow> key (xs ! par i) \<le> key (xs ! j))"

function sift_up :: "('a \<Rightarrow> int) \<Rightarrow> 'a list \<Rightarrow> nat \<Rightarrow> 'a \<Rightarrow> 'a list" where
  "sift_up key xs i t =
     (if 0 < i \<and> key (xs ! par i) > key t
      then sift_up key (xs[i := xs ! par i]) (par i) t
      else xs[i := t])"
  by pat_completeness auto
termination
  by (relation "measure (\<lambda>(key, xs, i, t). i)") auto

declare sift_up.simps [simp del]

text \<open>The smaller child of \<open>i\<close>, when it has one among the first \<open>n\<close> elements.\<close>

definition min_child :: "('a \<Rightarrow> int) \<Rightarrow> nat \<Rightarrow> 'a list \<Rightarrow> nat \<Rightarrow> nat" where
  "min_child key n xs i =
     (let c = 2 * (i + 1) in if c = n \<or> key (xs ! c) > key (xs ! (c - 1)) then c - 1 else c)"

lemma min_child_bounds:
  assumes "2 * (i + 1) \<le> n"
  shows "i < min_child key n xs i" and "min_child key n xs i < n"
    and "par (min_child key n xs i) = i" and "0 < min_child key n xs i"
  using assms by (auto simp: min_child_def Let_def)

function sift_down :: "('a \<Rightarrow> int) \<Rightarrow> nat \<Rightarrow> 'a list \<Rightarrow> nat \<Rightarrow> 'a \<Rightarrow> 'a list" where
  "sift_down key n xs i t =
     (if 2 * (i + 1) \<le> n \<and> key t > key (xs ! min_child key n xs i)
      then sift_down key n (xs[i := xs ! min_child key n xs i]) (min_child key n xs i) t
      else xs[i := t])"
  by pat_completeness auto
termination
proof (relation "measure (\<lambda>(key, n, xs, i, t). n - i)")
  fix key :: "'a \<Rightarrow> int" and n xs i t
  assume "2 * (i + 1) \<le> n \<and> key t > key (xs ! min_child key n xs i)"
  then show "((key, n, xs[i := xs ! min_child key n xs i], min_child key n xs i, t), key, n, xs, i, t)
      \<in> measure (\<lambda>(key, n, xs, i, t). n - i)"
    using min_child_bounds(1,2) [of i n key xs] by simp
qed simp

declare sift_down.simps [simp del]

lemma length_sift [simp]:
  "length (sift_up key xs i t) = length xs" "length (sift_down key n xs i t) = length xs"
proof -
  show "length (sift_up key xs i t) = length xs"
    by (induction key xs i t rule: sift_up.induct) (subst sift_up.simps, simp)
  show "length (sift_down key n xs i t) = length xs"
    by (induction key n xs i t rule: sift_down.induct) (subst sift_down.simps, simp)
qed

section \<open>Order\<close>

lemma sift_up_heap:
  assumes "i < n" and "n \<le> length xs" and "heap_above key n (xs[i := t]) i"
  shows "heap_on key n (sift_up key xs i t)"
  using assms
proof (induction key xs i t rule: sift_up.induct)
  case (1 key xs i t)
  let ?p = "par i"
  show ?case
  proof (cases "0 < i \<and> key (xs ! ?p) > key t")
    case True
    then have p: "?p < i" by simp
    let ?ys = "(xs[i := xs ! ?p])[?p := t]"
    have ys: "?ys ! j = (if j = ?p then t else if j = i then xs ! ?p else xs ! j)" if "j < n" for j
      using that "1.prems"(1,2) p by (auto simp: nth_list_update)
    have old: "(xs[i := t]) ! j = (if j = i then t else xs ! j)" if "j < n" for j
      using that "1.prems"(2) by (auto simp: nth_list_update)
    have "heap_above key n ?ys ?p" unfolding heap_above_def
    proof (intro conjI allI impI)
      fix j assume j: "0 < j \<and> j < n \<and> j \<noteq> ?p"
      then have pj: "par j < n" by (meson less_trans par_less)
      show "key (?ys ! par j) \<le> key (?ys ! j)"
      proof (cases "j = i")
        case True
        then show ?thesis using \<open>0 < i \<and> key (xs ! ?p) > key t\<close> p "1.prems"(1,2) by simp
      next
        case False
        then have h: "key ((xs[i := t]) ! par j) \<le> key ((xs[i := t]) ! j)"
          using "1.prems"(3) j by (simp add: heap_above_def)
        have child: "par j = i \<Longrightarrow> key ((xs[i := t]) ! par i) \<le> key ((xs[i := t]) ! j)"
          using "1.prems"(3) j True by (simp add: heap_above_def)
        show ?thesis using h child j pj p False True "1.prems"(1) by (auto simp: ys old split: if_splits)
      qed
    next
      fix j assume j: "0 < j \<and> j < n \<and> par j = ?p \<and> 0 < ?p"
      have pp: "par ?p < ?p" using j by simp
      have top: "key (xs ! par ?p) \<le> key (xs ! ?p)"
        using "1.prems"(1,3) j pp p by (auto simp: heap_above_def old dest!: spec [of _ ?p])
      have jp: "j \<noteq> ?p" using j by (metis less_irrefl par_less)
      show "key (?ys ! par ?p) \<le> key (?ys ! j)"
      proof (cases "j = i")
        case True
        then show ?thesis using top j jp pp p "1.prems"(1,2) by (simp add: ys)
      next
        case False
        then have "key (xs ! ?p) \<le> key (xs ! j)"
          using "1.prems"(1,3) j p by (auto simp: heap_above_def old dest!: spec [of _ j])
        then show ?thesis using top False j jp pp p "1.prems"(1) by (simp add: ys)
      qed
    qed
    then have "heap_on key n (sift_up key (xs[i := xs ! ?p]) ?p t)"
      using "1.IH" [OF True] "1.prems"(1,2) p by simp
    then show ?thesis using True by (subst sift_up.simps) simp
  next
    case False
    then have "heap_on key n (xs[i := t])"
      using "1.prems" par_less [of i] by (auto simp: heap_on_def heap_above_def nth_list_update)
    then show ?thesis using False by (subst sift_up.simps) auto
  qed
qed

lemma min_child_le:
  assumes "par j = i" and "0 < j" and "j < n" and "2 * (i + 1) \<le> n"
  shows "key (xs ! min_child key n xs i) \<le> key (xs ! j)"
proof -
  have "j = 2 * i + 1 \<or> j = 2 * i + 2" using assms(1,2) by (rule par_child)
  then show ?thesis using assms(3) by (auto simp: min_child_def Let_def)
qed

lemma sift_down_heap:
  assumes "n \<le> length xs" and "i < n" and "heap_below key n (xs[i := t]) i"
  shows "heap_on key n (sift_down key n xs i t)"
  using assms
proof (induction key n xs i t rule: sift_down.induct)
  case (1 key n xs i t)
  let ?c = "min_child key n xs i"
  have old: "(xs[i := t]) ! j = (if j = i then t else xs ! j)" if "j < n" for j
    using that "1.prems"(1) by (auto simp: nth_list_update)
  show ?case
  proof (cases "2 * (i + 1) \<le> n \<and> key t > key (xs ! ?c)")
    case True
    then have c: "i < ?c" "?c < n" "par ?c = i" "0 < ?c" using min_child_bounds by auto
    let ?ys = "(xs[i := xs ! ?c])[?c := t]"
    have ys: "?ys ! j = (if j = ?c then t else if j = i then xs ! ?c else xs ! j)" if "j < n" for j
      using that "1.prems"(1) c by (auto simp: nth_list_update)
    have "heap_below key n ?ys ?c" unfolding heap_below_def
    proof (intro conjI allI impI)
      fix j assume j: "0 < j \<and> j < n \<and> par j \<noteq> ?c"
      then have pj: "par j < n" "par j \<noteq> j" using less_trans [of "par j" j n] by (auto simp: less_imp_neq)
      show "key (?ys ! par j) \<le> key (?ys ! j)"
      proof (cases "par j = i")
        case par: True
        then show ?thesis
          using min_child_le [OF par] j True pj c "1.prems"(2) ys [of j] ys [OF pj(1)] by (auto split: if_splits)
      next
        case False
        then have "key ((xs[i := t]) ! par j) \<le> key ((xs[i := t]) ! j)"
          using "1.prems"(3) j by (simp add: heap_below_def)
        moreover have "j \<noteq> ?c" using False c(3) by auto
        moreover have "j = i \<Longrightarrow> key (xs ! par i) \<le> key (xs ! ?c)"
          using "1.prems"(3) c j pj False by (auto simp: heap_below_def old dest!: spec [of _ ?c])
        ultimately show ?thesis using j pj False "1.prems"(1) by (auto simp: ys old split: if_splits)
      qed
    next
      fix j assume j: "0 < j \<and> j < n \<and> par j = ?c \<and> 0 < ?c"
      then have "?c < j" "j \<noteq> i" using c(1) par_less [of j] by auto
      have "key ((xs[i := t]) ! ?c) \<le> key ((xs[i := t]) ! j)"
        using "1.prems"(3) j c(1) by (auto simp: heap_below_def)
      then show "key (?ys ! par ?c) \<le> key (?ys ! j)"
        using j c \<open>?c < j\<close> \<open>j \<noteq> i\<close> "1.prems"(1,2) by (simp add: ys old)
    qed
    then have "heap_on key n (sift_down key n (xs[i := xs ! ?c]) ?c t)"
      using "1.IH" [OF True] "1.prems"(1) c by simp
    then show ?thesis using True by (subst sift_down.simps) simp
  next
    case False
    have "heap_on key n (xs[i := t])" unfolding heap_on_def
    proof (intro allI impI)
      fix j assume j: "0 < j \<and> j < n"
      then have pj: "par j < n" using less_trans [of "par j" j n] by simp
      show "key (xs[i := t] ! par j) \<le> key (xs[i := t] ! j)"
      proof (cases "par j = i")
        case par: True
        then have "2 * (i + 1) \<le> n \<or> j = 2 * i + 1 \<and> n = 2 * i + 2"
          using par_child [OF par] j by auto
        then have "2 * (i + 1) \<le> n" by auto
        then have "key t \<le> key (xs ! j)"
          using False min_child_le [where key = key and xs = xs and n = n, OF par] j by auto
        moreover have "j \<noteq> i" using par j par_less [of j] by auto
        ultimately show ?thesis using par j pj by (simp add: old)
      next
        case False
        then show ?thesis using "1.prems"(3) j by (simp add: heap_below_def)
      qed
    qed
    then show ?thesis using False by (subst sift_down.simps) auto
  qed
qed

section \<open>Elements\<close>

lemma mset_swap_hole:
  assumes "i < n" and "j < n" and "n \<le> length xs"
  shows "mset (take n ((xs[i := xs ! j])[j := t])) = mset (take n (xs[i := t]))"
proof (cases "i = j")
  case False
  define zs where "zs = take n (xs[i := t])"
  have "take n ((xs[i := xs ! j])[j := t]) = zs[j := zs ! i, i := zs ! j]"
    using assms False by (auto intro!: nth_equalityI simp: zs_def nth_list_update)
  moreover have "mset (zs[j := zs ! i, i := zs ! j]) = mset zs"
    using assms by (intro mset_swap) (auto simp: zs_def)
  ultimately show ?thesis by (simp add: zs_def)
qed simp

lemma sift_up_mset:
  "i < n \<Longrightarrow> n \<le> length xs \<Longrightarrow> mset (take n (sift_up key xs i t)) = mset (take n (xs[i := t]))"
proof (induction key xs i t rule: sift_up.induct)
  case (1 key xs i t)
  then show ?case
    using mset_swap_hole [of i n "par i" xs t] less_trans [of "par i" i n] by (subst sift_up.simps) simp
qed

lemma sift_down_mset:
  "n \<le> length xs \<Longrightarrow> i < n \<Longrightarrow> mset (take n (sift_down key n xs i t)) = mset (take n (xs[i := t]))"
proof (induction key n xs i t rule: sift_down.induct)
  case (1 key n xs i t)
  then show ?case
    using mset_swap_hole [of i n "min_child key n xs i" xs t] min_child_bounds [of i n key xs]
    by (subst sift_down.simps) simp
qed

section \<open>Changing one element\<close>

text \<open>The test both \<^verbatim>\<open>_heap_adjust\<close> and \<^verbatim>\<open>_heap_delete\<close> make, and what it chooses.\<close>

definition sift :: "('a \<Rightarrow> int) \<Rightarrow> nat \<Rightarrow> 'a list \<Rightarrow> nat \<Rightarrow> 'a \<Rightarrow> 'a list" where
  "sift key n xs i t =
     (if 0 < i \<and> key (xs ! par i) > key t then sift_up key xs i t else sift_down key n xs i t)"

lemma sift_mset: "i < n \<Longrightarrow> n \<le> length xs \<Longrightarrow> mset (take n (sift key n xs i t)) = mset (take n (xs[i := t]))"
  by (simp add: sift_def sift_up_mset sift_down_mset)

lemma sift_heap:
  assumes "i < n" and "n \<le> length xs"
    and order: "\<And>j. 0 < j \<Longrightarrow> j < n \<Longrightarrow> j \<noteq> i \<Longrightarrow> par j \<noteq> i \<Longrightarrow> key (xs ! par j) \<le> key (xs ! j)"
    and grand: "\<And>j. 0 < j \<Longrightarrow> j < n \<Longrightarrow> par j = i \<Longrightarrow> 0 < i \<Longrightarrow> key (xs ! par i) \<le> key (xs ! j)"
  shows "heap_on key n (sift key n xs i t)"
proof -
  have ys: "(xs[i := t]) ! j = (if j = i then t else xs ! j)" if "j < n" for j
    using that assms(2) by (auto simp: nth_list_update)
  have less: "par j < n" "par j \<noteq> j" if "0 < j" "j < n" for j
    using that par_less [of j] by linarith+
  have grand': "key ((xs[i := t]) ! par i) \<le> key ((xs[i := t]) ! j)"
    if "0 < j \<and> j < n \<and> par j = i \<and> 0 < i" for j
    using that grand [of j] less [of i] less [of j] assms(1) by (auto simp: ys)
  show ?thesis
  proof (cases "0 < i \<and> key (xs ! par i) > key t")
    case True
    have "key ((xs[i := t]) ! par j) \<le> key ((xs[i := t]) ! j)" if "0 < j \<and> j < n \<and> j \<noteq> i" for j
      using that order [of j] grand [of j] True less [of j] assms(1) by (cases "par j = i") (auto simp: ys)
    then have "heap_above key n (xs[i := t]) i" using grand' by (simp add: heap_above_def)
    then show ?thesis using True assms(1,2) by (simp add: sift_def sift_up_heap)
  next
    case False
    have "key ((xs[i := t]) ! par j) \<le> key ((xs[i := t]) ! j)" if "0 < j \<and> j < n \<and> par j \<noteq> i" for j
      using that order [of j] False less [of j] assms(1) by (cases "j = i") (auto simp: ys)
    then have "heap_below key n (xs[i := t]) i" using grand' by (simp add: heap_below_def)
    then show ?thesis using False assms(1,2) by (auto simp: sift_def sift_down_heap)
  qed
qed

lemma heap_on_le: "heap_on key n xs \<Longrightarrow> k \<le> n \<Longrightarrow> heap_on key k xs"
  by (simp add: heap_on_def)

lemma heap_on_cong:
  assumes "heap_on key n xs" and "\<And>j. j < n \<Longrightarrow> ys ! j = xs ! j"
  shows "heap_on key n ys"
  unfolding heap_on_def
proof (intro allI impI)
  fix j assume j: "0 < j \<and> j < n"
  then have "par j < n" using par_less [of j] by linarith
  then show "key (ys ! par j) \<le> key (ys ! j)" using assms j by (simp add: heap_on_def)
qed

lemma heap_grand:
  assumes "heap_on key n xs" and "0 < j" and "j < n" and "par j = i" and "0 < i"
  shows "key (xs ! par i) \<le> key (xs ! j)"
proof -
  have "i < n" using assms(2-4) par_less [of j] by simp
  then have "key (xs ! par i) \<le> key (xs ! i)" using assms(1,5) by (simp add: heap_on_def)
  also have "\<dots> \<le> key (xs ! j)" using assms(1-4) by (auto simp: heap_on_def)
  finally show ?thesis .
qed

lemma heap_push:
  assumes "heap_on key n xs" and "n < length xs"
  shows "heap_on key (Suc n) (sift_up key xs n t)"
proof (rule sift_up_heap)
  have "key ((xs[n := t]) ! par j) \<le> key ((xs[n := t]) ! j)" if "0 < j \<and> j < Suc n \<and> j \<noteq> n" for j
  proof -
    have "par j < j" "j < n" "par j \<noteq> n" using that par_less [of j] by linarith+
    then show ?thesis using assms that by (simp add: heap_on_def nth_list_update)
  qed
  moreover have "par j \<noteq> n" if "0 < j" "j < Suc n" for j using that par_less [of j] by linarith
  ultimately show "heap_above key (Suc n) (xs[n := t]) n" unfolding heap_above_def by blast
qed (use assms in auto)

text \<open>The element at the root is a smallest one.\<close>

lemma heap_root_le: "heap_on key n xs \<Longrightarrow> j < n \<Longrightarrow> key (xs ! 0) \<le> key (xs ! j)"
proof (induction j rule: less_induct)
  case (less j)
  show ?case
  proof (cases "j = 0")
    case False
    then have "par j < j" by simp
    then have "key (xs ! 0) \<le> key (xs ! par j)" using less by simp
    also have "\<dots> \<le> key (xs ! j)" using less.prems False by (simp add: heap_on_def)
    finally show ?thesis .
  qed simp
qed

end
