(* ===== verification/Prelude.thy ===== *)
theory Prelude
  imports Main "HOL-Library.Word" "HOL-Library.Monad_Syntax"
begin

text \<open>
  What every component of the library shares: the machine types of the C code (LP64, 8-bit
  bytes), memory blocks and heaps with checked accesses, and the collections of rewrite rules
  the component theories add to.

  A C expression whose behaviour is undefined (a load outside a block, a null dereference, an
  access to a freed node, a division by zero) has the value \<open>None\<close> in the option monad; a
  defined execution has the value \<open>Some r\<close>.
\<close>

unbundle bit_operations_syntax

section \<open>Machine types\<close>

type_synonym u8 = "8 word"
type_synonym u32 = "32 word"
type_synonym u64 = "64 word"

text \<open>
  A C string is given by its bytes without the terminating zero; a \<^verbatim>\<open>const char *\<close> that may
  be null is a \<^typ>\<open>u8 list option\<close>.
\<close>

type_synonym cstr = "u8 list"

text \<open>An address of a heap; address 0 is the null pointer.\<close>

type_synonym ptr = nat

abbreviation NULL :: ptr where "NULL \<equiv> 0"

text \<open>The values of \<^verbatim>\<open>errno\<close> the code looks at; on Linux \<^verbatim>\<open>EWOULDBLOCK\<close> is \<^verbatim>\<open>EAGAIN\<close>.\<close>

datatype errno = EAGAIN | EINTR | EINPROGRESS | Eother nat

named_theorems mem_defs \<open>definitions of the checked memory accesses\<close>
named_theorems word_simps \<open>unsigned values of the word expressions of the code\<close>

section \<open>Blocks of memory, accessed by index\<close>

text \<open>
  \<open>aload xs i\<close> is the C expression \<^verbatim>\<open>xs[i]\<close>, \<open>astore xs i v\<close> the assignment
  \<^verbatim>\<open>xs[i] = v\<close> and \<open>memset xs v n\<close> the call of the library function: each is defined only inside
  the block.
\<close>

definition aload :: "'a list \<Rightarrow> nat \<Rightarrow> 'a option" where
  [mem_defs]: "aload xs i = (if i < length xs then Some (xs ! i) else None)"

definition astore :: "'a list \<Rightarrow> nat \<Rightarrow> 'a \<Rightarrow> 'a list option" where
  [mem_defs]: "astore xs i v = (if i < length xs then Some (xs[i := v]) else None)"

definition memset :: "'a list \<Rightarrow> 'a \<Rightarrow> nat \<Rightarrow> 'a list option" where
  [mem_defs]: "memset xs v n = (if n \<le> length xs then Some (replicate n v @ drop n xs) else None)"

lemma aload_Some [simp]: "i < length xs \<Longrightarrow> aload xs i = Some (xs ! i)"
  by (simp add: aload_def)

lemma aload_None [simp]: "length xs \<le> i \<Longrightarrow> aload xs i = None"
  by (simp add: aload_def)

lemma aload_eq_Some_iff: "aload xs i = Some v \<longleftrightarrow> i < length xs \<and> xs ! i = v"
  by (simp add: aload_def)

lemma astore_Some [simp]: "i < length xs \<Longrightarrow> astore xs i v = Some (xs[i := v])"
  by (simp add: astore_def)

lemma astore_None [simp]: "length xs \<le> i \<Longrightarrow> astore xs i v = None"
  by (simp add: astore_def)

lemma memset_Some [simp]: "n \<le> length xs \<Longrightarrow> memset xs v n = Some (replicate n v @ drop n xs)"
  by (simp add: memset_def)

section \<open>Heaps of nodes, accessed by address\<close>

text \<open>
  A heap maps the addresses of the live nodes to their contents. \<open>load\<close> and \<open>store\<close> are
  defined on live nodes only, and \<open>dealloc\<close> is the library's \<^verbatim>\<open>free\<close>: it accepts the null
  pointer and refuses an address that is not live. The address an operation obtains from
  \<^verbatim>\<open>malloc\<close> is an argument of the operation: null when the allocation fails, else an address
  that is not live (\<open>fresh\<close>).
\<close>

definition load :: "(ptr \<rightharpoonup> 'a) \<Rightarrow> ptr \<Rightarrow> 'a option" where
  [mem_defs]: "load h p = (if p = NULL then None else h p)"

definition store :: "(ptr \<rightharpoonup> 'a) \<Rightarrow> ptr \<Rightarrow> 'a \<Rightarrow> (ptr \<rightharpoonup> 'a) option" where
  [mem_defs]: "store h p v =
     (if p = NULL then None else case h p of None \<Rightarrow> None | Some _ \<Rightarrow> Some (h(p \<mapsto> v)))"

definition modify :: "(ptr \<rightharpoonup> 'a) \<Rightarrow> ptr \<Rightarrow> ('a \<Rightarrow> 'a) \<Rightarrow> (ptr \<rightharpoonup> 'a) option" where
  [mem_defs]: "modify h p f = do { v \<leftarrow> load h p; store h p (f v) }"

definition dealloc :: "(ptr \<rightharpoonup> 'a) \<Rightarrow> ptr \<Rightarrow> (ptr \<rightharpoonup> 'a) option" where
  [mem_defs]: "dealloc h p =
     (if p = NULL then Some h else case h p of None \<Rightarrow> None | Some _ \<Rightarrow> Some (h(p := None)))"

definition fresh :: "(ptr \<rightharpoonup> 'a) \<Rightarrow> ptr \<Rightarrow> bool" where
  "fresh h p \<longleftrightarrow> p \<noteq> NULL \<and> h p = None"

lemma load_NULL [simp]: "load h NULL = None"
  by (simp add: load_def)

lemma load_Some [simp]: "p \<noteq> NULL \<Longrightarrow> h p = Some v \<Longrightarrow> load h p = Some v"
  by (simp add: load_def)

lemma store_Some [simp]: "p \<noteq> NULL \<Longrightarrow> h p = Some v \<Longrightarrow> store h p w = Some (h(p \<mapsto> w))"
  by (simp add: store_def)

lemma modify_Some [simp]: "p \<noteq> NULL \<Longrightarrow> h p = Some v \<Longrightarrow> modify h p f = Some (h(p \<mapsto> f v))"
  by (simp add: modify_def)

lemma dealloc_Some [simp]: "p \<noteq> NULL \<Longrightarrow> h p = Some v \<Longrightarrow> dealloc h p = Some (h(p := None))"
  by (simp add: dealloc_def)

lemma dealloc_NULL [simp]: "dealloc h NULL = Some h"
  by (simp add: dealloc_def)

section \<open>Chains of pointers\<close>

text \<open>
  \<open>linked f ps b\<close>: the function \<open>f\<close> leads from each address of \<open>ps\<close> to the following one, and from
  the last one to \<open>b\<close>.
\<close>

fun linked :: "(ptr \<Rightarrow> ptr) \<Rightarrow> ptr list \<Rightarrow> ptr \<Rightarrow> bool" where
  "linked f [] b \<longleftrightarrow> True"
| "linked f (p # ps) b \<longleftrightarrow> f p = hd (ps @ [b]) \<and> linked f ps b"

lemma linked_append [simp]:
  "linked f (ps @ qs) b \<longleftrightarrow> linked f ps (hd (qs @ [b])) \<and> linked f qs b"
  by (induction ps) (auto simp: hd_append)

lemma linked_cong: "(\<And>p. p \<in> set ps \<Longrightarrow> f p = g p) \<Longrightarrow> linked f ps b = linked g ps b"
  by (induction ps) auto

text \<open>A pointer is changed at one node of the chain: a node comes in, or goes out.\<close>

lemma linked_insert:
  assumes "linked f (ps @ [u] @ qs) b" and "distinct (ps @ [u] @ qs)" and "new \<notin> set (ps @ [u] @ qs)"
    and "\<And>p. p \<noteq> new \<Longrightarrow> p \<noteq> u \<Longrightarrow> g p = f p" and "g u = new" and "g new = f u"
  shows "linked g (ps @ [u] @ new # qs) b"
proof -
  have same: "g p = f p" if "p \<in> set ps \<union> set qs" for p
  proof -
    have "p \<noteq> new" "p \<noteq> u" using that assms(2,3) by auto
    then show ?thesis by (rule assms(4))
  qed
  have "linked g ps u = linked f ps u" "linked g qs b = linked f qs b"
    by (rule linked_cong, simp add: same)+
  then show ?thesis using assms(1,5,6) by simp
qed

lemma linked_remove:
  assumes "linked f (ps @ [u] @ x # qs) b" and "distinct (ps @ [u] @ x # qs)"
    and "\<And>p. p \<noteq> x \<Longrightarrow> p \<noteq> u \<Longrightarrow> g p = f p" and "g u = f x"
  shows "linked g (ps @ [u] @ qs) b"
proof -
  have same: "g p = f p" if "p \<in> set ps \<union> set qs" for p
  proof -
    have "p \<noteq> x" "p \<noteq> u" using that assms(2) by auto
    then show ?thesis by (rule assms(3))
  qed
  have "linked g ps u = linked f ps u" "linked g qs b = linked f qs b"
    by (rule linked_cong, simp add: same)+
  then show ?thesis using assms(1,4) by simp
qed

section \<open>Words\<close>

lemma unat_add_no_wrap [word_simps]:
  "unat a + unat b < 2 ^ LENGTH('a) \<Longrightarrow> unat (a + b) = unat a + unat (b :: 'a::len word)"
  by (simp add: unat_word_ariths)

lemma unat_div [word_simps]: "unat (a div b) = unat a div unat (b :: 'a::len word)"
  by (simp add: unat_div_distrib)

lemma unat_mod [word_simps]: "unat (a mod b) = unat a mod unat (b :: 'a::len word)"
  by (simp add: unat_mod_distrib)

lemma unat_eq_iff_eq: "unat a = unat b \<longleftrightarrow> a = (b :: 'a::len word)"
  by (simp add: word_unat_eq_iff)

lemma div_lt_rounded: "n < len \<Longrightarrow> n div 8 < (len + 7) div (8::nat)"
  by arith

end
