(* ===== verification/Timer.thy ===== *)
theory Timer
  imports Min_Heap Prelude "HOL-Library.Signed_Division"
begin

text \<open>
  The timers of \<^verbatim>\<open>kznet/timer.c\<close>: an array heap of pointers to timer structures, which carry their
  own index in the array, and a pool of structures kept for reuse.

  The structures live in \<open>timers\<close>; \<open>tes\<close> is the block the pointer of that name leads to. \<^verbatim>\<open>head\<close> is
  part of the heap structure, so the pool is given by \<open>head_next\<close>, and a \<open>tail\<close> that is \<open>None\<close> is the
  address of \<^verbatim>\<open>head\<close>. Signed 32-bit results are checked (\<open>i32\<close>); the code's 64-bit milliseconds are
  integers. \<open>clk\<close> gives the readings of the clock one after another, \<open>ticks\<close> counts them, and \<open>mem\<close>
  tells which requests the allocator serves. \<open>trace\<close> is not in the code: it records the calls of
  callbacks, by callback and data. A value \<open>None\<close> is undefined behaviour or a failed assertion. The
  operations work on every extension of the record \<open>tstate\<close>: the event loop of \<^verbatim>\<open>kznet/event.c\<close>, which
  callbacks get as their argument, is one.
\<close>

record timer =
  min_heap_idx :: int
  when_msec :: int
  tdata :: ptr
  tcb :: nat
  tnext :: ptr

record timer_heap =
  now :: int
  all_slots :: int
  tes :: "ptr list"
  maxsize :: int
  allocs :: int
  psize :: int
  head_next :: ptr
  tail :: "ptr option"

record tstate =
  timers :: "ptr \<rightharpoonup> timer"
  theap :: timer_heap
  ticks :: nat
  trace :: "(nat \<times> ptr) list"

definition i32 :: "int \<Rightarrow> int option" where
  "i32 x = (if - (2 ^ 31) \<le> x \<and> x < 2 ^ 31 then Some x else None)"

section \<open>Creation\<close>

definition timer_heap_create :: "(int \<Rightarrow> bool) \<Rightarrow> int \<Rightarrow> timer_heap option" where
  "timer_heap_create mem msize =
     (if \<not> mem 80 then None
      else if \<not> mem (16 * 8) then None
      else Some \<lparr>now = 0, all_slots = 16, tes = replicate 16 NULL,
        maxsize = (if msize < 16 then 16 else msize), allocs = 0, psize = 0,
        head_next = NULL, tail = None\<rparr>)"

partial_function (option) free_pool :: "ptr \<Rightarrow> (ptr \<rightharpoonup> timer) \<Rightarrow> (ptr \<rightharpoonup> timer) option" where
  "free_pool cur h =
     (if cur = NULL then Some h
      else case load h cur of
        None \<Rightarrow> None
      | Some t \<Rightarrow> (case dealloc h cur of None \<Rightarrow> None | Some h' \<Rightarrow> free_pool (tnext t) h'))"

text \<open>What is left of the timer structures after \<^verbatim>\<open>timer_heap_delete\<close>.\<close>

definition timer_heap_delete :: "'z tstate_scheme \<Rightarrow> (ptr \<rightharpoonup> timer) option" where
  "timer_heap_delete s = free_pool (head_next (theap s)) (timers s)"

section \<open>The array heap\<close>

abbreviation set_heap :: "'z tstate_scheme \<Rightarrow> (timer_heap \<Rightarrow> timer_heap) \<Rightarrow> 'z tstate_scheme" where
  "set_heap s f \<equiv> s\<lparr>theap := f (theap s)\<rparr>"

text \<open>\<^verbatim>\<open>realloc\<close> keeps the entries and leaves the new ones unset, for which null pointers stand here.\<close>

definition reserve :: "(int \<Rightarrow> bool) \<Rightarrow> 'z tstate_scheme \<Rightarrow> int \<Rightarrow> ('z tstate_scheme \<times> int) option" where
  "reserve mem s n = do {
     al \<leftarrow> i32 (all_slots (theap s) * 2);
     let al = (if al < n then n else al);
     if \<not> mem (al * 8) then Some (s, -1)
     else Some (set_heap s (\<lambda>h. h\<lparr>tes := tes h @ replicate (nat al - length (tes h)) NULL, all_slots := al\<rparr>), 0)
   }"

definition tes_at :: "'z tstate_scheme \<Rightarrow> int \<Rightarrow> ptr option" where
  "tes_at s i = (if i < 0 then None else aload (tes (theap s)) (nat i))"

definition elem_greater :: "'z tstate_scheme \<Rightarrow> ptr \<Rightarrow> ptr \<Rightarrow> bool option" where
  "elem_greater s a b = do {
     ta \<leftarrow> load (timers s) a;
     tb \<leftarrow> load (timers s) b;
     Some (when_msec ta > when_msec tb)
   }"

text \<open>\<^verbatim>\<open>heap->tes[i] = t; heap->tes[i]->min_heap_idx = i\<close>\<close>

definition place :: "'z tstate_scheme \<Rightarrow> int \<Rightarrow> ptr \<Rightarrow> 'z tstate_scheme option" where
  "place s i t = do {
     es \<leftarrow> (if i < 0 then None else astore (tes (theap s)) (nat i) t);
     m \<leftarrow> modify (timers s) t (min_heap_idx_update (\<lambda>_. i));
     Some (s\<lparr>timers := m, theap := (theap s)\<lparr>tes := es\<rparr>\<rparr>)
   }"

definition greater_at :: "'z tstate_scheme \<Rightarrow> int \<Rightarrow> ptr \<Rightarrow> bool option" where
  "greater_at s i t = do { p \<leftarrow> tes_at s i; elem_greater s p t }"

lemma greater_at_index: "greater_at s i t = Some b \<Longrightarrow> 0 \<le> i \<and> nat i < length (tes (theap s))"
  by (auto simp: greater_at_def tes_at_def bind_eq_Some_conv aload_def split: if_splits)

function shift_up :: "'z tstate_scheme \<Rightarrow> int \<Rightarrow> ptr \<Rightarrow> 'z tstate_scheme option" where
  "shift_up s hole t =
     (let parent = (hole - 1) sdiv 2 in
      if hole = 0 then place s hole t
      else case greater_at s parent t of
        None \<Rightarrow> None
      | Some False \<Rightarrow> place s hole t
      | Some True \<Rightarrow>
          (case tes_at s parent of
             None \<Rightarrow> None
           | Some p \<Rightarrow>
               (case place s hole p of
                  None \<Rightarrow> None
                | Some s' \<Rightarrow> shift_up s' parent t)))"
  by pat_completeness auto

lemma sdiv_two: "(0 :: int) \<le> i \<Longrightarrow> i sdiv 2 = i div 2"
  by (simp add: signed_divide_int_def sgn_if)

lemma sdiv_two_neg: "i < (0 :: int) \<Longrightarrow> i sdiv 2 \<le> 0" "i \<le> -2 \<Longrightarrow> i sdiv (2 :: int) < 0"
  by (auto simp: signed_divide_int_def sgn_if)

termination shift_up
proof (relation "measure (\<lambda>(s, hole, t). nat hole)")
  fix s :: "'z tstate_scheme" and hole parent :: int and t p :: ptr and g and s' :: "'z tstate_scheme"
  assume "parent = (hole - 1) sdiv 2" "hole \<noteq> 0" "greater_at s parent t = Some g"
  moreover from greater_at_index [OF this(3)] have "0 \<le> parent" by simp
  ultimately have "parent < hole \<and> 0 \<le> parent"
    using sdiv_two [of "hole - 1"] sdiv_two_neg(2) [of "hole - 1"] by (cases "hole \<ge> 1") auto
  then show "((s', parent, t), s, hole, t) \<in> measure (\<lambda>(s, hole, t). nat hole)" by simp
qed simp

declare shift_up.simps [simp del]

text \<open>\<^verbatim>\<open>min_child -= (min_child == heap->now || _elem_greater(...))\<close>\<close>

definition smaller_child :: "'z tstate_scheme \<Rightarrow> int \<Rightarrow> int option" where
  "smaller_child s c =
     (if c = now (theap s) then Some (c - 1)
      else do {
        a \<leftarrow> tes_at s c;
        b \<leftarrow> tes_at s (c - 1);
        g \<leftarrow> elem_greater s a b;
        Some (if g then c - 1 else c)
      })"

lemma place_index:
  "place s i t = Some s' \<Longrightarrow> 0 \<le> i \<and> now (theap s') = now (theap s)"
  by (auto simp: place_def bind_eq_Some_conv split: if_splits)

lemma smaller_child_cases: "smaller_child s c = Some c' \<Longrightarrow> c' = c \<or> c' = c - 1"
  by (auto simp: smaller_child_def bind_eq_Some_conv split: if_splits)

function shift_down :: "'z tstate_scheme \<Rightarrow> int \<Rightarrow> ptr \<Rightarrow> 'z tstate_scheme option" where
  "shift_down s hole t =
     (case i32 (2 * (hole + 1)) of
        None \<Rightarrow> None
      | Some c \<Rightarrow>
          if c \<le> now (theap s) then
            (case smaller_child s c of
               None \<Rightarrow> None
             | Some c \<Rightarrow>
                 (case tes_at s c of
                    None \<Rightarrow> None
                  | Some p \<Rightarrow>
                      (case elem_greater s t p of
                         None \<Rightarrow> None
                       | Some False \<Rightarrow> place s hole t
                       | Some True \<Rightarrow>
                           (case place s hole p of
                              None \<Rightarrow> None
                            | Some s' \<Rightarrow> shift_down s' c t))))
          else place s hole t)"
  by pat_completeness auto
termination shift_down
proof (relation "measure (\<lambda>(s, hole, t). nat (now (theap s) - hole))")
  fix s :: "'z tstate_scheme" and hole c c' :: int and t p :: ptr and s' :: "'z tstate_scheme"
  assume "i32 (2 * (hole + 1)) = Some c" "c \<le> now (theap s)" "smaller_child s c = Some c'"
    "place s hole p = Some s'"
  then show "((s', c', t), s, hole, t) \<in> measure (\<lambda>(s, hole, t). nat (now (theap s) - hole))"
    using place_index [of s hole p s'] smaller_child_cases [of s c c'] by (auto simp: i32_def split: if_splits)
qed simp

declare shift_down.simps [simp del]

definition heap_top :: "'z tstate_scheme \<Rightarrow> ptr option" where
  "heap_top s = (if now (theap s) \<noteq> 0 then tes_at s 0 else Some NULL)"

definition heap_push :: "(int \<Rightarrow> bool) \<Rightarrow> 'z tstate_scheme \<Rightarrow> ptr \<Rightarrow> ('z tstate_scheme \<times> int) option" where
  "heap_push mem s t = do {
     n \<leftarrow> i32 (now (theap s) + 1);
     (s, r) \<leftarrow> (if all_slots (theap s) < n then reserve mem s n else Some (s, 0));
     if r \<noteq> 0 then Some (s, -1)
     else do {
       s \<leftarrow> shift_up s (now (theap s)) t;
       n \<leftarrow> i32 (now (theap s) + 1);
       Some (set_heap s (\<lambda>h. h\<lparr>now := n\<rparr>), 0)
     }
   }"

definition heap_adjust :: "'z tstate_scheme \<Rightarrow> ptr \<Rightarrow> 'z tstate_scheme option" where
  "heap_adjust s t = do {
     tm \<leftarrow> load (timers s) t;
     let parent = (min_heap_idx tm - 1) sdiv 2;
     up \<leftarrow> (if min_heap_idx tm > 0 then greater_at s parent t else Some False);
     if up then shift_up s (min_heap_idx tm) t else shift_down s (min_heap_idx tm) t
   }"

definition heap_delete :: "'z tstate_scheme \<Rightarrow> ptr \<Rightarrow> 'z tstate_scheme option" where
  "heap_delete s t = do {
     let s = set_heap s (\<lambda>h. h\<lparr>now := now h - 1\<rparr>);
     last \<leftarrow> tes_at s (now (theap s));
     tm \<leftarrow> load (timers s) t;
     let parent = (min_heap_idx tm - 1) sdiv 2;
     up \<leftarrow> (if min_heap_idx tm > 0 then greater_at s parent last else Some False);
     s \<leftarrow> (if up then shift_up s (min_heap_idx tm) last else shift_down s (min_heap_idx tm) last);
     m \<leftarrow> modify (timers s) t (min_heap_idx_update (\<lambda>_. -1));
     Some (s\<lparr>timers := m\<rparr>)
   }"

section \<open>The clock\<close>

text \<open>
  The time is read with \<^verbatim>\<open>clock_gettime\<close>, in seconds and nanoseconds, where the program is built with
  \<^verbatim>\<open>USE_MONOTONIC\<close>, as the \<^verbatim>\<open>Makefile\<close> does on Linux, and else with \<^verbatim>\<open>gettimeofday\<close>, in seconds and
  microseconds. Which of the two a program does is fixed when it is compiled; here each reading says it.
\<close>

datatype time_value = Timespec int int | Timeval int int

type_synonym clock = "nat \<Rightarrow> time_value"

definition get_now_time :: "clock \<Rightarrow> 'z tstate_scheme \<Rightarrow> int \<times> 'z tstate_scheme" where
  "get_now_time clk s =
     (case clk (ticks s) of
        Timespec sec nsec \<Rightarrow> sec * 1000 + nsec sdiv (1000 * 1000)
      | Timeval sec usec \<Rightarrow> sec * 1000 + usec sdiv 1000, s\<lparr>ticks := ticks s + 1\<rparr>)"

definition add_millisec_to_now :: "clock \<Rightarrow> 'z tstate_scheme \<Rightarrow> int \<Rightarrow> int \<times> 'z tstate_scheme" where
  "add_millisec_to_now clk s msec = (let (cur_msec, s) = get_now_time clk s in (cur_msec + msec, s))"

section \<open>Timers\<close>

text \<open>
  \<open>create_timer\<close> gets the result \<open>p\<close> of \<^verbatim>\<open>malloc\<close>, which the code calls only when the pool is empty.
  It returns the timer, or null. The fields of a new structure are written before they are read.
\<close>

definition create_timer ::
    "ptr \<Rightarrow> (int \<Rightarrow> bool) \<Rightarrow> clock \<Rightarrow> 'z tstate_scheme \<Rightarrow> int \<Rightarrow> nat \<Rightarrow> ptr \<Rightarrow> ('z tstate_scheme \<times> ptr) option" where
  "create_timer p mem clk s msec cb data =
     (if \<not> msec > 0 then None
      else if cb = 0 then None
      else do {
        (s, te) \<leftarrow>
          (if head_next (theap s) \<noteq> NULL then do {
             let te = head_next (theap s);
             t \<leftarrow> load (timers s) te;
             Some (set_heap s (\<lambda>h. h\<lparr>head_next := tnext t,
               tail := (if tnext t = NULL then None else tail h), psize := psize h - 1\<rparr>), te)
           } else if p = NULL then Some (s, NULL)
           else Some (set_heap (s\<lparr>timers := (timers s)(p \<mapsto>
               \<lparr>min_heap_idx = 0, when_msec = 0, tdata = NULL, tcb = 0, tnext = NULL\<rparr>)\<rparr>)
             (\<lambda>h. h\<lparr>allocs := allocs h + 1\<rparr>), p));
        if te = NULL then Some (s, NULL)
        else do {
          m \<leftarrow> modify (timers s) te (\<lambda>t. t\<lparr>tnext := NULL, min_heap_idx := -1\<rparr>);
          let s = s\<lparr>timers := m\<rparr>;
          let (w, s) = add_millisec_to_now clk s msec;
          m \<leftarrow> modify (timers s) te (\<lambda>t. t\<lparr>when_msec := w, tcb := cb, tdata := data\<rparr>);
          (s, r) \<leftarrow> heap_push mem (s\<lparr>timers := m\<rparr>) te;
          Some (s, if r = 0 then te else NULL)
        }
      })"

definition delete_timer :: "'z tstate_scheme \<Rightarrow> ptr \<Rightarrow> ('z tstate_scheme \<times> int) option" where
  "delete_timer s t =
     (if t = NULL then None
      else do {
        tm \<leftarrow> load (timers s) t;
        if min_heap_idx tm < 0 \<or> tnext tm \<noteq> NULL then Some (s, -1)
        else do {
          s \<leftarrow> heap_delete s t;
          if allocs (theap s) > maxsize (theap s) then do {
            m \<leftarrow> dealloc (timers s) t;
            Some (set_heap (s\<lparr>timers := m\<rparr>) (\<lambda>h. h\<lparr>allocs := allocs h - 1\<rparr>), 0)
          } else do {
            s \<leftarrow> (case tail (theap s) of
                None \<Rightarrow> Some (set_heap s (\<lambda>h. h\<lparr>head_next := t\<rparr>))
              | Some q \<Rightarrow> do {
                  m \<leftarrow> modify (timers s) q (tnext_update (\<lambda>_. t));
                  Some (s\<lparr>timers := m\<rparr>)
                });
            Some (set_heap s (\<lambda>h. h\<lparr>tail := Some t, psize := psize h + 1\<rparr>), 0)
          }
        }
      })"

definition get_shortest_msec :: "clock \<Rightarrow> 'z tstate_scheme \<Rightarrow> ('z tstate_scheme \<times> int) option" where
  "get_shortest_msec clk s = do {
     te \<leftarrow> heap_top s;
     if te = NULL then Some (s, -1)
     else do {
       let (now_msec, s) = get_now_time clk s;
       t \<leftarrow> load (timers s) te;
       let msec = when_msec t - now_msec;
       let msec = (if msec > 2147483647 then 2147483647 else msec);
       Some (s, if msec < 0 then 0 else msec)
     }
   }"

text \<open>
  One turn of the loop of \<^verbatim>\<open>process_time_events\<close>: \<open>Inl\<close> leaves the loop. \<open>call\<close> is what the callback with
  a number does: it may call any function of the program, and returns a value.
\<close>

definition process_turn ::
    "(nat \<Rightarrow> 'z tstate_scheme \<Rightarrow> ptr \<Rightarrow> ('z tstate_scheme \<times> int) option) \<Rightarrow> clock \<Rightarrow> 'z tstate_scheme \<Rightarrow>
     ('z tstate_scheme + 'z tstate_scheme) option" where
  "process_turn call clk s = do {
     te \<leftarrow> heap_top s;
     if te = NULL then Some (Inl s)
     else do {
       let (now_msec, s) = get_now_time clk s;
       t \<leftarrow> load (timers s) te;
       if now_msec < when_msec t then Some (Inl s)
       else do {
         (s, retval) \<leftarrow> call (tcb t) (s\<lparr>trace := trace s @ [(tcb t, tdata t)]\<rparr>) (tdata t);
         if retval \<le> 0 then do {
           (s, _) \<leftarrow> delete_timer s te;
           Some (Inr s)
         } else do {
           let (w, s) = add_millisec_to_now clk s retval;
           m \<leftarrow> modify (timers s) te (when_msec_update (\<lambda>_. w));
           s \<leftarrow> heap_adjust (s\<lparr>timers := m\<rparr>) te;
           Some (Inr s)
         }
       }
     }
   }"

text \<open>The loop: \<open>None\<close> means that it does not end, \<open>Some None\<close> that a turn is undefined.\<close>

partial_function (option) process_loop ::
    "(nat \<Rightarrow> 'z tstate_scheme \<Rightarrow> ptr \<Rightarrow> ('z tstate_scheme \<times> int) option) \<Rightarrow> clock \<Rightarrow> 'z tstate_scheme \<Rightarrow> int \<Rightarrow>
     ('z tstate_scheme \<times> int) option option" where
  "process_loop call clk s processed =
     (case process_turn call clk s of
        None \<Rightarrow> Some None
      | Some (Inl s') \<Rightarrow> Some (Some (s', processed))
      | Some (Inr s') \<Rightarrow> process_loop call clk s' (processed + 1))"

definition process_time_events ::
    "(nat \<Rightarrow> 'z tstate_scheme \<Rightarrow> ptr \<Rightarrow> ('z tstate_scheme \<times> int) option) \<Rightarrow> clock \<Rightarrow> 'z tstate_scheme \<Rightarrow>
     ('z tstate_scheme \<times> int) option option" where
  "process_time_events call clk s = process_loop call clk s 0"

section \<open>What the shifting loops compute\<close>

abbreviation ents :: "'z tstate_scheme \<Rightarrow> ptr list" where "ents s \<equiv> tes (theap s)"

definition key :: "'z tstate_scheme \<Rightarrow> ptr \<Rightarrow> int" where
  "key s p = (case timers s p of None \<Rightarrow> 0 | Some t \<Rightarrow> when_msec t)"

definition live_timer :: "'z tstate_scheme \<Rightarrow> ptr \<Rightarrow> bool" where
  "live_timer s p \<longleftrightarrow> p \<noteq> NULL \<and> timers s p \<noteq> None"

definition at_slot :: "'z tstate_scheme \<Rightarrow> nat \<Rightarrow> ptr \<Rightarrow> bool" where
  "at_slot s j p \<longleftrightarrow> p \<noteq> NULL \<and> (\<exists>t. timers s p = Some t \<and> min_heap_idx t = int j)"

text \<open>
  \<open>slots_ok\<close>: the first \<open>n\<close> entries lead to live timers that know their index. \<open>hole_ok\<close>: this holds
  but for the entry at \<open>i\<close>, where the timer \<open>t\<close> is to go.
\<close>

definition slots_ok :: "'z tstate_scheme \<Rightarrow> nat \<Rightarrow> bool" where
  "slots_ok s n \<longleftrightarrow> n \<le> length (ents s) \<and> (\<forall>j < n. at_slot s j (ents s ! j))"

definition hole_ok :: "'z tstate_scheme \<Rightarrow> nat \<Rightarrow> nat \<Rightarrow> ptr \<Rightarrow> bool" where
  "hole_ok s n i t \<longleftrightarrow> n \<le> length (ents s) \<and> live_timer s t
     \<and> (\<forall>j < n. j \<noteq> i \<longrightarrow> at_slot s j (ents s ! j) \<and> ents s ! j \<noteq> t)"

text \<open>\<open>frame\<close>: only back indices of timers in \<open>T\<close>, and the entries, may have changed.\<close>

definition no_idx :: "timer \<Rightarrow> timer" where "no_idx t = t\<lparr>min_heap_idx := 0\<rparr>"

definition frame :: "'z tstate_scheme \<Rightarrow> 'z tstate_scheme \<Rightarrow> ptr set \<Rightarrow> bool" where
  "frame s s' T \<longleftrightarrow> (\<forall>p. map_option no_idx (timers s' p) = map_option no_idx (timers s p))
     \<and> (\<forall>p. p \<notin> T \<longrightarrow> timers s' p = timers s p) \<and> ticks s' = ticks s \<and> trace s' = trace s
     \<and> (\<exists>es. theap s' = (theap s)\<lparr>tes := es\<rparr>)"

lemma frame_trans:
  assumes "frame s s1 T1" and "frame s1 s2 T2" and "T1 \<subseteq> T" and "T2 \<subseteq> T"
  shows "frame s s2 T"
proof -
  obtain e1 e2 where "theap s1 = (theap s)\<lparr>tes := e1\<rparr>" "theap s2 = (theap s1)\<lparr>tes := e2\<rparr>"
    using assms(1,2) by (auto simp: frame_def)
  then have "\<exists>es. theap s2 = (theap s)\<lparr>tes := es\<rparr>" by (intro exI [of _ e2]) simp
  moreover have "timers s2 p = timers s p" if "p \<notin> T" for p
  proof -
    have "p \<notin> T1" "p \<notin> T2" using that assms(3,4) by auto
    then show ?thesis using assms(1,2) by (simp add: frame_def)
  qed
  ultimately show ?thesis using assms(1,2) by (simp add: frame_def)
qed

lemma frame_mono: "frame s s' T \<Longrightarrow> T \<subseteq> T' \<Longrightarrow> frame s s' T'"
  unfolding frame_def by blast

lemma frame_heap:
  assumes "frame s s' T"
  shows "now (theap s') = now (theap s)" "all_slots (theap s') = all_slots (theap s)"
    "maxsize (theap s') = maxsize (theap s)" "allocs (theap s') = allocs (theap s)"
    "psize (theap s') = psize (theap s)" "head_next (theap s') = head_next (theap s)"
    "tail (theap s') = tail (theap s)" "ticks s' = ticks s" "trace s' = trace s"
  using assms by (auto simp: frame_def)

lemma frame_outside: "frame s s' T \<Longrightarrow> p \<notin> T \<Longrightarrow> timers s' p = timers s p"
  by (simp add: frame_def)

lemma frame_timer:
  assumes "frame s s' T" and "timers s p = Some t"
  obtains i where "timers s' p = Some (t\<lparr>min_heap_idx := i\<rparr>)"
proof -
  have "map_option no_idx (timers s' p) = map_option no_idx (timers s p)"
    using assms(1) unfolding frame_def by blast
  then obtain t' where t': "timers s' p = Some t'" "no_idx t' = no_idx t" using assms(2) by auto
  then have "t' = t\<lparr>min_heap_idx := min_heap_idx t'\<rparr>" by (cases t, cases t') (simp add: no_idx_def)
  then show thesis using that t'(1) by metis
qed

lemma frame_none: "frame s s' T \<Longrightarrow> timers s' p = None \<longleftrightarrow> timers s p = None"
  unfolding frame_def by (metis option.map_disc_iff)

lemma key_no_idx: "key s p = (case map_option no_idx (timers s p) of None \<Rightarrow> 0 | Some t \<Rightarrow> when_msec t)"
  by (simp add: key_def no_idx_def split: option.splits)

lemma frame_key: "frame s s' T \<Longrightarrow> key s' = key s"
  by (simp add: frame_def key_no_idx fun_eq_iff)

lemma frame_live: "frame s s' T \<Longrightarrow> live_timer s' p = live_timer s p"
  by (simp add: live_timer_def frame_none)

lemma elem_greater_key:
  "live_timer s a \<Longrightarrow> live_timer s b \<Longrightarrow> elem_greater s a b = Some (key s a > key s b)"
  by (auto simp: elem_greater_def key_def live_timer_def)

lemma at_slot_live: "at_slot s j p \<Longrightarrow> live_timer s p"
  by (auto simp: at_slot_def live_timer_def)

lemma tes_at_nat [simp]: "i < length (ents s) \<Longrightarrow> tes_at s (int i) = Some (ents s ! i)"
  by (simp add: tes_at_def)

definition placed :: "'z tstate_scheme \<Rightarrow> nat \<Rightarrow> ptr \<Rightarrow> 'z tstate_scheme" where
  "placed s i p = s\<lparr>timers := (timers s)(p := map_option (min_heap_idx_update (\<lambda>_. int i)) (timers s p)),
     theap := (theap s)\<lparr>tes := (ents s)[i := p]\<rparr>\<rparr>"

lemma place_placed: "i < length (ents s) \<Longrightarrow> live_timer s p \<Longrightarrow> place s (int i) p = Some (placed s i p)"
  by (auto simp: place_def placed_def live_timer_def)

lemma placed_simps [simp]:
  "ents (placed s i p) = (ents s)[i := p]" "now (theap (placed s i p)) = now (theap s)"
  by (simp_all add: placed_def)

lemma placed_frame: "frame s (placed s i p) {p}"
  unfolding frame_def placed_def by (cases "timers s p") (auto simp: no_idx_def)

lemma placed_at_slot:
  "live_timer s p \<Longrightarrow> at_slot (placed s i p) i p"
  "q \<noteq> p \<Longrightarrow> at_slot (placed s i p) j q = at_slot s j q"
  by (auto simp: at_slot_def placed_def live_timer_def)

text \<open>Moving the entry of slot \<open>k\<close> into the hole makes \<open>k\<close> the hole; placing \<open>t\<close> fills it.\<close>

lemma hole_move:
  assumes "hole_ok s n i t" and "i < n" and "k < n" and "k \<noteq> i"
  shows "hole_ok (placed s i (ents s ! k)) n k t"
proof -
  let ?p = "ents s ! k"
  have k: "at_slot s k ?p" "?p \<noteq> t" "n \<le> length (ents s)" "live_timer s t"
    using assms by (auto simp: hole_ok_def)
  have "at_slot (placed s i ?p) j (ents (placed s i ?p) ! j) \<and> ents (placed s i ?p) ! j \<noteq> t"
    if "j < n" "j \<noteq> k" for j
  proof (cases "j = i")
    case True
    then show ?thesis using k assms(2) placed_at_slot(1) [OF at_slot_live [OF k(1)]] by simp
  next
    case False
    then have j: "at_slot s j (ents s ! j)" "ents s ! j \<noteq> t" using assms(1) that by (auto simp: hole_ok_def)
    then have "ents s ! j \<noteq> ?p" using k(1) that(2) by (auto simp: at_slot_def)
    then show ?thesis using j False by (simp add: placed_at_slot(2))
  qed
  then show ?thesis using k by (simp add: hole_ok_def frame_live [OF placed_frame])
qed

lemma hole_fill:
  assumes "hole_ok s n i t" and "i < n"
  shows "slots_ok (placed s i t) n"
  using assms unfolding slots_ok_def hole_ok_def
  by (auto simp: nth_list_update placed_at_slot)

lemma par_int: "0 < i \<Longrightarrow> (int i - 1) sdiv 2 = int (par i)"
  by (simp add: sdiv_two par_def zdiv_int of_nat_diff)

lemma shift_up_sift:
  assumes "hole_ok s n i t" and "i < n"
  shows "\<exists>s'. shift_up s (int i) t = Some s' \<and> ents s' = sift_up (key s) (ents s) i t
    \<and> slots_ok s' n \<and> frame s s' (insert t (set (take i (ents s))))"
  using assms
proof (induction "key s" "ents s" i t arbitrary: s rule: sift_up.induct)
  case (1 i t)
  have len: "n \<le> length (ents s)" and t: "live_timer s t" using "1.prems" by (auto simp: hole_ok_def)
  have fill: "place s (int i) t = Some (placed s i t)" "slots_ok (placed s i t) n"
      "frame s (placed s i t) (insert t (set (take i (ents s))))"
    using "1.prems" len t place_placed [of i s t] hole_fill placed_frame [of s i t]
    by (auto simp: frame_def)
  show ?case
  proof (cases "i = 0")
    case True
    then show ?thesis using fill by (subst shift_up.simps, subst sift_up.simps) simp
  next
    case False
    let ?k = "par i" and ?p = "ents s ! par i"
    have k: "?k < n" "?k \<noteq> i" "?k < i" using False "1.prems"(2) par_less [of i] by linarith+
    have p: "live_timer s ?p" using "1.prems"(1) k by (auto simp: hole_ok_def intro: at_slot_live)
    have greater: "greater_at s (int ?k) t = Some (key s ?p > key s t)"
      using elem_greater_key [OF p t] k len by (simp add: greater_at_def)
    show ?thesis
    proof (cases "key s ?p > key s t")
      case True
      let ?s = "placed s i ?p"
      have keys: "key ?s = key s" using frame_key [OF placed_frame] .
      have cond: "0 < i \<and> key s ?p > key s t" using False True by simp
      have "\<exists>s'. shift_up ?s (int ?k) t = Some s' \<and> ents s' = sift_up (key ?s) (ents ?s) ?k t
          \<and> slots_ok s' n \<and> frame ?s s' (insert t (set (take ?k (ents ?s))))"
        by (rule "1.hyps" [OF cond _ _ hole_move [OF "1.prems" k(1,2)] k(1)]) (simp_all add: keys)
      then obtain s' where s': "shift_up ?s (int ?k) t = Some s'"
          "ents s' = sift_up (key ?s) (ents ?s) ?k t" "slots_ok s' n"
          "frame ?s s' (insert t (set (take ?k (ents ?s))))"
        by blast
      have "?p \<in> set (take i (ents s))" using k len "1.prems"(2) by (auto simp: in_set_conv_nth)
      moreover have "set (take ?k (ents ?s)) \<subseteq> set (take i (ents s))"
        using k(3) set_take_subset_set_take [of ?k i "ents s"] by simp
      ultimately have "frame s s' (insert t (set (take i (ents s))))"
        by (intro frame_trans [OF placed_frame s'(4)]) auto
      moreover have "shift_up s (int i) t = shift_up ?s (int ?k) t"
        using False True greater par_int [of i] place_placed [OF _ p, of i] "1.prems"(2) k len
        by (subst shift_up.simps) simp
      moreover have "sift_up (key s) (ents s) i t = sift_up (key s) (ents ?s) ?k t"
        using False True by (subst sift_up.simps) simp
      ultimately show ?thesis using s' keys by auto
    next
      case less: False
      have "shift_up s (int i) t = place s (int i) t"
        using False less greater par_int [of i] by (subst shift_up.simps) simp
      moreover have "sift_up (key s) (ents s) i t = (ents s)[i := t]"
        using less by (subst sift_up.simps) simp
      ultimately show ?thesis using fill by simp
    qed
  qed
qed

lemma hole_live: "hole_ok s n i t \<Longrightarrow> j < n \<Longrightarrow> j \<noteq> i \<Longrightarrow> live_timer s (ents s ! j)"
  using at_slot_live unfolding hole_ok_def by blast

lemma smaller_child_min:
  assumes "hole_ok s n i t" and "now (theap s) = int n" and "2 * (i + 1) \<le> n"
  shows "smaller_child s (2 * (int i + 1)) = Some (int (min_child (key s) n (ents s) i))"
proof -
  have c: "2 * (int i + 1) = int (2 * (i + 1))" "2 * (int i + 1) - 1 = int (2 * (i + 1) - 1)" by simp_all
  show ?thesis
  proof (cases "2 * (i + 1) = n")
    case True
    then show ?thesis using assms(2) c by (simp add: smaller_child_def min_child_def Let_def)
  next
    case False
    then have less: "2 * (i + 1) < n" "2 * (i + 1) - 1 < n" "n \<le> length (ents s)"
      using assms by (auto simp: hole_ok_def)
    have "live_timer s (ents s ! (2 * (i + 1)))" "live_timer s (ents s ! (2 * (i + 1) - 1))"
      using hole_live [OF assms(1)] less by simp_all
    then have "elem_greater s (ents s ! (2 * (i + 1))) (ents s ! (2 * (i + 1) - 1)) =
        Some (key s (ents s ! (2 * (i + 1))) > key s (ents s ! (2 * (i + 1) - 1)))"
      by (rule elem_greater_key)
    moreover have "tes_at s (2 * (int i + 1)) = Some (ents s ! (2 * (i + 1)))"
      unfolding c(1) using less by (intro tes_at_nat) simp
    moreover have "tes_at s (2 * (int i + 1) - 1) = Some (ents s ! (2 * (i + 1) - 1))"
      unfolding c(2) using less by (intro tes_at_nat) simp
    moreover have "2 * (int i + 1) \<noteq> now (theap s)" using False assms(2) by presburger
    ultimately show ?thesis using False
      by (simp add: smaller_child_def min_child_def Let_def)
  qed
qed

lemma i32_small: "0 \<le> x \<Longrightarrow> x < 2 ^ 31 \<Longrightarrow> i32 x = Some x"
  by (simp add: i32_def)

text \<open>The bound keeps \<^verbatim>\<open>2 * (hole_index + 1)\<close> within 32 bits.\<close>

lemma shift_down_sift:
  assumes "hole_ok s n i t" and "i < n" and "now (theap s) = int n" and "n < 2 ^ 29"
  shows "\<exists>s'. shift_down s (int i) t = Some s' \<and> ents s' = sift_down (key s) n (ents s) i t
    \<and> slots_ok s' n \<and> frame s s' (insert t (set (take n (ents s))))"
  using assms
proof (induction "key s" n "ents s" i t arbitrary: s rule: sift_down.induct)
  case (1 n i t)
  have len: "n \<le> length (ents s)" and t: "live_timer s t" using "1.prems" by (auto simp: hole_ok_def)
  have fill: "place s (int i) t = Some (placed s i t)" "slots_ok (placed s i t) n"
      "frame s (placed s i t) (insert t (set (take n (ents s))))"
    using "1.prems" len t place_placed [of i s t] hole_fill placed_frame [of s i t]
    by (auto simp: frame_def)
  have c: "i32 (2 * (int i + 1)) = Some (2 * (int i + 1))"
    using "1.prems"(2,4) by (intro i32_small) auto
  show ?case
  proof (cases "2 * (i + 1) \<le> n")
    case False
    then have "shift_down s (int i) t = place s (int i) t"
      using c "1.prems"(3) by (subst shift_down.simps) simp
    moreover have "sift_down (key s) n (ents s) i t = (ents s)[i := t]"
      using False by (subst sift_down.simps) simp
    ultimately show ?thesis using fill by simp
  next
    case child: True
    let ?k = "min_child (key s) n (ents s) i"
    let ?p = "ents s ! ?k"
    note k = min_child_bounds [OF child, of "key s" "ents s"]
    have p: "live_timer s ?p" using "1.prems"(1) k by (auto simp: hole_ok_def intro: at_slot_live)
    have greater: "elem_greater s t ?p = Some (key s t > key s ?p)"
      using elem_greater_key [OF t p] .
    have turn: "shift_down s (int i) t = (if key s t > key s ?p
        then case place s (int i) ?p of None \<Rightarrow> None | Some s' \<Rightarrow> shift_down s' (int ?k) t
        else place s (int i) t)"
      using c greater smaller_child_min [OF "1.prems"(1,3) child] "1.prems"(3) child k len
      by (subst shift_down.simps) simp
    show ?thesis
    proof (cases "key s t > key s ?p")
      case True
      let ?s = "placed s i ?p"
      have keys: "key ?s = key s" using frame_key [OF placed_frame] .
      have ne: "?k \<noteq> i" using k(1) by simp
      have "\<exists>s'. shift_down ?s (int ?k) t = Some s' \<and> ents s' = sift_down (key ?s) n (ents ?s) ?k t
          \<and> slots_ok s' n \<and> frame ?s s' (insert t (set (take n (ents ?s))))"
        by (rule "1.hyps" [OF conjI [OF child True] _ _ hole_move [OF "1.prems"(1,2) k(2) ne] k(2) _ "1.prems"(4)])
          (simp_all add: keys "1.prems"(3))
      then obtain s' where s': "shift_down ?s (int ?k) t = Some s'"
          "ents s' = sift_down (key ?s) n (ents ?s) ?k t" "slots_ok s' n"
          "frame ?s s' (insert t (set (take n (ents ?s))))"
        by blast
      have p_in: "?p \<in> set (take n (ents s))" using k(2) len by (auto simp: in_set_conv_nth)
      have "set (take n (ents ?s)) \<subseteq> insert ?p (set (take n (ents s)))"
        by (simp add: take_update_swap set_update_subset_insert)
      then have "frame s s' (insert t (set (take n (ents s))))"
        using p_in by (intro frame_trans [OF placed_frame s'(4)]) auto
      moreover have "shift_down s (int i) t = shift_down ?s (int ?k) t"
        using True turn place_placed [OF _ p, of i] "1.prems"(2) len by simp
      moreover have "sift_down (key s) n (ents s) i t = sift_down (key s) n (ents ?s) ?k t"
        using child True by (subst sift_down.simps) simp
      ultimately show ?thesis using s' keys by auto
    next
      case less: False
      have "sift_down (key s) n (ents s) i t = (ents s)[i := t]"
        using less by (subst sift_down.simps) simp
      then show ?thesis using fill turn less by simp
    qed
  qed
qed

text \<open>The choice between the two loops, as \<^verbatim>\<open>_heap_adjust\<close> and \<^verbatim>\<open>_heap_delete\<close> make it.\<close>

lemma sift_state:
  assumes hole: "hole_ok s n i t" and i: "i < n" and "now (theap s) = int n" and "n < 2 ^ 29"
  shows "\<exists>s' up. (if int i > 0 then greater_at s ((int i - 1) sdiv 2) t else Some False) = Some up
    \<and> (if up then shift_up s (int i) t else shift_down s (int i) t) = Some s'
    \<and> ents s' = sift (key s) n (ents s) i t \<and> slots_ok s' n \<and> frame s s' (insert t (set (take n (ents s))))"
proof -
  let ?up = "0 < i \<and> key s (ents s ! par i) > key s t"
  have "(if int i > 0 then greater_at s ((int i - 1) sdiv 2) t else Some False) = Some ?up"
  proof (cases "i = 0")
    case False
    have k: "par i < n" "par i \<noteq> i" using False i par_less [of i] by linarith+
    then have "live_timer s (ents s ! par i)" "live_timer s t" "par i < length (ents s)"
      using hole at_slot_live by (auto simp: hole_ok_def)
    then show ?thesis using elem_greater_key [of s "ents s ! par i" t] False
      by (simp add: greater_at_def par_int)
  qed simp
  moreover have "set (take i (ents s)) \<subseteq> set (take n (ents s))"
    using i by (intro set_take_subset_set_take) simp
  ultimately show ?thesis
    using shift_up_sift [OF hole i] shift_down_sift [OF assms] frame_mono
    by (cases ?up) (auto simp: sift_def intro: frame_mono)
qed

section \<open>The heap operations\<close>

text \<open>\<open>heap_inv s n\<close>: the array holds \<open>n\<close> timers, in heap order.\<close>

definition heap_inv :: "'z tstate_scheme \<Rightarrow> nat \<Rightarrow> bool" where
  "heap_inv s n \<longleftrightarrow> now (theap s) = int n \<and> all_slots (theap s) = int (length (ents s))
     \<and> slots_ok s n \<and> heap_on (key s) n (ents s)"

abbreviation active :: "'z tstate_scheme \<Rightarrow> ptr list" where "active s \<equiv> take (nat (now (theap s))) (ents s)"

text \<open>\<open>wframe\<close>: like \<open>frame\<close>, but the array may have grown and hold more or fewer timers.\<close>

definition wframe :: "'z tstate_scheme \<Rightarrow> 'z tstate_scheme \<Rightarrow> ptr set \<Rightarrow> bool" where
  "wframe s s' T \<longleftrightarrow> (\<forall>p. map_option no_idx (timers s' p) = map_option no_idx (timers s p))
     \<and> (\<forall>p. p \<notin> T \<longrightarrow> timers s' p = timers s p) \<and> ticks s' = ticks s \<and> trace s' = trace s
     \<and> maxsize (theap s') = maxsize (theap s) \<and> allocs (theap s') = allocs (theap s)
     \<and> psize (theap s') = psize (theap s) \<and> head_next (theap s') = head_next (theap s)
     \<and> tail (theap s') = tail (theap s)"

lemma frame_wframe: "frame s s' T \<Longrightarrow> wframe s s' T"
  by (auto simp: frame_def wframe_def)

lemma wframe_trans:
  assumes "wframe s s1 T1" and "wframe s1 s2 T2" and "T1 \<subseteq> T" and "T2 \<subseteq> T"
  shows "wframe s s2 T"
proof -
  have "timers s2 p = timers s p" if "p \<notin> T" for p
  proof -
    have "p \<notin> T1" "p \<notin> T2" using that assms(3,4) by auto
    then show ?thesis using assms(1,2) by (simp add: wframe_def)
  qed
  then show ?thesis using assms(1,2) by (simp add: wframe_def)
qed

lemma wframe_key: "wframe s s' T \<Longrightarrow> key s' = key s"
  by (simp add: wframe_def key_no_idx fun_eq_iff)

lemma slots_nth: "slots_ok s n \<Longrightarrow> j < n \<Longrightarrow> at_slot s j (ents s ! j) \<and> live_timer s (ents s ! j)"
  using at_slot_live by (auto simp: slots_ok_def)

lemma slots_inj: "slots_ok s n \<Longrightarrow> i < n \<Longrightarrow> j < n \<Longrightarrow> ents s ! i = ents s ! j \<Longrightarrow> i = j"
  using slots_nth [of s n i] slots_nth [of s n j] by (auto simp: at_slot_def)

lemma slots_distinct: "slots_ok s n \<Longrightarrow> distinct (take n (ents s))"
  using slots_inj [of s n] by (auto simp: distinct_conv_nth slots_ok_def)

lemma slots_hole: "slots_ok s n \<Longrightarrow> i < n \<Longrightarrow> hole_ok s n i (ents s ! i)"
  using slots_nth [of s n] slots_inj [of s n _ i] unfolding hole_ok_def by (auto simp: slots_ok_def)

lemma slots_le: "slots_ok s n \<Longrightarrow> k \<le> n \<Longrightarrow> slots_ok s k"
  by (simp add: slots_ok_def)

text \<open>Pushing a timer that is not in the heap.\<close>

lemma reserve_ok:
  assumes "heap_inv s n" and "n < 2 ^ 29" and "length (ents s) = n"
  shows "reserve mem s (int n + 1) = (if mem (max (int n * 2) (int n + 1) * 8)
    then Some (set_heap s (\<lambda>h. h\<lparr>tes := ents s @ replicate (nat (max (int n * 2) (int n + 1)) - n) NULL,
      all_slots := max (int n * 2) (int n + 1)\<rparr>), 0)
    else Some (s, -1))"
proof -
  have "i32 (int n * 2) = Some (int n * 2)" using assms(2) by (intro i32_small) auto
  moreover have "all_slots (theap s) = int n" using assms(1,3) by (simp add: heap_inv_def)
  moreover have "(if int n * 2 < int n + 1 then int n + 1 else int n * 2) = max (int n * 2) (int n + 1)"
    by simp
  ultimately show ?thesis using assms(3) by (simp add: reserve_def Let_def)
qed

lemma heap_push_ok:
  assumes inv: "heap_inv s n" and n: "n < 2 ^ 29" and t: "live_timer s t" "t \<notin> set (take n (ents s))"
    and mem: "n < length (ents s) \<or> mem (max (int n * 2) (int n + 1) * 8)"
  obtains s' where "heap_push mem s t = Some (s', 0)" and "heap_inv s' (Suc n)"
    and "mset (active s') = add_mset t (mset (active s))" and "wframe s s' (insert t (set (active s)))"
proof -
  have now: "now (theap s) = int n" and slots: "slots_ok s n" and heap: "heap_on (key s) n (ents s)"
    and len: "n \<le> length (ents s)" and all: "all_slots (theap s) = int (length (ents s))"
    using inv by (auto simp: heap_inv_def slots_ok_def)
  have next_now: "i32 (int n + 1) = Some (int n + 1)" using n by (intro i32_small) auto
  \<comment> \<open>The state in which the array has room.\<close>
  obtain s1 where s1: "(if all_slots (theap s) < int n + 1 then reserve mem s (int n + 1) else Some (s, 0)) = Some (s1, 0)"
      "take n (ents s1) = take n (ents s)" "n < length (ents s1)" "timers s1 = timers s" "wframe s s1 {}"
      "now (theap s1) = int n" "all_slots (theap s1) = int (length (ents s1))"
  proof (cases "n < length (ents s)")
    case True
    then show thesis using that [of s] all now by (simp add: wframe_def)
  next
    case False
    then have full: "length (ents s) = n" and m: "mem (max (int n * 2) (int n + 1) * 8)" using len mem by auto
    show thesis
      by (rule that [of "set_heap s (\<lambda>h. h\<lparr>tes := ents s @ replicate (nat (max (int n * 2) (int n + 1)) - n) NULL,
            all_slots := max (int n * 2) (int n + 1)\<rparr>)"])
        (use full m all now reserve_ok [OF inv n full, of mem] in \<open>auto simp: wframe_def\<close>)
  qed
  have keys: "key s1 = key s" using s1(4) by (simp add: key_def fun_eq_iff)
  have same: "ents s1 ! j = ents s ! j" if "j < n" for j
    using that s1(2) by (metis nth_take)
  have "at_slot s1 j (ents s1 ! j) \<and> ents s1 ! j \<noteq> t" if "j < n" for j
  proof -
    have "ents s ! j \<in> set (take n (ents s))" using that len by (auto simp: in_set_conv_nth)
    then show ?thesis using slots_nth [OF slots that] t(2) same [OF that] s1(4) by (auto simp: at_slot_def)
  qed
  then have hole: "hole_ok s1 (Suc n) n t"
    using t(1) s1(3,4) by (auto simp: hole_ok_def live_timer_def less_Suc_eq)
  obtain s2 where s2: "shift_up s1 (int n) t = Some s2" "ents s2 = sift_up (key s) (ents s1) n t"
      "slots_ok s2 (Suc n)" "frame s1 s2 (insert t (set (take n (ents s1))))"
    using shift_up_sift [OF hole] keys by auto
  have heap1: "heap_on (key s) n (ents s1)" using heap same by (rule heap_on_cong)
  define s' where "s' = set_heap s2 (\<lambda>h. h\<lparr>now := int n + 1\<rparr>)"
  have push: "heap_push mem s t = Some (s', 0)"
    using next_now s1(1,6) s2(1) frame_heap(1) [OF s2(4)] now by (simp add: heap_push_def s'_def)
  have keys2: "key s' = key s"
    using frame_key [OF s2(4)] keys by (simp add: s'_def key_def fun_eq_iff)
  have "heap_inv s' (Suc n)"
    using s2(2,3) heap_push [OF heap1 s1(3)] s1(7) frame_heap(2) [OF s2(4)] keys2
    by (simp add: heap_inv_def s'_def slots_ok_def at_slot_def)
  moreover have "mset (active s') = add_mset t (mset (active s))"
  proof -
    have "mset (take (Suc n) (sift_up (key s) (ents s1) n t)) = mset (take (Suc n) ((ents s1)[n := t]))"
      using s1(3) by (intro sift_up_mset) auto
    also have "take (Suc n) ((ents s1)[n := t]) = take n (ents s) @ [t]"
      using s1(2,3) by (simp add: take_Suc_conv_app_nth)
    finally show ?thesis using s2(2) now by (simp add: s'_def nat_add_distrib)
  qed
  moreover have "wframe s s' (insert t (set (active s)))"
  proof -
    have "wframe s s2 (insert t (set (take n (ents s))))"
      using s1(2) by (intro wframe_trans [OF s1(5) frame_wframe [OF s2(4)]]) auto
    then show ?thesis using now by (simp add: s'_def wframe_def)
  qed
  ultimately show thesis using that push by blast
qed

text \<open>Restoring the order around a timer whose expiry was changed.\<close>

definition set_when :: "'z tstate_scheme \<Rightarrow> ptr \<Rightarrow> int \<Rightarrow> 'z tstate_scheme" where
  "set_when s t w = s\<lparr>timers := (timers s)(t := map_option (when_msec_update (\<lambda>_. w)) (timers s t))\<rparr>"

lemma key_set_when: "timers s t \<noteq> None \<Longrightarrow> key (set_when s t w) = (key s)(t := w)"
  by (auto simp: key_def set_when_def fun_eq_iff)

lemma set_when_slots: "slots_ok (set_when s t w) n = slots_ok s n"
proof -
  have "at_slot (set_when s t w) j p = at_slot s j p" for j p
    by (auto simp: at_slot_def set_when_def)
  then show ?thesis by (simp add: slots_ok_def) (simp add: set_when_def)
qed

lemma heap_adjust_ok:
  assumes inv: "heap_inv s n" and n: "n < 2 ^ 29" and i: "i < n" "ents s ! i = t"
  obtains s' where "heap_adjust (set_when s t w) t = Some s'" and "heap_inv s' n"
    and "mset (active s') = mset (active s)" and "wframe (set_when s t w) s' (set (active s))"
proof -
  have now: "now (theap s) = int n" and slots: "slots_ok s n" and heap: "heap_on (key s) n (ents s)"
    and len: "n \<le> length (ents s)" and all: "all_slots (theap s) = int (length (ents s))"
    using inv by (auto simp: heap_inv_def slots_ok_def)
  let ?s = "set_when s t w"
  have es: "ents ?s = ents s" "theap ?s = theap s" by (simp_all add: set_when_def)
  have slots': "slots_ok ?s n" using slots by (simp add: set_when_slots)
  then have t: "at_slot ?s i t" "live_timer s t" using slots_nth [OF slots' i(1)] slots_nth [OF slots i(1)] i(2) es
    by auto
  have keys: "key ?s = (key s)(t := w)" using t(2) by (intro key_set_when) (simp add: live_timer_def)
  have other: "ents s ! j \<noteq> t" if "j < n" "j \<noteq> i" for j
    using slots_inj [OF slots that(1) i(1)] that(2) i(2) by auto
  have hole: "hole_ok ?s n i t" using slots_hole [OF slots' i(1)] i(2) es by simp
  obtain s' up where s': "(if int i > 0 then greater_at ?s ((int i - 1) sdiv 2) t else Some False) = Some up"
      "(if up then shift_up ?s (int i) t else shift_down ?s (int i) t) = Some s'"
      "ents s' = sift (key ?s) n (ents s) i t" "slots_ok s' n"
      "frame ?s s' (insert t (set (take n (ents s))))"
    using sift_state [OF hole i(1) _ n] now es by auto
  obtain tm where tm: "timers ?s t = Some tm" "min_heap_idx tm = int i" "t \<noteq> NULL"
    using t(1) by (auto simp: at_slot_def)
  have "heap_adjust ?s t = Some s'"
    using tm s'(1,2) by (cases "i = 0"; cases up) (simp_all add: heap_adjust_def Let_def)
  moreover have "heap_on (key ?s) n (sift (key ?s) n (ents s) i t)"
  proof (rule sift_heap [OF i(1) len])
    fix j assume j: "0 < j" "j < n"
    then have pj: "par j < n" using par_less [of j] by linarith
    have ord: "key s (ents s ! par j) \<le> key s (ents s ! j)" using heap j by (simp add: heap_on_def)
    show "key ?s (ents s ! par j) \<le> key ?s (ents s ! j)" if "j \<noteq> i" "par j \<noteq> i"
      using ord other [OF j(2) that(1)] other [OF pj that(2)] by (simp add: keys)
    assume child: "par j = i" "0 < i"
    then have "par i < n" "par i \<noteq> i" "j \<noteq> i" using i(1) par_less [of i] par_less [of j] j by linarith+
    then show "key ?s (ents s ! par i) \<le> key ?s (ents s ! j)"
      using heap_grand [OF heap j child] other [of "par i"] other [of j] j(2) by (simp add: keys)
  qed
  then have "heap_inv s' n"
    using s'(3,4) frame_heap [OF s'(5)] frame_key [OF s'(5)] now all es by (simp add: heap_inv_def sift_def)
  moreover have "mset (active s') = mset (active s)"
    using sift_mset [OF i(1) len, of "key ?s" t] s'(3) frame_heap(1) [OF s'(5)] now es i(2)
    by (metis list_update_id nat_int)
  moreover have "t \<in> set (take n (ents s))" using i len by (auto simp: in_set_conv_nth)
  then have "wframe ?s s' (set (active s))"
    using frame_wframe [OF s'(5)] now by (simp add: insert_absorb)
  ultimately show thesis using that by blast
qed

text \<open>Deleting a timer: it leaves the array, and its back index becomes -1.\<close>

lemma heap_delete_ok:
  assumes inv: "heap_inv s (Suc n)" and n: "Suc n < 2 ^ 29" and i: "i < Suc n" "ents s ! i = t"
  obtains s' where "heap_delete s t = Some s'" and "heap_inv s' n"
    and "add_mset t (mset (active s')) = mset (active s)" and "wframe s s' (set (active s))"
    and "\<exists>tm. timers s' t = Some tm \<and> min_heap_idx tm = -1" and "t \<notin> set (active s')"
    and "length (ents s') = length (ents s)"
proof -
  have now: "now (theap s) = int (Suc n)" and slots: "slots_ok s (Suc n)"
    and heap: "heap_on (key s) (Suc n) (ents s)" and len: "n < length (ents s)"
    and all: "all_slots (theap s) = int (length (ents s))"
    using inv by (auto simp: heap_inv_def slots_ok_def)
  define s1 where "s1 = set_heap s (\<lambda>h. h\<lparr>now := now h - 1\<rparr>)"
  define l where "l = ents s ! n"
  have s1: "ents s1 = ents s" "timers s1 = timers s" "now (theap s1) = int n" "wframe s s1 {}"
      "all_slots (theap s1) = int (length (ents s))" "key s1 = key s"
    using now all by (simp_all add: s1_def wframe_def key_def fun_eq_iff)
  have at: "at_slot s1 j p = at_slot s j p" for j p by (simp add: at_slot_def s1(2))
  have slots1: "slots_ok s1 (Suc n)" using slots by (simp add: slots_ok_def at s1(1))
  have heap1: "heap_on (key s) n (ents s)" using heap by (rule heap_on_le) simp
  obtain tm where tm: "timers s t = Some tm" "min_heap_idx tm = int i" "t \<noteq> NULL"
    using slots_nth [OF slots i(1)] i(2) by (auto simp: at_slot_def)
  have last: "tes_at s1 (int n) = Some l" using len by (simp add: s1(1) l_def)
  \<comment> \<open>The state after the shifting, before the back index is cleared.\<close>
  obtain s2 up where up: "(if int i > 0 then greater_at s1 ((int i - 1) sdiv 2) l else Some False) = Some up"
      "(if up then shift_up s1 (int i) l else shift_down s1 (int i) l) = Some s2"
    and s2: "slots_ok s2 n" "heap_on (key s) n (ents s2)" "length (ents s2) = length (ents s)"
      "add_mset t (mset (take n (ents s2))) = mset (take (Suc n) (ents s))"
      "frame s1 s2 (set (take (Suc n) (ents s)))"
  proof (cases "i = n")
    case True
    then have l: "l = t" using i(2) by (simp add: l_def)
    have "i32 (2 * (int n + 1)) = Some (2 * (int n + 1))" using n by (intro i32_small) auto
    then have down: "shift_down s1 (int i) l = Some (placed s1 n t)"
      using True l s1 len tm place_placed [of n s1 t]
      by (subst shift_down.simps) (simp add: live_timer_def)
    have "(if int i > 0 then greater_at s1 ((int i - 1) sdiv 2) l else Some False) = Some False"
    proof (cases "i = 0")
      case False
      then have k: "par i < Suc n" using i(1) par_less [of i] by linarith
      have "live_timer s1 (ents s ! par i)" "live_timer s1 l"
        using slots_nth [OF slots1 k] slots_nth [OF slots1 i(1)] by (simp_all add: s1(1) i(2) l)
      moreover have "key s (ents s ! par i) \<le> key s (ents s ! i)"
        using heap False i(1) by (simp add: heap_on_def)
      ultimately show ?thesis using False k len elem_greater_key [of s1 "ents s ! par i" l]
        by (simp add: greater_at_def par_int s1 l i(2))
    qed simp
    moreover have "ents (placed s1 n t) = ents s"
      using True i(2) s1(1) list_update_id [of "ents s" n] by simp
    moreover have "slots_ok (placed s1 n t) n"
    proof -
      have "at_slot (placed s1 n t) j (ents s ! j)" if "j < n" for j
      proof -
        have "ents s ! j \<noteq> t" using slots_inj [OF slots, of j n] that True i(2) by auto
        then show ?thesis using slots_nth [OF slots1, of j] that by (simp add: placed_at_slot(2) s1(1))
      qed
      then show ?thesis using len calculation(2) by (simp add: slots_ok_def del: placed_simps)
    qed
    moreover have "t \<in> set (take (Suc n) (ents s))" using i len by (auto simp: in_set_conv_nth)
    then have "frame s1 (placed s1 n t) (set (take (Suc n) (ents s)))"
      using placed_frame [of s1 n t] by (rule_tac frame_mono) auto
    moreover have "take (Suc n) (ents s) = take n (ents s) @ [t]"
      using True i(2) len by (simp add: take_Suc_conv_app_nth)
    ultimately show thesis using that [of False "placed s1 n t"] down heap1 by simp
  next
    case False
    then have i': "i < n" using i(1) by simp
    have far: "ents s ! j \<noteq> l" if "j < n" for j
      using slots_inj [OF slots, of j n] that by (auto simp: l_def)
    then have hole: "hole_ok s1 n i l"
      using slots_nth [OF slots1] len by (auto simp: hole_ok_def s1(1) l_def)
    obtain s2 up where s2: "(if int i > 0 then greater_at s1 ((int i - 1) sdiv 2) l else Some False) = Some up"
        "(if up then shift_up s1 (int i) l else shift_down s1 (int i) l) = Some s2"
        "ents s2 = sift (key s) n (ents s) i l" "slots_ok s2 n"
        "frame s1 s2 (insert l (set (take n (ents s))))"
      using sift_state [OF hole i' s1(3)] n s1 by auto
    have "heap_on (key s) n (sift (key s) n (ents s) i l)"
      using heap1 heap_grand [OF heap1] len i' by (intro sift_heap) (auto simp: heap_on_def)
    moreover have all_n: "take (Suc n) (ents s) = take n (ents s) @ [l]"
      using len by (simp add: take_Suc_conv_app_nth l_def)
    moreover have "add_mset t (mset (take n (ents s2))) = mset (take (Suc n) (ents s))"
    proof -
      have "mset (take n (ents s2)) = mset ((take n (ents s))[i := l])"
        using sift_mset [OF i', of "ents s"] len by (simp add: s2(3) take_update_swap)
      also have "\<dots> = add_mset l (mset (take n (ents s)) - {#t#})"
        using i' i(2) len by (simp add: mset_update)
      finally show ?thesis
        using all_n i' i(2) len nth_mem_mset [of i "take n (ents s)"] by (simp add: insert_DiffM)
    qed
    moreover have "frame s1 s2 (set (take (Suc n) (ents s)))" using s2(5) all_n by simp
    ultimately show thesis using that [of up s2] s2 by (simp add: sift_def)
  qed
  define s' where "s' = s2\<lparr>timers := (timers s2)(t := map_option (min_heap_idx_update (\<lambda>_. -1)) (timers s2 t))\<rparr>"
  obtain tm2 where tm2: "timers s2 t = Some (tm\<lparr>min_heap_idx := tm2\<rparr>)"
    using frame_timer [OF s2(5)] tm(1) s1(2) by metis
  have "heap_delete s t = Some s'"
    using last tm up tm2 s1(2,3)
    by (cases "i = 0"; cases up) (simp_all add: heap_delete_def Let_def s1_def [symmetric] s'_def)
  moreover have gone: "t \<notin> set (take n (ents s2))"
    using slots_distinct [OF slots] s2(4)
      mset_eq_imp_distinct_iff [of "t # take n (ents s2)" "take (Suc n) (ents s)"] by simp
  moreover have "heap_inv s' n"
  proof -
    have "at_slot s' j (ents s2 ! j)" if "j < n" for j
    proof -
      have "ents s2 ! j \<in> set (take n (ents s2))" using that len s2(3) by (auto simp: in_set_conv_nth)
      then have "ents s2 ! j \<noteq> t" using gone by auto
      then show ?thesis using slots_nth [OF s2(1) that] by (simp add: at_slot_def s'_def)
    qed
    moreover have "key s' = key s2" by (auto simp: key_def s'_def fun_eq_iff split: option.splits)
    ultimately show ?thesis
      using s2(1,2,3) frame_heap [OF s2(5)] frame_key [OF s2(5)] s1
      by (simp add: heap_inv_def slots_ok_def) (simp add: s'_def)
  qed
  moreover have now': "now (theap s') = int n" using frame_heap(1) [OF s2(5)] s1(3) by (simp add: s'_def)
  moreover have "add_mset t (mset (active s')) = mset (active s)"
    using s2(4) now' now by (simp add: s'_def nat_add_distrib)
  moreover have "wframe s s' (set (active s))"
  proof -
    have t: "t \<in> set (take (Suc n) (ents s))" using i len by (auto simp: in_set_conv_nth)
    have "wframe s s2 (set (take (Suc n) (ents s)))"
      by (intro wframe_trans [OF s1(4) frame_wframe [OF s2(5)]]) auto
    moreover have "wframe s2 s' {t}"
      using tm2 by (auto simp: wframe_def s'_def no_idx_def)
    ultimately have "wframe s s' (set (take (Suc n) (ents s)))"
      by (rule wframe_trans) (use t in auto)
    then show ?thesis by (simp only: now nat_int)
  qed
  moreover have "\<exists>tm. timers s' t = Some tm \<and> min_heap_idx tm = -1" using tm2 by (simp add: s'_def)
  moreover have "t \<notin> set (active s')" using gone now' by (simp add: s'_def)
  moreover have "length (ents s') = length (ents s)" using s2(3) by (simp add: s'_def)
  ultimately show thesis using that by blast
qed

end
