(* ===== verification/Event.thy ===== *)
theory Event
  imports Timer
begin

text \<open>
  The event loop of \<^verbatim>\<open>kznet/event.c\<close>: the table of events by file descriptor, their registration, and
  the dispatch of ready descriptors and expired timers.

  The record \<open>eloop\<close> is \<^verbatim>\<open>struct event_loop\<close> with the timers behind its pointer \<^verbatim>\<open>timers\<close>; its field
  \<open>poller\<close> is the structure of the back end (\<^verbatim>\<open>kznet/poller.c\<close>), whose operations the definitions here
  take as arguments. Masks are 32-bit words; a callback is a number, 0 for a null pointer, and the
  argument \<open>fire\<close> says what callbacks do to the loop. \<open>etrace\<close> is not in the code: it records the calls
  of event callbacks. \<open>None\<close> is undefined behaviour, a failed assertion, or a call that never returns.
\<close>

unbundle bit_operations_syntax

record ev_event =
  evmask :: u32
  evdata :: ptr
  evread :: nat
  evwrite :: nat

record ev_active =
  afd :: int
  aevent :: u32

record 'p eloop = tstate +
  maxfd :: int
  setsize :: int
  events :: "ev_event list"
  actives :: "ev_active list"
  poller :: 'p
  stop :: bool
  etrace :: "(nat \<times> int \<times> ptr) list"

text \<open>\<^verbatim>\<open>EV_NONE\<close>, \<^verbatim>\<open>EV_RDABLE\<close>, \<^verbatim>\<open>EV_WRABLE\<close>\<close>

definition EV_NONE :: u32 where "EV_NONE = 0"

definition EV_RDABLE :: u32 where "EV_RDABLE = 1"

definition EV_WRABLE :: u32 where "EV_WRABLE = 2"

text \<open>\<^verbatim>\<open>loop->events[fd]\<close>\<close>

definition event_at :: "('p, 'z) eloop_scheme \<Rightarrow> int \<Rightarrow> ev_event option" where
  [mem_defs]: "event_at l fd = (if fd < 0 then None else aload (events l) (nat fd))"

definition set_event :: "('p, 'z) eloop_scheme \<Rightarrow> int \<Rightarrow> ev_event \<Rightarrow> ('p, 'z) eloop_scheme option" where
  [mem_defs]: "set_event l fd ev =
     (if fd < 0 then None
      else do { evs \<leftarrow> astore (events l) (nat fd) ev; Some (l\<lparr>events := evs\<rparr>) })"

section \<open>Creation\<close>

text \<open>
  The argument \<open>mem\<close> says which requests are served (by size, a \<^verbatim>\<open>size_t\<close>); \<open>pnew\<close> is the result of
  \<^verbatim>\<open>poller_create\<close>, \<open>None\<close> for -1; \<open>junk\<close> is the content of fresh memory. On the error paths everything
  allocated before is freed, and the result is the null pointer.
\<close>

definition event_loop_create ::
    "(int \<Rightarrow> bool) \<Rightarrow> 'p option \<Rightarrow> (nat \<Rightarrow> ev_event) \<Rightarrow> (nat \<Rightarrow> ev_active) \<Rightarrow> int \<Rightarrow> int \<Rightarrow> 'p eloop option" where
  "event_loop_create mem pnew junk junka maxevents maxtimers =
     (if \<not> mem 48 then None
      else case timer_heap_create mem maxtimers of
        None \<Rightarrow> None
      | Some h \<Rightarrow>
          if \<not> mem ((32 * maxevents) mod 2 ^ 64) \<or> \<not> mem ((8 * maxevents) mod 2 ^ 64) then None
          else case pnew of
            None \<Rightarrow> None
          | Some p \<Rightarrow> Some \<lparr>timers = Map.empty, theap = h, ticks = 0, trace = [],
              maxfd = -1, setsize = maxevents,
              events = map (\<lambda>i. (junk i)\<lparr>evmask := EV_NONE\<rparr>) [0..<nat maxevents],
              actives = map junka [0..<nat maxevents], poller = p, stop = False, etrace = []\<rparr>)"

text \<open>What is left of the timer structures; the rest is freed.\<close>

definition event_loop_delete :: "('p, 'z) eloop_scheme \<Rightarrow> (ptr \<rightharpoonup> timer) option" where
  "event_loop_delete l = timer_heap_delete l"

section \<open>Registration\<close>

definition create_event ::
    "(('p, 'z) eloop_scheme \<Rightarrow> int \<Rightarrow> u32 \<Rightarrow> (('p, 'z) eloop_scheme \<times> int) option) \<Rightarrow> ('p, 'z) eloop_scheme \<Rightarrow> int \<Rightarrow> u32 \<Rightarrow> nat \<Rightarrow> ptr \<Rightarrow>
     (('p, 'z) eloop_scheme \<times> int) option" where
  "create_event addevent l fd event cb data =
     (if cb = 0 then None
      else if fd < 1 \<or> fd \<ge> setsize l then Some (l, -1)
      else do {
        (l, r) \<leftarrow> addevent l fd event;
        if r \<noteq> 0 then Some (l, -1)
        else do {
          ev \<leftarrow> event_at l fd;
          let ev = ev\<lparr>evmask := evmask ev OR event\<rparr>;
          let ev = (if event AND EV_RDABLE \<noteq> 0 then ev\<lparr>evread := cb\<rparr> else ev);
          let ev = (if event AND EV_WRABLE \<noteq> 0 then ev\<lparr>evwrite := cb\<rparr> else ev);
          let ev = ev\<lparr>evdata := data\<rparr>;
          l \<leftarrow> set_event l fd ev;
          Some (if fd > maxfd l then l\<lparr>maxfd := fd\<rparr> else l, 0)
        }
      })"

text \<open>The loop of \<^verbatim>\<open>delete_event\<close> over \<^verbatim>\<open>j\<close> = \<open>j - 1\<close>, ..., 0, with the current \<^verbatim>\<open>maxfd\<close>.\<close>

fun maxfd_loop :: "ev_event list \<Rightarrow> nat \<Rightarrow> int \<Rightarrow> int option" where
  "maxfd_loop evs 0 m = Some m"
| "maxfd_loop evs (Suc j) m = do {
     ev \<leftarrow> aload evs j;
     if evmask ev \<noteq> EV_NONE then Some m else maxfd_loop evs j (int j)
   }"

definition delete_event ::
    "(('p, 'z) eloop_scheme \<Rightarrow> int \<Rightarrow> u32 \<Rightarrow> (('p, 'z) eloop_scheme \<times> int) option) \<Rightarrow> ('p, 'z) eloop_scheme \<Rightarrow> int \<Rightarrow> u32 \<Rightarrow>
     (('p, 'z) eloop_scheme \<times> int) option" where
  "delete_event delevent l fd event =
     (if fd \<ge> setsize l then Some (l, -1)
      else do {
        ev \<leftarrow> event_at l fd;
        if evmask ev = EV_NONE then Some (l, 0)
        else do {
          (l, r) \<leftarrow> delevent l fd event;
          if r \<noteq> 0 then Some (l, -1)
          else do {
            ev \<leftarrow> event_at l fd;
            let ev = ev\<lparr>evmask := evmask ev AND NOT event\<rparr>;
            l \<leftarrow> set_event l fd ev;
            if fd = maxfd l \<and> evmask ev = EV_NONE then do {
              m \<leftarrow> maxfd_loop (events l) (nat (maxfd l)) (maxfd l);
              Some (l\<lparr>maxfd := m\<rparr>, 0)
            } else Some (l, 0)
          }
        }
      })"

definition query_event :: "('p, 'z) eloop_scheme \<Rightarrow> int \<Rightarrow> u32 option" where
  "query_event l fd =
     (if fd \<ge> setsize l then Some EV_NONE else map_option evmask (event_at l fd))"

section \<open>Dispatch\<close>

text \<open>A call of a callback, for a descriptor and the data registered with it.\<close>

definition fire_event ::
    "(nat \<Rightarrow> ('p, 'z) eloop_scheme \<Rightarrow> int \<Rightarrow> ptr \<Rightarrow> ('p, 'z) eloop_scheme option) \<Rightarrow> nat \<Rightarrow> ('p, 'z) eloop_scheme \<Rightarrow> int \<Rightarrow> ptr \<Rightarrow> ('p, 'z) eloop_scheme option" where
  "fire_event fire cb l fd data =
     (if cb = 0 then None else fire cb (l\<lparr>etrace := etrace l @ [(cb, fd, data)]\<rparr>) fd data)"

text \<open>The loop over the \<open>n\<close> entries of \<^verbatim>\<open>actives\<close> from index \<open>j\<close> on.\<close>

fun dispatch ::
    "(nat \<Rightarrow> ('p, 'z) eloop_scheme \<Rightarrow> int \<Rightarrow> ptr \<Rightarrow> ('p, 'z) eloop_scheme option) \<Rightarrow> nat \<Rightarrow> nat \<Rightarrow> ('p, 'z) eloop_scheme \<Rightarrow> int \<Rightarrow>
     (('p, 'z) eloop_scheme \<times> int) option" where
  "dispatch fire 0 j l processed = Some (l, processed)"
| "dispatch fire (Suc n) j l processed = do {
     a \<leftarrow> aload (actives l) j;
     let fd = afd a; let event = aevent a;
     ev \<leftarrow> event_at l fd;
     l \<leftarrow> (if evmask ev AND event AND EV_RDABLE \<noteq> 0 then fire_event fire (evread ev) l fd (evdata ev)
       else Some l);
     ev \<leftarrow> event_at l fd;
     l \<leftarrow> (if evmask ev AND event AND EV_WRABLE \<noteq> 0 then fire_event fire (evwrite ev) l fd (evdata ev)
       else Some l);
     dispatch fire n (Suc j) l (processed + 1)
   }"

definition process_events ::
    "(('p, 'z) eloop_scheme \<Rightarrow> int \<Rightarrow> (('p, 'z) eloop_scheme \<times> int) option) \<Rightarrow> (nat \<Rightarrow> ('p, 'z) eloop_scheme \<Rightarrow> int \<Rightarrow> ptr \<Rightarrow> ('p, 'z) eloop_scheme option) \<Rightarrow>
     (nat \<Rightarrow> ('p, 'z) eloop_scheme \<Rightarrow> ptr \<Rightarrow> (('p, 'z) eloop_scheme \<times> int) option) \<Rightarrow> clock \<Rightarrow> ('p, 'z) eloop_scheme \<Rightarrow>
     (('p, 'z) eloop_scheme \<times> int) option" where
  "process_events poll fire call clk l = do {
     (l, timeout) \<leftarrow> get_shortest_msec clk l;
     (l, numevents) \<leftarrow> poll l timeout;
     (l, processed) \<leftarrow> dispatch fire (nat numevents) 0 l 0;
     r \<leftarrow> process_time_events call clk l;
     (l, n) \<leftarrow> r;
     Some (l, processed + n)
   }"

partial_function (option) run_loop :: "(('p, 'z) eloop_scheme \<Rightarrow> (('p, 'z) eloop_scheme \<times> int) option) \<Rightarrow> ('p, 'z) eloop_scheme \<Rightarrow> ('p, 'z) eloop_scheme option" where
  "run_loop turn l =
     (if stop l then Some l
      else do { (l, _) \<leftarrow> turn l; run_loop turn l })"

definition event_loop_start :: "(('p, 'z) eloop_scheme \<Rightarrow> (('p, 'z) eloop_scheme \<times> int) option) \<Rightarrow> ('p, 'z) eloop_scheme \<Rightarrow> ('p, 'z) eloop_scheme option" where
  "event_loop_start turn l = run_loop turn (l\<lparr>stop := False\<rparr>)"

definition event_loop_stop :: "('p, 'z) eloop_scheme \<Rightarrow> ('p, 'z) eloop_scheme" where
  "event_loop_stop l = l\<lparr>stop := True\<rparr>"

end
