(* ===== verification/Poller.thy ===== *)
theory Poller
  imports Event
begin

text \<open>
  The two back ends of \<^verbatim>\<open>kznet/poller.c\<close>, one on \<^verbatim>\<open>epoll\<close> and one on \<^verbatim>\<open>select\<close>, which the build selects.

  The kernel is a parameter: for \<^verbatim>\<open>epoll\<close> a state \<open>kern\<close> with the system calls \<open>ctl\<close> (\<^verbatim>\<open>epoll_ctl\<close>) and
  \<open>wait\<close> (\<^verbatim>\<open>epoll_wait\<close>: the number returned and the entries stored), for \<^verbatim>\<open>select\<close> the function \<open>sel\<close>
  of the number of descriptors, the two sets and the timeout in seconds and microseconds, with the
  number returned and the sets it leaves. An \<^verbatim>\<open>fd_set\<close> is a set of descriptors below \<^verbatim>\<open>FD_SETSIZE\<close>.
\<close>

unbundle bit_operations_syntax

section \<open>The back end on epoll\<close>

datatype ctl_op = CTL_ADD | CTL_MOD | CTL_DEL

record 'k epoll =
  epfd :: int
  kern :: 'k

type_synonym 'k epoll_ctl = "'k \<Rightarrow> ctl_op \<Rightarrow> int \<Rightarrow> u32 \<Rightarrow> 'k \<times> int"

type_synonym 'k epoll_wait = "'k \<Rightarrow> int \<Rightarrow> int \<Rightarrow> 'k \<times> int \<times> (u32 \<times> int) list"

definition EPOLLIN :: u32 where "EPOLLIN = 1"

definition EPOLLOUT :: u32 where "EPOLLOUT = 4"

definition EPOLLERR :: u32 where "EPOLLERR = 8"

definition EPOLLHUP :: u32 where "EPOLLHUP = 16"

text \<open>\<open>created\<close> is what \<^verbatim>\<open>epoll_create\<close> returns; the result \<open>None\<close> is -1, after everything is freed.\<close>

definition epoll_create ::
    "(int \<Rightarrow> bool) \<Rightarrow> int \<Rightarrow> 'k \<Rightarrow> int \<Rightarrow> 'k epoll option" where
  "epoll_create mem created k maxevents =
     (if \<not> mem 16 then None
      else if \<not> mem ((12 * maxevents) mod 2 ^ 64) then None
      else if created = -1 then None
      else Some \<lparr>epfd = created, kern = k\<rparr>)"

definition to_epoll :: "u32 \<Rightarrow> u32" where
  "to_epoll event =
     (if event AND EV_RDABLE \<noteq> 0 then EPOLLIN else 0) OR (if event AND EV_WRABLE \<noteq> 0 then EPOLLOUT else 0)"

definition epoll_ctl_call ::
    "'k epoll_ctl \<Rightarrow> ('k epoll, 'z) eloop_scheme \<Rightarrow> ctl_op \<Rightarrow> int \<Rightarrow> u32 \<Rightarrow> ('k epoll, 'z) eloop_scheme \<times> int" where
  "epoll_ctl_call ctl l op fd ee =
     (let (k, r) = ctl (kern (poller l)) op fd ee in (l\<lparr>poller := (poller l)\<lparr>kern := k\<rparr>\<rparr>, r))"

definition epoll_addevent ::
    "'k epoll_ctl \<Rightarrow> ('k epoll, 'z) eloop_scheme \<Rightarrow> int \<Rightarrow> u32 \<Rightarrow> (('k epoll, 'z) eloop_scheme \<times> int) option" where
  "epoll_addevent ctl l fd event = do {
     ev \<leftarrow> event_at l fd;
     let op = (if evmask ev = EV_NONE then CTL_ADD else CTL_MOD);
     Some (epoll_ctl_call ctl l op fd (to_epoll (event OR evmask ev)))
   }"

definition epoll_delevent ::
    "'k epoll_ctl \<Rightarrow> ('k epoll, 'z) eloop_scheme \<Rightarrow> int \<Rightarrow> u32 \<Rightarrow> (('k epoll, 'z) eloop_scheme \<times> int) option" where
  "epoll_delevent ctl l fd event = do {
     ev \<leftarrow> event_at l fd;
     let nevent = evmask ev AND NOT event;
     let op = (if nevent = EV_NONE then CTL_DEL else CTL_MOD);
     Some (epoll_ctl_call ctl l op fd (to_epoll nevent))
   }"

text \<open>The loop over the entries of \<^verbatim>\<open>poller->events\<close> that the kernel stored.\<close>

definition from_epoll :: "u32 \<Rightarrow> u32" where
  "from_epoll e =
     (if e AND EPOLLIN \<noteq> 0 then EV_RDABLE else 0) OR (if e AND EPOLLOUT \<noteq> 0 then EV_WRABLE else 0)
       OR (if e AND EPOLLERR \<noteq> 0 then EV_WRABLE else 0) OR (if e AND EPOLLHUP \<noteq> 0 then EV_WRABLE else 0)"

fun store_ready :: "(u32 \<times> int) list \<Rightarrow> nat \<Rightarrow> nat \<Rightarrow> ev_active list \<Rightarrow> ev_active list option" where
  "store_ready es 0 j acts = Some acts"
| "store_ready es (Suc n) j acts = do {
     (e, fd) \<leftarrow> aload es j;
     acts \<leftarrow> astore acts j \<lparr>afd = fd, aevent = from_epoll e\<rparr>;
     store_ready es n (Suc j) acts
   }"

definition epoll_poll ::
    "'k epoll_wait \<Rightarrow> ('k epoll, 'z) eloop_scheme \<Rightarrow> int \<Rightarrow> (('k epoll, 'z) eloop_scheme \<times> int) option" where
  "epoll_poll wait l timeout =
     (let (k, retval, es) = wait (kern (poller l)) (setsize l) timeout;
        l = l\<lparr>poller := (poller l)\<lparr>kern := k\<rparr>\<rparr> in
      if retval > 0 then do {
        acts \<leftarrow> store_ready es (nat retval) 0 (actives l);
        Some (l\<lparr>actives := acts\<rparr>, retval)
      } else Some (l, 0))"

section \<open>The back end on select\<close>

record fdsets =
  rfds :: "int set"
  wfds :: "int set"
  crfds :: "int set"
  cwfds :: "int set"

type_synonym select_call =
  "nat \<Rightarrow> int \<Rightarrow> int set \<Rightarrow> int set \<Rightarrow> int \<times> int \<Rightarrow> int \<times> int set \<times> int set"

definition FD_SETSIZE :: int where "FD_SETSIZE = 1024"

definition select_create :: "(int \<Rightarrow> bool) \<Rightarrow> fdsets option" where
  "select_create mem =
     (if \<not> mem 512 then None else Some \<lparr>rfds = {}, wfds = {}, crfds = {}, cwfds = {}\<rparr>)"

text \<open>\<^verbatim>\<open>FD_SET\<close>, \<^verbatim>\<open>FD_CLR\<close> and \<^verbatim>\<open>FD_ISSET\<close>, undefined for descriptors outside the set.\<close>

definition fd_set :: "int \<Rightarrow> int set \<Rightarrow> int set option" where
  "fd_set fd A = (if 0 \<le> fd \<and> fd < FD_SETSIZE then Some (insert fd A) else None)"

definition fd_clr :: "int \<Rightarrow> int set \<Rightarrow> int set option" where
  "fd_clr fd A = (if 0 \<le> fd \<and> fd < FD_SETSIZE then Some (A - {fd}) else None)"

definition fd_isset :: "int \<Rightarrow> int set \<Rightarrow> bool option" where
  "fd_isset fd A = (if 0 \<le> fd \<and> fd < FD_SETSIZE then Some (fd \<in> A) else None)"

definition select_change ::
    "(int \<Rightarrow> int set \<Rightarrow> int set option) \<Rightarrow> (fdsets, 'z) eloop_scheme \<Rightarrow> int \<Rightarrow> u32 \<Rightarrow> ((fdsets, 'z) eloop_scheme \<times> int) option" where
  "select_change f l fd event = do {
     r \<leftarrow> (if event AND EV_RDABLE \<noteq> 0 then f fd (rfds (poller l)) else Some (rfds (poller l)));
     w \<leftarrow> (if event AND EV_WRABLE \<noteq> 0 then f fd (wfds (poller l)) else Some (wfds (poller l)));
     Some (l\<lparr>poller := (poller l)\<lparr>rfds := r, wfds := w\<rparr>\<rparr>, 0)
   }"

definition select_addevent :: "(fdsets, 'z) eloop_scheme \<Rightarrow> int \<Rightarrow> u32 \<Rightarrow> ((fdsets, 'z) eloop_scheme \<times> int) option" where
  "select_addevent l fd event = select_change fd_set l fd event"

definition select_delevent :: "(fdsets, 'z) eloop_scheme \<Rightarrow> int \<Rightarrow> u32 \<Rightarrow> ((fdsets, 'z) eloop_scheme \<times> int) option" where
  "select_delevent l fd event = select_change fd_clr l fd event"

text \<open>
  The loop over the descriptors \<open>j\<close>, ..., \<^verbatim>\<open>maxfd\<close> (\<open>n\<close> of them), with the number of entries stored
  so far. A descriptor of the table is stored even when neither of its events is ready.
\<close>

fun scan_ready :: "(fdsets, 'z) eloop_scheme \<Rightarrow> nat \<Rightarrow> nat \<Rightarrow> nat \<Rightarrow> ev_active list \<Rightarrow> (ev_active list \<times> nat) option" where
  "scan_ready l 0 j numevents acts = Some (acts, numevents)"
| "scan_ready l (Suc n) j numevents acts = do {
     ev \<leftarrow> event_at l (int j);
     if evmask ev = EV_NONE then scan_ready l n (Suc j) numevents acts
     else do {
       r \<leftarrow> (if evmask ev AND EV_RDABLE \<noteq> 0 then fd_isset (int j) (crfds (poller l)) else Some False);
       w \<leftarrow> (if evmask ev AND EV_WRABLE \<noteq> 0 then fd_isset (int j) (cwfds (poller l)) else Some False);
       let event = (if r then EV_RDABLE else EV_NONE) OR (if w then EV_WRABLE else EV_NONE);
       acts \<leftarrow> astore acts numevents \<lparr>afd = int j, aevent = event\<rparr>;
       scan_ready l n (Suc j) (numevents + 1) acts
     }
   }"

text \<open>\<open>sel\<close> gets the number of readings of the clock so far, to answer calls at different times differently.\<close>

definition select_poll ::
    "select_call \<Rightarrow> (fdsets, 'z) eloop_scheme \<Rightarrow> int \<Rightarrow> ((fdsets, 'z) eloop_scheme \<times> int) option" where
  "select_poll sel l timeout =
     (let p = (poller l)\<lparr>crfds := rfds (poller l), cwfds := wfds (poller l)\<rparr>;
        (retval, r, w) = sel (ticks l) (maxfd l + 1) (crfds p) (cwfds p)
          (timeout sdiv 1000, (timeout smod 1000) * 1000);
        l = l\<lparr>poller := p\<lparr>crfds := r, cwfds := w\<rparr>\<rparr> in
      if retval > 0 then do {
        (acts, numevents) \<leftarrow> scan_ready l (nat (maxfd l + 1)) 0 0 (actives l);
        Some (l\<lparr>actives := acts\<rparr>, int numevents)
      } else Some (l, 0))"

end
