(* ===== verification/Event_Poller.thy ===== *)
theory Event_Poller
  imports Poller
begin

text \<open>
  The interface between the event loop of \<^verbatim>\<open>kznet/event.c\<close> and its back ends of \<^verbatim>\<open>kznet/poller.c\<close> as a
  locale, the operations of the loop proved on it, and its interpretations on both back ends.
\<close>

unbundle bit_operations_syntax

section \<open>The table of events\<close>

text \<open>
  \<open>masks l fd\<close> is the mask registered for a descriptor. \<open>loop_ok\<close>: the arrays have the size of the
  table, registered events have a callback, and no descriptor above \<^verbatim>\<open>maxfd\<close> is registered.
\<close>

definition masks :: "('p, 'z) eloop_scheme \<Rightarrow> int \<Rightarrow> u32" where
  "masks l fd = (if 0 \<le> fd \<and> fd < int (length (events l)) then evmask (events l ! nat fd) else EV_NONE)"

definition entry_ok :: "ev_event \<Rightarrow> bool" where
  "entry_ok ev \<longleftrightarrow> (evmask ev AND EV_RDABLE \<noteq> 0 \<longrightarrow> evread ev \<noteq> 0)
     \<and> (evmask ev AND EV_WRABLE \<noteq> 0 \<longrightarrow> evwrite ev \<noteq> 0)"

definition loop_ok :: "('p, 'z) eloop_scheme \<Rightarrow> bool" where
  "loop_ok l \<longleftrightarrow> 0 \<le> setsize l \<and> length (events l) = nat (setsize l) \<and> length (actives l) = nat (setsize l)
     \<and> -1 \<le> maxfd l \<and> maxfd l < setsize l \<and> (\<forall>ev \<in> set (events l). entry_ok ev)
     \<and> (\<forall>fd. masks l fd \<noteq> EV_NONE \<longrightarrow> fd \<le> maxfd l)"

lemma mask_bits:
  "(w :: u32) AND EV_RDABLE \<noteq> 0 \<longleftrightarrow> bit w 0" "(w :: u32) AND EV_WRABLE \<noteq> 0 \<longleftrightarrow> bit w 1"
proof -
  show "w AND EV_RDABLE \<noteq> 0 \<longleftrightarrow> bit w 0"
    using and_exp_eq_0_iff_not_bit [of w 0] by (simp add: EV_RDABLE_def)
  show "w AND EV_WRABLE \<noteq> 0 \<longleftrightarrow> bit w 1"
    using and_exp_eq_0_iff_not_bit [of w 1] by (simp add: EV_WRABLE_def)
qed

lemma mask_changes:
  "(m OR e) AND EV_RDABLE \<noteq> 0 \<longleftrightarrow> m AND EV_RDABLE \<noteq> 0 \<or> e AND EV_RDABLE \<noteq> (0 :: u32)"
  "(m OR e) AND EV_WRABLE \<noteq> 0 \<longleftrightarrow> m AND EV_WRABLE \<noteq> 0 \<or> e AND EV_WRABLE \<noteq> (0 :: u32)"
  "(m AND NOT e) AND EV_RDABLE \<noteq> 0 \<longleftrightarrow> m AND EV_RDABLE \<noteq> 0 \<and> \<not> e AND EV_RDABLE \<noteq> (0 :: u32)"
  "(m AND NOT e) AND EV_WRABLE \<noteq> 0 \<longleftrightarrow> m AND EV_WRABLE \<noteq> 0 \<and> \<not> e AND EV_WRABLE \<noteq> (0 :: u32)"
  unfolding mask_bits by (simp_all add: bit_or_iff bit_and_iff bit_not_iff)

lemma event_at_ok:
  assumes "loop_ok l" and "0 \<le> fd" and "fd < setsize l"
  shows "event_at l fd = Some (events l ! nat fd)" "masks l fd = evmask (events l ! nat fd)"
    "entry_ok (events l ! nat fd)" "nat fd < length (events l)"
proof -
  show n: "nat fd < length (events l)" using assms by (simp add: loop_ok_def)
  moreover have "fd < int (length (events l))" using n assms(2) by linarith
  ultimately show "event_at l fd = Some (events l ! nat fd)" "masks l fd = evmask (events l ! nat fd)"
    using assms(2) by (simp_all add: event_at_def masks_def)
  show "entry_ok (events l ! nat fd)" using assms(1) n by (simp add: loop_ok_def)
qed

lemma set_event_ok:
  assumes "loop_ok l" and "0 \<le> fd" and "fd < setsize l"
  shows "set_event l fd ev = Some (l\<lparr>events := (events l)[nat fd := ev]\<rparr>)"
    "masks (l\<lparr>events := (events l)[nat fd := ev]\<rparr>) = (masks l)(fd := evmask ev)"
proof -
  have n: "nat fd < length (events l)" using assms by (simp add: loop_ok_def)
  then show "set_event l fd ev = Some (l\<lparr>events := (events l)[nat fd := ev]\<rparr>)"
    using assms(2) by (simp add: set_event_def)
  show "masks (l\<lparr>events := (events l)[nat fd := ev]\<rparr>) = (masks l)(fd := evmask ev)"
  proof
    fix d
    show "masks (l\<lparr>events := (events l)[nat fd := ev]\<rparr>) d = ((masks l)(fd := evmask ev)) d"
      using n assms(2) by (cases "d = fd") (auto simp: masks_def nat_eq_iff)
  qed
qed

lemma event_at_events: "events l' = events l \<Longrightarrow> event_at l' = event_at l"
  by (simp add: event_at_def fun_eq_iff)

lemma event_at_update:
  assumes "loop_ok l" and "0 \<le> fd" and "fd < setsize l"
  shows "event_at (l\<lparr>events := (events l)[nat fd := ev]\<rparr>) = (event_at l)(fd \<mapsto> ev)"
proof
  fix d
  have n: "nat fd < length (events l)" using assms by (simp add: loop_ok_def)
  show "event_at (l\<lparr>events := (events l)[nat fd := ev]\<rparr>) d = ((event_at l)(fd \<mapsto> ev)) d"
    using n assms(2) by (cases "d = fd") (auto simp: event_at_def aload_def nat_eq_iff)
qed

text \<open>The entry of a descriptor after a registration.\<close>

definition entry_after :: "u32 \<Rightarrow> nat \<Rightarrow> ptr \<Rightarrow> ev_event \<Rightarrow> ev_event" where
  "entry_after ev cb d e = \<lparr>evmask = evmask e OR ev, evdata = d,
     evread = (if ev AND EV_RDABLE \<noteq> 0 then cb else evread e),
     evwrite = (if ev AND EV_WRABLE \<noteq> 0 then cb else evwrite e)\<rparr>"

lemma masks_range: "loop_ok l \<Longrightarrow> masks l fd \<noteq> EV_NONE \<Longrightarrow> 0 \<le> fd \<and> fd < setsize l \<and> fd \<le> maxfd l"
  unfolding loop_ok_def masks_def by (metis int_nat_eq)

lemma masks_events: "events l' = events l \<Longrightarrow> masks l' = masks l"
  by (simp add: masks_def fun_eq_iff)

lemma loop_ok_cong:
  "events l' = events l \<Longrightarrow> length (actives l') = length (actives l) \<Longrightarrow> setsize l' = setsize l \<Longrightarrow>
     maxfd l' = maxfd l \<Longrightarrow> loop_ok l' = loop_ok l"
  using masks_events [of l' l] by (simp add: loop_ok_def)

section \<open>The contract of a back end\<close>

text \<open>
  \<open>watching m p\<close>: the back end \<open>p\<close> watches the descriptors for the events of the masks \<open>m\<close>. It can
  handle tables of up to \<open>limit\<close> descriptors.
\<close>

locale event_poller =
  fixes watching :: "(int \<Rightarrow> u32) \<Rightarrow> 'p \<Rightarrow> bool"
    and limit :: int
    and addevent :: "('p, 'z) eloop_scheme \<Rightarrow> int \<Rightarrow> u32 \<Rightarrow> (('p, 'z) eloop_scheme \<times> int) option"
    and delevent :: "('p, 'z) eloop_scheme \<Rightarrow> int \<Rightarrow> u32 \<Rightarrow> (('p, 'z) eloop_scheme \<times> int) option"
    and poll :: "('p, 'z) eloop_scheme \<Rightarrow> int \<Rightarrow> (('p, 'z) eloop_scheme \<times> int) option"
  assumes add_law: "loop_ok l \<Longrightarrow> watching (masks l) (poller l) \<Longrightarrow> setsize l \<le> limit \<Longrightarrow> 0 \<le> fd \<Longrightarrow>
      fd < setsize l \<Longrightarrow> ev \<noteq> EV_NONE \<Longrightarrow>
      \<exists>p r. addevent l fd ev = Some (l\<lparr>poller := p\<rparr>, r)
        \<and> watching (if r = 0 then (masks l)(fd := masks l fd OR ev) else masks l) p"
    and del_law: "loop_ok l \<Longrightarrow> watching (masks l) (poller l) \<Longrightarrow> setsize l \<le> limit \<Longrightarrow>
      masks l fd \<noteq> EV_NONE \<Longrightarrow>
      \<exists>p r. delevent l fd ev = Some (l\<lparr>poller := p\<rparr>, r)
        \<and> watching (if r = 0 then (masks l)(fd := masks l fd AND NOT ev) else masks l) p"
    and poll_law: "loop_ok l \<Longrightarrow> watching (masks l) (poller l) \<Longrightarrow> setsize l \<le> limit \<Longrightarrow>
      \<exists>p acts n. poll l t = Some (l\<lparr>poller := p, actives := acts\<rparr>, n) \<and> watching (masks l) p
        \<and> length acts = length (actives l) \<and> 0 \<le> n \<and> n \<le> setsize l
        \<and> (\<forall>j < nat n. masks l (afd (acts ! j)) \<noteq> EV_NONE)"

text \<open>
  The table of the loop and the back end agree. The operations of registration change nothing but these
  two and \<^verbatim>\<open>maxfd\<close>.
\<close>

definition synced :: "((int \<Rightarrow> u32) \<Rightarrow> 'p \<Rightarrow> bool) \<Rightarrow> int \<Rightarrow> ('p, 'z) eloop_scheme \<Rightarrow> bool" where
  "synced watching limit l \<longleftrightarrow> loop_ok l \<and> watching (masks l) (poller l) \<and> setsize l \<le> limit"

definition reg_frame :: "('p, 'z) eloop_scheme \<Rightarrow> ('p, 'z) eloop_scheme \<Rightarrow> bool" where
  "reg_frame l l' \<longleftrightarrow> (\<exists>p evs m. l' = l\<lparr>poller := p, events := evs, maxfd := m\<rparr>)"

lemma reg_frameI [simp, intro]:
  "reg_frame l l" "reg_frame l (l\<lparr>poller := p\<rparr>)" "reg_frame l (l\<lparr>poller := p, events := evs\<rparr>)"
  "reg_frame l (l\<lparr>poller := p, events := evs, maxfd := m\<rparr>)"
proof -
  have "l = l\<lparr>poller := poller l, events := events l, maxfd := maxfd l\<rparr>"
    "l\<lparr>poller := p\<rparr> = l\<lparr>poller := p, events := events l, maxfd := maxfd l\<rparr>"
    "l\<lparr>poller := p, events := evs\<rparr> = l\<lparr>poller := p, events := evs, maxfd := maxfd l\<rparr>"
    by (cases l; simp)+
  then show "reg_frame l l" "reg_frame l (l\<lparr>poller := p\<rparr>)" "reg_frame l (l\<lparr>poller := p, events := evs\<rparr>)"
    "reg_frame l (l\<lparr>poller := p, events := evs, maxfd := m\<rparr>)"
    unfolding reg_frame_def by blast+
qed

lemma reg_frame_fields:
  "reg_frame l l' \<Longrightarrow> timers l' = timers l \<and> theap l' = theap l \<and> ticks l' = ticks l \<and> trace l' = trace l
     \<and> setsize l' = setsize l \<and> actives l' = actives l \<and> stop l' = stop l \<and> etrace l' = etrace l"
  by (auto simp: reg_frame_def)

lemma maxfd_loop_ok:
  assumes "j \<le> length evs" and "\<forall>i < length evs. j \<le> i \<longrightarrow> int i \<le> m \<longrightarrow> evmask (evs ! i) = EV_NONE"
    and "\<forall>i < length evs. evmask (evs ! i) \<noteq> EV_NONE \<longrightarrow> int i \<le> m" and "int j \<le> m" and "0 \<le> m"
  shows "\<exists>m'. maxfd_loop evs j m = Some m' \<and> 0 \<le> m' \<and> m' \<le> m
    \<and> (\<forall>i < length evs. evmask (evs ! i) \<noteq> EV_NONE \<longrightarrow> int i \<le> m')"
  using assms
proof (induction j arbitrary: m)
  case 0
  have "maxfd_loop evs 0 m = Some m" by simp
  then show ?case using "0.prems"(3,5) order_refl by blast
next
  case (Suc j)
  show ?case
  proof (cases "evmask (evs ! j) = EV_NONE")
    case True
    have none: "evmask (evs ! i) = EV_NONE" if "i < length evs" "j \<le> i" for i
    proof (cases "i = j")
      case False
      then have "Suc j \<le> i" using that(2) by simp
      then show ?thesis using Suc.prems(2,3) that(1) by blast
    qed (simp add: True)
    have "\<exists>m'. maxfd_loop evs j (int j) = Some m' \<and> 0 \<le> m' \<and> m' \<le> int j
        \<and> (\<forall>i < length evs. evmask (evs ! i) \<noteq> EV_NONE \<longrightarrow> int i \<le> m')"
    proof (rule Suc.IH)
      show "\<forall>i < length evs. evmask (evs ! i) \<noteq> EV_NONE \<longrightarrow> int i \<le> int j"
      proof (intro allI impI)
        fix i
        assume "i < length evs" "evmask (evs ! i) \<noteq> EV_NONE"
        then have "\<not> j \<le> i" using none by blast
        then show "int i \<le> int j" by simp
      qed
      show "\<forall>i < length evs. j \<le> i \<longrightarrow> int i \<le> int j \<longrightarrow> evmask (evs ! i) = EV_NONE" using none by blast
      show "j \<le> length evs" using Suc.prems(1) by simp
    qed simp_all
    moreover have "maxfd_loop evs (Suc j) m = maxfd_loop evs j (int j)" using Suc.prems(1) True by simp
    ultimately show ?thesis using Suc.prems(4) by fastforce
  next
    case False
    then have "maxfd_loop evs (Suc j) m = Some m" using Suc.prems(1) by simp
    then show ?thesis using Suc.prems(3,5) order_refl by blast
  qed
qed

section \<open>Registration\<close>

lemma entry_ok_set:
  assumes "entry_ok ev" and "cb \<noteq> 0"
  shows "entry_ok (let ev = ev\<lparr>evmask := evmask ev OR e\<rparr>;
      ev = (if e AND EV_RDABLE \<noteq> 0 then ev\<lparr>evread := cb\<rparr> else ev);
      ev = (if e AND EV_WRABLE \<noteq> 0 then ev\<lparr>evwrite := cb\<rparr> else ev)
    in ev\<lparr>evdata := d\<rparr>)"
  using assms mask_changes(1,2) by (auto simp: entry_ok_def Let_def)

lemma loop_ok_change:
  assumes ok: "loop_ok l" and fd: "0 \<le> fd" "fd < setsize l" and e: "entry_ok ev"
    and m: "-1 \<le> m" "m < setsize l" "\<And>d. ((masks l)(fd := evmask ev)) d \<noteq> EV_NONE \<Longrightarrow> d \<le> m"
  shows "loop_ok (l\<lparr>poller := p, events := (events l)[nat fd := ev], maxfd := m\<rparr>)"
proof -
  have "masks (l\<lparr>poller := p, events := (events l)[nat fd := ev], maxfd := m\<rparr>) =
      masks (l\<lparr>events := (events l)[nat fd := ev]\<rparr>)"
    by (rule masks_events) simp
  then have mk: "masks (l\<lparr>poller := p, events := (events l)[nat fd := ev], maxfd := m\<rparr>) =
      (masks l)(fd := evmask ev)"
    using set_event_ok(2) [OF ok fd, of ev] by simp
  have "\<forall>ev' \<in> set ((events l)[nat fd := ev]). entry_ok ev'"
    using ok e by (auto simp: loop_ok_def dest!: set_update_subset_insert [THEN subsetD])
  moreover have "0 \<le> setsize l" "length (events l) = nat (setsize l)" "length (actives l) = nat (setsize l)"
    using ok by (simp_all add: loop_ok_def)
  ultimately show ?thesis using m unfolding loop_ok_def mk by simp
qed

lemma create_entry:
  "(let e = e\<lparr>evmask := evmask e OR ev\<rparr>;
      e = (if ev AND EV_RDABLE \<noteq> 0 then e\<lparr>evread := cb\<rparr> else e);
      e = (if ev AND EV_WRABLE \<noteq> 0 then e\<lparr>evwrite := cb\<rparr> else e)
    in e\<lparr>evdata := d\<rparr>) = entry_after ev cb d e"
  by (cases e) (simp add: entry_after_def Let_def)

context event_poller
begin

lemma create_ok:
  assumes s: "synced watching limit l" and cb: "cb \<noteq> 0" and ev: "ev \<noteq> EV_NONE"
  shows "\<exists>l' r. create_event addevent l fd ev cb data = Some (l', r) \<and> synced watching limit l' \<and> reg_frame l l'
    \<and> (r = 0 \<and> 1 \<le> fd \<and> fd < setsize l \<and> masks l' = (masks l)(fd := masks l fd OR ev)
         \<and> event_at l' = (event_at l)(fd := map_option (entry_after ev cb data) (event_at l fd))
       \<or> r = -1 \<and> events l' = events l)"
proof -
  have ok: "loop_ok l" and w: "watching (masks l) (poller l)" and lim: "setsize l \<le> limit"
    using s by (simp_all add: synced_def)
  show ?thesis
  proof (cases "fd < 1 \<or> fd \<ge> setsize l")
    case True
    then show ?thesis using s cb by (intro exI [of _ l] exI [of _ "-1"]) (simp add: create_event_def)
  next
    case False
    then have fd: "0 \<le> fd" "fd < setsize l" "1 \<le> fd" by simp_all
    obtain p r where a: "addevent l fd ev = Some (l\<lparr>poller := p\<rparr>, r)"
        "watching (if r = 0 then (masks l)(fd := masks l fd OR ev) else masks l) p"
      using add_law [OF ok w lim fd(1,2) ev] by blast
    let ?l = "l\<lparr>poller := p\<rparr>"
    have ok1: "loop_ok ?l" using loop_ok_cong [of ?l l] ok by simp
    have m1: "masks ?l = masks l" by (rule masks_events) simp
    show ?thesis
    proof (cases "r = 0")
      case False
      then have "create_event addevent l fd ev cb data = Some (?l, -1)"
        using cb fd a(1) by (simp add: create_event_def)
      moreover have "synced watching limit ?l" using False a(2) lim ok1 m1 by (simp add: synced_def)
      ultimately show ?thesis by auto
    next
      case True
      define e0 where "e0 = events l ! nat fd"
      define e where "e = (let ev' = e0\<lparr>evmask := evmask e0 OR ev\<rparr>;
          ev' = (if ev AND EV_RDABLE \<noteq> 0 then ev'\<lparr>evread := cb\<rparr> else ev');
          ev' = (if ev AND EV_WRABLE \<noteq> 0 then ev'\<lparr>evwrite := cb\<rparr> else ev')
        in ev'\<lparr>evdata := data\<rparr>)"
      have e_ok: "entry_ok e"
        unfolding e_def using event_at_ok(3) [OF ok fd(1,2)] cb by (intro entry_ok_set) (simp_all add: e0_def)
      have em: "evmask e = masks l fd OR ev"
        using event_at_ok(2) [OF ok fd(1,2)] by (simp add: e_def e0_def Let_def)
      define m where "m = (if fd > maxfd l then fd else maxfd l)"
      let ?l' = "?l\<lparr>events := (events l)[nat fd := e], maxfd := m\<rparr>"
      have at1: "event_at ?l fd = Some e0" using event_at_ok(1) [OF ok1] fd by (simp add: e0_def)
      have se: "set_event ?l fd e = Some (?l\<lparr>events := (events l)[nat fd := e]\<rparr>)"
        using set_event_ok(1) [OF ok1] fd by simp
      have up: "(if fd > maxfd l then x\<lparr>maxfd := fd\<rparr> else x) = x\<lparr>maxfd := m\<rparr>" if "maxfd x = maxfd l" for x :: "('a, 'b) eloop_scheme"
        using that by (cases x) (simp add: m_def)
      have cr: "create_event addevent l fd ev cb data = Some (?l', 0)"
        using cb fd a(1) True at1 se [unfolded e_def Let_def] by (simp add: create_event_def Let_def up e_def)
      have ok': "loop_ok ?l'"
      proof -
        have "((masks l)(fd := evmask e)) d \<noteq> EV_NONE \<Longrightarrow> d \<le> m" for d
          using masks_range [OF ok, of d] by (auto simp: m_def split: if_splits)
        then have "loop_ok (l\<lparr>poller := p, events := (events l)[nat fd := e], maxfd := m\<rparr>)"
          using ok fd e_ok by (intro loop_ok_change) (auto simp: m_def loop_ok_def)
        then show ?thesis by simp
      qed
      have "masks ?l' = masks (?l\<lparr>events := (events l)[nat fd := e]\<rparr>)" by (rule masks_events) simp
      then have m': "masks ?l' = (masks l)(fd := masks l fd OR ev)"
        using set_event_ok(2) [OF ok1, of fd e] fd em m1 by simp
      have "synced watching limit ?l'" using ok' m' a(2) True lim by (simp add: synced_def)
      moreover have "event_at ?l' = (event_at l)(fd := map_option (entry_after ev cb data) (event_at l fd))"
      proof -
        have "e = entry_after ev cb data e0" unfolding e_def by (rule create_entry)
        moreover have "event_at ?l' = event_at (l\<lparr>events := (events l)[nat fd := e]\<rparr>)" by (rule event_at_events) simp
        ultimately show ?thesis
          using event_at_update [OF ok fd(1,2), of e] event_at_ok(1) [OF ok fd(1,2)] by (simp add: e0_def)
      qed
      ultimately show ?thesis using cr m' fd by (intro exI [of _ ?l'] exI [of _ 0]) simp
    qed
  qed
qed

end

context event_poller
begin

lemma delete_ok:
  assumes s: "synced watching limit l" and pos: "0 \<le> fd"
  shows "\<exists>l' r. delete_event delevent l fd ev = Some (l', r) \<and> synced watching limit l' \<and> reg_frame l l'
    \<and> (r = 0 \<and> fd < setsize l \<and> masks l' = (masks l)(fd := masks l fd AND NOT ev)
         \<and> event_at l' = (event_at l)(fd := map_option (\<lambda>e. e\<lparr>evmask := evmask e AND NOT ev\<rparr>) (event_at l fd))
       \<or> r = -1 \<and> events l' = events l)"
proof -
  have ok: "loop_ok l" and w: "watching (masks l) (poller l)" and lim: "setsize l \<le> limit"
    using s by (simp_all add: synced_def)
  show ?thesis
  proof (cases "fd < setsize l")
    case False
    then show ?thesis using s by (intro exI [of _ l] exI [of _ "-1"]) (simp add: delete_event_def)
  next
    case fd: True
    note at0 = event_at_ok [OF ok pos fd]
    show ?thesis
    proof (cases "masks l fd = EV_NONE")
      case True
      then have d: "delete_event delevent l fd ev = Some (l, 0)"
        using fd at0(1,2) by (simp add: delete_event_def)
      have m: "masks l = (masks l)(fd := masks l fd AND NOT ev)"
        using True by (auto simp: fun_eq_iff EV_NONE_def)
      have "event_at l fd = Some (events l ! nat fd)" "evmask (events l ! nat fd) = 0"
        using at0(1,2) True by (simp_all add: EV_NONE_def)
      then have e: "event_at l = (event_at l)(fd := map_option (\<lambda>e. e\<lparr>evmask := evmask e AND NOT ev\<rparr>) (event_at l fd))"
        by (cases "events l ! nat fd") (simp add: fun_eq_iff)
      show ?thesis by (intro exI [of _ l] exI [of _ 0] conjI disjI1) (fact d s fd m e reg_frameI(1) refl)+
    next
      case reg: False
      obtain p r where a: "delevent l fd ev = Some (l\<lparr>poller := p\<rparr>, r)"
          "watching (if r = 0 then (masks l)(fd := masks l fd AND NOT ev) else masks l) p"
        using del_law [OF ok w lim reg] by blast
      let ?l = "l\<lparr>poller := p\<rparr>"
      have ok1: "loop_ok ?l" using loop_ok_cong [of ?l l] ok by simp
      have m1: "masks ?l = masks l" by (rule masks_events) simp
      show ?thesis
      proof (cases "r = 0")
        case False
        then have "delete_event delevent l fd ev = Some (?l, -1)"
          using fd at0(1,2) reg a(1) by (simp add: delete_event_def)
        moreover have "synced watching limit ?l" using False a(2) lim ok1 m1 by (simp add: synced_def)
        ultimately show ?thesis by auto
      next
        case True
        define e0 where "e0 = events l ! nat fd"
        define e where "e = e0\<lparr>evmask := evmask e0 AND NOT ev\<rparr>"
        have e_ok: "entry_ok e" using at0(3) mask_changes(3,4) by (auto simp: e_def e0_def entry_ok_def)
        have em: "evmask e = masks l fd AND NOT ev" using at0(2) by (simp add: e_def e0_def)
        let ?evs = "(events l)[nat fd := e]"
        have at1: "event_at ?l fd = Some e0" using event_at_ok(1) [OF ok1] fd pos by (simp add: e0_def)
        have se: "set_event ?l fd e = Some (?l\<lparr>events := ?evs\<rparr>)"
          using set_event_ok(1) [OF ok1] fd pos by simp
        have mk: "masks (?l\<lparr>events := ?evs, maxfd := m\<rparr>) = (masks l)(fd := masks l fd AND NOT ev)" for m
        proof -
          have "masks (?l\<lparr>events := ?evs, maxfd := m\<rparr>) = masks (?l\<lparr>events := ?evs\<rparr>)" by (rule masks_events) simp
          then show ?thesis using set_event_ok(2) [OF ok1, of fd e] fd pos em m1 by simp
        qed
        have at': "event_at (?l\<lparr>events := ?evs, maxfd := m\<rparr>) =
            (event_at l)(fd := map_option (\<lambda>e. e\<lparr>evmask := evmask e AND NOT ev\<rparr>) (event_at l fd))" for m
        proof -
          have "event_at (?l\<lparr>events := ?evs, maxfd := m\<rparr>) = event_at (l\<lparr>events := ?evs\<rparr>)" by (rule event_at_events) simp
          then show ?thesis using event_at_update [OF ok pos fd, of e] at0(1) by (simp add: e_def e0_def)
        qed
        have max: "0 \<le> maxfd l" "maxfd l < setsize l" using masks_range [OF ok reg] by (auto intro: order_trans)
          (use ok in \<open>simp_all add: loop_ok_def\<close>)
        have bound: "d \<le> maxfd l" if "((masks l)(fd := evmask e)) d \<noteq> EV_NONE" for d
          using that masks_range [OF ok, of d] masks_range [OF ok reg] by (auto split: if_splits)
        have fin: "loop_ok (?l\<lparr>events := ?evs, maxfd := m\<rparr>)"
          if "-1 \<le> m" "m < setsize l" "\<And>d. ((masks l)(fd := evmask e)) d \<noteq> EV_NONE \<Longrightarrow> d \<le> m" for m
          using loop_ok_change [OF ok pos fd e_ok that, of p] by simp
        have syn: "synced watching limit (?l\<lparr>events := ?evs, maxfd := m\<rparr>)" if "loop_ok (?l\<lparr>events := ?evs, maxfd := m\<rparr>)" for m
          using that mk [of m] a(2) True lim by (simp add: synced_def)
        have same: "x\<lparr>maxfd := maxfd l\<rparr> = x" if "maxfd x = maxfd l" for x :: "('a, 'b) eloop_scheme"
          using that by (cases x) simp
        have de: "delete_event delevent l fd ev =
            (if fd = maxfd l \<and> evmask e = EV_NONE then do {
               m \<leftarrow> maxfd_loop ?evs (nat (maxfd l)) (maxfd l);
               Some (?l\<lparr>events := ?evs, maxfd := m\<rparr>, 0) }
             else Some (?l\<lparr>events := ?evs\<rparr>, 0))"
          using fd at0(1,2) reg a(1) True at1 se [unfolded e_def] by (simp add: delete_event_def e_def Let_def)
        show ?thesis
        proof (cases "fd = maxfd l \<and> evmask e = EV_NONE")
          case False
          have "loop_ok (?l\<lparr>events := ?evs, maxfd := maxfd l\<rparr>)" using max bound by (intro fin) auto
          then have "synced watching limit (?l\<lparr>events := ?evs, maxfd := maxfd l\<rparr>)" by (rule syn)
          then show ?thesis
            using de False mk [of "maxfd l"] at' [of "maxfd l"] fd same [of "?l\<lparr>events := ?evs\<rparr>"] by auto
        next
          case last: True
          have evm: "evmask (?evs ! i) = ((masks l)(fd := evmask e)) (int i)" if "i < length ?evs" for i
            using that pos by (auto simp: masks_def nth_list_update)
          have "\<exists>m'. maxfd_loop ?evs (nat (maxfd l)) (maxfd l) = Some m' \<and> 0 \<le> m' \<and> m' \<le> maxfd l
              \<and> (\<forall>i < length ?evs. evmask (?evs ! i) \<noteq> EV_NONE \<longrightarrow> int i \<le> m')"
          proof (rule maxfd_loop_ok)
            show "nat (maxfd l) \<le> length ?evs" using max ok by (simp add: loop_ok_def)
            show "\<forall>i < length ?evs. nat (maxfd l) \<le> i \<longrightarrow> int i \<le> maxfd l \<longrightarrow> evmask (?evs ! i) = EV_NONE"
            proof (intro allI impI)
              fix i
              assume i: "i < length ?evs" "nat (maxfd l) \<le> i" "int i \<le> maxfd l"
              then have "int i = fd" using last max by linarith
              then show "evmask (?evs ! i) = EV_NONE" using evm [OF i(1)] last by simp
            qed
            show "\<forall>i < length ?evs. evmask (?evs ! i) \<noteq> EV_NONE \<longrightarrow> int i \<le> maxfd l"
              using evm bound by metis
          qed (use max in simp_all)
          then obtain m' where m': "maxfd_loop ?evs (nat (maxfd l)) (maxfd l) = Some m'" "0 \<le> m'" "m' \<le> maxfd l"
              "\<forall>i < length ?evs. evmask (?evs ! i) \<noteq> EV_NONE \<longrightarrow> int i \<le> m'"
            by blast
          have "d \<le> m'" if d: "((masks l)(fd := evmask e)) d \<noteq> EV_NONE" for d
          proof -
            have "masks l d \<noteq> EV_NONE" using d last by (auto split: if_splits)
            then have r: "0 \<le> d" "d < setsize l" using masks_range [OF ok] by auto
            then have n: "nat d < length ?evs" using ok by (simp add: loop_ok_def)
            then have "evmask (?evs ! nat d) \<noteq> EV_NONE" using evm [OF n] d r(1) by simp
            then show ?thesis using m'(4) n r(1) by auto
          qed
          then have "loop_ok (?l\<lparr>events := ?evs, maxfd := m'\<rparr>)" using m'(2,3) max by (intro fin) auto
          then have "synced watching limit (?l\<lparr>events := ?evs, maxfd := m'\<rparr>)" by (rule syn)
          then show ?thesis using de last m'(1) mk [of m'] at' [of m'] fd by auto
        qed
      qed
    qed
  qed
qed

end

text \<open>
  A back end that never fails for a registered descriptor: its events can always be extended, reduced
  and removed. Only a new registration may fail.
\<close>

lemma event_at_masks: "event_at l d = Some e \<Longrightarrow> masks l d = evmask e"
  by (auto simp: event_at_def masks_def aload_def split: if_splits)

locale reliable_poller = event_poller +
  assumes add_reliable: "synced watching limit l \<Longrightarrow> masks l fd \<noteq> EV_NONE \<Longrightarrow> ev \<noteq> EV_NONE \<Longrightarrow>
      \<exists>p. addevent l fd ev = Some (l\<lparr>poller := p\<rparr>, 0)"
    and del_reliable: "synced watching limit l \<Longrightarrow> masks l fd \<noteq> EV_NONE \<Longrightarrow>
      \<exists>p. delevent l fd ev = Some (l\<lparr>poller := p\<rparr>, 0)"
begin

lemma create_reliable:
  assumes s: "synced watching limit l" and cb: "cb \<noteq> 0" and ev: "ev \<noteq> EV_NONE"
    and fd: "1 \<le> fd" and e: "event_at l fd = Some e" "evmask e \<noteq> EV_NONE"
  shows "\<exists>l'. create_event addevent l fd ev cb data = Some (l', 0) \<and> synced watching limit l' \<and> reg_frame l l'
    \<and> event_at l' = (event_at l)(fd \<mapsto> entry_after ev cb data e)"
proof -
  have m: "masks l fd \<noteq> EV_NONE" using event_at_masks [OF e(1)] e(2) by simp
  have "loop_ok l" using s by (simp add: synced_def)
  then have size: "fd < setsize l" using masks_range [OF _ m] by blast
  obtain l' r where l': "create_event addevent l fd ev cb data = Some (l', r)" "synced watching limit l'" "reg_frame l l'"
      "r = 0 \<and> 1 \<le> fd \<and> fd < setsize l \<and> masks l' = (masks l)(fd := masks l fd OR ev)
         \<and> event_at l' = (event_at l)(fd := map_option (entry_after ev cb data) (event_at l fd))
       \<or> r = -1 \<and> events l' = events l"
    using create_ok [OF s cb ev, of fd data] by blast
  obtain p where "addevent l fd ev = Some (l\<lparr>poller := p\<rparr>, 0)" using add_reliable [OF s m ev] by auto
  then have "r \<noteq> -1" using l'(1) fd size cb by (auto simp: create_event_def bind_eq_Some_conv Let_def)
  then show ?thesis using l' e(1) by (intro exI [of _ l']) simp
qed

lemma delete_reliable:
  assumes s: "synced watching limit l" and fd: "0 \<le> fd" "fd < setsize l"
  shows "\<exists>l'. delete_event delevent l fd ev = Some (l', 0) \<and> synced watching limit l' \<and> reg_frame l l'
    \<and> masks l' = (masks l)(fd := masks l fd AND NOT ev)
    \<and> event_at l' = (event_at l)(fd := map_option (\<lambda>e. e\<lparr>evmask := evmask e AND NOT ev\<rparr>) (event_at l fd))"
proof -
  obtain l' r where l': "delete_event delevent l fd ev = Some (l', r)" "synced watching limit l'" "reg_frame l l'"
      "r = 0 \<and> fd < setsize l \<and> masks l' = (masks l)(fd := masks l fd AND NOT ev)
         \<and> event_at l' = (event_at l)(fd := map_option (\<lambda>e. e\<lparr>evmask := evmask e AND NOT ev\<rparr>) (event_at l fd))
       \<or> r = -1 \<and> events l' = events l"
    using delete_ok [OF s fd(1), of ev] by blast
  have "loop_ok l" using s by (simp add: synced_def)
  then obtain e where e: "event_at l fd = Some e" using event_at_ok(1) [of l fd] fd by auto
  have "r \<noteq> -1"
  proof (cases "evmask e = EV_NONE")
    case True
    then show ?thesis using l'(1) e fd(2) by (simp add: delete_event_def)
  next
    case False
    then have "masks l fd \<noteq> EV_NONE" using event_at_masks [OF e] by simp
    then obtain p where "delevent l fd ev = Some (l\<lparr>poller := p\<rparr>, 0)" using del_reliable [OF s] by blast
    then show ?thesis using l'(1) fd
      by (auto simp: delete_event_def bind_eq_Some_conv Let_def split: if_splits)
  qed
  then show ?thesis using l' by auto
qed

end

section \<open>Dispatch\<close>

text \<open>A call for which the table has the callback with these data, and its event registered.\<close>

definition registered :: "('p, 'z) eloop_scheme \<Rightarrow> nat \<Rightarrow> int \<Rightarrow> ptr \<Rightarrow> bool" where
  "registered l cb fd data \<longleftrightarrow> (case event_at l fd of None \<Rightarrow> False
     | Some ev \<Rightarrow> evdata ev = data \<and> (evmask ev AND EV_RDABLE \<noteq> 0 \<and> evread ev = cb
         \<or> evmask ev AND EV_WRABLE \<noteq> 0 \<and> evwrite ev = cb))"

lemma and_left: "(w :: u32) AND e AND b \<noteq> 0 \<Longrightarrow> w AND b \<noteq> 0"
proof -
  assume "w AND e AND b \<noteq> 0"
  moreover have "w AND e AND b = (w AND b) AND e" by (simp only: ac_simps)
  ultimately show "w AND b \<noteq> 0" by auto
qed

lemma registered_trace: "registered (l\<lparr>etrace := t\<rparr>) cb fd data = registered l cb fd data"
proof -
  have "event_at (l\<lparr>etrace := t\<rparr>) fd = event_at l fd" by (simp add: event_at_def)
  then show ?thesis by (simp add: registered_def)
qed

lemma fire_event_agree:
  assumes "\<And>cb l fd data. registered l cb fd data \<Longrightarrow> f cb l fd data = g cb l fd data"
    and "registered l cb fd data"
  shows "fire_event f cb l fd data = fire_event g cb l fd data"
proof -
  have "registered (l\<lparr>etrace := etrace l @ [(cb, fd, data)]\<rparr>) cb fd data"
    using assms(2) by (simp only: registered_trace)
  then show ?thesis using assms(1) by (simp add: fire_event_def)
qed

lemma dispatch_agree:
  assumes "\<And>cb l fd data. registered l cb fd data \<Longrightarrow> f cb l fd data = g cb l fd data"
  shows "dispatch f n j l processed = dispatch g n j l processed"
proof (induction n arbitrary: j l processed)
  case (Suc n)
  have rd: "(if evmask ev AND e AND EV_RDABLE \<noteq> 0 then fire_event f (evread ev) l fd (evdata ev) else Some l) =
      (if evmask ev AND e AND EV_RDABLE \<noteq> 0 then fire_event g (evread ev) l fd (evdata ev) else Some l)"
    if "event_at l fd = Some ev" for ev e fd l
    using that and_left [of "evmask ev" e EV_RDABLE] fire_event_agree [of f g, OF assms]
    by (simp add: registered_def)
  have wr: "(if evmask ev AND e AND EV_WRABLE \<noteq> 0 then fire_event f (evwrite ev) l fd (evdata ev) else Some l) =
      (if evmask ev AND e AND EV_WRABLE \<noteq> 0 then fire_event g (evwrite ev) l fd (evdata ev) else Some l)"
    if "event_at l fd = Some ev" for ev e fd l
    using that and_left [of "evmask ev" e EV_WRABLE] fire_event_agree [of f g, OF assms]
    by (simp add: registered_def)
  show ?case
    unfolding dispatch.simps Let_def
    by (intro Option.bind_cong refl; (rule rd, assumption | rule wr, assumption | rule Suc.IH))
qed simp

text \<open>
  \<open>keeps Q fire\<close>: callbacks return when they are called as registered, and keep \<open>Q\<close>, which the dispatch
  needs, with the ready list and the size of the table.
\<close>

definition keeps :: "(('p, 'z) eloop_scheme \<Rightarrow> bool) \<Rightarrow> (nat \<Rightarrow> ('p, 'z) eloop_scheme \<Rightarrow> int \<Rightarrow> ptr \<Rightarrow> ('p, 'z) eloop_scheme option) \<Rightarrow> bool" where
  "keeps Q fire \<longleftrightarrow> (\<forall>l. Q l \<longrightarrow> loop_ok l) \<and> (\<forall>l t. Q l \<longrightarrow> Q (l\<lparr>etrace := t\<rparr>))
     \<and> (\<forall>cb l fd data. cb \<noteq> 0 \<longrightarrow> Q l \<longrightarrow> registered l cb fd data \<longrightarrow> 0 \<le> fd \<longrightarrow> fd < setsize l \<longrightarrow> (\<exists>l'. fire cb l fd data = Some l' \<and> Q l'
         \<and> actives l' = actives l \<and> setsize l' = setsize l))"

lemma keepsD:
  "keeps Q fire \<Longrightarrow> cb \<noteq> 0 \<Longrightarrow> Q l \<Longrightarrow> registered l cb fd data \<Longrightarrow> 0 \<le> fd \<Longrightarrow> fd < setsize l \<Longrightarrow>
     \<exists>l'. fire cb l fd data = Some l' \<and> Q l' \<and> actives l' = actives l \<and> setsize l' = setsize l"
  unfolding keeps_def by blast

lemma fire_event_ok:
  assumes "keeps Q fire" and "Q l" and "0 \<le> fd" and "fd < setsize l" and "cb \<noteq> 0" and "registered l cb fd data"
  shows "\<exists>l'. fire_event fire cb l fd data = Some l' \<and> Q l' \<and> actives l' = actives l \<and> setsize l' = setsize l"
proof -
  let ?l = "l\<lparr>etrace := etrace l @ [(cb, fd, data)]\<rparr>"
  have "Q ?l" using assms(1,2) unfolding keeps_def by blast
  moreover have "fd < setsize ?l" using assms(4) by simp
  moreover have "registered ?l cb fd data" using assms(6) by (simp only: registered_trace)
  ultimately have "\<exists>l'. fire cb ?l fd data = Some l' \<and> Q l' \<and> actives l' = actives ?l \<and> setsize l' = setsize ?l"
    using assms(1,3,5) by (intro keepsD [of Q fire]) simp_all
  then show ?thesis using assms(5) by (simp add: fire_event_def)
qed

lemma fire_if_ok:
  assumes "keeps Q fire" and "Q l" and "0 \<le> fd" and "fd < setsize l" and "c \<Longrightarrow> cb \<noteq> 0"
    and "c \<Longrightarrow> registered l cb fd data"
  shows "\<exists>l'. (if c then fire_event fire cb l fd data else Some l) = Some l' \<and> Q l' \<and> actives l' = actives l
    \<and> setsize l' = setsize l"
  using fire_event_ok [OF assms(1-4)] assms(2,5,6) by (cases c) simp_all

lemma dispatch_ok:
  assumes keep: "keeps Q fire" and "Q l" and "j + n \<le> length (actives l)"
    and "\<forall>i < j + n. 0 \<le> afd (actives l ! i) \<and> afd (actives l ! i) < setsize l"
  shows "\<exists>l'. dispatch fire n j l processed = Some (l', processed + int n) \<and> Q l' \<and> setsize l' = setsize l"
  using assms(2-4)
proof (induction n arbitrary: j l processed)
  case (Suc n)
  have sync: "loop_ok l" if "Q l" for l using keep that unfolding keeps_def by blast
  define a where "a = actives l ! j"
  have ld: "aload (actives l) j = Some a" and fd: "0 \<le> afd a" "afd a < setsize l"
    using Suc.prems(2,3) by (auto simp: a_def)
  define e1 where "e1 = events l ! nat (afd a)"
  have at1: "event_at l (afd a) = Some e1" "entry_ok e1"
    using event_at_ok [OF sync [OF Suc.prems(1)] fd] by (simp_all add: e1_def)
  have "\<exists>l1. (if evmask e1 AND aevent a AND EV_RDABLE \<noteq> 0 then fire_event fire (evread e1) l (afd a) (evdata e1)
      else Some l) = Some l1 \<and> Q l1 \<and> actives l1 = actives l \<and> setsize l1 = setsize l"
    using at1 and_left [of "evmask e1"]
    by (intro fire_if_ok [OF keep Suc.prems(1) fd]) (simp_all add: entry_ok_def registered_def)
  then obtain l1 where l1: "(if evmask e1 AND aevent a AND EV_RDABLE \<noteq> 0
        then fire_event fire (evread e1) l (afd a) (evdata e1) else Some l) = Some l1"
      "Q l1" "actives l1 = actives l" "setsize l1 = setsize l"
    by blast
  have fd1: "0 \<le> afd a" "afd a < setsize l1" using fd l1(4) by simp_all
  define e2 where "e2 = events l1 ! nat (afd a)"
  have at2: "event_at l1 (afd a) = Some e2" "entry_ok e2"
    using event_at_ok [OF sync [OF l1(2)]] fd l1(4) by (simp_all add: e2_def)
  have "\<exists>l2. (if evmask e2 AND aevent a AND EV_WRABLE \<noteq> 0 then fire_event fire (evwrite e2) l1 (afd a) (evdata e2)
      else Some l1) = Some l2 \<and> Q l2 \<and> actives l2 = actives l1 \<and> setsize l2 = setsize l1"
    using at2 and_left [of "evmask e2"]
    by (intro fire_if_ok [OF keep l1(2) fd1]) (simp_all add: entry_ok_def registered_def)
  then obtain l2 where l2: "(if evmask e2 AND aevent a AND EV_WRABLE \<noteq> 0
        then fire_event fire (evwrite e2) l1 (afd a) (evdata e2) else Some l1) = Some l2"
      "Q l2" "actives l2 = actives l1" "setsize l2 = setsize l1"
    by blast
  obtain l' where l': "dispatch fire n (Suc j) l2 (processed + 1) = Some (l', processed + 1 + int n)" "Q l'"
      "setsize l' = setsize l2"
    using Suc.IH [OF l2(2), of "Suc j" "processed + 1"] Suc.prems(2,3) l1(3,4) l2(3,4) by auto
  have "dispatch fire (Suc n) j l processed = Some (l', processed + int (Suc n))"
    using ld at1(1) l1(1) at2(1) l2(1) l'(1) by (simp add: Let_def)
  then show ?case using l'(2,3) l1(4) l2(4) by auto
qed simp

end
