(* ===== verification/Event_Backends.thy ===== *)
theory Event_Backends
  imports Event_Poller
begin

text \<open>
  The contract of a back end discharged for both of \<^verbatim>\<open>kznet/poller.c\<close>, and what the operations of the
  event loop do on each of them.
\<close>

unbundle bit_operations_syntax

section \<open>The back end on epoll\<close>

text \<open>
  What the kernel documents of \<^verbatim>\<open>epoll_ctl\<close> and \<^verbatim>\<open>epoll_wait\<close>. \<open>interest k\<close> is the interest list of the
  instance: the descriptors it watches, with the events asked for. A call that succeeds changes one
  entry, a call that fails none; \<^verbatim>\<open>epoll_wait\<close> changes none and stores at most as many entries as it was
  told to, of descriptors in the list.
\<close>

definition epoll_kernel :: "'k epoll_ctl \<Rightarrow> 'k epoll_wait \<Rightarrow> ('k \<Rightarrow> int \<rightharpoonup> u32) \<Rightarrow> bool" where
  "epoll_kernel ctl wait interest \<longleftrightarrow>
     (\<forall>k op fd e. interest (fst (ctl k op fd e)) =
        (if snd (ctl k op fd e) \<noteq> 0 then interest k
         else if op = CTL_DEL then (interest k)(fd := None) else (interest k)(fd \<mapsto> e)))
     \<and> (\<forall>k n t k' r es. wait k n t = (k', r, es) \<longrightarrow> interest k' = interest k
        \<and> (0 < r \<longrightarrow> r \<le> n \<and> nat r \<le> length es \<and> (\<forall>j < nat r. interest k (snd (es ! j)) \<noteq> None)))"

definition epoll_watching ::
    "'k epoll_ctl \<Rightarrow> 'k epoll_wait \<Rightarrow> ('k \<Rightarrow> int \<rightharpoonup> u32) \<Rightarrow> (int \<Rightarrow> u32) \<Rightarrow> 'k epoll \<Rightarrow> bool" where
  "epoll_watching ctl wait interest m p \<longleftrightarrow> epoll_kernel ctl wait interest
     \<and> (\<forall>fd. interest (kern p) fd = (if m fd = EV_NONE then None else Some (to_epoll (m fd))))"

lemma epoll_kernelD:
  assumes "epoll_kernel ctl wait interest"
  shows "ctl k op fd e = (k', r) \<Longrightarrow> interest k' =
      (if r \<noteq> 0 then interest k else if op = CTL_DEL then (interest k)(fd := None) else (interest k)(fd \<mapsto> e))"
    "wait k n t = (k', r, es) \<Longrightarrow> interest k' = interest k"
    "wait k n t = (k', r, es) \<Longrightarrow> 0 < r \<Longrightarrow> r \<le> n \<and> nat r \<le> length es
      \<and> (\<forall>j < nat r. interest k (snd (es ! j)) \<noteq> None)"
  using assms unfolding epoll_kernel_def by (metis fst_conv snd_conv, blast, blast)

lemma store_ready_ok:
  assumes "j + n \<le> length es" and "j + n \<le> length acts"
  shows "\<exists>acts'. store_ready es n j acts = Some acts' \<and> length acts' = length acts
    \<and> (\<forall>i < j. acts' ! i = acts ! i) \<and> (\<forall>i. j \<le> i \<longrightarrow> i < j + n \<longrightarrow>
        acts' ! i = \<lparr>afd = snd (es ! i), aevent = from_epoll (fst (es ! i))\<rparr>)"
  using assms
proof (induction n arbitrary: j acts)
  case (Suc n)
  let ?a = "\<lparr>afd = snd (es ! j), aevent = from_epoll (fst (es ! j))\<rparr>"
  obtain acts' where a: "store_ready es n (Suc j) (acts[j := ?a]) = Some acts'" "length acts' = length acts"
      "\<forall>i < Suc j. acts' ! i = acts[j := ?a] ! i"
      "\<forall>i. Suc j \<le> i \<longrightarrow> i < Suc j + n \<longrightarrow> acts' ! i = \<lparr>afd = snd (es ! i), aevent = from_epoll (fst (es ! i))\<rparr>"
    using Suc.IH [of "Suc j" "acts[j := ?a]"] Suc.prems by auto
  have "store_ready es (Suc n) j acts = Some acts'"
    using Suc.prems a(1) by (simp add: case_prod_beta)
  moreover have "acts' ! i = \<lparr>afd = snd (es ! i), aevent = from_epoll (fst (es ! i))\<rparr>"
    if "j \<le> i" "i < j + Suc n" for i
  proof (cases "i = j")
    case True
    then show ?thesis using a(3) Suc.prems(2) by simp
  next
    case False
    then have "Suc j \<le> i" "i < Suc j + n" using that by auto
    then show ?thesis using a(4) by blast
  qed
  ultimately show ?case using a(2,3) by auto
qed simp

lemma epoll_ctl_call_eq:
  "ctl (kern (poller l)) op fd e = (k, r) \<Longrightarrow>
     epoll_ctl_call ctl l op fd e = (l\<lparr>poller := (poller l)\<lparr>kern := k\<rparr>\<rparr>, r)"
  by (simp add: epoll_ctl_call_def)

lemma or_none: "(m :: u32) OR e = EV_NONE \<longleftrightarrow> m = EV_NONE \<and> e = EV_NONE"
  unfolding EV_NONE_def by (metis or_eq_0_iff)

interpretation epoll_backend: event_poller "epoll_watching ctl wait interest" "2 ^ 31"
    "epoll_addevent ctl" "epoll_delevent ctl" "epoll_poll wait"
  for ctl :: "'k epoll_ctl" and wait :: "'k epoll_wait" and interest
proof unfold_locales
  fix l :: "('k epoll, 'z) eloop_scheme" and fd and ev :: u32
  assume ok: "loop_ok l" and w: "epoll_watching ctl wait interest (masks l) (poller l)"
    and fd: "0 \<le> fd" "fd < setsize l" and ev: "ev \<noteq> EV_NONE"
  have kern: "epoll_kernel ctl wait interest" using w by (simp add: epoll_watching_def)
  let ?op = "if masks l fd = EV_NONE then CTL_ADD else CTL_MOD"
  obtain k r where c: "ctl (kern (poller l)) ?op fd (to_epoll (masks l fd OR ev)) = (k, r)" by fastforce
  have "epoll_addevent ctl l fd ev = Some (l\<lparr>poller := (poller l)\<lparr>kern := k\<rparr>\<rparr>, r)"
    using event_at_ok(1,2) [OF ok fd] epoll_ctl_call_eq [of ctl l, OF c]
    by (simp add: epoll_addevent_def Let_def or.commute [of ev])
  moreover have "epoll_watching ctl wait interest
      (if r = 0 then (masks l)(fd := masks l fd OR ev) else masks l) ((poller l)\<lparr>kern := k\<rparr>)"
    using w epoll_kernelD(1) [OF kern, OF c] ev by (auto simp: epoll_watching_def or_none)
  ultimately show "\<exists>p r. epoll_addevent ctl l fd ev = Some (l\<lparr>poller := p\<rparr>, r)
      \<and> epoll_watching ctl wait interest (if r = 0 then (masks l)(fd := masks l fd OR ev) else masks l) p"
    by blast
next
  fix l :: "('k epoll, 'z) eloop_scheme" and fd and ev :: u32
  assume ok: "loop_ok l" and w: "epoll_watching ctl wait interest (masks l) (poller l)"
    and reg: "masks l fd \<noteq> EV_NONE"
  have kern: "epoll_kernel ctl wait interest" using w by (simp add: epoll_watching_def)
  have fd: "0 \<le> fd" "fd < setsize l" using masks_range [OF ok reg] by simp_all
  let ?m = "masks l fd AND NOT ev"
  let ?op = "if ?m = EV_NONE then CTL_DEL else CTL_MOD"
  obtain k r where c: "ctl (kern (poller l)) ?op fd (to_epoll ?m) = (k, r)" by fastforce
  have "epoll_delevent ctl l fd ev = Some (l\<lparr>poller := (poller l)\<lparr>kern := k\<rparr>\<rparr>, r)"
    using event_at_ok(1,2) [OF ok fd] epoll_ctl_call_eq [of ctl l, OF c] by (simp add: epoll_delevent_def Let_def)
  moreover have "epoll_watching ctl wait interest
      (if r = 0 then (masks l)(fd := ?m) else masks l) ((poller l)\<lparr>kern := k\<rparr>)"
    using w epoll_kernelD(1) [OF kern, OF c] by (auto simp: epoll_watching_def)
  ultimately show "\<exists>p r. epoll_delevent ctl l fd ev = Some (l\<lparr>poller := p\<rparr>, r)
      \<and> epoll_watching ctl wait interest (if r = 0 then (masks l)(fd := masks l fd AND NOT ev) else masks l) p"
    by blast
next
  fix l :: "('k epoll, 'z) eloop_scheme" and t
  assume ok: "loop_ok l" and w: "epoll_watching ctl wait interest (masks l) (poller l)"
  have kern: "epoll_kernel ctl wait interest" using w by (simp add: epoll_watching_def)
  obtain k r es where c: "wait (kern (poller l)) (setsize l) t = (k, r, es)" by (cases "wait (kern (poller l)) (setsize l) t")
  let ?p = "(poller l)\<lparr>kern := k\<rparr>"
  have w': "epoll_watching ctl wait interest (masks l) ?p"
    using w epoll_kernelD(2) [OF kern, OF c] by (simp add: epoll_watching_def)
  show "\<exists>p acts n. epoll_poll wait l t = Some (l\<lparr>poller := p, actives := acts\<rparr>, n)
      \<and> epoll_watching ctl wait interest (masks l) p \<and> length acts = length (actives l) \<and> 0 \<le> n \<and> n \<le> setsize l
      \<and> (\<forall>j < nat n. masks l (afd (acts ! j)) \<noteq> EV_NONE)"
  proof (cases "0 < r")
    case False
    have "epoll_poll wait l t = Some (l\<lparr>poller := ?p, actives := actives l\<rparr>, 0)"
      using c False by (cases l) (simp add: epoll_poll_def)
    then show ?thesis using w' ok unfolding loop_ok_def by fastforce
  next
    case True
    note es = epoll_kernelD(3) [OF kern, OF c True]
    have len: "nat r \<le> length es" "nat r \<le> length (actives l)" using es ok by (auto simp: loop_ok_def)
    obtain acts where a: "store_ready es (nat r) 0 (actives l) = Some acts" "length acts = length (actives l)"
        "\<forall>i < nat r. acts ! i = \<lparr>afd = snd (es ! i), aevent = from_epoll (fst (es ! i))\<rparr>"
      using store_ready_ok [of 0 "nat r" es "actives l"] len by auto
    have "epoll_poll wait l t = Some (l\<lparr>poller := ?p, actives := acts\<rparr>, r)"
      using c True a(1) by (simp add: epoll_poll_def)
    moreover have "masks l (afd (acts ! j)) \<noteq> EV_NONE" if j: "j < nat r" for j
    proof -
      have "interest (kern (poller l)) (snd (es ! j)) \<noteq> None" using es j by blast
      then show ?thesis using a(3) j w by (auto simp: epoll_watching_def split: if_splits)
    qed
    ultimately show ?thesis using w' a(2) es True
      by (intro exI [of _ ?p] exI [of _ acts] exI [of _ r]) simp
  qed
qed

section \<open>The back end on select\<close>

text \<open>The sets hold the descriptors by their masks. The laws need nothing of the system call.\<close>

definition select_watching :: "(int \<Rightarrow> u32) \<Rightarrow> fdsets \<Rightarrow> bool" where
  "select_watching m p \<longleftrightarrow> rfds p = {fd. m fd AND EV_RDABLE \<noteq> 0} \<and> wfds p = {fd. m fd AND EV_WRABLE \<noteq> 0}"

lemma scan_ready_ok:
  assumes "loop_ok l" and "setsize l \<le> FD_SETSIZE" and "int (j + n) \<le> setsize l" and "k \<le> j"
    and "length acts = length (actives l)"
  shows "\<exists>acts' m. scan_ready l n j k acts = Some (acts', m) \<and> length acts' = length acts \<and> k \<le> m \<and> m \<le> k + n
    \<and> (\<forall>i < k. acts' ! i = acts ! i) \<and> (\<forall>i. k \<le> i \<longrightarrow> i < m \<longrightarrow> masks l (afd (acts' ! i)) \<noteq> EV_NONE)"
  using assms
proof (induction n arbitrary: j k acts)
  case (Suc n)
  have fd: "0 \<le> int j" "int j < setsize l" "int j < FD_SETSIZE" using Suc.prems(2,3) by simp_all
  define ev where "ev = events l ! j"
  have ev: "event_at l (int j) = Some ev" "masks l (int j) = evmask ev"
    using event_at_ok(1,2) [OF Suc.prems(1) fd(1,2)] by (simp_all add: ev_def)
  show ?case
  proof (cases "evmask ev = EV_NONE")
    case True
    then have "scan_ready l (Suc n) j k acts = scan_ready l n (Suc j) k acts" using ev(1) by simp
    then show ?thesis using Suc.IH [OF Suc.prems(1,2), of "Suc j" k acts] Suc.prems(3-5) by fastforce
  next
    case False
    define r where "r \<longleftrightarrow> evmask ev AND EV_RDABLE \<noteq> 0 \<and> int j \<in> crfds (poller l)"
    define w where "w \<longleftrightarrow> evmask ev AND EV_WRABLE \<noteq> 0 \<and> int j \<in> cwfds (poller l)"
    define a where "a = \<lparr>afd = int j,
      aevent = (if r then EV_RDABLE else EV_NONE) OR (if w then EV_WRABLE else EV_NONE)\<rparr>"
    have rw: "(if evmask ev AND EV_RDABLE \<noteq> 0 then fd_isset (int j) (crfds (poller l)) else Some False) = Some r"
      "(if evmask ev AND EV_WRABLE \<noteq> 0 then fd_isset (int j) (cwfds (poller l)) else Some False) = Some w"
      using fd(1,3) by (simp_all add: fd_isset_def r_def w_def)
    have "k < length acts" using Suc.prems(1,3-5) by (auto simp: loop_ok_def)
    then have step: "scan_ready l (Suc n) j k acts = scan_ready l n (Suc j) (k + 1) (acts[k := a])"
      using ev(1) False rw by (simp add: a_def Let_def)
    obtain acts' m where ih: "scan_ready l n (Suc j) (k + 1) (acts[k := a]) = Some (acts', m)"
        "length acts' = length acts" "k + 1 \<le> m" "m \<le> k + 1 + n" "\<forall>i < k + 1. acts' ! i = acts[k := a] ! i"
        "\<forall>i. k + 1 \<le> i \<longrightarrow> i < m \<longrightarrow> masks l (afd (acts' ! i)) \<noteq> EV_NONE"
      using Suc.IH [OF Suc.prems(1,2), of "Suc j" "k + 1" "acts[k := a]"] Suc.prems(3-5) by auto
    have "masks l (afd (acts' ! i)) \<noteq> EV_NONE" if "k \<le> i" "i < m" for i
    proof (cases "i = k")
      case True
      then have "acts' ! i = a" using ih(5) \<open>k < length acts\<close> by simp
      then show ?thesis using False ev(2) by (simp add: a_def)
    next
      case False
      then show ?thesis using ih(6) that by simp
    qed
    then show ?thesis using step ih(1-5) by (intro exI [of _ acts'] exI [of _ m]) simp
  qed
qed simp

lemma select_change_eq:
  assumes "0 \<le> fd" and "fd < FD_SETSIZE"
  shows "select_addevent l fd ev = Some (l\<lparr>poller := (poller l)\<lparr>
      rfds := (if ev AND EV_RDABLE \<noteq> 0 then insert fd (rfds (poller l)) else rfds (poller l)),
      wfds := (if ev AND EV_WRABLE \<noteq> 0 then insert fd (wfds (poller l)) else wfds (poller l))\<rparr>\<rparr>, 0)"
    "select_delevent l fd ev = Some (l\<lparr>poller := (poller l)\<lparr>
      rfds := (if ev AND EV_RDABLE \<noteq> 0 then rfds (poller l) - {fd} else rfds (poller l)),
      wfds := (if ev AND EV_WRABLE \<noteq> 0 then wfds (poller l) - {fd} else wfds (poller l))\<rparr>\<rparr>, 0)"
  using assms by (simp_all add: select_addevent_def select_delevent_def select_change_def fd_set_def fd_clr_def)

lemma select_watching_change:
  assumes "select_watching m p"
  shows "select_watching (m(fd := m fd OR ev)) (p\<lparr>
      rfds := (if ev AND EV_RDABLE \<noteq> 0 then insert fd (rfds p) else rfds p),
      wfds := (if ev AND EV_WRABLE \<noteq> 0 then insert fd (wfds p) else wfds p)\<rparr>)"
    "select_watching (m(fd := m fd AND NOT ev)) (p\<lparr>
      rfds := (if ev AND EV_RDABLE \<noteq> 0 then rfds p - {fd} else rfds p),
      wfds := (if ev AND EV_WRABLE \<noteq> 0 then wfds p - {fd} else wfds p)\<rparr>)"
  using assms mask_changes [of "m fd" ev] unfolding select_watching_def
  by (simp_all add: set_eq_iff) auto

interpretation select_backend: event_poller select_watching FD_SETSIZE select_addevent select_delevent
    "select_poll sel"
  for sel :: select_call
proof unfold_locales
  fix l :: "(fdsets, 'z) eloop_scheme" and fd and ev :: u32
  assume w: "select_watching (masks l) (poller l)" and lim: "setsize l \<le> FD_SETSIZE" and fd: "0 \<le> fd" "fd < setsize l"
  show "\<exists>p r. select_addevent l fd ev = Some (l\<lparr>poller := p\<rparr>, r)
      \<and> select_watching (if r = 0 then (masks l)(fd := masks l fd OR ev) else masks l) p"
  proof -
    define p where "p = (poller l)\<lparr>
      rfds := (if ev AND EV_RDABLE \<noteq> 0 then insert fd (rfds (poller l)) else rfds (poller l)),
      wfds := (if ev AND EV_WRABLE \<noteq> 0 then insert fd (wfds (poller l)) else wfds (poller l))\<rparr>"
    have "select_addevent l fd ev = Some (l\<lparr>poller := p\<rparr>, 0)"
      unfolding p_def using fd lim by (intro select_change_eq(1)) simp_all
    moreover have "select_watching ((masks l)(fd := masks l fd OR ev)) p"
      unfolding p_def by (rule select_watching_change(1) [OF w])
    ultimately show ?thesis by (intro exI [of _ p] exI [of _ 0]) simp
  qed
next
  fix l :: "(fdsets, 'z) eloop_scheme" and fd and ev :: u32
  assume w: "select_watching (masks l) (poller l)" and lim: "setsize l \<le> FD_SETSIZE" and ok: "loop_ok l"
    and reg: "masks l fd \<noteq> EV_NONE"
  show "\<exists>p r. select_delevent l fd ev = Some (l\<lparr>poller := p\<rparr>, r)
      \<and> select_watching (if r = 0 then (masks l)(fd := masks l fd AND NOT ev) else masks l) p"
  proof -
    define p where "p = (poller l)\<lparr>
      rfds := (if ev AND EV_RDABLE \<noteq> 0 then rfds (poller l) - {fd} else rfds (poller l)),
      wfds := (if ev AND EV_WRABLE \<noteq> 0 then wfds (poller l) - {fd} else wfds (poller l))\<rparr>"
    have "select_delevent l fd ev = Some (l\<lparr>poller := p\<rparr>, 0)"
      unfolding p_def using masks_range [OF ok reg] lim by (intro select_change_eq(2)) simp_all
    moreover have "select_watching ((masks l)(fd := masks l fd AND NOT ev)) p"
      unfolding p_def by (rule select_watching_change(2) [OF w])
    ultimately show ?thesis by (intro exI [of _ p] exI [of _ 0]) simp
  qed
next
  fix l :: "(fdsets, 'z) eloop_scheme" and t
  assume ok: "loop_ok l" and w: "select_watching (masks l) (poller l)" and lim: "setsize l \<le> FD_SETSIZE"
  obtain r R W where c: "sel (ticks l) (maxfd l + 1) (rfds (poller l)) (wfds (poller l))
      (t sdiv 1000, (t smod 1000) * 1000) = (r, R, W)"
    by (cases "sel (ticks l) (maxfd l + 1) (rfds (poller l)) (wfds (poller l)) (t sdiv 1000, (t smod 1000) * 1000)")
  define p where "p = (poller l)\<lparr>crfds := R, cwfds := W\<rparr>"
  have p: "(poller l)\<lparr>crfds := rfds (poller l), cwfds := wfds (poller l)\<rparr>\<lparr>crfds := R, cwfds := W\<rparr> = p"
    by (simp add: p_def)
  have w': "select_watching (masks l) p" using w by (simp add: select_watching_def p_def)
  have poll: "select_poll sel l t = (if 0 < r then do {
        (acts, numevents) \<leftarrow> scan_ready (l\<lparr>poller := p\<rparr>) (nat (maxfd l + 1)) 0 0 (actives l);
        Some (l\<lparr>poller := p, actives := acts\<rparr>, int numevents)
      } else Some (l\<lparr>poller := p\<rparr>, 0))"
    using c by (simp add: select_poll_def p_def Let_def)
  show "\<exists>p acts n. select_poll sel l t = Some (l\<lparr>poller := p, actives := acts\<rparr>, n)
      \<and> select_watching (masks l) p \<and> length acts = length (actives l) \<and> 0 \<le> n \<and> n \<le> setsize l
      \<and> (\<forall>j < nat n. masks l (afd (acts ! j)) \<noteq> EV_NONE)"
  proof (cases "0 < r")
    case False
    then have "select_poll sel l t = Some (l\<lparr>poller := p, actives := actives l\<rparr>, 0)"
      using poll by (cases l) simp
    then show ?thesis using w' ok unfolding loop_ok_def by fastforce
  next
    case True
    let ?l = "l\<lparr>poller := p\<rparr>"
    have ok': "loop_ok ?l" using loop_ok_cong [of ?l l] ok by simp
    have m': "masks ?l = masks l" by (rule masks_events) simp
    have n: "int (0 + nat (maxfd l + 1)) \<le> setsize ?l" using ok by (simp add: loop_ok_def)
    obtain acts m where a: "scan_ready ?l (nat (maxfd l + 1)) 0 0 (actives l) = Some (acts, m)"
        "length acts = length (actives l)" "m \<le> nat (maxfd l + 1)"
        "\<forall>i < m. masks l (afd (acts ! i)) \<noteq> EV_NONE"
      using scan_ready_ok [OF ok' _ n, of 0 "actives l"] lim m' by auto
    have "int m \<le> int (0 + nat (maxfd l + 1))" using a(3) by (simp only: add_0 of_nat_le_iff)
    then have "int m \<le> setsize l" using n by simp
    then show ?thesis using poll True a w'
      by (intro exI [of _ p] exI [of _ acts] exI [of _ "int m"]) simp
  qed
qed

interpretation select_reliable: reliable_poller select_watching FD_SETSIZE select_addevent select_delevent
    "select_poll sel"
  for sel :: select_call
proof unfold_locales
  fix l :: "(fdsets, 'z) eloop_scheme" and fd and ev :: u32
  assume "synced select_watching FD_SETSIZE l" and "masks l fd \<noteq> EV_NONE"
  then have fd: "0 \<le> fd" "fd < FD_SETSIZE" using masks_range [of l fd] by (auto simp: synced_def)
  show "\<exists>p. select_addevent l fd ev = Some (l\<lparr>poller := p\<rparr>, 0)"
    by (rule exI, rule select_change_eq(1) [OF fd])
  show "\<exists>p. select_delevent l fd ev = Some (l\<lparr>poller := p\<rparr>, 0)"
    by (rule exI, rule select_change_eq(2) [OF fd])
qed

text \<open>On \<^verbatim>\<open>select\<close> a new registration does not fail either.\<close>

lemma select_registers:
  assumes s: "synced select_watching FD_SETSIZE l" and cb: "cb \<noteq> 0" and ev: "ev \<noteq> EV_NONE"
    and fd: "1 \<le> fd" "fd < setsize l"
  shows "\<exists>l'. create_event select_addevent l fd ev cb data = Some (l', 0) \<and> synced select_watching FD_SETSIZE l'
    \<and> reg_frame l l' \<and> event_at l' = (event_at l)(fd := map_option (entry_after ev cb data) (event_at l fd))"
proof -
  obtain l' r where l': "create_event select_addevent l fd ev cb data = Some (l', r)" "synced select_watching FD_SETSIZE l'"
      "reg_frame l l'" "r = 0 \<and> 1 \<le> fd \<and> fd < setsize l \<and> masks l' = (masks l)(fd := masks l fd OR ev)
         \<and> event_at l' = (event_at l)(fd := map_option (entry_after ev cb data) (event_at l fd))
       \<or> r = -1 \<and> events l' = events l"
    using select_backend.create_ok [OF s cb ev, of fd data] by blast
  have "fd < FD_SETSIZE" "0 \<le> fd" using s fd by (simp_all add: synced_def)
  then have "r \<noteq> -1" using l'(1) fd cb select_change_eq(1) [of fd l ev]
    by (auto simp: create_event_def bind_eq_Some_conv Let_def)
  then show ?thesis using l' by auto
qed

text \<open>
  On \<^verbatim>\<open>epoll\<close> a new registration may fail, for want of memory or because the descriptor is closed, but
  a call that changes or removes the entry of a watched descriptor does not.
\<close>

definition epoll_steady :: "'k epoll_ctl \<Rightarrow> ('k \<Rightarrow> int \<rightharpoonup> u32) \<Rightarrow> bool" where
  "epoll_steady ctl interest \<longleftrightarrow>
     (\<forall>k op fd e. op \<noteq> CTL_ADD \<longrightarrow> interest k fd \<noteq> None \<longrightarrow> snd (ctl k op fd e) = 0)"

definition epoll_firm ::
    "'k epoll_ctl \<Rightarrow> 'k epoll_wait \<Rightarrow> ('k \<Rightarrow> int \<rightharpoonup> u32) \<Rightarrow> (int \<Rightarrow> u32) \<Rightarrow> 'k epoll \<Rightarrow> bool" where
  "epoll_firm ctl wait interest m p \<longleftrightarrow> epoll_watching ctl wait interest m p \<and> epoll_steady ctl interest"

interpretation epoll_reliable: reliable_poller "epoll_firm ctl wait interest" "2 ^ 31"
    "epoll_addevent ctl" "epoll_delevent ctl" "epoll_poll wait"
  for ctl :: "'k epoll_ctl" and wait :: "'k epoll_wait" and interest
proof unfold_locales
  fix l :: "('k epoll, 'z) eloop_scheme" and fd and ev :: u32 and t
  {
    assume "loop_ok l" "epoll_firm ctl wait interest (masks l) (poller l)" "setsize l \<le> 2 ^ 31" "0 \<le> fd" "fd < setsize l"
      "ev \<noteq> EV_NONE"
    then show "\<exists>p r. epoll_addevent ctl l fd ev = Some (l\<lparr>poller := p\<rparr>, r)
        \<and> epoll_firm ctl wait interest (if r = 0 then (masks l)(fd := masks l fd OR ev) else masks l) p"
      using epoll_backend.add_law [of l ctl wait interest fd ev] by (simp add: epoll_firm_def)
  next
    assume "loop_ok l" "epoll_firm ctl wait interest (masks l) (poller l)" "setsize l \<le> 2 ^ 31" "masks l fd \<noteq> EV_NONE"
    then show "\<exists>p r. epoll_delevent ctl l fd ev = Some (l\<lparr>poller := p\<rparr>, r)
        \<and> epoll_firm ctl wait interest (if r = 0 then (masks l)(fd := masks l fd AND NOT ev) else masks l) p"
      using epoll_backend.del_law [of l ctl wait interest fd ev] by (simp add: epoll_firm_def)
  next
    assume "loop_ok l" "epoll_firm ctl wait interest (masks l) (poller l)" "setsize l \<le> 2 ^ 31"
    then show "\<exists>p acts n. epoll_poll wait l t = Some (l\<lparr>poller := p, actives := acts\<rparr>, n)
        \<and> epoll_firm ctl wait interest (masks l) p \<and> length acts = length (actives l) \<and> 0 \<le> n \<and> n \<le> setsize l
        \<and> (\<forall>j < nat n. masks l (afd (acts ! j)) \<noteq> EV_NONE)"
      using epoll_backend.poll_law [of l ctl wait interest t] by (simp add: epoll_firm_def)
  }
  assume "synced (epoll_firm ctl wait interest) (2 ^ 31) l" and m: "masks l fd \<noteq> EV_NONE"
  then have ok: "loop_ok l" and w: "epoll_watching ctl wait interest (masks l) (poller l)" and st: "epoll_steady ctl interest"
    by (simp_all add: synced_def epoll_firm_def)
  have fd: "0 \<le> fd" "fd < setsize l" using masks_range [OF ok m] by simp_all
  have listed: "interest (kern (poller l)) fd \<noteq> None" using w m by (simp add: epoll_watching_def)
  have call: "\<exists>p. epoll_ctl_call ctl l op fd e = (l\<lparr>poller := p\<rparr>, 0)" if "op \<noteq> CTL_ADD" for op e
  proof -
    obtain k r where c: "ctl (kern (poller l)) op fd e = (k, r)" by fastforce
    then have "r = 0" using st listed that unfolding epoll_steady_def by (metis snd_conv)
    then show ?thesis using epoll_ctl_call_eq [of ctl l, OF c] by blast
  qed
  show "\<exists>p. epoll_delevent ctl l fd ev = Some (l\<lparr>poller := p\<rparr>, 0)"
    using event_at_ok(1,2) [OF ok fd] call by (auto simp: epoll_delevent_def Let_def)
  show "\<exists>p. epoll_addevent ctl l fd ev = Some (l\<lparr>poller := p\<rparr>, 0)"
    using event_at_ok(1,2) [OF ok fd] m call by (auto simp: epoll_addevent_def Let_def)
qed

section \<open>A sample loop\<close>

text \<open>
  A loop of ten descriptors as the code creates it, and a kernel that accepts every call and reports
  descriptor 5 as readable whenever it is watched.
\<close>

definition sample_loop :: "'p \<Rightarrow> 'p eloop" where
  "sample_loop p = \<lparr>timers = Map.empty,
     theap = \<lparr>now = 0, all_slots = 16, tes = replicate 16 NULL, maxsize = 16, allocs = 0, psize = 0,
       head_next = NULL, tail = None\<rparr>,
     ticks = 0, trace = [], maxfd = -1, setsize = 10,
     events = replicate 10 \<lparr>evmask = EV_NONE, evdata = NULL, evread = 0, evwrite = 0\<rparr>,
     actives = replicate 10 \<lparr>afd = 0, aevent = 0\<rparr>, poller = p, stop = False, etrace = []\<rparr>"

definition sample_ctl :: "(int \<rightharpoonup> u32) epoll_ctl" where
  "sample_ctl k op fd e = (if op = CTL_DEL then k(fd := None) else k(fd \<mapsto> e), 0)"

definition sample_wait :: "(int \<rightharpoonup> u32) epoll_wait" where
  "sample_wait k n t = (k, if k 5 \<noteq> None \<and> 0 < n then 1 else 0, [(EPOLLIN, 5)])"

definition sample_epoll :: "(int \<rightharpoonup> u32) epoll" where
  "sample_epoll = \<lparr>epfd = 3, kern = Map.empty\<rparr>"

lemma sample_masks [simp]: "masks (sample_loop p) fd = EV_NONE"
  by (auto simp: masks_def sample_loop_def nth_Cons' numeral_eq_Suc)

lemma sample_loop_ok [simp]: "loop_ok (sample_loop p)"
  unfolding loop_ok_def sample_masks by (simp add: sample_loop_def entry_ok_def EV_NONE_def)

lemma sample_fields [simp]: "setsize (sample_loop p) = 10" "poller (sample_loop p) = p"
  by (simp_all add: sample_loop_def)

lemma sample_epoll_synced: "synced (epoll_watching sample_ctl sample_wait (\<lambda>k. k)) (2 ^ 31) (sample_loop sample_epoll)"
proof -
  have "epoll_kernel sample_ctl sample_wait (\<lambda>k. k)"
    unfolding epoll_kernel_def by (auto simp: sample_ctl_def sample_wait_def)
  then show ?thesis by (simp add: synced_def epoll_watching_def sample_epoll_def)
qed

lemma sample_select_synced:
  "synced select_watching FD_SETSIZE (sample_loop \<lparr>rfds = {}, wfds = {}, crfds = {}, cwfds = {}\<rparr>)"
  by (simp add: synced_def select_watching_def FD_SETSIZE_def EV_NONE_def)

section \<open>Properties\<close>

text \<open>
  C9. On \<^verbatim>\<open>epoll\<close>, \<^verbatim>\<open>create_event\<close> and \<^verbatim>\<open>delete_event\<close> keep the table of the loop, the interest list of the
  kernel and \<^verbatim>\<open>maxfd\<close> in agreement, whether the system call succeeds or fails. On success the events are
  added to, or taken from, the mask of the descriptor, whose entry gets the callback and the data, and
  all other entries stay as they are; on failure the table is unchanged.
\<close>

theorem epoll_registration:
  assumes "synced (epoll_watching ctl wait interest) (2 ^ 31) l" and "cb \<noteq> 0" and "ev \<noteq> EV_NONE"
  shows "(\<exists>l' r. create_event (epoll_addevent ctl) l fd ev cb data = Some (l', r)
      \<and> synced (epoll_watching ctl wait interest) (2 ^ 31) l' \<and> reg_frame l l'
      \<and> (r = 0 \<and> 1 \<le> fd \<and> fd < setsize l \<and> masks l' = (masks l)(fd := masks l fd OR ev)
           \<and> event_at l' = (event_at l)(fd := map_option (entry_after ev cb data) (event_at l fd))
         \<or> r = -1 \<and> events l' = events l))
    \<and> (0 \<le> fd \<longrightarrow> (\<exists>l' r. delete_event (epoll_delevent ctl) l fd ev = Some (l', r)
      \<and> synced (epoll_watching ctl wait interest) (2 ^ 31) l' \<and> reg_frame l l'
      \<and> (r = 0 \<and> fd < setsize l \<and> masks l' = (masks l)(fd := masks l fd AND NOT ev)
           \<and> event_at l' = (event_at l)(fd := map_option (\<lambda>e. e\<lparr>evmask := evmask e AND NOT ev\<rparr>) (event_at l fd))
         \<or> r = -1 \<and> events l' = events l)))"
  using epoll_backend.create_ok [OF assms] epoll_backend.delete_ok [OF assms(1)] by blast

theorem epoll_registration_witness:
  "\<exists>l'. create_event (epoll_addevent sample_ctl) (sample_loop sample_epoll) 5 EV_RDABLE 7 42 = Some (l', 0)
    \<and> synced (epoll_watching sample_ctl sample_wait (\<lambda>k. k)) (2 ^ 31) l' \<and> masks l' 5 = EV_RDABLE"
proof -
  have "EV_RDABLE \<noteq> EV_NONE" by (simp add: EV_RDABLE_def EV_NONE_def)
  then obtain l' r where l': "create_event (epoll_addevent sample_ctl) (sample_loop sample_epoll) 5 EV_RDABLE 7 42 = Some (l', r)"
      "synced (epoll_watching sample_ctl sample_wait (\<lambda>k. k)) (2 ^ 31) l'"
      "r = 0 \<and> masks l' = (masks (sample_loop sample_epoll))(5 := masks (sample_loop sample_epoll) 5 OR EV_RDABLE)
         \<or> r = -1"
    using epoll_registration [OF sample_epoll_synced, of 7 EV_RDABLE 5 42] by auto
  have "r = 0"
    using l'(1) by (simp add: create_event_def sample_loop_def sample_epoll_def epoll_addevent_def event_at_def
        epoll_ctl_call_def sample_ctl_def set_event_def Let_def)
  then show ?thesis using l' by (simp add: EV_NONE_def)
qed

text \<open>
  C29. On \<^verbatim>\<open>select\<close> with a table of at most \<^verbatim>\<open>FD_SETSIZE\<close> descriptors, registration succeeds for every
  descriptor from 1 to the size of the table, and the two sets of the back end always hold exactly the
  descriptors registered for reading and for writing. A larger table, which the code accepts, makes
  the registration of a descriptor from \<^verbatim>\<open>FD_SETSIZE\<close> on write outside the set.
\<close>

theorem select_registration:
  assumes "synced select_watching FD_SETSIZE l" and "cb \<noteq> 0" and "ev \<noteq> EV_NONE"
  shows "(\<exists>l' r. create_event select_addevent l fd ev cb data = Some (l', r)
      \<and> synced select_watching FD_SETSIZE l' \<and> (r = 0 \<longleftrightarrow> 1 \<le> fd \<and> fd < setsize l)
      \<and> masks l' = (if r = 0 then (masks l)(fd := masks l fd OR ev) else masks l))
    \<and> (0 \<le> fd \<longrightarrow> (\<exists>l' r. delete_event select_delevent l fd ev = Some (l', r)
      \<and> synced select_watching FD_SETSIZE l' \<and> (r = 0 \<longleftrightarrow> fd < setsize l)
      \<and> masks l' = (if r = 0 then (masks l)(fd := masks l fd AND NOT ev) else masks l)))
    \<and> (\<forall>big :: (fdsets, 'z) eloop_scheme. ev AND EV_RDABLE \<noteq> 0 \<and> FD_SETSIZE \<le> d \<and> d < setsize big
         \<longrightarrow> create_event select_addevent big d ev cb data = None)"
proof (intro conjI impI allI)
  have lim: "setsize l \<le> FD_SETSIZE" using assms(1) by (simp add: synced_def)
  obtain l' r where l': "create_event select_addevent l fd ev cb data = Some (l', r)"
      "synced select_watching FD_SETSIZE l'"
      "r = 0 \<and> 1 \<le> fd \<and> fd < setsize l \<and> masks l' = (masks l)(fd := masks l fd OR ev) \<or> r = -1 \<and> events l' = events l"
    using select_backend.create_ok [OF assms, of fd data] by blast
  have "r \<noteq> -1" if "1 \<le> fd" "fd < setsize l"
    using l'(1) that assms(2) select_change_eq(1) [of fd l ev] lim
    by (auto simp: create_event_def bind_eq_Some_conv Let_def)
  then show "\<exists>l' r. create_event select_addevent l fd ev cb data = Some (l', r)
      \<and> synced select_watching FD_SETSIZE l' \<and> (r = 0 \<longleftrightarrow> 1 \<le> fd \<and> fd < setsize l)
      \<and> masks l' = (if r = 0 then (masks l)(fd := masks l fd OR ev) else masks l)"
    using l' masks_events [of l' l] by (intro exI [of _ l'] exI [of _ r]) auto
next
  assume pos: "0 \<le> fd"
  have lim: "setsize l \<le> FD_SETSIZE" using assms(1) by (simp add: synced_def)
  obtain l' r where l': "delete_event select_delevent l fd ev = Some (l', r)"
      "synced select_watching FD_SETSIZE l'"
      "r = 0 \<and> fd < setsize l \<and> masks l' = (masks l)(fd := masks l fd AND NOT ev) \<or> r = -1 \<and> events l' = events l"
    using select_backend.delete_ok [OF assms(1) pos, of ev] by blast
  have "r \<noteq> -1" if "fd < setsize l"
    using l'(1) that pos select_change_eq(2) [of fd l ev] lim
    by (auto simp: delete_event_def bind_eq_Some_conv Let_def split: if_splits)
  then show "\<exists>l' r. delete_event select_delevent l fd ev = Some (l', r)
      \<and> synced select_watching FD_SETSIZE l' \<and> (r = 0 \<longleftrightarrow> fd < setsize l)
      \<and> masks l' = (if r = 0 then (masks l)(fd := masks l fd AND NOT ev) else masks l)"
    using l' masks_events [of l' l] by (intro exI [of _ l'] exI [of _ r]) auto
next
  fix big :: "(fdsets, 'z) eloop_scheme"
  assume "ev AND EV_RDABLE \<noteq> 0 \<and> FD_SETSIZE \<le> d \<and> d < setsize big"
  then show "create_event select_addevent big d ev cb data = None"
    using assms(2) by (simp add: create_event_def select_addevent_def select_change_def fd_set_def FD_SETSIZE_def)
qed

theorem select_registration_witness:
  "\<exists>l'. create_event select_addevent (sample_loop \<lparr>rfds = {}, wfds = {}, crfds = {}, cwfds = {}\<rparr>) 5 EV_RDABLE 7 42
      = Some (l', 0) \<and> masks l' 5 = EV_RDABLE \<and> synced select_watching FD_SETSIZE l'"
proof -
  have "EV_RDABLE \<noteq> EV_NONE" by (simp add: EV_RDABLE_def EV_NONE_def)
  then obtain l' r where "create_event select_addevent (sample_loop \<lparr>rfds = {}, wfds = {}, crfds = {}, cwfds = {}\<rparr>) 5 EV_RDABLE 7 42
      = Some (l', r)" "synced select_watching FD_SETSIZE l'" "r = 0"
      "masks l' = (masks (sample_loop \<lparr>rfds = {}, wfds = {}, crfds = {}, cwfds = {}\<rparr>))(5 := EV_NONE OR EV_RDABLE)"
    using select_registration [OF sample_select_synced, of 7 EV_RDABLE 5 42, THEN conjunct1] by auto
  then show ?thesis by (intro exI [of _ l']) (simp add: EV_NONE_def)
qed

text \<open>
  C10. The loop over the ready descriptors calls a callback only for a descriptor that is registered at
  that moment, for an event it is registered for, with the data registered with it: an event removed
  by an earlier callback of the same turn is not delivered. So two loops whose callbacks agree on such
  calls do the same.
\<close>

theorem dispatch_registered_only:
  assumes "\<And>cb l fd data. registered l cb fd data \<Longrightarrow> f cb l fd data = g cb l fd data"
  shows "dispatch f n j l processed = dispatch g n j l processed"
  by (rule dispatch_agree [OF assms])

text \<open>
  Descriptors 5 and 6 are registered and reported as readable, and the callback of 5 removes 6. So the
  one call made is that for 5; a callback that checks its registration is not undefined on it.
\<close>

definition ready_loop :: "unit eloop" where
  "ready_loop = (sample_loop ())
     \<lparr>events := (events (sample_loop ()))
        [5 := \<lparr>evmask = EV_RDABLE, evdata = 42, evread = 7, evwrite = 0\<rparr>,
         6 := \<lparr>evmask = EV_RDABLE, evdata = 43, evread = 9, evwrite = 0\<rparr>],
      actives := [\<lparr>afd = 5, aevent = EV_RDABLE\<rparr>, \<lparr>afd = 6, aevent = EV_RDABLE\<rparr>]\<rparr>"

definition drop_six :: "unit eloop \<Rightarrow> unit eloop" where
  "drop_six l = l\<lparr>events := (events l)[6 := \<lparr>evmask = EV_NONE, evdata = 43, evread = 9, evwrite = 0\<rparr>]\<rparr>"

theorem dispatch_registered_only_witness:
  "\<exists>l. dispatch (\<lambda>cb l fd data. if registered l cb fd data then Some (drop_six l) else None) 2 0 ready_loop 0 = Some (l, 2)
    \<and> dispatch (\<lambda>cb l fd data. Some (drop_six l)) 2 0 ready_loop 0 = Some (l, 2) \<and> etrace l = [(7, 5, 42)]"
proof -
  have "dispatch (\<lambda>cb l fd data. if registered l cb fd data then Some (drop_six l) else None) 2 0 ready_loop 0
      = dispatch (\<lambda>cb l fd data. Some (drop_six l)) 2 0 ready_loop 0"
    by (rule dispatch_registered_only) simp
  moreover have "\<exists>l. dispatch (\<lambda>cb l fd data. Some (drop_six l)) 2 0 ready_loop 0 = Some (l, 2) \<and> etrace l = [(7, 5, 42)]"
    by (simp add: numeral_2_eq_2 ready_loop_def drop_six_def sample_loop_def event_at_def aload_def fire_event_def
        EV_RDABLE_def EV_WRABLE_def EV_NONE_def Let_def)
  ultimately show ?thesis by auto
qed

end
