(* ===== verification/Buffer.thy ===== *)
theory Buffer
  imports Prelude
begin

text \<open>
  The buffers of \<^verbatim>\<open>kznet/buffer.c\<close>: a pool of memory blocks and chains of partly filled blocks
  between what \<^verbatim>\<open>readv\<close> delivered and what \<^verbatim>\<open>writev\<close> accepted.

  The record \<open>buffer\<close> is the block with its header: \<open>bpos\<close> and \<open>blast\<close> are the offsets of \<^verbatim>\<open>pos\<close> and
  \<^verbatim>\<open>last\<close> from \<^verbatim>\<open>start\<close> in the data area \<open>bdata\<close>, which ends at \<^verbatim>\<open>end\<close>. \<^verbatim>\<open>head\<close> is part of the pool
  structure, so a tail that is \<open>None\<close> is its address. \<open>bstate\<close> is the memory all chains share.

  The kernel and the allocator are parameters: \<open>readv n m\<close> and \<open>writev n m\<close> are the answers to the \<open>n\<close>th
  system call, for \<open>m\<close> bytes, and \<open>alloc n h\<close> is the \<open>n\<close>th result of \<^verbatim>\<open>malloc\<close>; \<open>junk\<close> is the content of
  fresh memory. \<open>cin\<close> and \<open>cout\<close> are not in the code: they record the bytes a chain read from and wrote
  to its descriptor. \<open>None\<close> is undefined behaviour, a failed assertion, or a call that never returns.
\<close>

record buffer =
  bpos :: nat
  blast :: nat
  bdata :: "u8 list"
  bnext :: ptr

record buffer_pool =
  bmax :: int
  ballocs :: int
  bsize :: int
  bhead :: ptr
  btail :: "ptr option"

record bstate =
  bufs :: "ptr \<rightharpoonup> buffer"
  bpool :: buffer_pool
  mallocs :: nat
  ios :: nat

record buffer_chain =
  rbuf :: ptr
  wbuf :: ptr
  sent :: u64
  recv :: u64
  cin :: "u8 list"
  cout :: "u8 list"

datatype read_result = Bytes "u8 list" | Read_Error errno

datatype write_result = Count nat | Write_Error errno

type_synonym buf_heap = "ptr \<rightharpoonup> buffer"

text \<open>\<^verbatim>\<open>BUFFER_SIZE\<close>, \<^verbatim>\<open>BUFFER_HSIZE\<close> (five pointers) and \<^verbatim>\<open>SM_MAX_IOV\<close>.\<close>

definition BUFFER_SIZE :: nat where "BUFFER_SIZE = 4096"

definition BUFFER_HSIZE :: nat where "BUFFER_HSIZE = 40"

definition SM_MAX_IOV :: nat where "SM_MAX_IOV = 8"

abbreviation room :: nat where "room \<equiv> BUFFER_SIZE - BUFFER_HSIZE"

text \<open>The differences of pointers as values of \<^verbatim>\<open>size_t\<close>.\<close>

definition buffer_rsize :: "buffer \<Rightarrow> nat" where
  "buffer_rsize b = nat ((int (blast b) - int (bpos b)) mod 2 ^ 64)"

definition buffer_wsize :: "buffer \<Rightarrow> nat" where
  "buffer_wsize b = nat ((int (length (bdata b)) - int (blast b)) mod 2 ^ 64)"

section \<open>The pool\<close>

definition buffer_pool_create :: "(nat \<Rightarrow> bool) \<Rightarrow> int \<Rightarrow> buffer_pool option" where
  "buffer_pool_create mem msize =
     (if \<not> mem 64 then None
      else Some \<lparr>bmax = (if msize < 32 then 32 else msize), ballocs = 0, bsize = 0,
        bhead = NULL, btail = None\<rparr>)"

partial_function (option) free_buffers :: "ptr \<Rightarrow> buf_heap \<Rightarrow> buf_heap option" where
  "free_buffers cur h =
     (if cur = NULL then Some h
      else do {
        b \<leftarrow> load h cur;
        h \<leftarrow> dealloc h cur;
        free_buffers (bnext b) h
      })"

text \<open>What is left of the buffers after \<^verbatim>\<open>buffer_pool_delete\<close>.\<close>

definition buffer_pool_delete :: "bstate \<Rightarrow> buf_heap option" where
  "buffer_pool_delete s = free_buffers (bhead (bpool s)) (bufs s)"

definition new_buffer :: "(nat \<Rightarrow> u8) \<Rightarrow> buffer" where
  "new_buffer junk = \<lparr>bpos = 0, blast = 0, bdata = map junk [0..<room], bnext = NULL\<rparr>"

definition buffer_pool_peek ::
    "(nat \<Rightarrow> buf_heap \<Rightarrow> ptr) \<Rightarrow> (nat \<Rightarrow> u8) \<Rightarrow> bstate \<Rightarrow> bstate \<times> ptr" where
  "buffer_pool_peek alloc junk s =
     (if bhead (bpool s) \<noteq> NULL then (s, bhead (bpool s))
      else
        let buf = alloc (mallocs s) (bufs s); s = s\<lparr>mallocs := mallocs s + 1\<rparr> in
        if buf = NULL then (s, NULL)
        else (s\<lparr>bufs := (bufs s)(buf \<mapsto> new_buffer junk),
          bpool := (bpool s)\<lparr>bhead := buf, btail := Some buf, bsize := bsize (bpool s) + 1,
            ballocs := ballocs (bpool s) + 1\<rparr>\<rparr>, buf))"

definition buffer_detach :: "bstate \<Rightarrow> ptr \<Rightarrow> bstate option" where
  "buffer_detach s buf = do {
     b \<leftarrow> load (bufs s) buf;
     h \<leftarrow> store (bufs s) buf (b\<lparr>bnext := NULL\<rparr>);
     Some (s\<lparr>bufs := h, bpool := (bpool s)\<lparr>bhead := bnext b,
       btail := (if bnext b = NULL then None else btail (bpool s)), bsize := bsize (bpool s) - 1\<rparr>\<rparr>)
   }"

definition buffer_pool_get ::
    "(nat \<Rightarrow> buf_heap \<Rightarrow> ptr) \<Rightarrow> (nat \<Rightarrow> u8) \<Rightarrow> bstate \<Rightarrow> (bstate \<times> ptr) option" where
  "buffer_pool_get alloc junk s =
     (let (s, buf) = buffer_pool_peek alloc junk s in
      if buf = NULL then Some (s, NULL)
      else do { s \<leftarrow> buffer_detach s buf; Some (s, buf) })"

definition buffer_pool_put :: "bstate \<Rightarrow> ptr \<Rightarrow> (bstate \<times> int) option" where
  "buffer_pool_put s buf =
     (if buf = NULL then None
      else if ballocs (bpool s) > bmax (bpool s) then do {
        h \<leftarrow> dealloc (bufs s) buf;
        Some (s\<lparr>bufs := h, bpool := (bpool s)\<lparr>ballocs := ballocs (bpool s) - 1\<rparr>\<rparr>, 0)
      } else do {
        h \<leftarrow> modify (bufs s) buf (\<lambda>b. b\<lparr>bnext := NULL, bpos := 0, blast := 0\<rparr>);
        (h, hd_next) \<leftarrow> (case btail (bpool s) of
            None \<Rightarrow> Some (h, buf)
          | Some t \<Rightarrow> do { h \<leftarrow> modify h t (bnext_update (\<lambda>_. buf)); Some (h, bhead (bpool s)) });
        Some (s\<lparr>bufs := h, bpool := (bpool s)\<lparr>bhead := hd_next, btail := Some buf,
          bsize := bsize (bpool s) + 1\<rparr>\<rparr>, 0)
      })"

section \<open>Receiving\<close>

text \<open>The bytes \<open>bs\<close> stored from offset \<open>i\<close> on, as the kernel does.\<close>

definition write_at :: "nat \<Rightarrow> u8 list \<Rightarrow> u8 list \<Rightarrow> u8 list" where
  "write_at i bs xs = take i xs @ bs @ drop (i + length bs) xs"

text \<open>The block \<^verbatim>\<open>wbuf\<close> takes the bytes \<open>bs\<close>, and the block \<^verbatim>\<open>temp\<close> is linked behind it with the rest.\<close>

definition fill :: "u8 list \<Rightarrow> buffer \<Rightarrow> buffer" where
  "fill bs b = b\<lparr>bdata := write_at (blast b) bs (bdata b), blast := blast b + length bs\<rparr>"

definition fill_temp :: "u8 list \<Rightarrow> buffer \<Rightarrow> buffer" where
  "fill_temp bs b = b\<lparr>bdata := write_at (blast b) bs (bdata b), blast := bpos b + length bs\<rparr>"

partial_function (option) recv_loop ::
    "(nat \<Rightarrow> nat \<Rightarrow> read_result) \<Rightarrow> (nat \<Rightarrow> buf_heap \<Rightarrow> ptr) \<Rightarrow> (nat \<Rightarrow> u8) \<Rightarrow> buffer_chain \<Rightarrow> bstate \<Rightarrow>
     (buffer_chain \<times> bstate \<times> int) option" where
  "recv_loop readv alloc junk c s = do {
     w \<leftarrow> load (bufs s) (wbuf c);
     let wlen = buffer_wsize w;
     let (s, temp) = buffer_pool_peek alloc junk s;
     t \<leftarrow> load (bufs s) temp;
     let tlen = buffer_wsize t;
     let n = ios s;
     let s = s\<lparr>ios := n + 1\<rparr>;
     (case readv n (wlen + tlen) of
        Read_Error e \<Rightarrow>
          if e = EAGAIN then Some (c, s, 1)
          else if e = EINTR then recv_loop readv alloc junk c s
          else Some (c, s, -1)
      | Bytes bs \<Rightarrow>
          if bs = [] then Some (c, s, 0)
          else do {
            let c = c\<lparr>recv := recv c + of_nat (length bs), cin := cin c @ bs\<rparr>;
            if length bs \<le> wlen then do {
              h \<leftarrow> modify (bufs s) (wbuf c) (fill bs);
              Some (c, s\<lparr>bufs := h\<rparr>, 1)
            } else do {
              h \<leftarrow> modify (bufs s) (wbuf c) (fill (take wlen bs));
              s \<leftarrow> buffer_detach (s\<lparr>bufs := h\<rparr>) temp;
              h \<leftarrow> modify (bufs s) temp (fill_temp (drop wlen bs));
              h \<leftarrow> modify h (wbuf c) (bnext_update (\<lambda>_. temp));
              let c = c\<lparr>wbuf := temp\<rparr>;
              if length bs \<noteq> wlen + tlen then Some (c, s\<lparr>bufs := h\<rparr>, 1)
              else recv_loop readv alloc junk c (s\<lparr>bufs := h\<rparr>)
            }
          })
   }"

definition buffer_chain_recv ::
    "(nat \<Rightarrow> nat \<Rightarrow> read_result) \<Rightarrow> (nat \<Rightarrow> buf_heap \<Rightarrow> ptr) \<Rightarrow> (nat \<Rightarrow> u8) \<Rightarrow> buffer_chain \<Rightarrow> bstate \<Rightarrow>
     (buffer_chain \<times> bstate \<times> int) option" where
  "buffer_chain_recv readv alloc junk c s = recv_loop readv alloc junk (c\<lparr>recv := 0\<rparr>) s"

section \<open>Sending\<close>

partial_function (option) shrink_chain ::
    "buffer_chain \<Rightarrow> nat \<Rightarrow> bstate \<Rightarrow> (buffer_chain \<times> bstate \<times> ptr) option" where
  "shrink_chain c len s =
     (if rbuf c \<noteq> wbuf c then do {
        let buf = rbuf c;
        b \<leftarrow> load (bufs s) buf;
        let rlen = buffer_rsize b;
        if rlen \<le> len then do {
          let c = c\<lparr>rbuf := bnext b\<rparr>;
          (s, _) \<leftarrow> buffer_pool_put s buf;
          shrink_chain c (len - rlen) s
        } else do {
          h \<leftarrow> modify (bufs s) buf (\<lambda>b. b\<lparr>bpos := bpos b + len\<rparr>);
          Some (c, s\<lparr>bufs := h\<rparr>, buf)
        }
      } else do {
        let buf = rbuf c;
        b \<leftarrow> load (bufs s) buf;
        if buffer_rsize b < len then None
        else do {
          let b = b\<lparr>bpos := bpos b + len\<rparr>;
          let b = (if bpos b = blast b then b\<lparr>bpos := 0, blast := 0\<rparr> else b);
          h \<leftarrow> store (bufs s) buf b;
          Some (c, s\<lparr>bufs := h\<rparr>, buf)
        }
      })"

text \<open>
  The readable bytes of a block, and the entries of \<^verbatim>\<open>vec\<close>: at most \<open>n\<close> blocks from \<open>buf\<close> on. The
  kernel reads the given number of bytes, which must lie inside the block.
\<close>

definition payload :: "buffer \<Rightarrow> u8 list" where
  "payload b = take (buffer_rsize b) (drop (bpos b) (bdata b))"

fun gather :: "nat \<Rightarrow> buf_heap \<Rightarrow> ptr \<Rightarrow> u8 list list option" where
  "gather 0 h buf = Some []"
| "gather (Suc n) h buf =
     (if buf = NULL then Some []
      else do {
        b \<leftarrow> load h buf;
        vec \<leftarrow> gather n h (bnext b);
        if bpos b + buffer_rsize b \<le> length (bdata b) then Some (payload b # vec) else None
      })"

partial_function (option) send_loop ::
    "(nat \<Rightarrow> nat \<Rightarrow> write_result) \<Rightarrow> buffer_chain \<Rightarrow> bstate \<Rightarrow> (buffer_chain \<times> bstate \<times> int) option" where
  "send_loop writev c s = do {
     vec \<leftarrow> gather SM_MAX_IOV (bufs s) (rbuf c);
     let total = length (concat vec);
     let n = ios s;
     let s = s\<lparr>ios := n + 1\<rparr>;
     (case writev n total of
        Write_Error e \<Rightarrow>
          if e = EAGAIN then Some (c, s, 1)
          else if e = EINTR then send_loop writev c s
          else Some (c, s, -1)
      | Count rv \<Rightarrow>
          if rv = 0 then Some (c, s, 0)
          else do {
            let c = c\<lparr>sent := sent c + of_nat rv, cout := cout c @ take rv (concat vec)\<rparr>;
            (c, s, buf) \<leftarrow> shrink_chain c rv s;
            b \<leftarrow> load (bufs s) buf;
            if rv \<noteq> total \<or> bpos b = blast b then Some (c, s, 1)
            else send_loop writev c s
          })
   }"

definition buffer_chain_send ::
    "(nat \<Rightarrow> nat \<Rightarrow> write_result) \<Rightarrow> buffer_chain \<Rightarrow> bstate \<Rightarrow> (buffer_chain \<times> bstate \<times> int) option" where
  "buffer_chain_send writev c s = send_loop writev (c\<lparr>sent := 0\<rparr>) s"

end
