(* ===== verification/Socket.thy ===== *)
theory Socket
  imports Prelude
begin

text \<open>
  The socket functions of \<^verbatim>\<open>kznet/socket.c\<close>: options of descriptors, connecting, serving, accepting.

  \<open>net\<close> is the state of the process as far as the code depends on it: the open descriptors, the number
  of system calls so far and of those of \<^verbatim>\<open>accept\<close> among them, \<^verbatim>\<open>errno\<close>, the error buffer, and the number
  of address lists that are not freed.
  The record \<open>sock_env\<close> holds what the functions get from outside: \<open>fails n\<close> tells whether the \<open>n\<close>th system
  call fails and with which error, \<open>refuses k\<close> the same for the \<open>k\<close>th call of \<^verbatim>\<open>accept\<close>, \<open>newfd\<close> is the descriptor a call that creates one returns, \<open>resolve\<close>
  is \<^verbatim>\<open>getaddrinfo\<close> (an error code or a list of addresses, for the name, the port text and the flag
  \<^verbatim>\<open>AI_PASSIVE\<close>), \<open>address\<close> the socket address the \<open>n\<close>th call stores, and \<open>ntop\<close> is \<^verbatim>\<open>inet_ntop\<close>, which stores
  nothing when the buffer is too short. \<^verbatim>\<open>close\<close> succeeds on open descriptors and fails on others.
\<close>

unbundle bit_operations_syntax

datatype sockopt = TCP_NODELAY | SO_KEEPALIVE | SO_REUSEADDR

record addrinfo =
  ai_family :: nat
  ai_socktype :: nat
  ai_protocol :: nat
  ai_addr :: "u8 list"

record sockaddr =
  ss_family :: nat
  sin_port :: "16 word"
  sin_addr :: "u8 list"

datatype sock_phase = Created | Connecting "u8 list" | Connected "u8 list" | Bound "u8 list" | Listening "u8 list"

record sockd =
  status :: u32
  dflags :: u32
  options :: "sockopt \<rightharpoonup> int"
  phase :: sock_phase
  shut_rd :: bool
  shut_wr :: bool

record net =
  fds :: "int \<rightharpoonup> sockd"
  calls :: nat
  accepts :: nat
  err :: errno
  message :: string
  lists :: nat

record sock_env =
  fails :: "nat \<Rightarrow> errno option"
  refuses :: "nat \<Rightarrow> errno option"
  newfd :: "nat \<Rightarrow> (int \<rightharpoonup> sockd) \<Rightarrow> int"
  strerror :: "errno \<Rightarrow> string"
  resolve :: "string \<Rightarrow> string \<Rightarrow> bool \<Rightarrow> int + addrinfo list"
  gai_strerror :: "int \<Rightarrow> string"
  address :: "nat \<Rightarrow> sockaddr"
  ntop :: "nat \<Rightarrow> u8 list \<Rightarrow> int \<Rightarrow> string option"

definition AF_INET :: nat where "AF_INET = 2"

definition AF_INET6 :: nat where "AF_INET6 = 10"

definition O_NONBLOCK :: u32 where "O_NONBLOCK = 2048"

definition FD_CLOEXEC :: u32 where "FD_CLOEXEC = 1"

definition CONNECT_NONBLOCK :: u32 where "CONNECT_NONBLOCK = 1"

definition SOCKET_ERR_LEN :: nat where "SOCKET_ERR_LEN = 256"

section \<open>System calls\<close>

text \<open>One call: its number, and whether it fails, with \<^verbatim>\<open>errno\<close> set.\<close>

definition attempt :: "sock_env \<Rightarrow> net \<Rightarrow> net \<times> bool" where
  "attempt env n = (let m = n\<lparr>calls := calls n + 1\<rparr> in
     case fails env (calls n) of None \<Rightarrow> (m, True) | Some e \<Rightarrow> (m\<lparr>err := e\<rparr>, False))"

text \<open>A call that changes an open descriptor; on a closed one it fails (\<^verbatim>\<open>EBADF\<close>).\<close>

definition EBADF :: errno where "EBADF = Eother 9"

definition on_fd :: "sock_env \<Rightarrow> int \<Rightarrow> (sockd \<Rightarrow> sockd) \<Rightarrow> net \<Rightarrow> net \<times> int" where
  "on_fd env fd f n = (case fds n fd of
     None \<Rightarrow> (n\<lparr>calls := calls n + 1, err := EBADF\<rparr>, -1)
   | Some d \<Rightarrow> (let (n, ok) = attempt env n in
       if ok then (n\<lparr>fds := (fds n)(fd \<mapsto> f d)\<rparr>, 0) else (n, -1)))"

definition sys_getfl :: "sock_env \<Rightarrow> int \<Rightarrow> (sockd \<Rightarrow> u32) \<Rightarrow> net \<Rightarrow> net \<times> u32 option" where
  "sys_getfl env fd f n = (let (n, r) = on_fd env fd id n in
     (n, if r = -1 then None else map_option f (fds n fd)))"

definition sys_setsockopt :: "sock_env \<Rightarrow> int \<Rightarrow> sockopt \<Rightarrow> int \<Rightarrow> net \<Rightarrow> net \<times> int" where
  "sys_setsockopt env fd opt v = on_fd env fd (\<lambda>d. d\<lparr>options := (options d)(opt \<mapsto> v)\<rparr>)"

definition sys_socket :: "sock_env \<Rightarrow> addrinfo \<Rightarrow> net \<Rightarrow> net \<times> int" where
  "sys_socket env p n = (let (n, ok) = attempt env n in
     if ok then let fd = newfd env (calls n) (fds n) in
       (n\<lparr>fds := (fds n)(fd \<mapsto> \<lparr>status = 0, dflags = 0, options = Map.empty, phase = Created, shut_rd = False, shut_wr = False\<rparr>)\<rparr>, fd)
     else (n, -1))"

definition sys_close :: "int \<Rightarrow> net \<Rightarrow> net" where
  "sys_close fd n = (if fds n fd = None then n\<lparr>err := EBADF\<rparr> else n\<lparr>fds := (fds n)(fd := None)\<rparr>)"

text \<open>A connection attempt that would wait leaves a non-blocking descriptor connecting.\<close>

definition sys_connect :: "sock_env \<Rightarrow> int \<Rightarrow> addrinfo \<Rightarrow> net \<Rightarrow> net \<times> int" where
  "sys_connect env fd p n = (let (n, r) = on_fd env fd (phase_update (\<lambda>_. Connected (ai_addr p))) n in
     if r = -1 \<and> err n = EINPROGRESS
     then (n\<lparr>fds := (fds n)(fd := map_option (phase_update (\<lambda>_. Connecting (ai_addr p))) (fds n fd))\<rparr>, -1)
     else (n, r))"

definition sys_bind :: "sock_env \<Rightarrow> int \<Rightarrow> addrinfo \<Rightarrow> net \<Rightarrow> net \<times> int" where
  "sys_bind env fd p = on_fd env fd (phase_update (\<lambda>_. Bound (ai_addr p)))"

definition sys_listen :: "sock_env \<Rightarrow> int \<Rightarrow> net \<Rightarrow> net \<times> int" where
  "sys_listen env fd = on_fd env fd (phase_update (\<lambda>ph. case ph of Bound a \<Rightarrow> Listening a | _ \<Rightarrow> ph))"

text \<open>\<^verbatim>\<open>shutdown\<close>; \<open>wr\<close> tells \<^verbatim>\<open>SHUT_WR\<close> from \<^verbatim>\<open>SHUT_RD\<close>.\<close>

definition sys_shutdown :: "sock_env \<Rightarrow> int \<Rightarrow> bool \<Rightarrow> net \<Rightarrow> net \<times> int" where
  "sys_shutdown env fd wr =
     on_fd env fd (if wr then shut_wr_update (\<lambda>_. True) else shut_rd_update (\<lambda>_. True))"

text \<open>
  \<^verbatim>\<open>accept\<close> gives a new descriptor, which inherits no flags, and the address of the peer; on a descriptor
  that is not open, and when it is refused (as when nobody waits to be accepted), it fails.
\<close>

definition sys_accept :: "sock_env \<Rightarrow> int \<Rightarrow> net \<Rightarrow> net \<times> int \<times> sockaddr" where
  "sys_accept env sfd n = (let m = n\<lparr>calls := calls n + 1, accepts := accepts n + 1\<rparr>; sa = address env (calls m) in
     if fds n sfd = None then (m\<lparr>err := EBADF\<rparr>, -1, sa)
     else case refuses env (accepts n) of
       Some e \<Rightarrow> (m\<lparr>err := e\<rparr>, -1, sa)
     | None \<Rightarrow> let fd = newfd env (calls m) (fds m) in
         (m\<lparr>fds := (fds m)(fd \<mapsto> \<lparr>status = 0, dflags = 0, options = Map.empty, phase = Connected (sin_addr sa),
            shut_rd = False, shut_wr = False\<rparr>)\<rparr>, fd, sa))"

section \<open>Errors and options\<close>

text \<open>\<^verbatim>\<open>vsnprintf\<close> cuts the message at the size of the buffer; \<open>e\<close> tells whether there is one.\<close>

definition socket_error :: "bool \<Rightarrow> string \<Rightarrow> net \<Rightarrow> net" where
  "socket_error e text n = (if \<not> e then n else n\<lparr>message := take (SOCKET_ERR_LEN - 1) text\<rparr>)"

definition fail_with :: "sock_env \<Rightarrow> bool \<Rightarrow> string \<Rightarrow> net \<Rightarrow> net" where
  "fail_with env e text n = socket_error e (text @ strerror env (err n)) n"

definition set_nonblock :: "sock_env \<Rightarrow> bool \<Rightarrow> int \<Rightarrow> net \<Rightarrow> net \<times> int" where
  "set_nonblock env e fd n =
     (case sys_getfl env fd status n of
        (n, None) \<Rightarrow> (fail_with env e ''fcntl(F_GETFL): '' n, -1)
      | (n, Some flags) \<Rightarrow>
          (let (n, r) = on_fd env fd (status_update (\<lambda>_. flags OR O_NONBLOCK)) n in
           if r = -1 then (fail_with env e ''fcntl(F_SETFL,O_NONBLOCK): '' n, -1) else (n, 0)))"

definition set_close_on_exec :: "sock_env \<Rightarrow> bool \<Rightarrow> int \<Rightarrow> net \<Rightarrow> net \<times> int" where
  "set_close_on_exec env e fd n =
     (case sys_getfl env fd dflags n of
        (n, None) \<Rightarrow> (fail_with env e ''fcntl(F_GETFD): '' n, -1)
      | (n, Some flags) \<Rightarrow>
          (let (n, r) = on_fd env fd (dflags_update (\<lambda>_. flags OR FD_CLOEXEC)) n in
           if r = -1 then (fail_with env e ''fcntl(F_SETFD,FD_CLOEXEC): '' n, -1) else (n, 0)))"

definition set_tcp_nodelay :: "sock_env \<Rightarrow> bool \<Rightarrow> int \<Rightarrow> int \<Rightarrow> net \<Rightarrow> net \<times> int" where
  "set_tcp_nodelay env e fd on n =
     (let (n, r) = sys_setsockopt env fd TCP_NODELAY on n in
      if r = -1 then (fail_with env e ''setsockopt TCP_NODELAY: '' n, -1) else (n, 0))"

definition set_tcp_keepalive :: "sock_env \<Rightarrow> bool \<Rightarrow> int \<Rightarrow> int \<Rightarrow> net \<Rightarrow> net \<times> int" where
  "set_tcp_keepalive env e fd on n =
     (let (n, r) = sys_setsockopt env fd SO_KEEPALIVE on n in
      if r = -1 then (fail_with env e ''setsockopt SO_KEEPALIVE: '' n, -1) else (n, 0))"

definition set_reuseaddr :: "sock_env \<Rightarrow> bool \<Rightarrow> int \<Rightarrow> int \<Rightarrow> net \<Rightarrow> net \<times> int" where
  "set_reuseaddr env e fd on n =
     (let (n, r) = sys_setsockopt env fd SO_REUSEADDR on n in
      if r = -1 then (fail_with env e ''setsockopt SO_REUSEADDR: '' n, -1) else (n, 0))"

section \<open>Addresses\<close>

text \<open>The digits of \<^verbatim>\<open>%d\<close>, and the text the buffer of six characters holds.\<close>

fun digits :: "nat \<Rightarrow> string" where
  "digits k = (if k < 10 then [char_of (48 + k)] else digits (k div 10) @ [char_of (48 + k mod 10)])"

declare digits.simps [simp del]

definition decimal :: "int \<Rightarrow> string" where
  "decimal i = (if i < 0 then CHR 0x2D # digits (nat (- i)) else digits (nat i))"

definition port_text :: "int \<Rightarrow> string" where
  "port_text port = take 5 (decimal port)"

definition ntohs :: "16 word \<Rightarrow> 16 word" where
  "ntohs w = push_bit 8 w OR drop_bit 8 w"

text \<open>The buffers \<^verbatim>\<open>ip\<close> and \<^verbatim>\<open>port\<close> with their new contents; \<open>None\<close> for a null pointer.\<close>

definition sockaddr_tostring ::
    "sock_env \<Rightarrow> sockaddr \<Rightarrow> string option \<Rightarrow> int \<Rightarrow> int option \<Rightarrow> string option \<times> int option" where
  "sockaddr_tostring env sa ip ip_len port =
     (let family = (if ss_family sa = AF_INET then AF_INET else AF_INET6) in
      (map_option (\<lambda>old. case ntop env family (sin_addr sa) ip_len of None \<Rightarrow> old | Some t \<Rightarrow> t) ip,
       map_option (\<lambda>_. uint (ntohs (sin_port sa))) port))"

definition tcp_accept ::
    "sock_env \<Rightarrow> int \<Rightarrow> string option \<Rightarrow> int \<Rightarrow> int option \<Rightarrow> net \<Rightarrow> net \<times> int \<times> string option \<times> int option" where
  "tcp_accept env sfd ip ip_len port n =
     (let (n, fd, sa) = sys_accept env sfd n in
      if fd \<noteq> -1 then let (ip, port) = sockaddr_tostring env sa ip ip_len port in (n, fd, ip, port)
      else (n, fd, ip, port))"

text \<open>\<^verbatim>\<open>get_peer_name\<close> and \<^verbatim>\<open>get_sock_name\<close> differ in the system call only, whose answer is \<open>address\<close>.\<close>

definition get_name ::
    "sock_env \<Rightarrow> int \<Rightarrow> string option \<Rightarrow> int \<Rightarrow> int option \<Rightarrow> net \<Rightarrow> net \<times> int \<times> string option \<times> int option" where
  "get_name env fd ip ip_len port n =
     (let (n, r) = on_fd env fd id n in
      if r = -1 then (n, -1, map_option (\<lambda>_. ''?'') ip, map_option (\<lambda>_. 0) port)
      else let (ip, port) = sockaddr_tostring env (address env (calls n)) ip ip_len port in
      (n, 0, ip, port))"

section \<open>Connecting\<close>

text \<open>
  The loop over the addresses, with the current descriptor \<open>s\<close>; the last component tells whether it is
  left for the label \<^verbatim>\<open>end\<close>, else it is left for \<^verbatim>\<open>error\<close>.
\<close>

fun connect_loop :: "sock_env \<Rightarrow> bool \<Rightarrow> u32 \<Rightarrow> addrinfo list \<Rightarrow> int \<Rightarrow> net \<Rightarrow> net \<times> int \<times> bool" where
  "connect_loop env e flags [] s n = (fail_with env e ''creating socket: '' n, s, False)"
| "connect_loop env e flags (p # ps) s n =
     (let (n, s) = sys_socket env p n in
      if s = -1 then connect_loop env e flags ps s n
      else let (n, r) = set_reuseaddr env e s 1 n in
      if r \<noteq> 0 then (n, s, False)
      else let (n, r) = (if flags AND CONNECT_NONBLOCK \<noteq> 0 then set_nonblock env e s n else (n, 0)) in
      if r \<noteq> 0 then (n, s, False)
      else let (n, r) = sys_connect env s p n in
      if r = -1 then
        if err n = EINPROGRESS \<and> flags AND CONNECT_NONBLOCK \<noteq> 0 then (n, s, True)
        else connect_loop env e flags ps (-1) (sys_close s n)
      else (n, s, True))"

definition tcp_connect :: "sock_env \<Rightarrow> bool \<Rightarrow> string \<Rightarrow> int \<Rightarrow> u32 \<Rightarrow> net \<Rightarrow> net \<times> int" where
  "tcp_connect env e addr port flags n =
     (case resolve env addr (port_text port) False of
        Inl rv \<Rightarrow> (socket_error e (gai_strerror env rv) n, -1)
      | Inr servinfo \<Rightarrow>
          (let n = n\<lparr>lists := lists n + 1\<rparr>;
             (n, s, ok) = connect_loop env e flags servinfo (-1) n;
             (n, s) = (if ok then (n, s) else if s \<noteq> -1 then (sys_close s n, -1) else (n, s)) in
           (n\<lparr>lists := lists n - 1\<rparr>, s)))"

section \<open>Serving\<close>

text \<open>The loop yields the descriptor for the label \<^verbatim>\<open>end\<close>, or \<open>None\<close> when it is left for \<^verbatim>\<open>error\<close>.\<close>

fun serve_loop :: "sock_env \<Rightarrow> bool \<Rightarrow> addrinfo list \<Rightarrow> net \<Rightarrow> net \<times> int option" where
  "serve_loop env e [] n = (socket_error e ''unable to bind socket'' n, None)"
| "serve_loop env e (p # ps) n =
     (let (n, sfd) = sys_socket env p n in
      if sfd = -1 then serve_loop env e ps n
      else let (n, r) = set_reuseaddr env e sfd 1 n in
      if r \<noteq> 0 then (n, None)
      else let (n, r) = sys_bind env sfd p n in
      if r \<noteq> 0 then (sys_close sfd (fail_with env e ''bind: '' n), None)
      else let (n, r) = sys_listen env sfd n in
      if r \<noteq> 0 then (sys_close sfd (fail_with env e ''listen: '' n), None)
      else (n, Some sfd))"

definition tcp_server_serve :: "sock_env \<Rightarrow> bool \<Rightarrow> string \<Rightarrow> int \<Rightarrow> int \<Rightarrow> net \<Rightarrow> net \<times> int" where
  "tcp_server_serve env e addr port backlog n =
     (case resolve env addr (port_text port) True of
        Inl rv \<Rightarrow> (socket_error e (gai_strerror env rv) n, -1)
      | Inr servinfo \<Rightarrow>
          (let n = n\<lparr>lists := lists n + 1\<rparr>;
             (n, r) = serve_loop env e servinfo n in
           (n\<lparr>lists := lists n - 1\<rparr>, case r of None \<Rightarrow> -1 | Some sfd \<Rightarrow> sfd)))"

end
