(* ===== verification/Echo.thy ===== *)
theory Echo
  imports Event_Backends Buffer Socket
begin

text \<open>
  The echo server of \<^verbatim>\<open>kznet/demo.c\<close>: a client of the event loop, the buffer chains and the socket
  functions, which serves every connection by its callbacks.

  The record \<open>echo\<close> extends the event loop by what the callbacks use: the connections (\<^verbatim>\<open>connection_t\<close>,
  by address, each with its chain), the memory of the buffers with the global pool (\<open>has_pool\<close> tells
  whether it was created), the descriptors, the number of requests for memory the accepting loop makes, and
  the counters of bytes. A chain is reached from its connection only, so it has no address of its own:
  \<open>chain_served\<close> tells whether the request for it is served, and \<open>calloc\<close> gives the address of the
  connection; the code asserts that neither fails. Connections are never freed. What is printed is left out. The back end of the loop is given by its
  operations \<open>addev\<close> and \<open>delev\<close>.
\<close>

unbundle bit_operations_syntax

record connection =
  eof :: int
  writing :: int
  total :: u64
  chain :: buffer_chain

record 'p echo = "'p eloop" +
  conns :: "ptr \<rightharpoonup> connection"
  bmem :: bstate
  has_pool :: bool
  socks :: net
  requests :: nat
  prev_recv :: u64
  prev_send :: u64
  recv_total :: u64
  send_total :: u64

record io_env =
  readv :: "nat \<Rightarrow> nat \<Rightarrow> read_result"
  writev :: "nat \<Rightarrow> nat \<Rightarrow> write_result"
  balloc :: "nat \<Rightarrow> buf_heap \<Rightarrow> ptr"
  junk :: "nat \<Rightarrow> u8"
  sockets :: sock_env
  chain_served :: "nat \<Rightarrow> bool"
  calloc :: "nat \<Rightarrow> (ptr \<rightharpoonup> connection) \<Rightarrow> ptr"

type_synonym 'p registrar = "'p echo \<Rightarrow> int \<Rightarrow> u32 \<Rightarrow> ('p echo \<times> int) option"

text \<open>The callbacks, by number.\<close>

definition ACCEPT_CB :: nat where "ACCEPT_CB = 1"

definition READ_CB :: nat where "READ_CB = 2"

definition WRITE_CB :: nat where "WRITE_CB = 3"

definition PRINT_CB :: nat where "PRINT_CB = 4"

section \<open>The timer\<close>

definition print_info :: "'p echo \<Rightarrow> ptr \<Rightarrow> ('p echo \<times> int) option" where
  "print_info l data = Some (l\<lparr>prev_recv := recv_total l, prev_send := send_total l\<rparr>, 1000)"

section \<open>Connections\<close>

definition set_conn :: "'p echo \<Rightarrow> ptr \<Rightarrow> connection \<Rightarrow> 'p echo option" where
  "set_conn l p conn = do { m \<leftarrow> store (conns l) p conn; Some (l\<lparr>conns := m\<rparr>) }"

text \<open>\<^verbatim>\<open>delete_event(loop, fd, EV_RDABLE|EV_WRABLE); close(fd)\<close>\<close>

definition drop_client :: "'p registrar \<Rightarrow> 'p echo \<Rightarrow> int \<Rightarrow> 'p echo option" where
  "drop_client delev l fd = do {
     (l, _) \<leftarrow> delete_event delev l fd (EV_RDABLE OR EV_WRABLE);
     Some (l\<lparr>socks := sys_close fd (socks l)\<rparr>)
   }"

definition client_writecb :: "io_env \<Rightarrow> 'p registrar \<Rightarrow> 'p echo \<Rightarrow> int \<Rightarrow> ptr \<Rightarrow> 'p echo option" where
  "client_writecb env delev l fd data = do {
     conn \<leftarrow> load (conns l) data;
     (c, s, rv) \<leftarrow> buffer_chain_send (writev env) (chain conn) (bmem l);
     let conn = conn\<lparr>chain := c\<rparr>;
     l \<leftarrow> set_conn (l\<lparr>bmem := s\<rparr>) data conn;
     if rv < 0 then drop_client delev l fd
     else do {
       let conn = conn\<lparr>total := total conn - sent c\<rparr>;
       l \<leftarrow> set_conn (l\<lparr>send_total := send_total l + sent c\<rparr>) data conn;
       if total conn = 0 then do {
         (l, _) \<leftarrow> delete_event delev l fd EV_WRABLE;
         let conn = conn\<lparr>writing := 0\<rparr>;
         l \<leftarrow> set_conn l data conn;
         Some (if eof conn \<noteq> 0 then l\<lparr>socks := fst (sys_shutdown (sockets env) fd True (socks l))\<rparr> else l)
       } else Some l
     }
   }"

text \<open>The end of the read callback: what the chain holds is sent back at once.\<close>

definition echo_back ::
    "io_env \<Rightarrow> 'p registrar \<Rightarrow> 'p registrar \<Rightarrow> 'p echo \<Rightarrow> int \<Rightarrow> ptr \<Rightarrow> connection \<Rightarrow> 'p echo option" where
  "echo_back env addev delev l fd data conn = do {
     (c, s, rv) \<leftarrow> buffer_chain_send (writev env) (chain conn) (bmem l);
     let conn = conn\<lparr>chain := c\<rparr>;
     l \<leftarrow> set_conn (l\<lparr>bmem := s\<rparr>) data conn;
     if rv < 0 then drop_client delev l fd
     else do {
       let conn = conn\<lparr>total := total conn - sent c\<rparr>;
       l \<leftarrow> set_conn (l\<lparr>send_total := send_total l + sent c\<rparr>) data conn;
       if total conn > 0 then do {
         (l, _) \<leftarrow> create_event addev l fd EV_WRABLE WRITE_CB data;
         set_conn l data (conn\<lparr>writing := 1\<rparr>)
       } else Some l
     }
   }"

definition client_readcb ::
    "io_env \<Rightarrow> 'p registrar \<Rightarrow> 'p registrar \<Rightarrow> 'p echo \<Rightarrow> int \<Rightarrow> ptr \<Rightarrow> 'p echo option" where
  "client_readcb env addev delev l fd data = do {
     conn \<leftarrow> load (conns l) data;
     (c, s, rv) \<leftarrow> buffer_chain_recv (readv env) (balloc env) (junk env) (chain conn) (bmem l);
     let conn = conn\<lparr>chain := c\<rparr>;
     l \<leftarrow> set_conn (l\<lparr>bmem := s\<rparr>) data conn;
     if rv < 0 \<or> rv = 0 \<and> total conn = 0 then drop_client delev l fd
     else if rv = 0 then do {
       (l, _) \<leftarrow> delete_event delev l fd EV_RDABLE;
       let l = l\<lparr>socks := fst (sys_shutdown (sockets env) fd False (socks l))\<rparr>;
       set_conn l data (conn\<lparr>eof := 1\<rparr>)
     } else do {
       let conn = conn\<lparr>total := total conn + recv c\<rparr>;
       l \<leftarrow> set_conn (l\<lparr>recv_total := recv_total l + recv c\<rparr>) data conn;
       if writing conn \<noteq> 0 then Some l else echo_back env addev delev l fd data conn
     }
   }"

section \<open>Accepting\<close>

text \<open>The body of the loop for the new descriptor \<open>cfd\<close>.\<close>

definition accept_client :: "io_env \<Rightarrow> 'p registrar \<Rightarrow> int \<Rightarrow> 'p echo \<Rightarrow> 'p echo option" where
  "accept_client env addev cfd l = do {
     let (n, r) = set_nonblock (sockets env) True cfd (socks l);
     let n = (if r \<noteq> 0 then sys_close cfd n else n);
     let (n, r) = set_tcp_nodelay (sockets env) True cfd 1 n;
     let n = (if r \<noteq> 0 then sys_close cfd n else n);
     let l = l\<lparr>socks := n\<rparr>;
     let served = chain_served env (requests l);
     let l = l\<lparr>requests := requests l + 1\<rparr>;
     if \<not> served \<or> \<not> has_pool l then None
     else do {
       (s, buf) \<leftarrow> buffer_pool_get (balloc env) (junk env) (bmem l);
       let c = \<lparr>rbuf = buf, wbuf = buf, sent = 0, recv = 0, cin = [], cout = []\<rparr>;
       let l = l\<lparr>bmem := s\<rparr>;
       let p = calloc env (requests l) (conns l);
       let l = l\<lparr>requests := requests l + 1\<rparr>;
       if p = NULL then None
       else do {
         let l = l\<lparr>conns := (conns l)(p \<mapsto> \<lparr>eof = 0, writing = 0, total = 0, chain = c\<rparr>)\<rparr>;
         (l, _) \<leftarrow> create_event addev l cfd EV_RDABLE READ_CB p;
         Some l
       }
     }
   }"

partial_function (option) accept_loop :: "io_env \<Rightarrow> 'p registrar \<Rightarrow> int \<Rightarrow> 'p echo \<Rightarrow> 'p echo option" where
  "accept_loop env addev sfd l =
     (let (n, cfd, ip, port) = tcp_accept (sockets env) sfd (Some []) 256 (Some 0) (socks l);
        l = l\<lparr>socks := n\<rparr> in
      if cfd < 0 then Some l
      else do {
        l \<leftarrow> accept_client env addev cfd l;
        accept_loop env addev sfd l
      })"

definition server_accept_cb :: "io_env \<Rightarrow> 'p registrar \<Rightarrow> 'p echo \<Rightarrow> int \<Rightarrow> ptr \<Rightarrow> 'p echo option" where
  "server_accept_cb env addev l fd data = accept_loop env addev fd l"

text \<open>The callbacks by number.\<close>

definition echo_fire ::
    "io_env \<Rightarrow> 'p registrar \<Rightarrow> 'p registrar \<Rightarrow> nat \<Rightarrow> 'p echo \<Rightarrow> int \<Rightarrow> ptr \<Rightarrow> 'p echo option" where
  "echo_fire env addev delev cb l fd data =
     (if cb = ACCEPT_CB then server_accept_cb env addev l fd data
      else if cb = READ_CB then client_readcb env addev delev l fd data
      else if cb = WRITE_CB then client_writecb env delev l fd data
      else None)"

section \<open>The program\<close>

definition echo_call :: "nat \<Rightarrow> 'p echo \<Rightarrow> ptr \<Rightarrow> ('p echo \<times> int) option" where
  "echo_call cb l data = (if cb = PRINT_CB then print_info l data else None)"

definition SOMAXCONN :: int where "SOMAXCONN = 4096"

text \<open>
  The part of \<^verbatim>\<open>main\<close> in front of \<^verbatim>\<open>event_loop_start\<close>: \<open>Inl\<close> is an early return, with the descriptors then
  open. The arguments are those of \<open>event_loop_create\<close> and \<open>create_timer\<close>, and the descriptors \<open>n\<close> of the
  process. The pool of the buffers is created first; its result is not checked.
\<close>

definition echo_setup ::
    "io_env \<Rightarrow> (int \<Rightarrow> bool) \<Rightarrow> ptr \<Rightarrow> clock \<Rightarrow> 'p option \<Rightarrow> (nat \<Rightarrow> ev_event) \<Rightarrow> (nat \<Rightarrow> ev_active) \<Rightarrow>
     'p registrar \<Rightarrow> net \<Rightarrow> (net + 'p echo) option" where
  "echo_setup env mem tp clk pnew junke junka addev n =
     (let pool = buffer_pool_create (\<lambda>k. mem (int k)) 100;
        (n, sfd) = tcp_server_serve (sockets env) True ''localhost'' 3456 SOMAXCONN n in
      if sfd < 0 then Some (Inl n)
      else let (n, r) = set_nonblock (sockets env) True sfd n in
      if r \<noteq> 0 then Some (Inl n)
      else let (n, r) = set_tcp_nodelay (sockets env) True sfd 1 n in
      if r \<noteq> 0 then Some (Inl n)
      else do {
        loop \<leftarrow> event_loop_create mem pnew junke junka 100 10;
        let s = \<lparr>bufs = Map.empty, bpool = (case pool of Some p \<Rightarrow> p
          | None \<Rightarrow> \<lparr>bmax = 0, ballocs = 0, bsize = 0, bhead = NULL, btail = None\<rparr>), mallocs = 0, ios = 0\<rparr>;
        let l = eloop.extend loop (echo.fields Map.empty s (pool \<noteq> None) n 0 0 0 0 0);
        (l, _) \<leftarrow> create_timer tp mem clk l 1000 PRINT_CB NULL;
        (l, _) \<leftarrow> create_event addev l sfd EV_RDABLE ACCEPT_CB NULL;
        Some (Inr l)
      })"

definition echo_main ::
    "io_env \<Rightarrow> (int \<Rightarrow> bool) \<Rightarrow> ptr \<Rightarrow> clock \<Rightarrow> 'p option \<Rightarrow> (nat \<Rightarrow> ev_event) \<Rightarrow> (nat \<Rightarrow> ev_active) \<Rightarrow>
     'p registrar \<Rightarrow> 'p registrar \<Rightarrow> ('p echo \<Rightarrow> int \<Rightarrow> ('p echo \<times> int) option) \<Rightarrow> net \<Rightarrow> (net + 'p echo) option" where
  "echo_main env mem tp clk pnew junke junka addev delev poll n = do {
     r \<leftarrow> echo_setup env mem tp clk pnew junke junka addev n;
     case r of
       Inl n \<Rightarrow> Some (Inl n)
     | Inr l \<Rightarrow> map_option Inr (event_loop_start
         (process_events poll (echo_fire env addev delev) echo_call clk) l)
   }"

end
