(* ===== verification/Buffer_Chain.thy ===== *)
theory Buffer_Chain
  imports Buffer
begin

text \<open>
  The invariant of the pool and of a chain of \<^verbatim>\<open>kznet/buffer.c\<close>, the bytes a chain holds, and what
  receiving and sending do to them.
\<close>

section \<open>The invariant\<close>

text \<open>
  \<open>chain_inv c s ps qs fs\<close>: the chain \<open>c\<close> consists of the blocks \<open>ps\<close>, the pool of the blocks \<open>qs\<close>, and
  \<open>fs\<close> are the other live blocks (of other chains). The bytes read and not yet written are the
  contents of the chain.
\<close>

definition next_of :: "buf_heap \<Rightarrow> ptr \<Rightarrow> ptr" where
  "next_of h p = bnext (the (h p))"

definition block_ok :: "buffer \<Rightarrow> bool" where
  "block_ok b \<longleftrightarrow> length (bdata b) = room \<and> bpos b \<le> blast b \<and> blast b \<le> room"

definition contents :: "buf_heap \<Rightarrow> ptr list \<Rightarrow> u8 list" where
  "contents h ps = concat (map (\<lambda>p. payload (the (h p))) ps)"

definition pool_ok :: "bstate \<Rightarrow> ptr list \<Rightarrow> bool" where
  "pool_ok s qs \<longleftrightarrow> bhead (bpool s) = hd (qs @ [NULL])
     \<and> btail (bpool s) = (if qs = [] then None else Some (last qs))
     \<and> bsize (bpool s) = int (length qs) \<and> linked (next_of (bufs s)) qs NULL
     \<and> (\<forall>q \<in> set qs. bpos (the (bufs s q)) = 0 \<and> blast (the (bufs s q)) = 0)"

definition chain_ok :: "buffer_chain \<Rightarrow> bstate \<Rightarrow> ptr list \<Rightarrow> bool" where
  "chain_ok c s ps \<longleftrightarrow> ps \<noteq> [] \<and> rbuf c = hd ps \<and> wbuf c = last ps
     \<and> linked (next_of (bufs s)) ps NULL"

definition memory_ok :: "bstate \<Rightarrow> ptr list \<Rightarrow> ptr list \<Rightarrow> ptr set \<Rightarrow> bool" where
  "memory_ok s ps qs fs \<longleftrightarrow> distinct (NULL # ps @ qs) \<and> fs \<inter> set (NULL # ps @ qs) = {} \<and> finite fs
     \<and> dom (bufs s) = set ps \<union> set qs \<union> fs
     \<and> ballocs (bpool s) = int (length ps + length qs + card fs)
     \<and> (\<forall>p \<in> set ps \<union> set qs. block_ok (the (bufs s p)))"

definition chain_inv :: "buffer_chain \<Rightarrow> bstate \<Rightarrow> ptr list \<Rightarrow> ptr list \<Rightarrow> ptr set \<Rightarrow> bool" where
  "chain_inv c s ps qs fs \<longleftrightarrow> memory_ok s ps qs fs \<and> pool_ok s qs \<and> chain_ok c s ps
     \<and> cin c = cout c @ contents (bufs s) ps"

text \<open>What an operation leaves untouched: the blocks of other chains.\<close>

definition others_kept :: "ptr set \<Rightarrow> bstate \<Rightarrow> bstate \<Rightarrow> bool" where
  "others_kept fs s s' \<longleftrightarrow> (\<forall>p \<in> fs. bufs s' p = bufs s p)"

lemma others_kept_refl [simp]: "others_kept fs s s"
  by (simp add: others_kept_def)

lemma others_kept_trans: "others_kept fs s s1 \<Longrightarrow> others_kept fs s1 s2 \<Longrightarrow> others_kept fs s s2"
  by (simp add: others_kept_def)

lemma room_value [simp]: "BUFFER_SIZE - BUFFER_HSIZE = 4056"
  by (simp add: BUFFER_SIZE_def BUFFER_HSIZE_def)

lemma size_t_value:
  assumes "a \<le> b" and "b \<le> 4056"
  shows "nat ((int b - int a) mod 2 ^ 64) = b - a"
proof -
  have "int b \<le> 4056" using assms(2) by simp
  then have "int b - int a < 2 ^ 64" by simp
  then have "(int b - int a) mod 2 ^ 64 = int b - int a" using assms(1) by (intro mod_pos_pos_trivial) simp_all
  then show ?thesis using assms(1) by (simp only: of_nat_diff [symmetric] nat_int)
qed

lemma block_sizes:
  assumes "block_ok b"
  shows "buffer_rsize b = blast b - bpos b" "buffer_wsize b = room - blast b"
proof -
  have le: "bpos b \<le> blast b" "blast b \<le> 4056" and len: "length (bdata b) = 4056"
    using assms by (simp_all add: block_ok_def)
  show "buffer_rsize b = blast b - bpos b" unfolding buffer_rsize_def by (rule size_t_value [OF le])
  show "buffer_wsize b = room - blast b"
    unfolding buffer_wsize_def len room_value by (rule size_t_value [OF le(2) order_refl])
qed

lemma payload_block:
  "block_ok b \<Longrightarrow> payload b = take (blast b - bpos b) (drop (bpos b) (bdata b))"
  by (simp add: payload_def block_sizes)

lemma length_payload: "block_ok b \<Longrightarrow> length (payload b) = blast b - bpos b"
  by (auto simp: payload_block block_ok_def)

lemma payload_empty: "block_ok b \<Longrightarrow> bpos b = blast b \<Longrightarrow> payload b = []"
  by (simp add: payload_block)

lemma contents_append [simp]: "contents h (ps @ qs) = contents h ps @ contents h qs"
  by (simp add: contents_def)

lemma contents_Cons [simp]: "contents h (p # ps) = payload (the (h p)) @ contents h ps"
  by (simp add: contents_def)

lemma contents_Nil [simp]: "contents h [] = []"
  by (simp add: contents_def)

lemma contents_cong: "(\<And>p. p \<in> set ps \<Longrightarrow> payload (the (h' p)) = payload (the (h p))) \<Longrightarrow> contents h' ps = contents h ps"
  by (simp add: contents_def cong: map_cong)

lemma memory_live:
  assumes "memory_ok s ps qs fs" and "p \<in> set ps \<union> set qs"
  shows "p \<noteq> NULL" "bufs s p = Some (the (bufs s p))" "block_ok (the (bufs s p))"
    "load (bufs s) p = Some (the (bufs s p))"
proof -
  have "NULL \<notin> set ps \<union> set qs" using assms(1) by (auto simp: memory_ok_def)
  then show n: "p \<noteq> NULL" using assms(2) by metis
  have "p \<in> dom (bufs s)" using assms unfolding memory_ok_def by blast
  then show s: "bufs s p = Some (the (bufs s p))" by auto
  show "block_ok (the (bufs s p))" using assms unfolding memory_ok_def by blast
  show "load (bufs s) p = Some (the (bufs s p))" by (rule load_Some [of p "bufs s", OF n s])
qed

lemma memory_finite: "memory_ok s ps qs fs \<Longrightarrow> finite (dom (bufs s))"
  by (simp add: memory_ok_def)

section \<open>The blocks written and filled\<close>

lemma fill_block:
  assumes "block_ok b" and "length bs \<le> room - blast b"
  shows "block_ok (fill bs b)" "payload (fill bs b) = payload b @ bs" "bnext (fill bs b) = bnext b"
proof -
  show ok: "block_ok (fill bs b)" using assms by (auto simp: block_ok_def fill_def write_at_def)
  have b: "bpos b \<le> blast b" "blast b \<le> length (bdata b)" using assms(1) by (simp_all add: block_ok_def)
  have "drop (bpos b) (write_at (blast b) bs (bdata b)) =
      take (blast b - bpos b) (drop (bpos b) (bdata b)) @ bs @ drop (blast b + length bs) (bdata b)"
    using b by (simp add: write_at_def drop_take min_absorb2)
  then show "payload (fill bs b) = payload b @ bs"
    using b payload_block [OF ok] payload_block [OF assms(1)] by (simp add: fill_def)
  show "bnext (fill bs b) = bnext b" by (simp add: fill_def)
qed

lemma fill_temp_block:
  assumes "block_ok b" and "bpos b = 0" "blast b = 0" and "length bs \<le> room"
  shows "block_ok (fill_temp bs b)" "payload (fill_temp bs b) = bs" "bnext (fill_temp bs b) = bnext b"
proof -
  have "fill_temp bs b = fill bs b" using assms(2,3) by (simp add: fill_temp_def fill_def)
  then show "block_ok (fill_temp bs b)" "payload (fill_temp bs b) = bs" "bnext (fill_temp bs b) = bnext b"
    using fill_block [OF assms(1)] assms(2-4) payload_empty [OF assms(1)] by simp_all
qed

section \<open>The operations of the pool\<close>

definition pool_inv :: "bstate \<Rightarrow> ptr list \<Rightarrow> ptr list \<Rightarrow> ptr set \<Rightarrow> bool" where
  "pool_inv s ps qs fs \<longleftrightarrow> memory_ok s ps qs fs \<and> pool_ok s qs"

definition alloc_ok :: "(nat \<Rightarrow> buf_heap \<Rightarrow> ptr) \<Rightarrow> bool" where
  "alloc_ok alloc \<longleftrightarrow> (\<forall>n h. finite (dom h) \<longrightarrow> fresh h (alloc n h))"

definition same_blocks :: "ptr set \<Rightarrow> bstate \<Rightarrow> bstate \<Rightarrow> bool" where
  "same_blocks A s s' \<longleftrightarrow> (\<forall>p \<in> A. bufs s' p = bufs s p)"

lemma new_buffer_block: "block_ok (new_buffer junk)"
  by (simp add: block_ok_def new_buffer_def del: upt_Suc)

lemma peek_ok:
  assumes inv: "pool_inv s ps qs fs" and mem: "alloc_ok alloc"
  shows "\<exists>s' q qs'. buffer_pool_peek alloc junk s = (s', q) \<and> pool_inv s' ps (q # qs') fs
    \<and> same_blocks (set ps \<union> fs) s s' \<and> ios s' = ios s \<and> (qs \<noteq> [] \<longrightarrow> s' = s \<and> q # qs' = qs)"
proof (cases qs)
  case (Cons q qs')
  have "bhead (bpool s) = q" "q \<noteq> NULL"
    using inv memory_live(1) [of s ps qs fs q] by (simp_all add: pool_inv_def pool_ok_def Cons)
  then have "buffer_pool_peek alloc junk s = (s, q)" by (simp add: buffer_pool_peek_def)
  then show ?thesis using inv Cons by (auto simp: same_blocks_def)
next
  case Nil
  let ?q = "alloc (mallocs s) (bufs s)"
  have m: "memory_ok s ps [] fs" and p: "pool_ok s []" using inv by (simp_all add: pool_inv_def Nil)
  have q: "?q \<noteq> NULL" "bufs s ?q = None"
    using mem memory_finite [OF m] by (simp_all add: alloc_ok_def fresh_def)
  then have nin: "?q \<notin> set ps" "?q \<notin> fs" using m by (auto simp: memory_ok_def)
  let ?s = "s\<lparr>mallocs := mallocs s + 1, bufs := (bufs s)(?q \<mapsto> new_buffer junk),
      bpool := (bpool s)\<lparr>bhead := ?q, btail := Some ?q, bsize := bsize (bpool s) + 1,
        ballocs := ballocs (bpool s) + 1\<rparr>\<rparr>"
  have "buffer_pool_peek alloc junk s = (?s, ?q)"
    using p q(1) by (simp add: buffer_pool_peek_def pool_ok_def Let_def)
  moreover have "memory_ok ?s ps [?q] fs"
    using m q(1) nin new_buffer_block by (auto simp: memory_ok_def)
  moreover have "pool_ok ?s [?q]"
    using p by (simp add: pool_ok_def next_of_def new_buffer_def)
  moreover have "same_blocks (set ps \<union> fs) s ?s" using nin by (auto simp: same_blocks_def)
  ultimately show ?thesis by (auto simp: pool_inv_def Nil)
qed

lemma detach_ok:
  assumes inv: "pool_inv s ps (q # qs) fs"
  shows "\<exists>s'. buffer_detach s q = Some s' \<and> pool_inv s' ps qs (insert q fs)
    \<and> bufs s' = (bufs s)(q \<mapsto> (the (bufs s q))\<lparr>bnext := NULL\<rparr>) \<and> ios s' = ios s \<and> mallocs s' = mallocs s"
proof -
  have m: "memory_ok s ps (q # qs) fs" and p: "pool_ok s (q # qs)" using inv by (simp_all add: pool_inv_def)
  have "q \<in> set ps \<union> set (q # qs)" by simp
  note q = memory_live [OF m this]
  let ?b = "the (bufs s q)"
  have nx: "bnext ?b = hd (qs @ [NULL])" using p by (simp add: pool_ok_def next_of_def)
  have dist: "distinct (NULL # ps @ q # qs)" using m by (simp only: memory_ok_def)
  have last: "hd (qs @ [NULL]) = NULL \<longleftrightarrow> qs = []" using dist by (cases qs) auto
  let ?s = "s\<lparr>bufs := (bufs s)(q \<mapsto> ?b\<lparr>bnext := NULL\<rparr>), bpool := (bpool s)\<lparr>bhead := bnext ?b,
       btail := (if bnext ?b = NULL then None else btail (bpool s)), bsize := bsize (bpool s) - 1\<rparr>\<rparr>"
  have "store (bufs s) q (?b\<lparr>bnext := NULL\<rparr>) = Some ((bufs s)(q \<mapsto> ?b\<lparr>bnext := NULL\<rparr>))"
    by (rule store_Some [of q "bufs s", OF q(1,2)])
  then have "buffer_detach s q = Some ?s" using q(4) by (simp add: buffer_detach_def)
  moreover have "memory_ok ?s ps qs (insert q fs)"
  proof -
    have "q \<notin> fs" "q \<notin> set qs" "q \<notin> set ps" using m by (auto simp: memory_ok_def)
    moreover then have "\<forall>p \<in> set ps \<union> set qs. block_ok (the (bufs ?s p))"
      using m unfolding memory_ok_def by auto
    ultimately show ?thesis using m q(1) unfolding memory_ok_def by auto
  qed
  moreover have "pool_ok ?s qs"
  proof -
    have "q \<notin> set qs" using dist by auto
    then have "linked (next_of (bufs ?s)) qs NULL"
      using p by (subst linked_cong [where g = "next_of (bufs s)"]) (auto simp: pool_ok_def next_of_def)
    then show ?thesis using p \<open>q \<notin> set qs\<close> last by (auto simp: pool_ok_def nx)
  qed
  ultimately show ?thesis by (simp add: pool_inv_def)
qed

lemma memory_join:
  assumes "memory_ok s ps qs (insert q fs)" and "q \<notin> fs" and "block_ok (the (bufs s q))"
  shows "memory_ok s (ps @ [q]) qs fs"
  using assms by (auto simp: memory_ok_def)

lemma put_ok:
  assumes inv: "pool_inv s (p # ps) qs fs"
  shows "\<exists>s' qs'. buffer_pool_put s p = Some (s', 0) \<and> pool_inv s' ps qs' fs
    \<and> same_blocks (set ps \<union> fs) s s' \<and> ios s' = ios s"
proof -
  have m: "memory_ok s (p # ps) qs fs" and po: "pool_ok s qs" using inv by (simp_all add: pool_inv_def)
  have "p \<in> set (p # ps) \<union> set qs" by simp
  note p = memory_live [OF m this]
  have dist: "distinct (NULL # p # ps @ qs)" using m by (simp add: memory_ok_def)
  have nin: "p \<notin> set ps" "p \<notin> set qs" "p \<notin> fs" using m by (auto simp: memory_ok_def)
  show ?thesis
  proof (cases "ballocs (bpool s) > bmax (bpool s)")
    case True
    let ?s = "s\<lparr>bufs := (bufs s)(p := None), bpool := (bpool s)\<lparr>ballocs := ballocs (bpool s) - 1\<rparr>\<rparr>"
    have "dealloc (bufs s) p = Some ((bufs s)(p := None))" by (rule dealloc_Some [of p "bufs s", OF p(1,2)])
    then have "buffer_pool_put s p = Some (?s, 0)" using True p(1) by (simp add: buffer_pool_put_def)
    moreover have "memory_ok ?s ps qs fs"
      using m nin unfolding memory_ok_def by auto
    moreover have "pool_ok ?s qs"
    proof -
      have "linked (next_of (bufs ?s)) qs NULL"
        using po nin(2) by (subst linked_cong [where g = "next_of (bufs s)"]) (auto simp: pool_ok_def next_of_def)
      then show ?thesis using po nin(2) by (auto simp: pool_ok_def)
    qed
    moreover have "same_blocks (set ps \<union> fs) s ?s" using nin by (auto simp: same_blocks_def)
    ultimately show ?thesis by (auto simp: pool_inv_def)
  next
    case False
    let ?b = "(the (bufs s p))\<lparr>bnext := NULL, bpos := 0, blast := 0\<rparr>"
    let ?h = "(bufs s)(p \<mapsto> ?b)"
    let ?h' = "if qs = [] then ?h else ?h(last qs \<mapsto> (the (bufs s (last qs)))\<lparr>bnext := p\<rparr>)"
    let ?s = "s\<lparr>bufs := ?h', bpool := (bpool s)\<lparr>bhead := hd (qs @ [p]), btail := Some p,
        bsize := bsize (bpool s) + 1\<rparr>\<rparr>"
    have h: "modify (bufs s) p (\<lambda>b. b\<lparr>bnext := NULL, bpos := 0, blast := 0\<rparr>) = Some ?h"
      by (rule modify_Some [of p "bufs s", OF p(1,2)])
    have put: "buffer_pool_put s p = Some (?s, 0)"
    proof (cases "qs = []")
      case True
      then show ?thesis using False p(1) h po by (simp add: buffer_pool_put_def pool_ok_def)
    next
      case ne: False
      then have l: "last qs \<in> set qs" "last qs \<noteq> p" using nin(2) last_in_set by metis+
      then have "last qs \<noteq> NULL" "?h (last qs) = Some (the (bufs s (last qs)))"
        using memory_live(1,2) [OF m, of "last qs"] by simp_all
      then have "modify ?h (last qs) (bnext_update (\<lambda>_. p)) = Some ?h'"
        using ne modify_Some [of "last qs" ?h] by simp
      then show ?thesis using False p(1) h po ne by (simp add: buffer_pool_put_def pool_ok_def)
    qed
    have blk: "block_ok ?b" using p(3) by (simp add: block_ok_def)
    have keep: "the (?h' r) = the (bufs s r)" if "r \<noteq> p" "r \<notin> set qs \<or> r \<noteq> last qs" for r
      using that by auto
    have at: "?h' p = Some ?b" using nin(2) last_in_set [of qs] by auto
    have tl: "block_ok (the (?h' r)) \<and> bpos (the (?h' r)) = bpos (the (bufs s r))
        \<and> blast (the (?h' r)) = blast (the (bufs s r))" if "r \<in> set ps \<union> set qs" for r
    proof -
      have "r \<noteq> p" using that nin by auto
      then show ?thesis using memory_live(3) [OF m, of r] that by (auto simp: block_ok_def)
    qed
    have dom: "dom ?h' = insert p (dom (bufs s))"
      using memory_live(2) [OF m, of "last qs"] last_in_set [of qs] by auto
    have "memory_ok ?s ps (qs @ [p]) fs"
    proof -
      have "\<forall>r \<in> set ps \<union> set (qs @ [p]). block_ok (the (?h' r))" using tl blk at by auto
      moreover have "dom ?h' = set ps \<union> set (qs @ [p]) \<union> fs" using dom m by (auto simp: memory_ok_def)
      moreover have "distinct (NULL # ps @ qs @ [p])" using dist by auto
      ultimately show ?thesis using m by (auto simp: memory_ok_def)
    qed
    moreover have "pool_ok ?s (qs @ [p])"
    proof -
      have "linked (next_of ?h') (qs @ [p]) NULL"
      proof (cases qs rule: rev_cases)
        case Nil
        then show ?thesis by (simp add: next_of_def)
      next
        case (snoc rs t)
        have "t \<noteq> p" "t \<notin> set rs" "p \<notin> set rs" using dist snoc by auto
        moreover have "linked (next_of (bufs s)) rs t" using po snoc by (simp add: pool_ok_def)
        ultimately have "linked (next_of ?h') rs t"
          by (subst linked_cong [where g = "next_of (bufs s)"]) (auto simp: next_of_def snoc)
        then show ?thesis using snoc \<open>t \<noteq> p\<close> by (simp add: next_of_def)
      qed
      moreover have "\<forall>r \<in> set (qs @ [p]). bpos (the (?h' r)) = 0 \<and> blast (the (?h' r)) = 0"
        using po tl at by (auto simp: pool_ok_def)
      moreover have "hd (qs @ [p]) = hd ((qs @ [p]) @ [NULL])" by (cases qs) simp_all
      ultimately show ?thesis using po by (simp add: pool_ok_def)
    qed
    moreover have "same_blocks (set ps \<union> fs) s ?s"
    proof -
      have "?h' r = bufs s r" if "r \<in> set ps \<union> fs" for r
      proof -
        have "r \<noteq> p" using that nin by auto
        moreover have "qs \<noteq> [] \<Longrightarrow> r \<noteq> last qs" using that m last_in_set [of qs] by (auto simp: memory_ok_def)
        ultimately show ?thesis by simp
      qed
      then show ?thesis by (simp add: same_blocks_def)
    qed
    ultimately show ?thesis using put by (auto simp: pool_inv_def)
  qed
qed

section \<open>Receiving\<close>

text \<open>The documented behaviour of \<^verbatim>\<open>readv\<close> and \<^verbatim>\<open>writev\<close>: no more bytes than asked for.\<close>

definition reads_ok :: "(nat \<Rightarrow> nat \<Rightarrow> read_result) \<Rightarrow> bool" where
  "reads_ok readv \<longleftrightarrow> (\<forall>n m bs. readv n m = Bytes bs \<longrightarrow> length bs \<le> m)"

definition writes_ok :: "(nat \<Rightarrow> nat \<Rightarrow> write_result) \<Rightarrow> bool" where
  "writes_ok writev \<longleftrightarrow> (\<forall>n m k. writev n m = Count k \<longrightarrow> k \<le> m)"

text \<open>An answer that ends the loop: no interrupt, and fewer bytes than there is room for.\<close>

definition read_stops :: "(nat \<Rightarrow> nat \<Rightarrow> read_result) \<Rightarrow> nat \<Rightarrow> bool" where
  "read_stops readv n \<longleftrightarrow>
     (\<forall>m > 0. readv n m \<noteq> Read_Error EINTR \<and> (\<forall>bs. readv n m = Bytes bs \<longrightarrow> length bs < m))"

lemma pool_update:
  assumes inv: "pool_inv s ps qs fs" and p: "p \<in> set ps" and b: "block_ok b"
  shows "pool_inv (s\<lparr>bufs := (bufs s)(p \<mapsto> b)\<rparr>) ps qs fs"
proof -
  have m: "memory_ok s ps qs fs" and po: "pool_ok s qs" using inv by (simp_all add: pool_inv_def)
  have nin: "p \<notin> set qs" using m p by (auto simp: memory_ok_def)
  have "linked (next_of ((bufs s)(p \<mapsto> b))) qs NULL"
    using po nin by (subst linked_cong [where g = "next_of (bufs s)"]) (auto simp: pool_ok_def next_of_def)
  then have "pool_ok (s\<lparr>bufs := (bufs s)(p \<mapsto> b)\<rparr>) qs" using po nin by (auto simp: pool_ok_def)
  moreover have "dom ((bufs s)(p \<mapsto> b)) = dom (bufs s)" using memory_live(2) [OF m, of p] p by auto
  then have "memory_ok (s\<lparr>bufs := (bufs s)(p \<mapsto> b)\<rparr>) ps qs fs" using m b unfolding memory_ok_def by auto
  ultimately show ?thesis by (simp add: pool_inv_def)
qed

lemma pool_join:
  assumes inv: "pool_inv s ps qs (insert q fs)" and q: "q \<notin> fs" and b: "block_ok b"
  shows "pool_inv (s\<lparr>bufs := (bufs s)(q \<mapsto> b)\<rparr>) (ps @ [q]) qs fs"
proof -
  have m: "memory_ok s ps qs (insert q fs)" and po: "pool_ok s qs" using inv by (simp_all add: pool_inv_def)
  have nin: "q \<notin> set qs" "q \<notin> set ps" using m by (auto simp: memory_ok_def)
  have "linked (next_of ((bufs s)(q \<mapsto> b))) qs NULL"
    using po nin by (subst linked_cong [where g = "next_of (bufs s)"]) (auto simp: pool_ok_def next_of_def)
  then have "pool_ok (s\<lparr>bufs := (bufs s)(q \<mapsto> b)\<rparr>) qs" using po nin by (auto simp: pool_ok_def)
  moreover have "memory_ok (s\<lparr>bufs := (bufs s)(q \<mapsto> b)\<rparr>) ps qs (insert q fs)"
    using m nin unfolding memory_ok_def by auto
  then have "memory_ok (s\<lparr>bufs := (bufs s)(q \<mapsto> b)\<rparr>) (ps @ [q]) qs fs"
    by (rule memory_join) (use q b in simp_all)
  ultimately show ?thesis by (simp add: pool_inv_def)
qed

lemma pool_kept:
  "pool_inv s ps qs fs \<Longrightarrow> bufs s' = bufs s \<Longrightarrow> bpool s' = bpool s \<Longrightarrow> pool_inv s' ps qs fs"
  by (simp add: pool_inv_def memory_ok_def pool_ok_def)

lemma pool_other: "pool_inv s ps qs (insert q fs) \<Longrightarrow> q \<notin> set ps \<and> q \<notin> set qs \<and> q \<noteq> NULL"
  by (auto simp: pool_inv_def memory_ok_def)

text \<open>What the chain keeps while the last block is written or a block is linked behind it.\<close>

definition recv_rel :: "ptr set \<Rightarrow> buffer_chain \<Rightarrow> bstate \<Rightarrow> buffer_chain \<Rightarrow> bstate \<Rightarrow> bool" where
  "recv_rel fs c s c' s' \<longleftrightarrow> (\<exists>ps qs bs. chain_inv c' s' ps qs fs \<and> cin c' = cin c @ bs
     \<and> cout c' = cout c \<and> sent c' = sent c \<and> recv c' = recv c + of_nat (length bs)) \<and> same_blocks fs s s'"

lemma recv_rel_trans:
  assumes "recv_rel fs c s c1 s1" and "recv_rel fs c1 s1 c2 s2"
  shows "recv_rel fs c s c2 s2"
proof -
  obtain bs where a: "cin c1 = cin c @ bs" "cout c1 = cout c" "sent c1 = sent c"
      "recv c1 = recv c + of_nat (length bs)" "same_blocks fs s s1"
    using assms(1) unfolding recv_rel_def by blast
  obtain ps qs bs' where b: "chain_inv c2 s2 ps qs fs" "cin c2 = cin c1 @ bs'" "cout c2 = cout c1"
      "sent c2 = sent c1" "recv c2 = recv c1 + of_nat (length bs')" "same_blocks fs s1 s2"
    using assms(2) unfolding recv_rel_def by blast
  have "chain_inv c2 s2 ps qs fs \<and> cin c2 = cin c @ (bs @ bs') \<and> cout c2 = cout c \<and> sent c2 = sent c
      \<and> recv c2 = recv c + of_nat (length (bs @ bs'))"
    using a b(1-5) by simp
  moreover have "same_blocks fs s s2" using a(5) b(6) by (simp add: same_blocks_def)
  ultimately show ?thesis unfolding recv_rel_def by blast
qed

lemma chain_kept:
  assumes inv: "chain_inv c s ps qs fs" and pool: "pool_inv s' ps qs' fs"
    and same: "same_blocks (set ps \<union> fs) s s'"
  shows "chain_inv c s' ps qs' fs"
proof -
  have b: "bufs s' p = bufs s p" if "p \<in> set ps" for p using same that by (simp add: same_blocks_def)
  have "linked (next_of (bufs s')) ps NULL"
    using inv by (subst linked_cong [where g = "next_of (bufs s)"]) (auto simp: b next_of_def chain_inv_def chain_ok_def)
  moreover have "contents (bufs s') ps = contents (bufs s) ps" by (rule contents_cong) (simp add: b)
  ultimately show ?thesis using inv pool by (simp add: chain_inv_def chain_ok_def pool_inv_def)
qed

lemma fill_last:
  assumes inv: "chain_inv c s (rs @ [u]) qs fs" and bs: "length bs \<le> room - blast (the (bufs s u))"
  shows "chain_inv (c\<lparr>recv := r, cin := cin c @ bs\<rparr>)
    (s\<lparr>bufs := (bufs s)(u \<mapsto> fill bs (the (bufs s u)))\<rparr>) (rs @ [u]) qs fs"
proof -
  let ?b = "the (bufs s u)" and ?s = "s\<lparr>bufs := (bufs s)(u \<mapsto> fill bs (the (bufs s u)))\<rparr>"
  have m: "memory_ok s (rs @ [u]) qs fs" and po: "pool_ok s qs" and ch: "chain_ok c s (rs @ [u])"
    and io: "cin c = cout c @ contents (bufs s) (rs @ [u])"
    using inv by (simp_all add: chain_inv_def)
  have ok: "block_ok ?b" using memory_live(3) [OF m, of u] by simp
  note f = fill_block [OF ok bs]
  have pool: "pool_inv ?s (rs @ [u]) qs fs"
    using m po f(1) by (intro pool_update) (simp_all add: pool_inv_def)
  have nu: "u \<notin> set rs" using m by (auto simp: memory_ok_def)
  have "next_of (bufs ?s) = next_of (bufs s)" using f(3) by (auto simp: next_of_def fun_eq_iff)
  then have "chain_ok (c\<lparr>recv := r, cin := cin c @ bs\<rparr>) ?s (rs @ [u])" using ch by (simp add: chain_ok_def)
  moreover have "contents (bufs ?s) rs = contents (bufs s) rs" using nu by (intro contents_cong) auto
  then have "contents (bufs ?s) (rs @ [u]) = contents (bufs s) (rs @ [u]) @ bs" using f(2) by simp
  ultimately show ?thesis using pool io by (simp add: chain_inv_def pool_inv_def)
qed

text \<open>The last block is filled up and the first block of the pool linked behind it with the rest.\<close>

lemma overflow_last:
  assumes inv: "chain_inv c s (rs @ [u]) (q # qs) fs"
    and bs: "length bs = room - blast (the (bufs s u))" and rest: "length bs' \<le> room"
  shows "\<exists>s2 h3 h4. modify (bufs s) u (fill bs) = Some ((bufs s)(u \<mapsto> fill bs (the (bufs s u))))
    \<and> buffer_detach (s\<lparr>bufs := (bufs s)(u \<mapsto> fill bs (the (bufs s u)))\<rparr>) q = Some s2
    \<and> modify (bufs s2) q (fill_temp bs') = Some h3
    \<and> modify h3 u (bnext_update (\<lambda>_. q)) = Some h4 \<and> ios s2 = ios s
    \<and> chain_inv (c\<lparr>recv := r, cin := cin c @ bs @ bs', wbuf := q\<rparr>) (s2\<lparr>bufs := h4\<rparr>) (rs @ [u, q]) qs fs
    \<and> same_blocks fs s (s2\<lparr>bufs := h4\<rparr>)"
proof -
  let ?s1 = "s\<lparr>bufs := (bufs s)(u \<mapsto> fill bs (the (bufs s u)))\<rparr>"
  have f1: "chain_inv (c\<lparr>recv := r, cin := cin c @ bs\<rparr>) ?s1 (rs @ [u]) (q # qs) fs"
    using fill_last [OF inv, of bs r] bs by simp
  have m: "memory_ok s (rs @ [u]) (q # qs) fs" using inv by (simp add: chain_inv_def)
  have u: "u \<in> set (rs @ [u]) \<union> set (q # qs)" by simp
  have m1: "modify (bufs s) u (fill bs) = Some (bufs ?s1)"
    using modify_Some [of u "bufs s", OF memory_live(1,2) [OF m u]] by simp
  have p1: "pool_inv ?s1 (rs @ [u]) (q # qs) fs" using f1 by (simp add: chain_inv_def pool_inv_def)
  obtain s2 where s2: "buffer_detach ?s1 q = Some s2" "pool_inv s2 (rs @ [u]) qs (insert q fs)"
      "bufs s2 = (bufs ?s1)(q \<mapsto> (the (bufs ?s1 q))\<lparr>bnext := NULL\<rparr>)" "ios s2 = ios s"
    using detach_ok [OF p1] by auto
  have qf: "q \<notin> fs" "q \<noteq> u" "q \<notin> set rs" "u \<notin> set rs" "u \<notin> fs" "u \<noteq> NULL" "q \<noteq> NULL"
    using m by (auto simp: memory_ok_def)
  let ?t = "(the (bufs ?s1 q))\<lparr>bnext := NULL\<rparr>"
  have t: "block_ok ?t" "bpos ?t = 0" "blast ?t = 0"
  proof -
    have "block_ok (the (bufs ?s1 q))" using p1 memory_live(3) [of ?s1 "rs @ [u]" "q # qs" fs q]
      by (simp add: pool_inv_def)
    moreover have "bpos (the (bufs ?s1 q)) = 0 \<and> blast (the (bufs ?s1 q)) = 0"
      using p1 by (simp add: pool_inv_def pool_ok_def)
    ultimately show "block_ok ?t" "bpos ?t = 0" "blast ?t = 0" by (simp_all add: block_ok_def)
  qed
  note ft = fill_temp_block [OF t rest]
  let ?h3 = "(bufs s2)(q \<mapsto> fill_temp bs' ?t)"
  have m3: "modify (bufs s2) q (fill_temp bs') = Some ?h3"
    using modify_Some [of q "bufs s2" ?t] qf(7) s2(3) by simp
  have p3: "pool_inv (s2\<lparr>bufs := ?h3\<rparr>) (rs @ [u, q]) qs fs"
    using pool_join [OF s2(2) qf(1) ft(1)] by simp
  let ?w = "fill bs (the (bufs s u))"
  have h3u: "?h3 u = Some ?w" using qf(2) s2(3) by simp
  let ?h4 = "?h3(u \<mapsto> ?w\<lparr>bnext := q\<rparr>)"
  have m4: "modify ?h3 u (bnext_update (\<lambda>_. q)) = Some ?h4" by (rule modify_Some [of u ?h3, OF qf(6) h3u])
  have wok: "block_ok ?w" using fill_block(1) [OF memory_live(3) [OF m u]] bs by simp
  then have "block_ok (?w\<lparr>bnext := q\<rparr>)" by (simp add: block_ok_def)
  then have p4: "pool_inv (s2\<lparr>bufs := ?h4\<rparr>) (rs @ [u, q]) qs fs"
    using pool_update [OF p3, of u "?w\<lparr>bnext := q\<rparr>"] by simp
  have old: "?h4 p = bufs s p" if "p \<noteq> u" "p \<noteq> q" for p using that s2(3) by simp
  have "linked (next_of ?h4) (rs @ [u, q]) NULL"
  proof -
    have "linked (next_of (bufs s)) rs u" using inv by (simp add: chain_inv_def chain_ok_def)
    then have "linked (next_of ?h4) rs u"
      using old qf(3,4) by (subst linked_cong [where g = "next_of (bufs s)"]) (auto simp: next_of_def)
    then show ?thesis using qf(2) ft(3) by (simp add: next_of_def)
  qed
  moreover have "contents ?h4 (rs @ [u, q]) = contents (bufs s) (rs @ [u]) @ bs @ bs'"
  proof -
    have "contents ?h4 rs = contents (bufs s) rs" using old qf(3,4) by (intro contents_cong) auto
    moreover have "payload (?w\<lparr>bnext := q\<rparr>) = payload ?w" by (simp add: payload_def buffer_rsize_def)
    ultimately show ?thesis
      using qf(2) ft(2) fill_block(2) [OF memory_live(3) [OF m u]] bs by simp
  qed
  ultimately have "chain_inv (c\<lparr>recv := r, cin := cin c @ bs @ bs', wbuf := q\<rparr>) (s2\<lparr>bufs := ?h4\<rparr>) (rs @ [u, q]) qs fs"
    using p4 inv unfolding chain_inv_def pool_inv_def chain_ok_def by (simp add: hd_append)
  moreover have "same_blocks fs s (s2\<lparr>bufs := ?h4\<rparr>)" using old qf(1,5) by (auto simp: same_blocks_def)
  ultimately show ?thesis using m1 s2(1,4) m3 m4 by auto
qed

lemma recv_step:
  assumes inv: "chain_inv c s ps qs fs" and mem: "alloc_ok alloc" and rd: "reads_ok readv"
  shows "(\<exists>c' s' rc. recv_loop readv alloc junk c s = Some (c', s', rc) \<and> recv_rel fs c s c' s'
      \<and> rc \<in> {-1, 0, 1} \<and> ios s' = ios s + 1)
    \<or> (\<not> read_stops readv (ios s) \<and> (\<exists>c' s'. recv_loop readv alloc junk c s = recv_loop readv alloc junk c' s'
      \<and> recv_rel fs c s c' s' \<and> ios s' = ios s + 1))"
proof -
  have pool: "pool_inv s ps qs fs" using inv by (simp add: chain_inv_def pool_inv_def)
  obtain s1 q qs' where pk: "buffer_pool_peek alloc junk s = (s1, q)" "pool_inv s1 ps (q # qs') fs"
      "same_blocks (set ps \<union> fs) s s1" "ios s1 = ios s"
    using peek_ok [OF pool mem] by blast
  have ne: "ps \<noteq> []" and wl: "wbuf c = last ps" using inv by (simp_all add: chain_inv_def chain_ok_def)
  define u where "u = last ps"
  obtain rs where rs: "ps = rs @ [u]" using ne by (metis append_butlast_last_id u_def)
  define n where "n = ios s"
  define s2 where "s2 = s1\<lparr>ios := Suc n\<rparr>"
  have p2: "pool_inv s2 ps (q # qs') fs" by (rule pool_kept [OF pk(2)]) (simp_all add: s2_def)
  have same2: "same_blocks (set ps \<union> fs) s s2" using pk(3) by (simp add: same_blocks_def s2_def)
  have inv2: "chain_inv c s2 ps (q # qs') fs" by (rule chain_kept [OF inv p2 same2])
  have m2: "memory_ok s2 ps (q # qs') fs" using p2 by (simp add: pool_inv_def)
  have su: "bufs s2 u = bufs s u" using same2 by (simp add: same_blocks_def rs)
  have lu: "load (bufs s) u = Some (the (bufs s2 u))" and bu: "block_ok (the (bufs s2 u))"
    using memory_live [OF m2, of u] su by (simp_all add: load_def rs split: if_splits)
  have lq: "load (bufs s1) q = Some (the (bufs s2 q))" and bq: "block_ok (the (bufs s2 q))"
    using memory_live [OF m2, of q] by (simp_all add: s2_def)
  have q0: "blast (the (bufs s2 q)) = 0" using p2 by (simp add: pool_inv_def pool_ok_def)
  define wl' where "wl' = room - blast (the (bufs s2 u))"
  have sizes: "buffer_wsize (the (bufs s2 u)) = wl'" "buffer_wsize (the (bufs s2 q)) = room"
    using block_sizes(2) [OF bu] block_sizes(2) [OF bq] q0 by (simp_all add: wl'_def)
  have kept: "same_blocks fs s s2" using same2 by (simp add: same_blocks_def)
  have rel: "recv_rel fs c s c s2" unfolding recv_rel_def using inv2 kept by fastforce
  have i2: "ios s2 = ios s + 1" by (simp add: s2_def n_def)
  note loop = recv_loop.simps [of readv alloc junk c s]
  note start = wl [folded u_def] lu pk(1) lq sizes pk(4) n_def [symmetric] s2_def [symmetric]
  show ?thesis
  proof (cases "readv n (wl' + room)")
    case (Read_Error e)
    show ?thesis
    proof (cases "e = EINTR")
      case True
      have "recv_loop readv alloc junk c s = recv_loop readv alloc junk c s2"
        by (subst loop) (simp add: start Read_Error True Let_def del: room_value)
      moreover have "\<not> read_stops readv (ios s)"
        using Read_Error True by (auto simp: read_stops_def n_def intro!: exI [of _ "wl' + room"])
      ultimately show ?thesis using rel i2 by blast
    next
      case False
      then have "recv_loop readv alloc junk c s = Some (c, s2, if e = EAGAIN then 1 else -1)"
        by (subst loop) (simp add: start Read_Error Let_def del: room_value)
      then show ?thesis using rel i2 by auto
    qed
  next
    case (Bytes bs)
    have len: "length bs \<le> wl' + room" using rd Bytes unfolding reads_ok_def by blast
    show ?thesis
    proof (cases "bs = []")
      case True
      then have "recv_loop readv alloc junk c s = Some (c, s2, 0)"
        by (subst loop) (simp add: start Bytes Let_def del: room_value)
      then show ?thesis using rel i2 by auto
    next
      case ne: False
      define c1 where "c1 = c\<lparr>recv := recv c + of_nat (length bs), cin := cin c @ bs\<rparr>"
      have inv2': "chain_inv c s2 (rs @ [u]) (q # qs') fs" using inv2 by (simp add: rs)
      have w1: "wbuf c1 = u" by (simp add: c1_def wl u_def)
      show ?thesis
      proof (cases "length bs \<le> wl'")
        case True
        let ?s3 = "s2\<lparr>bufs := (bufs s2)(u \<mapsto> fill bs (the (bufs s2 u)))\<rparr>"
        have m: "modify (bufs s2) u (fill bs) = Some (bufs ?s3)"
          using modify_Some [of u "bufs s2"] memory_live(1,2) [OF m2, of u] by (simp add: rs)
        have "recv_loop readv alloc junk c s = Some (c1, ?s3, 1)"
          using m by (subst loop) (simp add: start Bytes ne True Let_def w1 c1_def [symmetric] del: room_value)
        moreover have "chain_inv c1 ?s3 (rs @ [u]) (q # qs') fs"
          unfolding c1_def using fill_last [OF inv2'] True by (simp add: wl'_def)
        moreover have "same_blocks fs s ?s3"
          using kept m2 by (auto simp: same_blocks_def memory_ok_def rs)
        ultimately show ?thesis using i2 by (auto simp: recv_rel_def c1_def)
      next
        case False
        let ?a = "take wl' bs" and ?z = "drop wl' bs"
        have la: "length ?a = room - blast (the (bufs s2 u))" using False by (simp add: wl'_def)
        have lz: "length ?z \<le> room" using len by simp
        from overflow_last [OF inv2' la lz, of "recv c1"]
        obtain s3 h3 h4 where o: "modify (bufs s2) u (fill ?a) = Some ((bufs s2)(u \<mapsto> fill ?a (the (bufs s2 u))))"
            "buffer_detach (s2\<lparr>bufs := (bufs s2)(u \<mapsto> fill ?a (the (bufs s2 u)))\<rparr>) q = Some s3"
            "modify (bufs s3) q (fill_temp ?z) = Some h3" "modify h3 u (bnext_update (\<lambda>_. q)) = Some h4"
            "ios s3 = ios s2"
            "chain_inv (c\<lparr>recv := recv c1, cin := cin c @ ?a @ ?z, wbuf := q\<rparr>) (s3\<lparr>bufs := h4\<rparr>) (rs @ [u, q]) qs' fs"
            "same_blocks fs s2 (s3\<lparr>bufs := h4\<rparr>)"
          by blast
        let ?c = "c1\<lparr>wbuf := q\<rparr>" and ?s = "s3\<lparr>bufs := h4\<rparr>"
        have "c\<lparr>recv := recv c1, cin := cin c @ ?a @ ?z, wbuf := q\<rparr> = ?c" by (simp add: c1_def)
        then have "chain_inv ?c ?s (rs @ [u, q]) qs' fs" using o(6) by simp
        moreover have "same_blocks fs s ?s" using kept o(7) by (simp add: same_blocks_def)
        ultimately have rel': "recv_rel fs c s ?c ?s" by (auto simp: recv_rel_def c1_def)
        have i3: "ios ?s = ios s + 1" using o(5) i2 by simp
        have body: "recv_loop readv alloc junk c s =
          (if length bs \<noteq> wl' + room then Some (?c, ?s, 1) else recv_loop readv alloc junk ?c ?s)"
          using o(1-4) False
          by (subst loop) (simp add: start Bytes ne Let_def w1 c1_def [symmetric] del: room_value)
        show ?thesis
        proof (cases "length bs = wl' + room")
          case True
          then have "\<not> read_stops readv (ios s)"
            using Bytes by (auto simp: read_stops_def n_def intro!: exI [of _ "wl' + room"])
          moreover have "recv_loop readv alloc junk c s = recv_loop readv alloc junk ?c ?s"
            using body True by simp
          ultimately show ?thesis using rel' i3 by blast
        next
          case False
          then show ?thesis using body rel' i3 by auto
        qed
      qed
    qed
  qed
qed

lemma recv_rel_inv:
  assumes "recv_rel fs c s c' s'"
  obtains ps qs where "chain_inv c' s' ps qs fs"
  using assms unfolding recv_rel_def by blast

lemma recv_loop_ok:
  assumes "chain_inv c s ps qs fs" and mem: "alloc_ok alloc" and rd: "reads_ok readv"
    and "ios s \<le> k" and stop: "read_stops readv k"
  shows "\<exists>c' s' rc. recv_loop readv alloc junk c s = Some (c', s', rc) \<and> recv_rel fs c s c' s'
    \<and> rc \<in> {-1, 0, 1} \<and> ios s < ios s' \<and> ios s' \<le> k + 1"
  using assms(1,4)
proof (induction "k - ios s" arbitrary: c s ps qs rule: less_induct)
  case less
  from recv_step [OF less.prems(1) mem rd, of junk] show ?case
  proof (elim disjE exE conjE)
    fix c' s' rc
    assume "recv_loop readv alloc junk c s = Some (c', s', rc)" "recv_rel fs c s c' s'"
      "rc \<in> {-1, 0, 1}" "ios s' = ios s + 1"
    then show ?thesis using less.prems(2) by (intro exI [of _ c'] exI [of _ s'] exI [of _ rc]) simp
  next
    fix c1 s1
    assume n: "\<not> read_stops readv (ios s)" and eq: "recv_loop readv alloc junk c s = recv_loop readv alloc junk c1 s1"
      and rel: "recv_rel fs c s c1 s1" and i: "ios s1 = ios s + 1"
    have "ios s \<noteq> k" using n stop by auto
    then have k: "ios s1 \<le> k" "k - ios s1 < k - ios s" using less.prems(2) i by simp_all
    obtain ps1 qs1 where inv1: "chain_inv c1 s1 ps1 qs1 fs" by (rule recv_rel_inv [OF rel])
    obtain c' s' rc where r: "recv_loop readv alloc junk c1 s1 = Some (c', s', rc)" "recv_rel fs c1 s1 c' s'"
        "rc \<in> {-1, 0, 1}" "ios s1 < ios s'" "ios s' \<le> k + 1"
      using less.hyps [OF k(2) inv1 k(1)] by blast
    show ?thesis
      using eq r recv_rel_trans [OF rel r(2)] i by (intro exI [of _ c'] exI [of _ s'] exI [of _ rc]) simp
  qed
qed

section \<open>Sending\<close>

text \<open>An empty last block is reset to its start; other blocks give back what was written of them.\<close>

lemma block_advance:
  assumes "block_ok b" and "n \<le> blast b - bpos b"
  shows "block_ok (b\<lparr>bpos := bpos b + n\<rparr>)" "payload (b\<lparr>bpos := bpos b + n\<rparr>) = drop n (payload b)"
proof -
  show ok: "block_ok (b\<lparr>bpos := bpos b + n\<rparr>)" using assms by (auto simp: block_ok_def)
  show "payload (b\<lparr>bpos := bpos b + n\<rparr>) = drop n (payload b)"
    using payload_block [OF ok] payload_block [OF assms(1)] by (simp add: drop_take add.commute)
qed

lemma update_first:
  assumes pool: "pool_inv s (p # ps) qs fs" and ch: "chain_ok c s (p # ps)"
    and b: "block_ok b" "bnext b = bnext (the (bufs s p))"
    and s': "s' = s\<lparr>bufs := (bufs s)(p \<mapsto> b)\<rparr>"
  shows "pool_inv s' (p # ps) qs fs" "chain_ok c s' (p # ps)" "the (bufs s' p) = b"
    "contents (bufs s') ps = contents (bufs s) ps" "same_blocks fs s s'" "ios s' = ios s"
proof -
  have m: "memory_ok s (p # ps) qs fs" using pool by (simp add: pool_inv_def)
  then have nin: "p \<notin> set ps" "p \<notin> fs" by (auto simp: memory_ok_def)
  show "pool_inv s' (p # ps) qs fs" unfolding s' by (rule pool_update [OF pool _ b(1)]) simp
  have "next_of ((bufs s)(p \<mapsto> b)) = next_of (bufs s)" using b(2) by (auto simp: next_of_def fun_eq_iff)
  then show "chain_ok c s' (p # ps)" using ch by (simp add: chain_ok_def s')
  show "contents (bufs s') ps = contents (bufs s) ps" using nin(1) by (intro contents_cong) (auto simp: s')
  show "same_blocks fs s s'" using nin(2) by (auto simp: same_blocks_def s')
  show "the (bufs s' p) = b" "ios s' = ios s" by (simp_all add: s')
qed

lemma shrink_ok:
  assumes "pool_inv s ps qs fs" and "chain_ok c s ps" and "n \<le> length (contents (bufs s) ps)"
  shows "\<exists>s' ps' qs'. shrink_chain c n s = Some (c\<lparr>rbuf := hd ps'\<rparr>, s', hd ps') \<and> pool_inv s' ps' qs' fs
    \<and> chain_ok (c\<lparr>rbuf := hd ps'\<rparr>) s' ps' \<and> contents (bufs s') ps' = drop n (contents (bufs s) ps)
    \<and> (bpos (the (bufs s' (hd ps'))) = blast (the (bufs s' (hd ps'))) \<longleftrightarrow> contents (bufs s') ps' = [])
    \<and> ios s' = ios s \<and> same_blocks fs s s'"
  using assms
proof (induction ps arbitrary: c s qs n)
  case Nil
  then show ?case by (simp add: chain_ok_def)
next
  case (Cons p ps)
  have m: "memory_ok s (p # ps) qs fs" using Cons.prems(1) by (simp add: pool_inv_def)
  have "p \<in> set (p # ps) \<union> set qs" by simp
  note p = memory_live [OF m this]
  let ?b = "the (bufs s p)"
  have ends: "rbuf c = p" "wbuf c = last (p # ps)" "linked (next_of (bufs s)) (p # ps) NULL"
    using Cons.prems(2) by (simp_all add: chain_ok_def)
  have nin: "p \<notin> set ps" using m by (auto simp: memory_ok_def)
  note size = block_sizes(1) [OF p(3)] length_payload [OF p(3)]
  have self: "c\<lparr>rbuf := p\<rparr> = c" using ends(1) by simp
  have le: "bpos ?b \<le> blast ?b" using p(3) by (simp add: block_ok_def)
  show ?case
  proof (cases "ps = []")
    case True
    have n: "n \<le> blast ?b - bpos ?b" using Cons.prems(3) size(2) True by simp
    define b1 where "b1 = ?b\<lparr>bpos := bpos ?b + n\<rparr>"
    define b2 where "b2 = (if bpos b1 = blast b1 then b1\<lparr>bpos := 0, blast := 0\<rparr> else b1)"
    note adv = block_advance [OF p(3) n, folded b1_def]
    have ok2: "block_ok b2" using adv(1) by (simp add: b2_def block_ok_def)
    have pay: "payload b2 = drop n (payload ?b)"
    proof (cases "bpos b1 = blast b1")
      case True
      then have "payload b2 = []" by (intro payload_empty [OF ok2]) (simp add: b2_def)
      then show ?thesis using payload_empty [OF adv(1) True] adv(2) by simp
    next
      case False
      then show ?thesis using adv(2) by (simp add: b2_def)
    qed
    have nx: "bnext b2 = bnext ?b" by (simp add: b2_def b1_def)
    define s' where "s' = s\<lparr>bufs := (bufs s)(p \<mapsto> b2)\<rparr>"
    note up = update_first [OF Cons.prems(1,2) ok2 nx s'_def]
    have st: "store (bufs s) p b2 = Some (bufs s')" using store_Some [of p "bufs s", OF p(1,2)] by (simp add: s'_def)
    then have "shrink_chain c n s = Some (c, s', p)"
      using ends True p(4) size(1) n
      by (subst shrink_chain.simps) (simp add: Let_def b1_def [symmetric] b2_def [symmetric] s'_def)
    moreover have "bpos b2 = blast b2 \<longleftrightarrow> payload b2 = []"
      using ok2 payload_empty [OF ok2] length_payload [OF ok2] by (auto simp: block_ok_def)
    ultimately show ?thesis
      using up pay self True by - (rule exI [of _ s'], rule exI [of _ "[p]"], rule exI [of _ qs], simp)
  next
    case False
    then have "last ps \<in> set ps" by simp
    then have pw: "rbuf c \<noteq> wbuf c" using ends nin False by auto
    show ?thesis
    proof (cases "blast ?b - bpos ?b \<le> n")
      case True
      obtain s1 qs1 where put: "buffer_pool_put s p = Some (s1, 0)" "pool_inv s1 ps qs1 fs"
          "same_blocks (set ps \<union> fs) s s1" "ios s1 = ios s"
        using put_ok [OF Cons.prems(1)] by blast
      have b1: "bufs s1 r = bufs s r" if "r \<in> set ps" for r using put(3) that by (simp add: same_blocks_def)
      have cont: "contents (bufs s1) ps = contents (bufs s) ps" by (rule contents_cong) (simp add: b1)
      let ?c = "c\<lparr>rbuf := bnext ?b\<rparr>"
      have nx: "bnext ?b = hd ps" using ends(3) False by (simp add: next_of_def)
      have "linked (next_of (bufs s1)) ps NULL"
        using ends(3) by (subst linked_cong [where g = "next_of (bufs s)"]) (simp_all add: next_of_def b1)
      then have "chain_ok ?c s1 ps" using ends(2) False nx by (simp add: chain_ok_def)
      moreover have "n - (blast ?b - bpos ?b) \<le> length (contents (bufs s1) ps)"
        using Cons.prems(3) size(2) cont by simp
      ultimately obtain s' ps' qs' where r: "shrink_chain ?c (n - (blast ?b - bpos ?b)) s1 =
            Some (?c\<lparr>rbuf := hd ps'\<rparr>, s', hd ps')" "pool_inv s' ps' qs' fs"
          "chain_ok (?c\<lparr>rbuf := hd ps'\<rparr>) s' ps'"
          "contents (bufs s') ps' = drop (n - (blast ?b - bpos ?b)) (contents (bufs s1) ps)"
          "bpos (the (bufs s' (hd ps'))) = blast (the (bufs s' (hd ps'))) \<longleftrightarrow> contents (bufs s') ps' = []"
          "ios s' = ios s1" "same_blocks fs s1 s'"
        using Cons.IH [OF put(2)] by blast
      have "shrink_chain c n s = shrink_chain ?c (n - (blast ?b - bpos ?b)) s1"
        using pw ends(1) p(4) size(1) True put(1) by (subst shrink_chain.simps) (simp add: Let_def)
      moreover have "contents (bufs s') ps' = drop n (contents (bufs s) (p # ps))"
        using r(4) cont True size(2) by simp
      moreover have "same_blocks fs s s'" using put(3) r(7) by (simp add: same_blocks_def)
      ultimately show ?thesis
        using r(1-3,5,6) put(4) by - (rule exI [of _ s'], rule exI [of _ ps'], rule exI [of _ qs'], simp)
    next
      case False
      define b1 where "b1 = ?b\<lparr>bpos := bpos ?b + n\<rparr>"
      have n: "n \<le> blast ?b - bpos ?b" using False by simp
      note adv = block_advance [OF p(3) n, folded b1_def]
      have nx: "bnext b1 = bnext ?b" by (simp add: b1_def)
      define s' where "s' = s\<lparr>bufs := (bufs s)(p \<mapsto> b1)\<rparr>"
      note up = update_first [OF Cons.prems(1,2) adv(1) nx s'_def]
      have "modify (bufs s) p (\<lambda>b. b\<lparr>bpos := bpos b + n\<rparr>) = Some (bufs s')"
        using modify_Some [of p "bufs s", OF p(1,2)] by (simp add: b1_def s'_def)
      then have "shrink_chain c n s = Some (c, s', p)"
        using pw ends(1) p(4) size(1) False by (subst shrink_chain.simps) (simp add: Let_def s'_def)
      moreover have "drop n (payload ?b @ contents (bufs s) ps) = payload b1 @ contents (bufs s) ps"
        using adv(2) n size(2) by simp
      moreover have "bpos b1 \<noteq> blast b1" "payload b1 \<noteq> []"
        using False length_payload [OF adv(1)] by (auto simp: b1_def)
      ultimately show ?thesis
        using up self by - (rule exI [of _ s'], rule exI [of _ "p # ps"], rule exI [of _ qs], simp)
    qed
  qed
qed

lemma gather_ok:
  assumes "memory_ok s ps qs fs" and "linked (next_of (bufs s)) ps NULL"
  shows "gather n (bufs s) (hd (ps @ [NULL])) = Some (map (\<lambda>p. payload (the (bufs s p))) (take n ps))"
proof -
  have "\<forall>p \<in> set ps. p \<noteq> NULL \<and> load (bufs s) p = Some (the (bufs s p)) \<and> block_ok (the (bufs s p))"
    using memory_live [OF assms(1)] by blast
  then show ?thesis using assms(2)
  proof (induction ps arbitrary: n)
    case Nil
    then show ?case by (cases n) simp_all
  next
    case (Cons p ps)
    show ?case
    proof (cases n)
      case (Suc m)
      have "block_ok (the (bufs s p))" using Cons.prems(1) by simp
      then have "bpos (the (bufs s p)) + buffer_rsize (the (bufs s p)) \<le> length (bdata (the (bufs s p)))"
        using block_sizes(1) by (auto simp: block_ok_def)
      moreover have "gather m (bufs s) (hd (ps @ [NULL])) = Some (map (\<lambda>p. payload (the (bufs s p))) (take m ps))"
        using Cons by simp
      moreover have "bnext (the (bufs s p)) = hd (ps @ [NULL])" using Cons.prems(2) by (simp add: next_of_def)
      ultimately show ?thesis using Cons.prems(1) Suc by simp
    qed simp
  qed
qed

definition send_rel :: "ptr set \<Rightarrow> buffer_chain \<Rightarrow> bstate \<Rightarrow> buffer_chain \<Rightarrow> bstate \<Rightarrow> bool" where
  "send_rel fs c s c' s' \<longleftrightarrow> (\<exists>ps qs bs. chain_inv c' s' ps qs fs \<and> cout c' = cout c @ bs
     \<and> cin c' = cin c \<and> recv c' = recv c \<and> sent c' = sent c + of_nat (length bs)) \<and> same_blocks fs s s'"

lemma send_rel_trans:
  assumes "send_rel fs c s c1 s1" and "send_rel fs c1 s1 c2 s2"
  shows "send_rel fs c s c2 s2"
proof -
  obtain bs where a: "cout c1 = cout c @ bs" "cin c1 = cin c" "recv c1 = recv c"
      "sent c1 = sent c + of_nat (length bs)" "same_blocks fs s s1"
    using assms(1) unfolding send_rel_def by blast
  obtain ps qs bs' where b: "chain_inv c2 s2 ps qs fs" "cout c2 = cout c1 @ bs'" "cin c2 = cin c1"
      "recv c2 = recv c1" "sent c2 = sent c1 + of_nat (length bs')" "same_blocks fs s1 s2"
    using assms(2) unfolding send_rel_def by blast
  have "chain_inv c2 s2 ps qs fs \<and> cout c2 = cout c @ (bs @ bs') \<and> cin c2 = cin c \<and> recv c2 = recv c
      \<and> sent c2 = sent c + of_nat (length (bs @ bs'))"
    using a b(1-5) by simp
  moreover have "same_blocks fs s s2" using a(5) b(6) by (simp add: same_blocks_def)
  ultimately show ?thesis unfolding send_rel_def by blast
qed

lemma send_rel_inv:
  assumes "send_rel fs c s c' s'"
  obtains ps qs where "chain_inv c' s' ps qs fs"
  using assms unfolding send_rel_def by blast

lemma contents_take: "length (contents h (take n ps)) \<le> length (contents h ps)"
  "k \<le> length (contents h (take n ps)) \<Longrightarrow> take k (contents h (take n ps)) = take k (contents h ps)"
proof -
  have split: "contents h ps = contents h (take n ps) @ contents h (drop n ps)"
    by (metis append_take_drop_id contents_append)
  show "length (contents h (take n ps)) \<le> length (contents h ps)" by (simp add: split)
  assume k: "k \<le> length (contents h (take n ps))"
  show "take k (contents h (take n ps)) = take k (contents h ps)" using k by (subst split) simp
qed

text \<open>
  One turn of the loop ends it, or is repeated because of an interrupt, or is repeated after all
  bytes offered were accepted while the chain still holds some.
\<close>

lemma send_step:
  assumes inv: "chain_inv c s ps qs fs" and wr: "writes_ok writev"
  shows "(\<exists>c' s' rc. send_loop writev c s = Some (c', s', rc) \<and> send_rel fs c s c' s' \<and> rc \<in> {-1, 0, 1}
      \<and> ios s' = ios s + 1)
    \<or> (\<exists>c' s' ps' qs'. send_loop writev c s = send_loop writev c' s' \<and> send_rel fs c s c' s'
        \<and> chain_inv c' s' ps' qs' fs \<and> ios s' = ios s + 1
        \<and> ((\<exists>m. writev (ios s) m = Write_Error EINTR) \<and> contents (bufs s') ps' = contents (bufs s) ps
           \<or> length (contents (bufs s') ps') < length (contents (bufs s) ps)))"
proof -
  have m: "memory_ok s ps qs fs" and po: "pool_ok s qs" and ch: "chain_ok c s ps"
    and io: "cin c = cout c @ contents (bufs s) ps"
    using inv by (simp_all add: chain_inv_def)
  have ne: "ps \<noteq> []" "rbuf c = hd ps" "linked (next_of (bufs s)) ps NULL" using ch by (simp_all add: chain_ok_def)
  define vec where "vec = map (\<lambda>p. payload (the (bufs s p))) (take SM_MAX_IOV ps)"
  have ga: "gather SM_MAX_IOV (bufs s) (rbuf c) = Some vec"
    using gather_ok [OF m ne(3), of SM_MAX_IOV] ne(1,2) by (simp add: vec_def)
  have cv: "concat vec = contents (bufs s) (take SM_MAX_IOV ps)" by (simp add: vec_def contents_def)
  define n where "n = ios s"
  define s1 where "s1 = s\<lparr>ios := Suc n\<rparr>"
  have inv1: "chain_inv c s1 ps qs fs"
    using inv by (simp add: chain_inv_def memory_ok_def pool_ok_def chain_ok_def s1_def)
  have rel: "send_rel fs c s c s1" unfolding send_rel_def using inv1 by (fastforce simp: same_blocks_def s1_def)
  have i1: "ios s1 = ios s + 1" by (simp add: s1_def n_def)
  note loop = send_loop.simps [of writev c s]
  note start = ga n_def [symmetric] s1_def [symmetric] Let_def
  show ?thesis
  proof (cases "writev n (length (concat vec))")
    case (Write_Error e)
    show ?thesis
    proof (cases "e = EINTR")
      case True
      have "send_loop writev c s = send_loop writev c s1"
        by (subst loop) (simp add: start Write_Error True)
      moreover have "contents (bufs s1) ps = contents (bufs s) ps" by (simp add: s1_def)
      moreover have "\<exists>m. writev (ios s) m = Write_Error EINTR" using Write_Error True n_def by blast
      ultimately show ?thesis using rel i1 inv1 by blast
    next
      case False
      then have "send_loop writev c s = Some (c, s1, if e = EAGAIN then 1 else -1)"
        by (subst loop) (simp add: start Write_Error)
      then show ?thesis using rel i1 by auto
    qed
  next
    case (Count k)
    have k: "k \<le> length (concat vec)" using wr Count unfolding writes_ok_def by blast
    show ?thesis
    proof (cases "k = 0")
      case True
      then have "send_loop writev c s = Some (c, s1, 0)" by (subst loop) (simp add: start Count)
      then show ?thesis using rel i1 by auto
    next
      case k0: False
      have tk: "take k (concat vec) = take k (contents (bufs s) ps)" and kl: "k \<le> length (contents (bufs s) ps)"
        using k contents_take [where h = "bufs s" and n = SM_MAX_IOV and ps = ps] unfolding cv
        by (blast, linarith)
      define c1 where "c1 = c\<lparr>sent := sent c + of_nat k, cout := cout c @ take k (concat vec)\<rparr>"
      have "chain_ok c1 s1 ps" using ch by (simp add: chain_ok_def c1_def s1_def)
      moreover have "pool_inv s1 ps qs fs" using inv1 by (simp add: chain_inv_def pool_inv_def)
      moreover have "k \<le> length (contents (bufs s1) ps)" using kl by (simp add: s1_def)
      ultimately obtain s2 ps' qs' where sh: "shrink_chain c1 k s1 = Some (c1\<lparr>rbuf := hd ps'\<rparr>, s2, hd ps')"
          "pool_inv s2 ps' qs' fs" "chain_ok (c1\<lparr>rbuf := hd ps'\<rparr>) s2 ps'"
          "contents (bufs s2) ps' = drop k (contents (bufs s1) ps)"
          "bpos (the (bufs s2 (hd ps'))) = blast (the (bufs s2 (hd ps'))) \<longleftrightarrow> contents (bufs s2) ps' = []"
          "ios s2 = ios s1" "same_blocks fs s1 s2"
        using shrink_ok by blast
      let ?c = "c1\<lparr>rbuf := hd ps'\<rparr>"
      have "cin ?c = cout ?c @ contents (bufs s2) ps'"
        using io sh(4) tk by (simp add: c1_def s1_def)
      then have inv2: "chain_inv ?c s2 ps' qs' fs" using sh(2,3) by (simp add: chain_inv_def pool_inv_def)
      have same: "same_blocks fs s s2" using sh(7) by (simp add: same_blocks_def s1_def)
      have "cout ?c = cout c @ take k (concat vec) \<and> cin ?c = cin c \<and> recv ?c = recv c
          \<and> sent ?c = sent c + of_nat (length (take k (concat vec)))"
        using k by (simp add: c1_def)
      then have rel2: "send_rel fs c s ?c s2" unfolding send_rel_def using inv2 same by blast
      have m2: "memory_ok s2 ps' qs' fs" using sh(2) by (simp add: pool_inv_def)
      have "hd ps' \<in> set ps' \<union> set qs'" using sh(3) by (simp add: chain_ok_def)
      note ld = memory_live(4) [OF m2 this]
      have body: "send_loop writev c s =
          (if k \<noteq> length (concat vec) \<or> contents (bufs s2) ps' = [] then Some (?c, s2, 1)
           else send_loop writev ?c s2)"
        using sh(1) ld sh(5) k0 by (subst loop) (simp add: start Count c1_def [symmetric])
      have i2: "ios s2 = ios s + 1" using sh(6) i1 by simp
      show ?thesis
      proof (cases "k \<noteq> length (concat vec) \<or> contents (bufs s2) ps' = []")
        case True
        then have "send_loop writev c s = Some (?c, s2, 1)" using body by simp
        then show ?thesis using rel2 i2 by auto
      next
        case False
        then have "send_loop writev c s = send_loop writev ?c s2" using body by simp
        moreover have "length (contents (bufs s2) ps') < length (contents (bufs s) ps)"
          using sh(4) k0 kl by (simp add: s1_def)
        ultimately show ?thesis using rel2 i2 inv2 by blast
      qed
    qed
  qed
qed

text \<open>The kernel does not interrupt all calls from some time on.\<close>

definition no_storm :: "(nat \<Rightarrow> nat \<Rightarrow> write_result) \<Rightarrow> bool" where
  "no_storm writev \<longleftrightarrow> (\<forall>n. \<exists>k \<ge> n. \<forall>m. writev k m \<noteq> Write_Error EINTR)"

definition send_returns :: "(nat \<Rightarrow> nat \<Rightarrow> write_result) \<Rightarrow> ptr set \<Rightarrow> buffer_chain \<Rightarrow> bstate \<Rightarrow> bool" where
  "send_returns writev fs c s \<longleftrightarrow>
     (\<exists>c' s' rc. send_loop writev c s = Some (c', s', rc) \<and> send_rel fs c s c' s' \<and> rc \<in> {-1, 0, 1})"

lemma send_returns_step:
  assumes "send_loop writev c s = send_loop writev c' s'" and "send_rel fs c s c' s'"
    and "send_returns writev fs c' s'"
  shows "send_returns writev fs c s"
proof -
  obtain c2 s2 rc where "send_loop writev c' s' = Some (c2, s2, rc)" "send_rel fs c' s' c2 s2" "rc \<in> {-1, 0, 1}"
    using assms(3) unfolding send_returns_def by blast
  then have "send_loop writev c s = Some (c2, s2, rc) \<and> send_rel fs c s c2 s2 \<and> rc \<in> {-1, 0, 1}"
    using assms(1) send_rel_trans [OF assms(2)] by simp
  then show ?thesis unfolding send_returns_def by blast
qed

lemma send_interrupted:
  assumes wr: "writes_ok writev" and stop: "\<And>m. writev k m \<noteq> Write_Error EINTR"
    and shorter: "\<And>c s ps qs. chain_inv c s ps qs fs \<Longrightarrow> length (contents (bufs s) ps) < l \<Longrightarrow> send_returns writev fs c s"
    and "chain_inv c s ps qs fs" and "length (contents (bufs s) ps) = l" and "ios s \<le> k"
  shows "send_returns writev fs c s"
  using assms(4-6)
proof (induction "k - ios s" arbitrary: c s ps qs rule: less_induct)
  case less
  from send_step [OF less.prems(1) wr] show ?case
  proof (elim disjE exE conjE)
    fix c' s' rc
    assume "send_loop writev c s = Some (c', s', rc)" "send_rel fs c s c' s'" "rc \<in> {-1, 0, 1}"
    then show ?thesis unfolding send_returns_def by blast
  next
    fix c' s' ps' qs' m
    assume n: "send_loop writev c s = send_loop writev c' s'" "send_rel fs c s c' s'"
      "chain_inv c' s' ps' qs' fs" "ios s' = ios s + 1" "writev (ios s) m = Write_Error EINTR"
      "contents (bufs s') ps' = contents (bufs s) ps"
    have "ios s \<noteq> k" using n(5) stop by metis
    then have k: "ios s' \<le> k" "k - ios s' < k - ios s" using less.prems(3) n(4) by simp_all
    have "length (contents (bufs s') ps') = l" using n(6) less.prems(2) by simp
    then have "send_returns writev fs c' s'" by (rule less.hyps [OF k(2) n(3) _ k(1)])
    then show ?thesis by (rule send_returns_step [OF n(1,2)])
  next
    fix c' s' ps' qs'
    assume n: "send_loop writev c s = send_loop writev c' s'" "send_rel fs c s c' s'"
      "chain_inv c' s' ps' qs' fs" "length (contents (bufs s') ps') < length (contents (bufs s) ps)"
    have "send_returns writev fs c' s'" using n(4) less.prems(2) by (intro shorter [OF n(3)]) simp
    then show ?thesis by (rule send_returns_step [OF n(1,2)])
  qed
qed

lemma send_loop_ok:
  assumes "chain_inv c s ps qs fs" and wr: "writes_ok writev" and st: "no_storm writev"
  shows "send_returns writev fs c s"
  using assms(1)
proof (induction "length (contents (bufs s) ps)" arbitrary: c s ps qs rule: less_induct)
  case less
  obtain k where k: "ios s \<le> k" "\<And>m. writev k m \<noteq> Write_Error EINTR" using st unfolding no_storm_def by blast
  show ?case by (rule send_interrupted [OF wr k(2) less.hyps less.prems refl k(1)])
qed

end
