(* ===== verification/Byte_Pipe.thy ===== *)
theory Byte_Pipe
  imports Prelude
begin

text \<open>
  The contract of a queue of bytes: \<open>feed\<close> appends the bytes it takes from outside, \<open>drain\<close> hands
  bytes from the front to the outside. Both return the new state with the bytes moved.
  The echo server of \<^verbatim>\<open>kznet/demo.c\<close> is such a client of \<^verbatim>\<open>kznet/buffer.c\<close>: it feeds what a peer
  sends and drains it back to the peer, in any order of events.
\<close>

datatype move = Feed | Drain

locale byte_pipe =
  fixes invar :: "'s \<Rightarrow> bool"
    and pending :: "'s \<Rightarrow> u8 list"
    and feed :: "'s \<Rightarrow> ('s \<times> u8 list) option"
    and drain :: "'s \<Rightarrow> ('s \<times> u8 list) option"
  assumes feed_law: "invar s \<Longrightarrow> \<exists>s' bs. feed s = Some (s', bs) \<and> invar s' \<and> pending s' = pending s @ bs"
    and drain_law: "invar s \<Longrightarrow> \<exists>s' bs. drain s = Some (s', bs) \<and> invar s' \<and> pending s = bs @ pending s'"

text \<open>A sequence of moves, with all bytes that came in and all that went out.\<close>

fun run_moves :: "('s \<Rightarrow> ('s \<times> u8 list) option) \<Rightarrow> ('s \<Rightarrow> ('s \<times> u8 list) option) \<Rightarrow> move list \<Rightarrow> 's \<Rightarrow>
    ('s \<times> u8 list \<times> u8 list) option" where
  "run_moves feed drain [] s = Some (s, [], [])"
| "run_moves feed drain (Feed # ms) s = do {
     (s, bs) \<leftarrow> feed s; (s, i, out) \<leftarrow> run_moves feed drain ms s; Some (s, bs @ i, out) }"
| "run_moves feed drain (Drain # ms) s = do {
     (s, bs) \<leftarrow> drain s; (s, i, out) \<leftarrow> run_moves feed drain ms s; Some (s, i, bs @ out) }"

context byte_pipe
begin

lemma run_moves_fifo:
  assumes "invar s"
  shows "\<exists>s' i out. run_moves feed drain ms s = Some (s', i, out) \<and> invar s' \<and> pending s @ i = out @ pending s'"
  using assms
proof (induction ms arbitrary: s)
  case Nil
  then show ?case by simp
next
  case (Cons m ms)
  show ?case
  proof (cases m)
    case Feed
    obtain s1 bs where s1: "feed s = Some (s1, bs)" "invar s1" "pending s1 = pending s @ bs"
      using feed_law [OF Cons.prems] by blast
    obtain s' i out where s': "run_moves feed drain ms s1 = Some (s', i, out)" "invar s'"
        "pending s1 @ i = out @ pending s'"
      using Cons.IH [OF s1(2)] by blast
    then show ?thesis using Feed s1 by simp
  next
    case Drain
    obtain s1 bs where s1: "drain s = Some (s1, bs)" "invar s1" "pending s = bs @ pending s1"
      using drain_law [OF Cons.prems] by blast
    obtain s' i out where s': "run_moves feed drain ms s1 = Some (s', i, out)" "invar s'"
        "pending s1 @ i = out @ pending s'"
      using Cons.IH [OF s1(2)] by blast
    then show ?thesis using Drain s1 by simp
  qed
qed

end

end
