(* ===== verification/Buffer_Pipe.thy ===== *)
theory Buffer_Pipe
  imports Buffer_Chain Byte_Pipe
begin

text \<open>
  A chain of \<^verbatim>\<open>kznet/buffer.c\<close> as a queue of bytes: the interpretation of the contract \<open>byte_pipe\<close>
  on the model, and the properties of the pool and the chain.
\<close>

section \<open>The bytes stored in a chain\<close>

text \<open>
  \<open>stored\<close> follows the chain from \<^verbatim>\<open>rbuf\<close> on; no chain has more blocks than were allocated.
\<close>

definition stored :: "buffer_chain \<Rightarrow> bstate \<Rightarrow> u8 list" where
  "stored c s = (case gather (nat (ballocs (bpool s))) (bufs s) (rbuf c) of None \<Rightarrow> [] | Some vec \<Rightarrow> concat vec)"

definition buf_inv :: "buffer_chain \<Rightarrow> bstate \<Rightarrow> ptr set \<Rightarrow> bool" where
  "buf_inv c s fs \<longleftrightarrow> (\<exists>ps qs. chain_inv c s ps qs fs)"

lemma stored_contents:
  assumes "chain_inv c s ps qs fs"
  shows "stored c s = contents (bufs s) ps"
proof -
  have m: "memory_ok s ps qs fs" and ch: "chain_ok c s ps" using assms by (simp_all add: chain_inv_def)
  have "length ps \<le> nat (ballocs (bpool s))" using m by (simp add: memory_ok_def)
  then show ?thesis
    using gather_ok [OF m, of "nat (ballocs (bpool s))"] ch
    by (simp add: stored_def contents_def chain_ok_def)
qed

lemma stored_flow:
  assumes "buf_inv c s fs"
  shows "cin c = cout c @ stored c s"
  using assms stored_contents unfolding buf_inv_def by (fastforce simp: chain_inv_def)

lemma recv_ok:
  assumes inv: "buf_inv c s fs" and "alloc_ok alloc" and "reads_ok readv" and "\<forall>n. \<exists>k \<ge> n. read_stops readv k"
  shows "\<exists>c' s' rc bs. buffer_chain_recv readv alloc junk c s = Some (c', s', rc) \<and> buf_inv c' s' fs
    \<and> rc \<in> {-1, 0, 1} \<and> cin c' = cin c @ bs \<and> cout c' = cout c \<and> stored c' s' = stored c s @ bs
    \<and> recv c' = of_nat (length bs) \<and> same_blocks fs s s'"
proof -
  obtain ps qs where i: "chain_inv c s ps qs fs" using inv unfolding buf_inv_def by blast
  let ?c = "c\<lparr>recv := 0\<rparr>"
  have i0: "chain_inv ?c s ps qs fs" using i by (simp add: chain_inv_def chain_ok_def)
  obtain k where k: "ios s \<le> k" "read_stops readv k" using assms(4) by blast
  obtain c' s' rc where r: "recv_loop readv alloc junk ?c s = Some (c', s', rc)" "recv_rel fs ?c s c' s'"
      "rc \<in> {-1, 0, 1}"
    using recv_loop_ok [OF i0 assms(2,3) k] by blast
  obtain ps' qs' bs where b: "chain_inv c' s' ps' qs' fs" "cin c' = cin c @ bs" "cout c' = cout c"
      "recv c' = of_nat (length bs)" "same_blocks fs s s'"
    using r(2) unfolding recv_rel_def by auto
  have bi: "buf_inv c' s' fs" using b(1) unfolding buf_inv_def by blast
  moreover have "stored c' s' = stored c s @ bs"
    using stored_flow [OF inv] stored_flow [OF bi] b(2,3) by simp
  ultimately show ?thesis using r(1,3) b unfolding buffer_chain_recv_def by blast
qed

lemma send_ok:
  assumes inv: "buf_inv c s fs" and "writes_ok writev" and "no_storm writev"
  shows "\<exists>c' s' rc bs. buffer_chain_send writev c s = Some (c', s', rc) \<and> buf_inv c' s' fs
    \<and> rc \<in> {-1, 0, 1} \<and> cout c' = cout c @ bs \<and> cin c' = cin c \<and> stored c s = bs @ stored c' s'
    \<and> sent c' = of_nat (length bs) \<and> same_blocks fs s s'"
proof -
  obtain ps qs where i: "chain_inv c s ps qs fs" using inv unfolding buf_inv_def by blast
  let ?c = "c\<lparr>sent := 0\<rparr>"
  have i0: "chain_inv ?c s ps qs fs" using i by (simp add: chain_inv_def chain_ok_def)
  obtain c' s' rc where r: "send_loop writev ?c s = Some (c', s', rc)" "send_rel fs ?c s c' s'" "rc \<in> {-1, 0, 1}"
    using send_loop_ok [OF i0 assms(2,3)] unfolding send_returns_def by blast
  obtain ps' qs' bs where b: "chain_inv c' s' ps' qs' fs" "cout c' = cout c @ bs" "cin c' = cin c"
      "sent c' = of_nat (length bs)" "same_blocks fs s s'"
    using r(2) unfolding send_rel_def by auto
  have bi: "buf_inv c' s' fs" using b(1) unfolding buf_inv_def by blast
  moreover have "stored c s = bs @ stored c' s'"
    using stored_flow [OF inv] stored_flow [OF bi] b(2,3) by simp
  ultimately show ?thesis using r(1,3) b unfolding buffer_chain_send_def by blast
qed

section \<open>The contract of a queue of bytes\<close>

text \<open>The environment the contract needs: memory, and a kernel as documented that is not always busy.\<close>

definition pipe_env ::
    "(nat \<Rightarrow> nat \<Rightarrow> read_result) \<Rightarrow> (nat \<Rightarrow> nat \<Rightarrow> write_result) \<Rightarrow> (nat \<Rightarrow> buf_heap \<Rightarrow> ptr) \<Rightarrow> bool" where
  "pipe_env readv writev alloc \<longleftrightarrow> alloc_ok alloc \<and> reads_ok readv \<and> (\<forall>n. \<exists>k \<ge> n. read_stops readv k)
     \<and> writes_ok writev \<and> no_storm writev"

definition pipe_inv ::
    "(nat \<Rightarrow> nat \<Rightarrow> read_result) \<Rightarrow> (nat \<Rightarrow> nat \<Rightarrow> write_result) \<Rightarrow> (nat \<Rightarrow> buf_heap \<Rightarrow> ptr) \<Rightarrow> ptr set \<Rightarrow>
     buffer_chain \<times> bstate \<Rightarrow> bool" where
  "pipe_inv readv writev alloc fs = (\<lambda>(c, s). pipe_env readv writev alloc \<and> buf_inv c s fs)"

definition pipe_recv ::
    "(nat \<Rightarrow> nat \<Rightarrow> read_result) \<Rightarrow> (nat \<Rightarrow> buf_heap \<Rightarrow> ptr) \<Rightarrow> (nat \<Rightarrow> u8) \<Rightarrow> buffer_chain \<times> bstate \<Rightarrow>
     ((buffer_chain \<times> bstate) \<times> u8 list) option" where
  "pipe_recv readv alloc junk = (\<lambda>(c, s). do {
     (c', s', rc) \<leftarrow> buffer_chain_recv readv alloc junk c s;
     Some ((c', s'), drop (length (cin c)) (cin c'))
   })"

definition pipe_send ::
    "(nat \<Rightarrow> nat \<Rightarrow> write_result) \<Rightarrow> buffer_chain \<times> bstate \<Rightarrow> ((buffer_chain \<times> bstate) \<times> u8 list) option" where
  "pipe_send writev = (\<lambda>(c, s). do {
     (c', s', rc) \<leftarrow> buffer_chain_send writev c s;
     Some ((c', s'), drop (length (cout c)) (cout c'))
   })"

interpretation chain_pipe: byte_pipe "pipe_inv readv writev alloc fs" "\<lambda>(c, s). stored c s"
    "pipe_recv readv alloc junk" "pipe_send writev"
  for readv writev alloc fs junk
proof
  fix cs
  assume inv: "pipe_inv readv writev alloc fs cs"
  obtain c s where cs: "cs = (c, s)" by (cases cs)
  have env: "pipe_env readv writev alloc" and i: "buf_inv c s fs" using inv by (simp_all add: pipe_inv_def cs)
  have e: "alloc_ok alloc" "reads_ok readv" "\<forall>n. \<exists>k \<ge> n. read_stops readv k" "writes_ok writev" "no_storm writev"
    using env by (simp_all add: pipe_env_def)
  from recv_ok [OF i e(1-3), of junk]
  obtain c' s' rc bs where r: "buffer_chain_recv readv alloc junk c s = Some (c', s', rc)" "buf_inv c' s' fs"
      "cin c' = cin c @ bs" "stored c' s' = stored c s @ bs"
    by blast
  then have "pipe_recv readv alloc junk cs = Some ((c', s'), bs)" by (simp add: pipe_recv_def cs)
  moreover have "pipe_inv readv writev alloc fs (c', s')" using env r(2) by (simp add: pipe_inv_def)
  ultimately show "\<exists>s' bs. pipe_recv readv alloc junk cs = Some (s', bs) \<and> pipe_inv readv writev alloc fs s'
      \<and> (case s' of (c, s) \<Rightarrow> stored c s) = (case cs of (c, s) \<Rightarrow> stored c s) @ bs"
    using r(4) cs by auto
  from send_ok [OF i e(4,5)]
  obtain c' s' rc bs where r: "buffer_chain_send writev c s = Some (c', s', rc)" "buf_inv c' s' fs"
      "cout c' = cout c @ bs" "stored c s = bs @ stored c' s'"
    by blast
  then have "pipe_send writev cs = Some ((c', s'), bs)" by (simp add: pipe_send_def cs)
  moreover have "pipe_inv readv writev alloc fs (c', s')" using env r(2) by (simp add: pipe_inv_def)
  ultimately show "\<exists>s' bs. pipe_send writev cs = Some (s', bs) \<and> pipe_inv readv writev alloc fs s'
      \<and> (case cs of (c, s) \<Rightarrow> stored c s) = bs @ (case s' of (c, s) \<Rightarrow> stored c s)"
    using r(4) cs by auto
qed

section \<open>A new chain\<close>

definition new_chain :: "ptr \<Rightarrow> buffer_chain" where
  "new_chain buf = \<lparr>rbuf = buf, wbuf = buf, sent = 0, recv = 0, cin = [], cout = []\<rparr>"

lemma get_ok:
  assumes inv: "pool_inv s ps qs fs" and mem: "alloc_ok alloc"
  shows "\<exists>s' q qs'. buffer_pool_get alloc junk s = Some (s', q) \<and> pool_inv s' ps qs' (insert q fs)
    \<and> q \<notin> fs \<and> block_ok (the (bufs s' q)) \<and> payload (the (bufs s' q)) = []
    \<and> bnext (the (bufs s' q)) = NULL \<and> same_blocks (set ps \<union> fs) s s'"
proof -
  obtain s1 q qs' where pk: "buffer_pool_peek alloc junk s = (s1, q)" "pool_inv s1 ps (q # qs') fs"
      "same_blocks (set ps \<union> fs) s s1"
    using peek_ok [OF inv mem] by blast
  have m: "memory_ok s1 ps (q # qs') fs" and po: "pool_ok s1 (q # qs')" using pk(2) by (simp_all add: pool_inv_def)
  have q: "q \<noteq> NULL" "q \<notin> fs" "q \<notin> set ps" using m by (auto simp: memory_ok_def)
  obtain s' where d: "buffer_detach s1 q = Some s'" "pool_inv s' ps qs' (insert q fs)"
      "bufs s' = (bufs s1)(q \<mapsto> (the (bufs s1 q))\<lparr>bnext := NULL\<rparr>)"
    using detach_ok [OF pk(2)] by blast
  have "block_ok (the (bufs s1 q))" using memory_live(3) [OF m, of q] by simp
  then have b: "block_ok (the (bufs s' q))" by (simp add: d(3) block_ok_def)
  moreover have "payload (the (bufs s' q)) = []" using po by (intro payload_empty [OF b]) (simp add: d(3) pool_ok_def)
  moreover have "same_blocks (set ps \<union> fs) s s'" using pk(3) q(2,3) by (auto simp: same_blocks_def d(3))
  ultimately show ?thesis
    using pk(1) d q(1,2) by (auto simp: buffer_pool_get_def)
qed

lemma start_chain:
  assumes inv: "pool_inv s [] qs fs" and mem: "alloc_ok alloc"
  shows "\<exists>s' q. buffer_pool_get alloc junk s = Some (s', q) \<and> buf_inv (new_chain q) s' fs
    \<and> stored (new_chain q) s' = [] \<and> same_blocks fs s s'"
proof -
  obtain s' q qs' where g: "buffer_pool_get alloc junk s = Some (s', q)" "pool_inv s' [] qs' (insert q fs)"
      "q \<notin> fs" "block_ok (the (bufs s' q))" "payload (the (bufs s' q)) = []" "bnext (the (bufs s' q)) = NULL"
      "same_blocks fs s s'"
    using get_ok [OF inv mem, of junk] by auto
  have "memory_ok s' ([] @ [q]) qs' fs" using g(2-4) by (intro memory_join) (simp_all add: pool_inv_def)
  then have i: "chain_inv (new_chain q) s' [q] qs' fs"
    using g(2,5,6) by (simp add: chain_inv_def pool_inv_def chain_ok_def new_chain_def next_of_def)
  then have "buf_inv (new_chain q) s' fs" unfolding buf_inv_def by blast
  moreover have "stored (new_chain q) s' = []" using stored_contents [OF i] g(5) by simp
  ultimately show ?thesis using g(1,7) by blast
qed

lemma free_buffers_ok:
  assumes "linked (next_of h) qs NULL" and "distinct (NULL # qs)" and "set qs \<subseteq> dom h"
  shows "free_buffers (hd (qs @ [NULL])) h = Some (h |` (- set qs))"
  using assms
proof (induction qs arbitrary: h)
  case Nil
  then show ?case by (simp add: free_buffers.simps)
next
  case (Cons q qs)
  have q: "q \<noteq> NULL" "h q = Some (the (h q))" using Cons.prems(2,3) by auto
  let ?h = "h(q := None)"
  have same: "next_of ?h r = next_of h r" if "r \<in> set qs" for r
    using that Cons.prems(2) by (auto simp: next_of_def)
  have "linked (next_of ?h) qs NULL"
    using Cons.prems(1) by (subst linked_cong [where g = "next_of h"]) (simp_all add: same)
  moreover have "distinct (NULL # qs)" "set qs \<subseteq> dom ?h" using Cons.prems(2,3) by auto
  ultimately have "free_buffers (hd (qs @ [NULL])) ?h = Some (?h |` (- set qs))" by (rule Cons.IH)
  moreover have "?h |` (- set qs) = h |` (- set (q # qs))" by (auto simp: restrict_map_def fun_eq_iff)
  moreover have "load h q = Some (the (h q))" "dealloc h q = Some ?h"
    using load_Some [of q h, OF q] dealloc_Some [of q h, OF q] by simp_all
  moreover have "bnext (the (h q)) = hd (qs @ [NULL])" using Cons.prems(1) by (simp add: next_of_def)
  ultimately show ?case using q(1) by (subst free_buffers.simps) simp
qed

lemma pool_delete_ok:
  assumes inv: "pool_inv s [] qs fs"
  shows "buffer_pool_delete s = Some (bufs s |` fs)"
proof -
  have m: "memory_ok s [] qs fs" and po: "pool_ok s qs" using inv by (simp_all add: pool_inv_def)
  have d: "dom (bufs s) = set qs \<union> fs" "set qs \<inter> fs = {}" "distinct (NULL # qs)"
    using m by (auto simp: memory_ok_def)
  have "buffer_pool_delete s = Some (bufs s |` (- set qs))"
    using free_buffers_ok [of "bufs s" qs] d po by (simp add: buffer_pool_delete_def pool_ok_def)
  moreover have "bufs s |` (- set qs) = bufs s |` fs"
  proof
    fix p
    show "(bufs s |` (- set qs)) p = (bufs s |` fs) p"
      using d(1,2) by (cases "p \<in> set qs"; cases "p \<in> fs") (auto simp: restrict_map_def domIff)
  qed
  ultimately show ?thesis by simp
qed

lemma put_allocs:
  "buffer_pool_put s p = Some (s', rc) \<Longrightarrow> ballocs (bpool s') =
     (if ballocs (bpool s) > bmax (bpool s) then ballocs (bpool s) - 1 else ballocs (bpool s))
     \<and> bmax (bpool s') = bmax (bpool s)"
  by (auto simp: buffer_pool_put_def Option.bind_eq_Some_conv split: if_splits option.splits)

section \<open>A sample environment\<close>

definition echo_readv :: "nat \<Rightarrow> nat \<Rightarrow> read_result" where
  "echo_readv n m = (if even n then Bytes (take m [104, 105, 33]) else Read_Error EAGAIN)"

definition echo_writev :: "nat \<Rightarrow> nat \<Rightarrow> write_result" where
  "echo_writev n m = (if n mod 4 = 3 then Write_Error EINTR else Count (min 2 m))"

definition echo_alloc :: "nat \<Rightarrow> buf_heap \<Rightarrow> ptr" where
  "echo_alloc n h = Suc (Max (insert 0 (dom h)))"

definition empty_state :: bstate where
  "empty_state = \<lparr>bufs = Map.empty, bpool = \<lparr>bmax = 100, ballocs = 0, bsize = 0, bhead = NULL, btail = None\<rparr>,
     mallocs = 0, ios = 0\<rparr>"

lemma fresh_max: "finite (dom h) \<Longrightarrow> fresh h (Suc (Max (insert 0 (dom h))))"
proof -
  assume fin: "finite (dom h)"
  have "Suc (Max (insert 0 (dom h))) \<notin> dom h"
  proof
    assume "Suc (Max (insert 0 (dom h))) \<in> dom h"
    then have "Suc (Max (insert 0 (dom h))) \<le> Max (insert 0 (dom h))" using fin by (intro Max_ge) auto
    then show False by simp
  qed
  then show ?thesis by (auto simp: fresh_def domIff)
qed

lemma echo_alloc_ok: "alloc_ok echo_alloc"
  using fresh_max by (auto simp: alloc_ok_def echo_alloc_def)

lemma echo_stops: "\<forall>n. \<exists>k \<ge> n. read_stops echo_readv k"
proof
  fix n
  have "read_stops echo_readv (2 * n + 1)" by (simp add: read_stops_def echo_readv_def)
  then show "\<exists>k \<ge> n. read_stops echo_readv k" by (intro exI [of _ "2 * n + 1"]) simp
qed

lemma echo_no_storm: "no_storm echo_writev"
  unfolding no_storm_def
proof
  fix n
  have "\<forall>m. echo_writev (4 * n) m \<noteq> Write_Error EINTR" by (simp add: echo_writev_def)
  then show "\<exists>k \<ge> n. \<forall>m. echo_writev k m \<noteq> Write_Error EINTR" by (intro exI [of _ "4 * n"]) simp
qed

lemma echo_bounds: "reads_ok echo_readv" "writes_ok echo_writev"
  by (auto simp: reads_ok_def writes_ok_def echo_readv_def echo_writev_def split: if_splits)

lemma echo_env: "pipe_env echo_readv echo_writev echo_alloc"
  using echo_alloc_ok echo_stops echo_no_storm echo_bounds by (simp add: pipe_env_def)

lemma empty_state_pool: "pool_inv empty_state [] [] {}"
  by (simp add: pool_inv_def memory_ok_def pool_ok_def empty_state_def)

lemma empty_state_chain:
  "buffer_pool_get echo_alloc (\<lambda>_. 7) empty_state = Some (s, q) \<Longrightarrow>
     buf_inv (new_chain q) s {} \<and> stored (new_chain q) s = []"
  using start_chain [OF empty_state_pool echo_alloc_ok, of "\<lambda>_. 7"] by auto

lemma empty_state_get: "\<exists>s q. buffer_pool_get echo_alloc (\<lambda>_. 7) empty_state = Some (s, q)"
  using start_chain [OF empty_state_pool echo_alloc_ok, of "\<lambda>_. 7"] by auto

section \<open>Properties\<close>

text \<open>
  C16. \<^verbatim>\<open>buffer_chain_recv\<close> returns as soon as the kernel delivers less than there is room for, or
  reports something else than an interrupt. Whatever it returns (1, 0 at the end of the stream, -1 for
  an error), the bytes delivered were appended to those stored in the chain, block by block; their
  number is in \<^verbatim>\<open>recv\<close>. The blocks of other chains are untouched.
\<close>

theorem buffer_chain_recv_spec:
  assumes "buf_inv c s fs" and "alloc_ok alloc" and "reads_ok readv" and "\<forall>n. \<exists>k \<ge> n. read_stops readv k"
  shows "\<exists>c' s' rc bs. buffer_chain_recv readv alloc junk c s = Some (c', s', rc) \<and> buf_inv c' s' fs
    \<and> rc \<in> {-1, 0, 1} \<and> cin c' = cin c @ bs \<and> cout c' = cout c \<and> stored c' s' = stored c s @ bs
    \<and> recv c' = of_nat (length bs) \<and> same_blocks fs s s'"
  using recv_ok [OF assms] .

theorem buffer_chain_recv_spec_witness:
  "\<exists>s q. buffer_pool_get echo_alloc (\<lambda>_. 7) empty_state = Some (s, q)
    \<and> (\<exists>c' s' rc. buffer_chain_recv echo_readv echo_alloc (\<lambda>_. 7) (new_chain q) s = Some (c', s', rc)
      \<and> stored c' s' = cin c')"
proof -
  obtain s q where g: "buffer_pool_get echo_alloc (\<lambda>_. 7) empty_state = Some (s, q)"
    using empty_state_get by blast
  have "buf_inv (new_chain q) s {}" "stored (new_chain q) s = []" using empty_state_chain [OF g] by simp_all
  then show ?thesis
    using g buffer_chain_recv_spec [OF _ echo_alloc_ok echo_bounds(1) echo_stops, of "new_chain q" s "{}" "\<lambda>_. 7"]
    by (fastforce simp: new_chain_def)
qed

text \<open>
  C17. \<^verbatim>\<open>buffer_chain_send\<close> returns when the kernel does not interrupt all its calls. The bytes the
  kernel accepted are the first ones stored in the chain, which keeps the rest; their number is in
  \<^verbatim>\<open>sent\<close>. The blocks emptied go back to the pool, those of other chains are untouched.
\<close>

theorem buffer_chain_send_spec:
  assumes "buf_inv c s fs" and "writes_ok writev" and "no_storm writev"
  shows "\<exists>c' s' rc bs. buffer_chain_send writev c s = Some (c', s', rc) \<and> buf_inv c' s' fs
    \<and> rc \<in> {-1, 0, 1} \<and> cout c' = cout c @ bs \<and> cin c' = cin c \<and> stored c s = bs @ stored c' s'
    \<and> sent c' = of_nat (length bs) \<and> same_blocks fs s s'"
  using send_ok [OF assms] .

theorem buffer_chain_send_spec_witness:
  "\<exists>s q. buffer_pool_get echo_alloc (\<lambda>_. 7) empty_state = Some (s, q)
    \<and> (\<exists>c' s' rc. buffer_chain_send echo_writev (new_chain q) s = Some (c', s', rc) \<and> stored c' s' = [])"
proof -
  obtain s q where g: "buffer_pool_get echo_alloc (\<lambda>_. 7) empty_state = Some (s, q)"
    using empty_state_get by blast
  have "buf_inv (new_chain q) s {}" "stored (new_chain q) s = []" using empty_state_chain [OF g] by simp_all
  then show ?thesis
    using g buffer_chain_send_spec [OF _ echo_bounds(2) echo_no_storm, of "new_chain q" s "{}"] by fastforce
qed

text \<open>
  C4. A connection whose chain starts with one block of the pool echoes: after any sequence of
  receiving and sending, the bytes written are a prefix of the bytes read, and the rest is what the
  chain holds.
\<close>

theorem buffer_chain_echo:
  assumes "pool_inv s [] qs fs" and "pipe_env readv writev alloc"
  shows "\<exists>s1 q. buffer_pool_get alloc junk s = Some (s1, q)
    \<and> (\<exists>c' s' received written.
        run_moves (pipe_recv readv alloc junk) (pipe_send writev) moves (new_chain q, s1) =
          Some ((c', s'), received, written)
        \<and> received = written @ stored c' s')"
proof -
  have mem: "alloc_ok alloc" using assms(2) by (simp add: pipe_env_def)
  obtain s1 q where g: "buffer_pool_get alloc junk s = Some (s1, q)" "buf_inv (new_chain q) s1 fs"
      "stored (new_chain q) s1 = []"
    using start_chain [OF assms(1) mem] by blast
  have "pipe_inv readv writev alloc fs (new_chain q, s1)" using g(2) assms(2) by (simp add: pipe_inv_def)
  from chain_pipe.run_moves_fifo [OF this, of junk moves]
  show ?thesis using g(1,3) by auto
qed

theorem buffer_chain_echo_witness:
  "\<exists>s1 q c' s' i out. buffer_pool_get echo_alloc (\<lambda>_. 7) empty_state = Some (s1, q)
    \<and> run_moves (pipe_recv echo_readv echo_alloc (\<lambda>_. 7)) (pipe_send echo_writev)
        [Feed, Drain, Feed, Feed, Drain] (new_chain q, s1) = Some ((c', s'), i, out)
    \<and> i = out @ stored c' s'"
  using buffer_chain_echo [OF empty_state_pool echo_env, of "\<lambda>_. 7" "[Feed, Drain, Feed, Feed, Drain]"] by blast

text \<open>
  The pool: with memory, \<^verbatim>\<open>buffer_pool_get\<close> hands out an empty block that is in no chain;
  \<^verbatim>\<open>buffer_pool_put\<close> takes back a block, and frees it instead when more blocks are allocated than
  \<^verbatim>\<open>maxsize\<close>; the counters stay the numbers of blocks of the pool and of all live blocks. When the
  pool is deleted exactly its own blocks are freed.
\<close>

theorem buffer_pool_spec:
  assumes "pool_inv s ps qs fs" and "alloc_ok alloc"
  shows "(\<exists>s' q qs'. buffer_pool_get alloc junk s = Some (s', q) \<and> pool_inv s' ps qs' (insert q fs)
      \<and> q \<notin> fs \<and> payload (the (bufs s' q)) = [] \<and> same_blocks (set ps \<union> fs) s s')
    \<and> (case ps of [] \<Rightarrow> buffer_pool_delete s = Some (bufs s |` fs)
      | p # rest \<Rightarrow> (\<exists>s' qs'. buffer_pool_put s p = Some (s', 0) \<and> pool_inv s' rest qs' fs
          \<and> ballocs (bpool s') = (if ballocs (bpool s) > bmax (bpool s) then ballocs (bpool s) - 1
              else ballocs (bpool s))
          \<and> same_blocks (set rest \<union> fs) s s'))"
proof
  show "\<exists>s' q qs'. buffer_pool_get alloc junk s = Some (s', q) \<and> pool_inv s' ps qs' (insert q fs)
      \<and> q \<notin> fs \<and> payload (the (bufs s' q)) = [] \<and> same_blocks (set ps \<union> fs) s s'"
    using get_ok [OF assms, of junk] by blast
  show "case ps of [] \<Rightarrow> buffer_pool_delete s = Some (bufs s |` fs)
      | p # rest \<Rightarrow> (\<exists>s' qs'. buffer_pool_put s p = Some (s', 0) \<and> pool_inv s' rest qs' fs
          \<and> ballocs (bpool s') = (if ballocs (bpool s) > bmax (bpool s) then ballocs (bpool s) - 1
              else ballocs (bpool s))
          \<and> same_blocks (set rest \<union> fs) s s')"
  proof (cases ps)
    case Nil
    then show ?thesis using pool_delete_ok assms(1) by simp
  next
    case (Cons p rest)
    obtain s' qs' where "buffer_pool_put s p = Some (s', 0)" "pool_inv s' rest qs' fs"
        "same_blocks (set rest \<union> fs) s s'"
      using put_ok [of s p rest qs fs] assms(1) Cons by blast
    then show ?thesis using put_allocs [of s p s' 0] Cons by auto
  qed
qed

theorem buffer_pool_spec_witness:
  "(\<exists>s q. buffer_pool_get echo_alloc (\<lambda>_. 7) empty_state = Some (s, q))
    \<and> buffer_pool_delete empty_state = Some Map.empty"
  using buffer_pool_spec [OF empty_state_pool echo_alloc_ok, of "\<lambda>_. 7"] by (auto simp: empty_state_def)

text \<open>
  \<^verbatim>\<open>buffer_chain_recv\<close> does not check the block it takes from the pool: when the pool is empty
  and memory runs out, it follows a null pointer.
\<close>

theorem buffer_recv_unchecked:
  assumes "buf_inv c s fs" and "bhead (bpool s) = NULL" and "alloc (mallocs s) (bufs s) = NULL"
  shows "buffer_chain_recv readv alloc junk c s = None"
proof -
  have "buffer_pool_peek alloc junk s = (s\<lparr>mallocs := mallocs s + 1\<rparr>, NULL)"
    using assms(2,3) by (simp add: buffer_pool_peek_def Let_def)
  then show ?thesis
    by (simp add: buffer_chain_recv_def recv_loop.simps split: Option.bind_split)
qed

theorem buffer_recv_unchecked_witness:
  "\<exists>s q. buffer_pool_get echo_alloc (\<lambda>_. 7) empty_state = Some (s, q)
    \<and> buffer_chain_recv echo_readv (\<lambda>_ _. NULL) (\<lambda>_. 7) (new_chain q) s = None"
proof -
  obtain s q where g: "buffer_pool_get echo_alloc (\<lambda>_. 7) empty_state = Some (s, q)"
    using empty_state_get by blast
  then have "bhead (bpool s) = NULL"
    by (auto simp: buffer_pool_get_def buffer_pool_peek_def empty_state_def buffer_detach_def new_buffer_def
        Let_def load_def store_def split: if_splits)
  then show ?thesis using g buffer_recv_unchecked [of "new_chain q" s "{}"] empty_state_chain [OF g] by auto
qed

end
