(* ===== verification/Chain_Family.thy ===== *)
theory Chain_Family
  imports Buffer_Pipe
begin

text \<open>
  Several chains of \<^verbatim>\<open>kznet/buffer.c\<close> that share a pool, as the connections of a server do: an operation
  on one of them leaves the bytes of the others alone.
\<close>

section \<open>One chain and the rest of the memory\<close>

definition chain_part :: "buffer_chain \<Rightarrow> bstate \<Rightarrow> ptr list \<Rightarrow> bool" where
  "chain_part c s ps \<longleftrightarrow> chain_ok c s ps \<and> distinct ps \<and> NULL \<notin> set ps
     \<and> (\<forall>p \<in> set ps. bufs s p \<noteq> None \<and> block_ok (the (bufs s p))) \<and> cin c = cout c @ contents (bufs s) ps"

lemma chain_part_frame:
  assumes "chain_part c s ps" and "same_blocks (set ps) s s'"
  shows "chain_part c s' ps" and "contents (bufs s') ps = contents (bufs s) ps"
proof -
  have same: "bufs s' p = bufs s p" if "p \<in> set ps" for p using assms(2) that by (simp add: same_blocks_def)
  show c: "contents (bufs s') ps = contents (bufs s) ps"
    using same unfolding contents_def by (intro arg_cong [where f = concat] map_cong) simp_all
  have "linked (next_of (bufs s')) ps NULL = linked (next_of (bufs s)) ps NULL"
    by (rule linked_cong) (simp add: next_of_def same)
  then show "chain_part c s' ps" using assms(1) same c by (simp add: chain_part_def chain_ok_def)
qed

lemma chain_split:
  assumes "chain_inv c s ps qs fs"
  shows "chain_part c s ps" and "pool_inv s [] qs (set ps \<union> fs)" and "set ps \<inter> fs = {}"
proof -
  have m: "memory_ok s ps qs fs" and p: "pool_ok s qs" and c: "chain_ok c s ps" "cin c = cout c @ contents (bufs s) ps"
    using assms by (simp_all add: chain_inv_def)
  show disj: "set ps \<inter> fs = {}" using m by (auto simp: memory_ok_def)
  have "card (set ps \<union> fs) = length ps + card fs"
    using m disj by (simp add: memory_ok_def card_Un_disjoint distinct_card)
  then show "pool_inv s [] qs (set ps \<union> fs)"
    using m p unfolding pool_inv_def memory_ok_def by auto
  show "chain_part c s ps" using m c memory_live(2) [OF m] unfolding chain_part_def memory_ok_def by auto
qed

lemma chain_join:
  assumes c: "chain_part c s ps" and i: "pool_inv s [] qs F" and sub: "set ps \<subseteq> F"
  shows "chain_inv c s ps qs (F - set ps)"
proof -
  have m: "memory_ok s [] qs F" and p: "pool_ok s qs" using i by (simp_all add: pool_inv_def)
  have "finite F" using m by (simp add: memory_ok_def)
  then have "length ps + card (F - set ps) = card F"
    using c sub by (metis card_Diff_subset card_mono chain_part_def distinct_card finite_set le_add_diff_inverse)
  then have "memory_ok s ps qs (F - set ps)" using m c sub unfolding memory_ok_def chain_part_def by auto
  then show ?thesis using c p by (simp add: chain_inv_def chain_part_def)
qed

section \<open>Families of chains\<close>

text \<open>The chains have no block in common, and the pool holds every other block.\<close>

definition family :: "(ptr \<rightharpoonup> buffer_chain) \<Rightarrow> bstate \<Rightarrow> (ptr \<Rightarrow> ptr list) \<Rightarrow> ptr list \<Rightarrow> bool" where
  "family cs s blk qs \<longleftrightarrow> finite (dom cs) \<and> (\<forall>p c. cs p = Some c \<longrightarrow> chain_part c s (blk p))
     \<and> (\<forall>p \<in> dom cs. \<forall>q \<in> dom cs. p \<noteq> q \<longrightarrow> set (blk p) \<inter> set (blk q) = {})
     \<and> pool_inv s [] qs (\<Union>p \<in> dom cs. set (blk p))"

definition chains_inv :: "(ptr \<rightharpoonup> buffer_chain) \<Rightarrow> bstate \<Rightarrow> bool" where
  "chains_inv cs s \<longleftrightarrow> (\<exists>blk qs. family cs s blk qs)"

lemma family_chain:
  assumes "family cs s blk qs" and "cs p = Some c"
  shows "chain_inv c s (blk p) qs (\<Union>q \<in> dom cs - {p}. set (blk q))"
    and "stored c s = contents (bufs s) (blk p)"
proof -
  have sub: "set (blk p) \<subseteq> (\<Union>q \<in> dom cs. set (blk q))" using assms(2) by auto
  have "(\<Union>q \<in> dom cs. set (blk q)) - set (blk p) = (\<Union>q \<in> dom cs - {p}. set (blk q))"
    using assms unfolding family_def by fastforce
  moreover have part: "chain_part c s (blk p)" and pool: "pool_inv s [] qs (\<Union>q \<in> dom cs. set (blk q))"
    using assms by (simp_all add: family_def)
  ultimately show i: "chain_inv c s (blk p) qs (\<Union>q \<in> dom cs - {p}. set (blk q))"
    using chain_join [OF part pool sub] by simp
  then show "stored c s = contents (bufs s) (blk p)" by (rule stored_contents)
qed

lemma family_update:
  assumes fam: "family cs s blk qs" and p: "p \<in> dom cs"
    and c': "chain_inv c' s' ps qs' (\<Union>q \<in> dom cs - {p}. set (blk q))"
    and same: "same_blocks (\<Union>q \<in> dom cs - {p}. set (blk q)) s s'"
  shows "family (cs(p \<mapsto> c')) s' (blk(p := ps)) qs'"
proof -
  note new = chain_split [OF c']
  have other: "chain_part d s' (blk q)" if q: "q \<noteq> p" "cs q = Some d" for q d
  proof -
    have "same_blocks (set (blk q)) s s'" using same q by (auto simp: same_blocks_def)
    then show ?thesis using fam q(2) chain_part_frame(1) [of d s "blk q" s'] by (simp add: family_def)
  qed
  have un: "(\<Union>q \<in> dom (cs(p \<mapsto> c')). set ((blk(p := ps)) q)) = set ps \<union> (\<Union>q \<in> dom cs - {p}. set (blk q))"
    by (auto split: if_splits)
  have "\<forall>q d. (cs(p \<mapsto> c')) q = Some d \<longrightarrow> chain_part d s' ((blk(p := ps)) q)" using new(1) other by simp
  moreover have "set ((blk(p := ps)) q) \<inter> set ((blk(p := ps)) r) = {}"
    if "q \<in> dom (cs(p \<mapsto> c'))" "r \<in> dom (cs(p \<mapsto> c'))" "q \<noteq> r" for q r
  proof -
    consider "q = p" | "r = p" | "q \<noteq> p" "r \<noteq> p" by blast
    then show ?thesis
    proof cases
      case 1
      then have "r \<in> dom cs - {p}" using that by auto
      then show ?thesis using new(3) 1 that(3) by auto
    next
      case 2
      then have "q \<in> dom cs - {p}" using that by auto
      then show ?thesis using new(3) 2 that(3) by auto
    next
      case 3
      then have "q \<in> dom cs" "r \<in> dom cs" using that(1,2) by auto
      then show ?thesis using fam that(3) 3 by (simp add: family_def)
    qed
  qed
  moreover have "finite (dom (cs(p \<mapsto> c')))" using fam by (simp add: family_def)
  ultimately show ?thesis using new(2) unfolding family_def un by blast
qed

text \<open>The rule for an operation on one chain.\<close>

lemma chains_focus:
  assumes "chains_inv cs s" and p: "cs p = Some c"
  shows "\<exists>fs. buf_inv c s fs \<and> (\<forall>c' s'. buf_inv c' s' fs \<longrightarrow> same_blocks fs s s' \<longrightarrow>
    chains_inv (cs(p \<mapsto> c')) s' \<and> (\<forall>q d. q \<noteq> p \<longrightarrow> cs q = Some d \<longrightarrow> stored d s' = stored d s))"
proof -
  obtain blk qs where fam: "family cs s blk qs" using assms(1) by (auto simp: chains_inv_def)
  let ?fs = "\<Union>q \<in> dom cs - {p}. set (blk q)"
  have "chains_inv (cs(p \<mapsto> c')) s' \<and> (\<forall>q d. q \<noteq> p \<longrightarrow> cs q = Some d \<longrightarrow> stored d s' = stored d s)"
    if b: "buf_inv c' s' ?fs" and same: "same_blocks ?fs s s'" for c' s'
  proof -
    obtain ps qs' where "chain_inv c' s' ps qs' ?fs" using b by (auto simp: buf_inv_def)
    then have fam': "family (cs(p \<mapsto> c')) s' (blk(p := ps)) qs'" using fam p same by (intro family_update) auto
    have "stored d s' = stored d s" if q: "q \<noteq> p" "cs q = Some d" for q d
    proof -
      have "stored d s' = contents (bufs s') (blk q)" using family_chain(2) [OF fam', of q d] q by simp
      moreover have "same_blocks (set (blk q)) s s'" using same q by (auto simp: same_blocks_def)
      ultimately show ?thesis
        using family_chain(2) [OF fam q(2)] fam q(2) chain_part_frame(2) [of d s "blk q" s'] by (simp add: family_def)
    qed
    then show ?thesis using fam' unfolding chains_inv_def by blast
  qed
  moreover have "buf_inv c s ?fs" using family_chain(1) [OF fam p] unfolding buf_inv_def by blast
  ultimately show ?thesis by blast
qed

text \<open>The rule for a new chain with one block of the pool.\<close>

lemma chains_new:
  assumes "chains_inv cs s" and p: "cs p = None" and mem: "alloc_ok alloc"
  shows "\<exists>s' q. buffer_pool_get alloc junk s = Some (s', q) \<and> chains_inv (cs(p \<mapsto> new_chain q)) s'
    \<and> stored (new_chain q) s' = [] \<and> (\<forall>r d. cs r = Some d \<longrightarrow> stored d s' = stored d s)"
proof -
  obtain blk qs where fam: "family cs s blk qs" using assms(1) by (auto simp: chains_inv_def)
  let ?F = "\<Union>q \<in> dom cs. set (blk q)"
  obtain s' q qs' where g: "buffer_pool_get alloc junk s = Some (s', q)" "pool_inv s' [] qs' (insert q ?F)"
      "q \<notin> ?F" "block_ok (the (bufs s' q))" "payload (the (bufs s' q)) = []" "bnext (the (bufs s' q)) = NULL"
      "same_blocks ?F s s'"
    using get_ok [of s "[]" qs ?F alloc junk] fam mem by (auto simp: family_def)
  have live: "q \<noteq> NULL" "bufs s' q \<noteq> None" using g(2) by (auto simp: pool_inv_def memory_ok_def domIff)
  have other: "chain_part d s' (blk r)" "contents (bufs s') (blk r) = contents (bufs s) (blk r)"
    if r: "cs r = Some d" for r d
  proof -
    have "same_blocks (set (blk r)) s s'" using g(7) r by (auto simp: same_blocks_def)
    then show "chain_part d s' (blk r)" "contents (bufs s') (blk r) = contents (bufs s) (blk r)"
      using fam r chain_part_frame [of d s "blk r" s'] by (simp_all add: family_def)
  qed
  have new: "chain_part (new_chain q) s' [q]"
    using g(4-6) live by (simp add: chain_part_def chain_ok_def new_chain_def next_of_def contents_def)
  have "(\<Union>r \<in> dom cs. set ((blk(p := [q])) r)) = ?F"
    using p by (intro SUP_cong refl) auto
  then have un: "(\<Union>r \<in> dom (cs(p \<mapsto> new_chain q)). set ((blk(p := [q])) r)) = insert q ?F" by simp
  have "set ((blk(p := [q])) r) \<inter> set ((blk(p := [q])) t) = {}"
    if "r \<in> dom (cs(p \<mapsto> new_chain q))" "t \<in> dom (cs(p \<mapsto> new_chain q))" "r \<noteq> t" for r t
  proof -
    have "x \<in> set (blk r) \<Longrightarrow> x \<in> set (blk t) \<Longrightarrow> r \<in> dom cs \<Longrightarrow> t \<in> dom cs \<Longrightarrow> False" for x
      using fam that(3) unfolding family_def by (meson disjoint_iff)
    then show ?thesis using that g(3) p by (auto split: if_splits)
  qed
  moreover have "\<forall>r d. (cs(p \<mapsto> new_chain q)) r = Some d \<longrightarrow> chain_part d s' ((blk(p := [q])) r)"
    using new other(1) by simp
  moreover have "finite (dom (cs(p \<mapsto> new_chain q)))" using fam by (simp add: family_def)
  ultimately have fam': "family (cs(p \<mapsto> new_chain q)) s' (blk(p := [q])) qs'"
    using g(2) unfolding family_def un by blast
  have "stored d s' = stored d s" if r: "cs r = Some d" for r d
  proof -
    have "r \<noteq> p" using p r by auto
    then have "stored d s' = contents (bufs s') (blk r)" using family_chain(2) [OF fam', of r d] r by simp
    then show ?thesis using other(2) [OF r] family_chain(2) [OF fam r] by simp
  qed
  moreover have "stored (new_chain q) s' = []"
    using family_chain(2) [OF fam', of p "new_chain q"] g(5) by (simp add: contents_def)
  ultimately show ?thesis using g(1) fam' unfolding chains_inv_def by blast
qed

lemma chains_empty: "pool_inv s [] qs {} \<Longrightarrow> chains_inv Map.empty s"
  unfolding chains_inv_def family_def by (intro exI [of _ "\<lambda>_. []"] exI [of _ qs]) simp

lemma chains_flow: "chains_inv cs s \<Longrightarrow> cs p = Some c \<Longrightarrow> cin c = cout c @ stored c s"
  using chains_focus stored_flow by blast

end
