(* ===== verification/Socket_Spec.thy ===== *)
theory Socket_Spec
  imports Socket
begin

text \<open>
  What the functions of \<^verbatim>\<open>kznet/socket.c\<close> do to the descriptors of the process: connecting and serving
  open one descriptor or none, and where one is left open.
\<close>

unbundle bit_operations_syntax

text \<open>A call that creates a descriptor returns one that is not open, and never a negative one.\<close>

definition newfd_ok :: "sock_env \<Rightarrow> bool" where
  "newfd_ok env \<longleftrightarrow> (\<forall>n F. finite (dom F) \<longrightarrow> 0 \<le> newfd env n F \<and> F (newfd env n F) = None)"

section \<open>Calls on an open descriptor\<close>

lemma message_fields [simp]:
  "fds (socket_error e t n) = fds n" "lists (socket_error e t n) = lists n" "err (socket_error e t n) = err n"
  "fds (fail_with env e t n) = fds n" "lists (fail_with env e t n) = lists n"
  by (simp_all add: socket_error_def fail_with_def)

lemma on_fd_open:
  assumes "fds n = F(s \<mapsto> d)" and "on_fd env s f n = (n', r)"
  shows "lists n' = lists n \<and> (r = 0 \<and> fds n' = F(s \<mapsto> f d) \<or> r = -1 \<and> fds n' = F(s \<mapsto> d))"
  using assms by (auto simp: on_fd_def attempt_def Let_def split: option.splits if_splits prod.splits)

lemma option_open:
  assumes "fds n = F(s \<mapsto> d)" and "sys_setsockopt env s opt v n = (n', r)"
  shows "lists n' = lists n
    \<and> (r = 0 \<and> fds n' = F(s \<mapsto> d\<lparr>options := (options d)(opt \<mapsto> v)\<rparr>) \<or> r = -1 \<and> fds n' = F(s \<mapsto> d))"
  using on_fd_open [OF assms(1) assms(2) [unfolded sys_setsockopt_def]] by simp

lemma set_reuseaddr_open:
  assumes "fds n = F(s \<mapsto> d)" and "set_reuseaddr env e s on n = (n', r)"
  shows "lists n' = lists n
    \<and> (r = 0 \<and> fds n' = F(s \<mapsto> d\<lparr>options := (options d)(SO_REUSEADDR \<mapsto> on)\<rparr>) \<or> r = -1 \<and> fds n' = F(s \<mapsto> d))"
proof -
  obtain m q where c: "sys_setsockopt env s SO_REUSEADDR on n = (m, q)" by fastforce
  then show ?thesis using option_open [OF assms(1) c] assms(2)
    by (auto simp: set_reuseaddr_def split: if_splits)
qed

lemma set_nonblock_open:
  assumes "fds n = F(s \<mapsto> d)" and "set_nonblock env e s n = (n', r)"
  shows "lists n' = lists n
    \<and> (r = 0 \<and> fds n' = F(s \<mapsto> d\<lparr>status := status d OR O_NONBLOCK\<rparr>) \<or> r = -1 \<and> fds n' = F(s \<mapsto> d))"
proof -
  obtain m q where c: "on_fd env s id n = (m, q)" by fastforce
  have m: "lists m = lists n" "fds m = F(s \<mapsto> d)" "q = 0 \<or> q = -1" using on_fd_open [OF assms(1) c] by auto
  show ?thesis
  proof (cases "q = -1")
    case True
    then show ?thesis using assms(2) c m by (auto simp: set_nonblock_def sys_getfl_def)
  next
    case False
    then have g: "sys_getfl env s status n = (m, Some (status d))" using c m by (simp add: sys_getfl_def)
    obtain m' q' where c': "on_fd env s (status_update (\<lambda>_. status d OR O_NONBLOCK)) m = (m', q')" by fastforce
    then show ?thesis using assms(2) g m(1) on_fd_open [OF m(2) c']
      by (auto simp: set_nonblock_def split: if_splits)
  qed
qed

lemma sys_connect_open:
  assumes "fds n = F(s \<mapsto> d)" and "sys_connect env s p n = (n', r)"
  shows "lists n' = lists n \<and> (r = 0 \<and> fds n' = F(s \<mapsto> d\<lparr>phase := Connected (ai_addr p)\<rparr>)
      \<or> r = -1 \<and> (\<exists>d'. fds n' = F(s \<mapsto> d') \<and> (err n' = EINPROGRESS \<longrightarrow> d' = d\<lparr>phase := Connecting (ai_addr p)\<rparr>)))"
proof -
  obtain m q where c: "on_fd env s (phase_update (\<lambda>_. Connected (ai_addr p))) n = (m, q)" by fastforce
  show ?thesis using on_fd_open [OF assms(1) c] assms(2) c by (auto simp: sys_connect_def split: if_splits)
qed

lemma sys_socket_fresh:
  assumes "newfd_ok env" and "finite (dom (fds n))" and "sys_socket env p n = (n', s)"
  shows "lists n' = lists n \<and> (s = -1 \<and> fds n' = fds n
    \<or> 0 \<le> s \<and> fds n s = None
      \<and> fds n' = (fds n)(s \<mapsto> \<lparr>status = 0, dflags = 0, options = Map.empty, phase = Created, shut_rd = False, shut_wr = False\<rparr>))"
proof -
  have "0 \<le> newfd env k (fds n)" "fds n (newfd env k (fds n)) = None" for k
    using assms(1,2) by (simp_all add: newfd_ok_def)
  then show ?thesis using assms(3) by (auto simp: sys_socket_def attempt_def Let_def split: option.splits if_splits)
qed

lemma sys_close_open: "fds n = F(s \<mapsto> d) \<Longrightarrow> F s = None \<Longrightarrow> fds (sys_close s n) = F \<and> lists (sys_close s n) = lists n"
  by (auto simp: sys_close_def fun_upd_idem)

section \<open>Connecting\<close>

definition connected :: "u32 \<Rightarrow> addrinfo list \<Rightarrow> sockd \<Rightarrow> bool" where
  "connected flags ps d \<longleftrightarrow> options d SO_REUSEADDR = Some 1
     \<and> status d = (if flags AND CONNECT_NONBLOCK \<noteq> 0 then O_NONBLOCK else 0)
     \<and> (\<exists>p \<in> set ps. phase d = Connected (ai_addr p)
          \<or> flags AND CONNECT_NONBLOCK \<noteq> 0 \<and> phase d = Connecting (ai_addr p))"

lemma connected_Cons: "connected flags ps d \<Longrightarrow> connected flags (p # ps) d"
  by (auto simp: connected_def)

text \<open>The outcome of the loop: one new descriptor, connected when it is left for \<^verbatim>\<open>end\<close>, or none.\<close>

definition connect_result ::
    "u32 \<Rightarrow> addrinfo list \<Rightarrow> (int \<rightharpoonup> sockd) \<Rightarrow> bool \<Rightarrow> int \<Rightarrow> (int \<rightharpoonup> sockd) \<Rightarrow> bool" where
  "connect_result flags ps F ok s F' \<longleftrightarrow>
     (if ok then 0 \<le> s \<and> F s = None \<and> (\<exists>d. F' = F(s \<mapsto> d) \<and> connected flags ps d)
      else s = -1 \<and> F' = F \<or> 0 \<le> s \<and> F s = None \<and> (\<exists>d. F' = F(s \<mapsto> d)))"

lemma connect_result_Cons: "connect_result flags ps F ok s F' \<Longrightarrow> connect_result flags (p # ps) F ok s F'"
proof (cases ok)
  case True
  assume r: "connect_result flags ps F ok s F'"
  then obtain d where "0 \<le> s" "F s = None" "F' = F(s \<mapsto> d)" "connected flags ps d"
    using True unfolding connect_result_def by auto
  then show ?thesis using True connected_Cons [of flags ps d p] unfolding connect_result_def by (simp only: if_True) blast
next
  case False
  assume "connect_result flags ps F ok s F'"
  then show ?thesis using False unfolding connect_result_def by (simp only: if_False)
qed

lemma connect_result_left:
  assumes "0 \<le> s" and "F s = None" and "\<exists>d. F' = F(s \<mapsto> d)"
  shows "connect_result flags ps F False s F'"
  unfolding connect_result_def using assms by (simp only: if_False) blast

lemma connect_loop_ok:
  assumes "newfd_ok env" and "finite (dom (fds n))" and "s = -1"
    and "connect_loop env e flags ps s n = (n', s', ok)"
  shows "lists n' = lists n \<and> connect_result flags ps (fds n) ok s' (fds n')"
  using assms(2-4)
proof (induction ps arbitrary: s n)
  case Nil
  then show ?case by (auto simp: connect_result_def)
next
  case (Cons p ps)
  let ?d0 = "\<lparr>status = 0, dflags = 0, options = Map.empty, phase = Created, shut_rd = False, shut_wr = False\<rparr>"
  let ?nb = "flags AND CONNECT_NONBLOCK \<noteq> 0"
  obtain n1 t where sock: "sys_socket env p n = (n1, t)" by fastforce
  note fresh = sys_socket_fresh [OF assms(1) Cons.prems(1) sock]
  show ?case
  proof (cases "t = -1")
    case True
    then have next_addr: "connect_loop env e flags ps t n1 = (n', s', ok)" using Cons.prems(3) sock by simp
    have same: "fds n1 = fds n" "lists n1 = lists n" using fresh True by auto
    then have fin: "finite (dom (fds n1))" using Cons.prems(1) by simp
    show ?thesis using Cons.IH [OF fin True next_addr] same connect_result_Cons by simp
  next
    case t: False
    then have t0: "0 \<le> t" "fds n t = None" "fds n1 = (fds n)(t \<mapsto> ?d0)" "lists n1 = lists n" using fresh by auto
    obtain n2 r2 where reuse: "set_reuseaddr env e t 1 n1 = (n2, r2)" by fastforce
    let ?d1 = "?d0\<lparr>options := [SO_REUSEADDR \<mapsto> 1]\<rparr>"
    note n2 = set_reuseaddr_open [OF t0(3) reuse]
    show ?thesis
    proof (cases "r2 = 0")
      case False
      then have res: "n' = n2" "s' = t" "\<not> ok" using Cons.prems(3) sock t reuse by auto
      have "\<exists>d. fds n2 = (fds n)(t \<mapsto> d)" using n2 by blast
      then have "connect_result flags (p # ps) (fds n) False t (fds n2)" by (rule connect_result_left [of t "fds n", OF t0(1,2)])
      then show ?thesis using res n2 t0(4) by (simp only: simp_thms)
    next
      case r2: True
      then have f2: "fds n2 = (fds n)(t \<mapsto> ?d1)" "lists n2 = lists n" using n2 t0(4) by auto
      obtain n3 r3 where nb: "(if ?nb then set_nonblock env e t n2 else (n2, 0)) = (n3, r3)" by fastforce
      let ?d2 = "if ?nb then ?d1\<lparr>status := O_NONBLOCK\<rparr> else ?d1"
      have n3: "lists n3 = lists n \<and> (r3 = 0 \<and> fds n3 = (fds n)(t \<mapsto> ?d2) \<or> r3 = -1 \<and> fds n3 = (fds n)(t \<mapsto> ?d1))"
        using nb set_nonblock_open [OF f2(1), of env e n3 r3] f2 by (auto split: if_splits)
      show ?thesis
      proof (cases "r3 = 0")
        case False
        then have res: "n' = n3" "s' = t" "\<not> ok" using Cons.prems(3) sock t reuse r2 nb by auto
        have "\<exists>d. fds n3 = (fds n)(t \<mapsto> d)" using n3 by blast
        then have "connect_result flags (p # ps) (fds n) False t (fds n3)" by (rule connect_result_left [of t "fds n", OF t0(1,2)])
        then show ?thesis using res n3 by (simp only: simp_thms)
      next
        case r3: True
        then have f3: "fds n3 = (fds n)(t \<mapsto> ?d2)" "lists n3 = lists n" using n3 by auto
        obtain n4 r4 where con: "sys_connect env t p n3 = (n4, r4)" by fastforce
        note n4 = sys_connect_open [OF f3(1) con]
        have step: "connect_loop env e flags (p # ps) s n =
            (if r4 = -1 then if err n4 = EINPROGRESS \<and> ?nb then (n4, t, True)
               else connect_loop env e flags ps (-1) (sys_close t n4) else (n4, t, True))"
          using sock t reuse r2 nb r3 con by simp
        show ?thesis
        proof (cases "r4 = -1 \<and> \<not> (err n4 = EINPROGRESS \<and> ?nb)")
          case True
          then obtain d4 where "fds n4 = (fds n)(t \<mapsto> d4)" "lists n4 = lists n" using n4 f3(2) by auto
          then have cl: "fds (sys_close t n4) = fds n" "lists (sys_close t n4) = lists n"
            using sys_close_open [of n4 "fds n" t d4] t0(2) by auto
          then have fin: "finite (dom (fds (sys_close t n4)))" using Cons.prems(1) by simp
          have "connect_loop env e flags ps (-1) (sys_close t n4) = (n', s', ok)"
            using True step Cons.prems(3) by auto
          from Cons.IH [OF fin refl this] show ?thesis using cl connect_result_Cons by simp
        next
          case False
          then have res: "n' = n4" "s' = t" "ok" using step Cons.prems(3) by (auto split: if_splits)
          have d2: "connected flags (p # ps) (?d2\<lparr>phase := Connected (ai_addr p)\<rparr>)"
            "?nb \<Longrightarrow> connected flags (p # ps) (?d2\<lparr>phase := Connecting (ai_addr p)\<rparr>)"
            by (simp_all add: connected_def)
          have "\<exists>d. fds n4 = (fds n)(t \<mapsto> d) \<and> connected flags (p # ps) d"
          proof (cases "r4 = -1")
            case True
            then show ?thesis using n4 False d2(2) by auto
          next
            case False
            then have "fds n4 = (fds n)(t \<mapsto> ?d2\<lparr>phase := Connected (ai_addr p)\<rparr>)" using n4 by simp
            then show ?thesis using d2(1) by blast
          qed
          then show ?thesis using res t0(1,2) n4 f3(2) by (simp add: connect_result_def)
        qed
      qed
    qed
  qed
qed

lemma tcp_connect_ok:
  assumes "newfd_ok env" and "finite (dom (fds n))" and "tcp_connect env e addr port flags n = (n', s)"
  shows "lists n' = lists n \<and> (s = -1 \<and> fds n' = fds n
    \<or> 0 \<le> s \<and> fds n s = None \<and> (\<exists>d ps. resolve env addr (port_text port) False = Inr ps
        \<and> fds n' = (fds n)(s \<mapsto> d) \<and> connected flags ps d))"
proof (cases "resolve env addr (port_text port) False")
  case (Inl rv)
  then show ?thesis using assms(3) by (auto simp: tcp_connect_def)
next
  case (Inr ps)
  let ?n = "n\<lparr>lists := lists n + 1\<rparr>"
  obtain n1 t ok where loop: "connect_loop env e flags ps (-1) ?n = (n1, t, ok)" by (metis prod_cases3)
  have r: "lists n1 = lists n + 1" "connect_result flags ps (fds n) ok t (fds n1)"
    using connect_loop_ok [OF assms(1) _ refl loop] assms(2) by auto
  show ?thesis
  proof (cases ok)
    case True
    then have "s = t" "fds n' = fds n1" "lists n' = lists n"
      using assms(3) Inr loop r(1) by (auto simp: tcp_connect_def)
    then show ?thesis using r(2) True Inr unfolding connect_result_def by (simp only: if_True) blast
  next
    case False
    have res: "s = -1" "fds n' = (if t \<noteq> -1 then fds (sys_close t n1) else fds n1)"
        "lists n' = (if t \<noteq> -1 then lists (sys_close t n1) else lists n1) - 1"
      using assms(3) Inr loop False by (auto simp: tcp_connect_def split: if_splits)
    consider "t = -1" "fds n1 = fds n" | d where "0 \<le> t" "fds n t = None" "fds n1 = (fds n)(t \<mapsto> d)"
      using r(2) False unfolding connect_result_def by auto
    then show ?thesis
    proof cases
      case 1
      then show ?thesis using res r(1) by simp
    next
      case (2 d)
      then show ?thesis using res r(1) sys_close_open [of n1 "fds n" t d] by simp
    qed
  qed
qed

section \<open>Serving\<close>

definition serving :: "addrinfo list \<Rightarrow> sockd \<Rightarrow> bool" where
  "serving ps d \<longleftrightarrow> options d SO_REUSEADDR = Some 1 \<and> (\<exists>p \<in> set ps. phase d = Listening (ai_addr p))"

definition serve_result :: "addrinfo list \<Rightarrow> (int \<rightharpoonup> sockd) \<Rightarrow> int option \<Rightarrow> (int \<rightharpoonup> sockd) \<Rightarrow> bool" where
  "serve_result ps F r F' \<longleftrightarrow> (case r of
     Some s \<Rightarrow> 0 \<le> s \<and> F s = None \<and> (\<exists>d. F' = F(s \<mapsto> d) \<and> serving ps d)
   | None \<Rightarrow> F' = F \<or> (\<exists>s d. F s = None \<and> F' = F(s \<mapsto> d) \<and> phase d = Created \<and> options d SO_REUSEADDR = None))"

lemma serve_result_Cons: "serve_result ps F r F' \<Longrightarrow> serve_result (p # ps) F r F'"
proof -
  assume r: "serve_result ps F r F'"
  have mono: "serving ps d \<Longrightarrow> serving (p # ps) d" for d by (auto simp: serving_def)
  show ?thesis
  proof (cases r)
    case None
    show ?thesis using r unfolding serve_result_def None option.case .
  next
    case (Some s)
    show ?thesis using r mono unfolding serve_result_def Some option.case by blast
  qed
qed

lemma serve_result_none: "serve_result ps F None F" by (simp add: serve_result_def)

lemma serve_loop_ok:
  assumes "newfd_ok env" and "finite (dom (fds n))" and "serve_loop env e ps n = (n', r)"
  shows "lists n' = lists n \<and> serve_result ps (fds n) r (fds n')"
  using assms(2,3)
proof (induction ps arbitrary: n)
  case Nil
  then show ?case using serve_result_none by auto
next
  case (Cons p ps)
  let ?d0 = "\<lparr>status = 0, dflags = 0, options = Map.empty, phase = Created, shut_rd = False, shut_wr = False\<rparr>"
  obtain n1 t where sock: "sys_socket env p n = (n1, t)" by fastforce
  note fresh = sys_socket_fresh [OF assms(1) Cons.prems(1) sock]
  show ?case
  proof (cases "t = -1")
    case True
    then have next_addr: "serve_loop env e ps n1 = (n', r)" using Cons.prems(2) sock by simp
    have same: "fds n1 = fds n" "lists n1 = lists n" using fresh True by auto
    then have fin: "finite (dom (fds n1))" using Cons.prems(1) by simp
    show ?thesis using Cons.IH [OF fin next_addr] same serve_result_Cons by simp
  next
    case t: False
    then have t0: "0 \<le> t" "fds n t = None" "fds n1 = (fds n)(t \<mapsto> ?d0)" "lists n1 = lists n" using fresh by auto
    obtain n2 r2 where reuse: "set_reuseaddr env e t 1 n1 = (n2, r2)" by fastforce
    let ?d1 = "?d0\<lparr>options := [SO_REUSEADDR \<mapsto> 1]\<rparr>"
    note n2 = set_reuseaddr_open [OF t0(3) reuse]
    show ?thesis
    proof (cases "r2 = 0")
      case False
      then have res: "n' = n2" "r = None" using Cons.prems(2) sock t reuse by auto
      have "fds n2 = (fds n)(t \<mapsto> ?d0)" "lists n2 = lists n" using n2 False t0(4) by auto
      then have "serve_result (p # ps) (fds n) None (fds n2)"
        unfolding serve_result_def using t0(2) by (simp only: option.case) (intro disjI2 exI [of _ t] exI [of _ ?d0], simp)
      then show ?thesis using res \<open>lists n2 = lists n\<close> by simp
    next
      case r2: True
      then have f2: "fds n2 = (fds n)(t \<mapsto> ?d1)" "lists n2 = lists n" using n2 t0(4) by auto
      obtain n3 r3 where b: "sys_bind env t p n2 = (n3, r3)" by fastforce
      note n3 = on_fd_open [OF f2(1) b [unfolded sys_bind_def]]
      have closed: "fds (sys_close t (fail_with env e x m)) = fds n" "lists (sys_close t (fail_with env e x m)) = lists m"
        if "fds m = (fds n)(t \<mapsto> d)" for m d x
        using sys_close_open [of "fail_with env e x m" "fds n" t d] that t0(2) by simp_all
      show ?thesis
      proof (cases "r3 = 0")
        case False
        then have res: "n' = sys_close t (fail_with env e ''bind: '' n3)" "r = None"
          using Cons.prems(2) sock t reuse r2 b by auto
        have d: "fds n3 = (fds n)(t \<mapsto> ?d1)" "lists n3 = lists n" using n3 False f2(2) by simp_all
        have "fds n' = fds n" "lists n' = lists n" by (simp_all only: res closed [OF d(1)] d(2))
        then show ?thesis by (simp only: res serve_result_none simp_thms)
      next
        case r3: True
        then have f3: "fds n3 = (fds n)(t \<mapsto> ?d1\<lparr>phase := Bound (ai_addr p)\<rparr>)" "lists n3 = lists n"
          using n3 f2(2) by auto
        obtain n4 r4 where li: "sys_listen env t n3 = (n4, r4)" by fastforce
        note n4 = on_fd_open [OF f3(1) li [unfolded sys_listen_def]]
        show ?thesis
        proof (cases "r4 = 0")
          case False
          then have res: "n' = sys_close t (fail_with env e ''listen: '' n4)" "r = None"
            using Cons.prems(2) sock t reuse r2 b r3 li by auto
          have d: "fds n4 = (fds n)(t \<mapsto> ?d1\<lparr>phase := Bound (ai_addr p)\<rparr>)" "lists n4 = lists n"
            using n4 False f3(2) by simp_all
          have "fds n' = fds n" "lists n' = lists n" by (simp_all only: res closed [OF d(1)] d(2))
          then show ?thesis by (simp only: res serve_result_none simp_thms)
        next
          case True
          then have res: "n' = n4" "r = Some t" using Cons.prems(2) sock t reuse r2 b r3 li by auto
          have f4: "fds n4 = (fds n)(t \<mapsto> ?d1\<lparr>phase := Listening (ai_addr p)\<rparr>)" "lists n4 = lists n"
            using n4 True f3(2) by auto
          moreover have "serving (p # ps) (?d1\<lparr>phase := Listening (ai_addr p)\<rparr>)" by (simp add: serving_def)
          ultimately have "serve_result (p # ps) (fds n) (Some t) (fds n4)"
            unfolding serve_result_def using t0(1,2) by (simp only: option.case) blast
          then show ?thesis using res f4(2) by simp
        qed
      qed
    qed
  qed
qed

section \<open>The text of a port\<close>

definition read_number :: "string \<Rightarrow> nat" where
  "read_number cs = foldl (\<lambda>a c. 10 * a + (of_char c - 48)) 0 cs"

lemma read_digits: "read_number (digits k) = k"
proof (induction k rule: digits.induct)
  case (1 k)
  have d: "(of_char (char_of (48 + j) :: char) :: nat) - 48 = j" if "j < 10" for j :: nat
    using that by simp
  show ?case
  proof (cases "k < 10")
    case True
    then show ?thesis using d [of k] by (subst digits.simps) (simp add: read_number_def)
  next
    case False
    have "read_number (digits k) = 10 * read_number (digits (k div 10)) + (of_char (char_of (48 + k mod 10) :: char) - 48)"
      using False by (subst digits.simps) (simp add: read_number_def)
    then show ?thesis using "1.IH" [OF False] d [of "k mod 10"] by simp
  qed
qed

lemma digits_less: "k < 10 ^ Suc m \<Longrightarrow> length (digits k) \<le> Suc m"
proof (induction m arbitrary: k)
  case 0
  then show ?case by (subst digits.simps) simp
next
  case (Suc m)
  then have "length (digits (k div 10)) \<le> Suc m" by (intro Suc.IH) (simp add: div_less_iff_less_mult)
  then show ?case by (subst digits.simps) simp
qed

lemma digits_least: "10 ^ m \<le> k \<Longrightarrow> Suc m \<le> length (digits k)"
proof (induction m arbitrary: k)
  case 0
  then show ?case by (subst digits.simps) simp
next
  case (Suc m)
  have "10 ^ m \<le> k div 10" using Suc.prems by (simp add: less_eq_div_iff_mult_less_eq mult.commute)
  then have "Suc m \<le> length (digits (k div 10))" by (rule Suc.IH)
  moreover have "\<not> k < 10"
    using Suc.prems by (metis One_nat_def leD le_trans nat_power_eq_Suc_0_iff nle_le one_le_numeral one_le_power power_Suc mult_le_mono2 mult.right_neutral)
  ultimately show ?case by (subst digits.simps) simp
qed

lemma port_text_cut: "100000 \<le> port \<Longrightarrow> port_text port = port_text (port div 10)"
proof -
  assume p: "100000 \<le> port"
  let ?k = "nat port"
  have k: "nat (port div 10) = ?k div 10" using p by (simp add: nat_div_distrib)
  have "10 ^ 4 \<le> ?k div 10" using p by simp
  then have "Suc 4 \<le> length (digits (?k div 10))" by (rule digits_least)
  moreover have "digits ?k = digits (?k div 10) @ [char_of (48 + ?k mod 10)]"
  proof -
    have "\<not> ?k < 10" using p by simp
    then show ?thesis using digits.simps [of ?k] by (simp only: if_False)
  qed
  ultimately show ?thesis using p by (simp add: port_text_def decimal_def k)
qed

section \<open>A sample environment\<close>

definition sample_sock :: "(nat \<Rightarrow> errno option) \<Rightarrow> sock_env" where
  "sample_sock fs = \<lparr>fails = fs, refuses = (\<lambda>k. if odd k then Some EAGAIN else None), newfd = (\<lambda>k F. Max (insert 2 (dom F)) + 1), strerror = (\<lambda>_. ''error''),
     resolve = (\<lambda>name port passive. Inr [\<lparr>ai_family = AF_INET, ai_socktype = 1, ai_protocol = 6, ai_addr = [127, 0, 0, 1]\<rparr>]),
     gai_strerror = (\<lambda>_. ''unknown''), address = (\<lambda>_. \<lparr>ss_family = AF_INET, sin_port = 0x901F, sin_addr = [127, 0, 0, 1]\<rparr>),
     ntop = (\<lambda>family addr len. if 9 < len then Some ''127.0.0.1'' else None)\<rparr>"

definition no_sockets :: net where
  "no_sockets = \<lparr>fds = Map.empty, calls = 0, accepts = 0, err = Eother 0, message = [], lists = 0\<rparr>"

lemma sample_newfd: "newfd_ok (sample_sock fs)"
proof -
  have "0 \<le> Max (insert 2 (dom F)) + 1 \<and> F (Max (insert 2 (dom F)) + 1) = None"
    if "finite (dom F)" for F :: "int \<rightharpoonup> sockd"
  proof
    have le: "x \<le> Max (insert 2 (dom F))" if "x \<in> insert 2 (dom F)" for x
      using that \<open>finite (dom F)\<close> by (intro Max_ge) auto
    show "0 \<le> Max (insert 2 (dom F)) + 1" using le [of 2] by simp
    show "F (Max (insert 2 (dom F)) + 1) = None"
    proof (rule ccontr)
      assume "F (Max (insert 2 (dom F)) + 1) \<noteq> None"
      then have "Max (insert 2 (dom F)) + 1 \<le> Max (insert 2 (dom F))" using le by blast
      then show False by simp
    qed
  qed
  then show ?thesis by (simp add: newfd_ok_def sample_sock_def)
qed

lemma no_sockets_finite: "finite (dom (fds no_sockets))"
  by (simp add: no_sockets_def)

text \<open>The descriptor of a server is a new one.\<close>

lemma server_opens:
  assumes "newfd_ok env" and "finite (dom (fds n))" and "tcp_server_serve env e addr port backlog n = (n', s)" and "0 \<le> s"
  shows "\<exists>d. fds n' = (fds n)(s \<mapsto> d)"
proof -
  let ?n = "n\<lparr>lists := lists n + 1\<rparr>"
  obtain ps where ps: "resolve env addr (port_text port) True = Inr ps"
    using assms(3,4) by (cases "resolve env addr (port_text port) True") (auto simp: tcp_server_serve_def)
  obtain n1 r where loop: "serve_loop env e ps ?n = (n1, r)" by fastforce
  have "serve_result ps (fds n) r (fds n1)" using serve_loop_ok [OF assms(1) _ loop] assms(2) by auto
  then show ?thesis using assms(3,4) ps loop
    by (cases r) (auto simp: tcp_server_serve_def serve_result_def)
qed

section \<open>Properties\<close>

text \<open>
  C14. \<^verbatim>\<open>tcp_connect\<close> opens one new descriptor, or none: it returns -1 with the descriptors of the process
  unchanged, however many addresses it tried, or a new descriptor with \<^verbatim>\<open>SO_REUSEADDR\<close> that is connected
  to one of the addresses of the name (or, when asked not to block, set so and possibly still
  connecting). The list of addresses is freed in every case.
\<close>

theorem tcp_connect_spec:
  assumes "newfd_ok env" and "finite (dom (fds n))"
  shows "case tcp_connect env e addr port flags n of (n', s) \<Rightarrow> lists n' = lists n \<and> (s = -1 \<and> fds n' = fds n
    \<or> 0 \<le> s \<and> fds n s = None \<and> (\<exists>d ps. resolve env addr (port_text port) False = Inr ps
        \<and> fds n' = (fds n)(s \<mapsto> d) \<and> connected flags ps d))"
  using tcp_connect_ok [OF assms] by (cases "tcp_connect env e addr port flags n") blast

theorem tcp_connect_spec_witness:
  "fds (fst (tcp_connect (sample_sock (\<lambda>k. if k = 2 then Some (Eother 111) else None)) True ''localhost'' 80 0 no_sockets)) = Map.empty"
proof -
  let ?env = "sample_sock (\<lambda>k. if k = 2 then Some (Eother 111) else None)"
  have "snd (tcp_connect ?env True ''localhost'' 80 0 no_sockets) = -1"
    by (simp add: tcp_connect_def sample_sock_def sys_socket_def attempt_def set_reuseaddr_def sys_setsockopt_def
        on_fd_def sys_connect_def sys_close_def no_sockets_def Let_def)
  then show ?thesis
    using tcp_connect_spec [OF sample_newfd [of "\<lambda>k. if k = 2 then Some (Eother 111) else None"] no_sockets_finite,
      where e = True and addr = "''localhost''" and port = 80 and flags = 0]
    by (auto simp: no_sockets_def split: prod.splits)
qed

text \<open>
  C15. \<^verbatim>\<open>tcp_server_serve\<close> returns a new descriptor that listens at one of the addresses of the name, or
  -1. The descriptors are then unchanged, but for one case: a descriptor on which \<^verbatim>\<open>SO_REUSEADDR\<close> could
  not be set stays open. The list of addresses is freed in every case.
\<close>

theorem tcp_server_serve_spec:
  assumes "newfd_ok env" and "finite (dom (fds n))"
  shows "case tcp_server_serve env e addr port backlog n of (n', s) \<Rightarrow> lists n' = lists n
    \<and> (0 \<le> s \<and> fds n s = None \<and> (\<exists>d ps. resolve env addr (port_text port) True = Inr ps
          \<and> fds n' = (fds n)(s \<mapsto> d) \<and> serving ps d)
       \<or> s = -1 \<and> (fds n' = fds n \<or> (\<exists>t d. fds n t = None \<and> fds n' = (fds n)(t \<mapsto> d)
          \<and> phase d = Created \<and> options d SO_REUSEADDR = None)))"
proof (cases "resolve env addr (port_text port) True")
  case (Inl rv)
  then show ?thesis by (simp add: tcp_server_serve_def)
next
  case (Inr ps)
  let ?n = "n\<lparr>lists := lists n + 1\<rparr>"
  obtain n1 r where loop: "serve_loop env e ps ?n = (n1, r)" by fastforce
  have r: "lists n1 = lists n + 1" "serve_result ps (fds n) r (fds n1)"
    using serve_loop_ok [OF assms(1) _ loop] assms(2) by auto
  have res: "tcp_server_serve env e addr port backlog n =
      (n1\<lparr>lists := lists n1 - 1\<rparr>, case r of None \<Rightarrow> -1 | Some sfd \<Rightarrow> sfd)"
    using Inr loop by (simp add: tcp_server_serve_def)
  show ?thesis
  proof (cases r)
    case None
    then show ?thesis using res r(1) r(2) [unfolded serve_result_def None option.case] by simp
  next
    case (Some s)
    then show ?thesis using res r(1) r(2) [unfolded serve_result_def Some option.case] Inr by auto
  qed
qed

theorem tcp_server_serve_spec_witness:
  "snd (tcp_server_serve (sample_sock (\<lambda>_. None)) True ''localhost'' 80 16 no_sockets) = 3
    \<and> (\<exists>d. fds (fst (tcp_server_serve (sample_sock (\<lambda>_. None)) True ''localhost'' 80 16 no_sockets)) = [3 \<mapsto> d]
         \<and> options d SO_REUSEADDR = Some 1)"
proof -
  have "snd (tcp_server_serve (sample_sock (\<lambda>_. None)) True ''localhost'' 80 16 no_sockets) = 3"
    by (simp add: tcp_server_serve_def sample_sock_def sys_socket_def attempt_def set_reuseaddr_def sys_setsockopt_def
        on_fd_def sys_bind_def sys_listen_def no_sockets_def Let_def)
  then show ?thesis
    using tcp_server_serve_spec [OF sample_newfd [of "\<lambda>_. None"] no_sockets_finite,
      where e = True and addr = "''localhost''" and port = 80 and backlog = 16]
    by (auto simp: no_sockets_def serving_def split: prod.splits)
qed

text \<open>
  When \<^verbatim>\<open>SO_REUSEADDR\<close> cannot be set, \<^verbatim>\<open>tcp_server_serve\<close> returns -1 and leaves the descriptor open
  for good, and does not try the other addresses.
\<close>

theorem tcp_server_serve_leaks:
  assumes "resolve env addr (port_text port) True = Inr (p # ps)" and "newfd_ok env" and "finite (dom (fds n))"
    and "fails env (calls n) = None" and "fails env (calls n + 1) = Some x"
  shows "\<exists>n' d. tcp_server_serve env e addr port backlog n = (n', -1)
    \<and> fds n' = (fds n)(newfd env (calls n + 1) (fds n) \<mapsto> d) \<and> calls n' = calls n + 2"
proof -
  have "0 \<le> newfd env (calls n + 1) (fds n)" using assms(2,3) unfolding newfd_ok_def by blast
  then have "newfd env (calls n + 1) (fds n) \<noteq> -1" by simp
  then show ?thesis using assms(1,4,5)
    by (simp add: tcp_server_serve_def sys_socket_def attempt_def set_reuseaddr_def sys_setsockopt_def on_fd_def
        fail_with_def socket_error_def Let_def) blast
qed

theorem tcp_server_serve_leaks_witness:
  "\<exists>n' d. tcp_server_serve (sample_sock (\<lambda>k. if k = 1 then Some EINTR else None)) True ''localhost'' 80 16 no_sockets = (n', -1)
    \<and> fds n' = [3 \<mapsto> d]"
proof -
  let ?env = "sample_sock (\<lambda>k. if k = 1 then Some EINTR else None)"
  have "newfd ?env (calls no_sockets + 1) (fds no_sockets) = 3" "fds no_sockets = Map.empty"
    by (simp_all add: sample_sock_def no_sockets_def)
  moreover have "resolve ?env ''localhost'' (port_text 80) True =
      Inr ([\<lparr>ai_family = AF_INET, ai_socktype = 1, ai_protocol = 6, ai_addr = [127, 0, 0, 1]\<rparr>])"
    "fails ?env (calls no_sockets) = None" "fails ?env (calls no_sockets + 1) = Some EINTR"
    by (simp_all add: sample_sock_def no_sockets_def)
  ultimately show ?thesis
    using tcp_server_serve_leaks [OF _ sample_newfd no_sockets_finite, of _ "''localhost''" 80 _ "[]" EINTR True 16] by fastforce
qed

text \<open>
  The text of the port that connecting and serving pass on is the number for ports below 100000;
  of a larger number the last digit is lost, so that the call goes to another port without an error.
\<close>

theorem port_text_spec:
  "(0 \<le> port \<and> port < 100000 \<longrightarrow> int (read_number (port_text port)) = port)
    \<and> (100000 \<le> port \<longrightarrow> tcp_connect env e addr port flags n = tcp_connect env e addr (port div 10) flags n
         \<and> tcp_server_serve env e addr port backlog n = tcp_server_serve env e addr (port div 10) backlog n)"
proof (intro conjI impI)
  assume p: "0 \<le> port \<and> port < 100000"
  then have "nat port < 10 ^ Suc 4" by (simp add: nat_less_iff)
  then have "length (digits (nat port)) \<le> Suc 4" by (rule digits_less)
  then show "int (read_number (port_text port)) = port"
    using p by (simp add: port_text_def decimal_def read_digits)
qed (simp_all only: tcp_connect_def tcp_server_serve_def port_text_cut)

theorem port_text_spec_witness:
  "int (read_number (port_text 3456)) = 3456
    \<and> tcp_connect (sample_sock (\<lambda>_. None)) True ''localhost'' 123456 0 no_sockets =
      tcp_connect (sample_sock (\<lambda>_. None)) True ''localhost'' 12345 0 no_sockets"
  using port_text_spec [of 3456] port_text_spec [of 123456 "sample_sock (\<lambda>_. None)" True "''localhost''" 0 no_sockets]
  by simp

end
