(* ===== verification/Echo_Server.thy ===== *)
theory Echo_Server
  imports Echo Chain_Family Socket_Spec
begin

text \<open>
  The echo server of \<^verbatim>\<open>kznet/demo.c\<close> keeps its connections in order: its invariant ties the table of the
  event loop, the connections, their chains and the descriptors together, and every callback keeps it.
\<close>

unbundle bit_operations_syntax

section \<open>The invariant\<close>

text \<open>
  \<open>served l fd e\<close>: the descriptor is registered, with entry \<open>e\<close>. The entry of a connection has the
  callbacks of the demo; while \<^verbatim>\<open>writing\<close> is set the descriptor is registered for writing; and as long as
  the client has not closed its side, \<^verbatim>\<open>total\<close> is the number of bytes the chain holds.
\<close>

definition served :: "('p, 'z) eloop_scheme \<Rightarrow> int \<Rightarrow> ev_event \<Rightarrow> bool" where
  "served l fd e \<longleftrightarrow> event_at l fd = Some e \<and> evmask e \<noteq> EV_NONE"

definition conn_ok :: "bstate \<Rightarrow> ev_event \<Rightarrow> connection \<Rightarrow> bool" where
  "conn_ok s e conn \<longleftrightarrow> (evmask e AND EV_RDABLE \<noteq> 0 \<longrightarrow> evread e = READ_CB)
     \<and> (evmask e AND EV_WRABLE \<noteq> 0 \<longrightarrow> evwrite e = WRITE_CB)
     \<and> (writing conn \<noteq> 0 \<longrightarrow> evmask e AND EV_WRABLE \<noteq> 0)
     \<and> (eof conn = 0 \<longrightarrow> total conn = of_nat (length (stored (chain conn) s)))"

definition only_rw :: "u32 \<Rightarrow> bool" where
  "only_rw m \<longleftrightarrow> m AND NOT (EV_RDABLE OR EV_WRABLE) = EV_NONE"

definition entry_served :: "'p echo \<Rightarrow> int \<Rightarrow> int \<Rightarrow> ev_event \<Rightarrow> bool" where
  "entry_served l sfd fd e \<longleftrightarrow> 1 \<le> fd \<and> (if fd = sfd then evmask e = EV_RDABLE \<and> evread e = ACCEPT_CB
     else only_rw (evmask e) \<and> (\<exists>conn. conns l (evdata e) = Some conn \<and> conn_ok (bmem l) e conn))"

definition echo_inv :: "((int \<Rightarrow> u32) \<Rightarrow> 'p \<Rightarrow> bool) \<Rightarrow> int \<Rightarrow> int \<Rightarrow> 'p echo \<Rightarrow> bool" where
  "echo_inv watching limit sfd l \<longleftrightarrow> synced watching limit l \<and> has_pool l \<and> NULL \<notin> dom (conns l)
     \<and> chains_inv (map_option chain \<circ> conns l) (bmem l)
     \<and> finite (dom (fds (socks l))) \<and> fds (socks l) sfd \<noteq> None
     \<and> (\<forall>fd e. served l fd e \<longrightarrow> entry_served l sfd fd e)
     \<and> (\<forall>fd fd' e e'. served l fd e \<longrightarrow> served l fd' e' \<longrightarrow> fd \<noteq> sfd \<longrightarrow> fd' \<noteq> sfd \<longrightarrow> evdata e = evdata e' \<longrightarrow> fd = fd')"

text \<open>What callbacks leave alone: the timers, the ready list, the size of the table and the flag \<^verbatim>\<open>stop\<close>.\<close>

definition loop_frame :: "('p, 'z) eloop_scheme \<Rightarrow> ('p, 'z) eloop_scheme \<Rightarrow> bool" where
  "loop_frame l l' \<longleftrightarrow> actives l' = actives l \<and> setsize l' = setsize l \<and> timers l' = timers l \<and> theap l' = theap l
     \<and> stop l' = stop l"

lemma loop_frame_trans: "loop_frame l l1 \<Longrightarrow> loop_frame l1 l2 \<Longrightarrow> loop_frame l l2"
  by (simp add: loop_frame_def)

lemma synced_cong:
  "events l' = events l \<Longrightarrow> actives l' = actives l \<Longrightarrow> setsize l' = setsize l \<Longrightarrow> maxfd l' = maxfd l \<Longrightarrow>
     poller l' = poller l \<Longrightarrow> synced watching limit l' = synced watching limit l"
  using masks_events [of l' l] loop_ok_cong [of l' l] by (simp add: synced_def)

lemma reg_frame_echo:
  "reg_frame l (l' :: 'p echo) \<Longrightarrow> conns l' = conns l \<and> bmem l' = bmem l \<and> has_pool l' = has_pool l
     \<and> socks l' = socks l \<and> loop_frame l l'"
  by (auto simp: reg_frame_def loop_frame_def)

section \<open>Changing one connection\<close>

lemma echo_step:
  assumes inv: "echo_inv watching limit sfd l" and e: "served l fd e" "fd \<noteq> sfd"
    and new: "synced watching limit l'" "has_pool l'" "conns l' = (conns l)(evdata e \<mapsto> conn')"
      "chains_inv (map_option chain \<circ> conns l') (bmem l')"
    and rest: "\<And>q d. q \<noteq> evdata e \<Longrightarrow> conns l q = Some d \<Longrightarrow> stored (chain d) (bmem l') = stored (chain d) (bmem l)"
    and socks: "finite (dom (fds (socks l')))" "fds (socks l') sfd \<noteq> None"
    and table: "event_at l' = (event_at l)(fd \<mapsto> e')" "evdata e' = evdata e"
    and entry: "evmask e' \<noteq> EV_NONE \<Longrightarrow> only_rw (evmask e') \<and> conn_ok (bmem l') e' conn'"
  shows "echo_inv watching limit sfd l'"
proof -
  have old: "entry_served l sfd d x" if "served l d x" for d x using inv that by (simp add: echo_inv_def)
  have data: "evdata x \<noteq> evdata e" if "served l d x" "d \<noteq> fd" "d \<noteq> sfd" for d x
    using inv that e unfolding echo_inv_def by blast
  have serv: "served l' d x \<longleftrightarrow> (if d = fd then x = e' \<and> evmask e' \<noteq> EV_NONE else served l d x)" for d x
    using table(1) by (auto simp: served_def)
  have "entry_served l' sfd d x" if s: "served l' d x" for d x
  proof (cases "d = fd")
    case True
    then have "x = e'" "evmask e' \<noteq> EV_NONE" using s serv by simp_all
    then show ?thesis using entry new(3) table(2) True e(2) old [OF e(1)] by (simp add: entry_served_def)
  next
    case False
    then have x: "served l d x" using s serv by simp
    show ?thesis
    proof (cases "d = sfd")
      case True
      then show ?thesis using old [OF x] by (simp add: entry_served_def)
    next
      case ns: False
      then obtain conn where c: "conns l (evdata x) = Some conn" "conn_ok (bmem l) x conn" "only_rw (evmask x)" "1 \<le> d"
        using old [OF x] by (auto simp: entry_served_def)
      have ne: "evdata x \<noteq> evdata e" by (rule data [OF x False ns])
      then have "conn_ok (bmem l') x conn" using c(2) rest [OF ne c(1)] by (simp add: conn_ok_def)
      then show ?thesis using c new(3) ne ns by (simp add: entry_served_def)
    qed
  qed
  moreover have "d = d'"
    if "served l' d x" "served l' d' x'" "d \<noteq> sfd" "d' \<noteq> sfd" "evdata x = evdata x'" for d d' x x'
  proof -
    consider "d = fd" "d' = fd" | "d = fd" "d' \<noteq> fd" | "d \<noteq> fd" "d' = fd" | "d \<noteq> fd" "d' \<noteq> fd" by blast
    then show ?thesis
    proof cases
      case 4
      then show ?thesis using that serv inv unfolding echo_inv_def by auto
    qed (use that serv table(2) data in force)+
  qed
  moreover have "NULL \<notin> dom (conns l')"
  proof -
    have "evdata e \<in> dom (conns l)" using old [OF e(1)] e(2) by (auto simp: entry_served_def)
    then show ?thesis using inv new(3) by (auto simp: echo_inv_def)
  qed
  ultimately show ?thesis unfolding echo_inv_def using new socks by blast
qed

text \<open>What the invariant gives for a served connection.\<close>

lemma echo_conn:
  assumes "echo_inv watching limit sfd l" and "served l fd e" and "fd \<noteq> sfd"
  obtains conn where "conns l (evdata e) = Some conn" "conn_ok (bmem l) e conn" "only_rw (evmask e)" "evdata e \<noteq> NULL"
    "synced watching limit l" "has_pool l" "finite (dom (fds (socks l)))" "fds (socks l) sfd \<noteq> None"
    "chains_inv (map_option chain \<circ> conns l) (bmem l)" "0 \<le> fd" "fd < setsize l" "1 \<le> fd"
proof -
  have es: "entry_served l sfd fd e" using assms by (simp add: echo_inv_def)
  obtain conn where c: "conns l (evdata e) = Some conn" "conn_ok (bmem l) e conn" "only_rw (evmask e)"
    using es assms(3) by (auto simp: entry_served_def)
  have n: "evdata e \<noteq> NULL" using c(1) assms(1) by (auto simp: echo_inv_def)
  have s: "synced watching limit l" using assms(1) by (simp add: echo_inv_def)
  have "masks l fd = evmask e" using assms(2) by (auto simp: served_def event_at_def masks_def aload_def split: if_splits)
  then have "masks l fd \<noteq> EV_NONE" using assms(2) by (simp add: served_def)
  then have "0 \<le> fd" "fd < setsize l" using masks_range [of l fd] s by (simp_all add: synced_def)
  then show thesis using that c n assms(1) s es by (simp add: echo_inv_def entry_served_def)
qed

lemma set_conn_eq: "p \<noteq> NULL \<Longrightarrow> conns l p = Some c \<Longrightarrow> set_conn l p c' = Some (l\<lparr>conns := (conns l)(p \<mapsto> c')\<rparr>)"
  using store_Some [of p "conns l" c c'] by (simp add: set_conn_def)

lemma only_rw_clear: "only_rw m \<Longrightarrow> m AND NOT (EV_RDABLE OR EV_WRABLE) = EV_NONE"
  by (simp add: only_rw_def)

lemma only_rw_and: "only_rw m \<Longrightarrow> only_rw (m AND e)"
proof -
  assume m: "only_rw m"
  have "(m AND e) AND NOT (EV_RDABLE OR EV_WRABLE) = (m AND NOT (EV_RDABLE OR EV_WRABLE)) AND e"
    by (simp only: ac_simps)
  then show ?thesis using m by (simp add: only_rw_def EV_NONE_def)
qed

lemma only_rw_or: "only_rw m \<Longrightarrow> only_rw e \<Longrightarrow> only_rw (m OR e)"
  by (simp add: only_rw_def EV_NONE_def bit.conj_disj_distrib2)

lemma only_rw_events: "only_rw EV_RDABLE" "only_rw EV_WRABLE"
  by (simp_all add: only_rw_def EV_NONE_def EV_RDABLE_def EV_WRABLE_def)

lemma sys_close_keeps:
  "finite (dom (fds n)) \<Longrightarrow> finite (dom (fds (sys_close fd n)))"
  "fd \<noteq> sfd \<Longrightarrow> fds (sys_close fd n) sfd = fds n sfd"
  by (auto simp: sys_close_def)

lemma on_fd_dom: "on_fd env fd f n = (n', r) \<Longrightarrow> dom (fds n') = dom (fds n) \<and> accepts n' = accepts n"
  by (auto simp: on_fd_def attempt_def Let_def split: option.splits if_splits)

section \<open>The environment\<close>

text \<open>
  The kernel and the allocator as documented: \<^verbatim>\<open>readv\<close> and \<^verbatim>\<open>writev\<close> move at most the bytes there is room
  for and are not interrupted for ever, memory is there, new descriptors are not open, and again and again
  there is no connection to accept, so that \<^verbatim>\<open>accept\<close> fails. The other calls may succeed or fail as they like.
\<close>

definition io_ok :: "io_env \<Rightarrow> bool" where
  "io_ok env \<longleftrightarrow> reads_ok (readv env) \<and> (\<forall>n. \<exists>k \<ge> n. read_stops (readv env) k) \<and> writes_ok (writev env)
     \<and> no_storm (writev env) \<and> alloc_ok (balloc env) \<and> newfd_ok (sockets env)
     \<and> (\<forall>k. chain_served env k) \<and> (\<forall>n m. finite (dom m) \<longrightarrow> fresh m (calloc env n m))
     \<and> (\<forall>n. \<exists>k \<ge> n. refuses (sockets env) k \<noteq> None)"

lemma chains_upd: "map_option chain \<circ> m(p \<mapsto> x) = (map_option chain \<circ> m)(p \<mapsto> chain x)"
  by (simp add: fun_eq_iff)

lemma send_conn:
  assumes io: "io_ok env" and ch: "chains_inv (map_option chain \<circ> m) s" and p: "m p = Some conn"
  shows "\<exists>c' s' rv bs. buffer_chain_send (writev env) (chain conn) s = Some (c', s', rv)
    \<and> chains_inv ((map_option chain \<circ> m)(p \<mapsto> c')) s' \<and> stored (chain conn) s = bs @ stored c' s'
    \<and> sent c' = of_nat (length bs)
    \<and> (\<forall>q d. q \<noteq> p \<longrightarrow> m q = Some d \<longrightarrow> stored (chain d) s' = stored (chain d) s)"
proof -
  have "(map_option chain \<circ> m) p = Some (chain conn)" using p by simp
  then obtain fs where fs: "buf_inv (chain conn) s fs" "\<And>c' s'. buf_inv c' s' fs \<Longrightarrow> same_blocks fs s s' \<Longrightarrow>
      chains_inv ((map_option chain \<circ> m)(p \<mapsto> c')) s'
      \<and> (\<forall>q d. q \<noteq> p \<longrightarrow> (map_option chain \<circ> m) q = Some d \<longrightarrow> stored d s' = stored d s)"
    using chains_focus [OF ch] by blast
  obtain c' s' rv bs where r: "buffer_chain_send (writev env) (chain conn) s = Some (c', s', rv)" "buf_inv c' s' fs"
      "stored (chain conn) s = bs @ stored c' s'" "sent c' = of_nat (length bs)" "same_blocks fs s s'"
    using send_ok [OF fs(1), of "writev env"] io unfolding io_ok_def by blast
  have k: "chains_inv ((map_option chain \<circ> m)(p \<mapsto> c')) s'"
    "\<forall>q d. q \<noteq> p \<longrightarrow> (map_option chain \<circ> m) q = Some d \<longrightarrow> stored d s' = stored d s"
    using fs(2) [OF r(2,5)] by blast+
  have "stored (chain d) s' = stored (chain d) s" if "q \<noteq> p" "m q = Some d" for q d
    using k(2) that by simp
  then show ?thesis using r(1,3,4) k(1) by blast
qed

lemma recv_conn:
  assumes io: "io_ok env" and ch: "chains_inv (map_option chain \<circ> m) s" and p: "m p = Some conn"
  shows "\<exists>c' s' rv bs. buffer_chain_recv (readv env) (balloc env) (junk env) (chain conn) s = Some (c', s', rv)
    \<and> chains_inv ((map_option chain \<circ> m)(p \<mapsto> c')) s' \<and> stored c' s' = stored (chain conn) s @ bs
    \<and> recv c' = of_nat (length bs) \<and> cin c' = cin (chain conn) @ bs \<and> cout c' = cout (chain conn)
    \<and> (\<forall>q d. q \<noteq> p \<longrightarrow> m q = Some d \<longrightarrow> stored (chain d) s' = stored (chain d) s)"
proof -
  have "(map_option chain \<circ> m) p = Some (chain conn)" using p by simp
  then obtain fs where fs: "buf_inv (chain conn) s fs" "\<And>c' s'. buf_inv c' s' fs \<Longrightarrow> same_blocks fs s s' \<Longrightarrow>
      chains_inv ((map_option chain \<circ> m)(p \<mapsto> c')) s'
      \<and> (\<forall>q d. q \<noteq> p \<longrightarrow> (map_option chain \<circ> m) q = Some d \<longrightarrow> stored d s' = stored d s)"
    using chains_focus [OF ch] by blast
  obtain c' s' rv bs where r: "buffer_chain_recv (readv env) (balloc env) (junk env) (chain conn) s = Some (c', s', rv)"
      "buf_inv c' s' fs" "stored c' s' = stored (chain conn) s @ bs" "recv c' = of_nat (length bs)" "same_blocks fs s s'"
      "cin c' = cin (chain conn) @ bs" "cout c' = cout (chain conn)"
    using recv_ok [OF fs(1), of "balloc env" "readv env" "junk env"] io unfolding io_ok_def by blast
  have k: "chains_inv ((map_option chain \<circ> m)(p \<mapsto> c')) s'"
    "\<forall>q d. q \<noteq> p \<longrightarrow> (map_option chain \<circ> m) q = Some d \<longrightarrow> stored d s' = stored d s"
    using fs(2) [OF r(2,5)] by blast+
  have "stored (chain d) s' = stored (chain d) s" if "q \<noteq> p" "m q = Some d" for q d
    using k(2) that by simp
  then show ?thesis using r(1,3,4,6,7) k(1) by blast
qed

section \<open>The callbacks of a connection\<close>

text \<open>
  The state after an operation on the connection \<open>p\<close>, before its event is looked at again: \<open>conn'\<close> has
  the new chain, and the rest of the loop is as before.
\<close>

definition touched :: "'p echo \<Rightarrow> ptr \<Rightarrow> connection \<Rightarrow> 'p echo \<Rightarrow> bool" where
  "touched l p conn' l' \<longleftrightarrow> conns l' = (conns l)(p \<mapsto> conn') \<and> chains_inv (map_option chain \<circ> conns l') (bmem l')
     \<and> (\<forall>q d. q \<noteq> p \<longrightarrow> conns l q = Some d \<longrightarrow> stored (chain d) (bmem l') = stored (chain d) (bmem l))
     \<and> event_at l' = event_at l \<and> masks l' = masks l \<and> has_pool l' = has_pool l \<and> socks l' = socks l
     \<and> loop_frame l l'"

lemma touchI:
  assumes "chains_inv ((map_option chain \<circ> conns l)(p \<mapsto> chain conn')) s'"
    and "\<forall>q d. q \<noteq> p \<longrightarrow> conns l q = Some d \<longrightarrow> stored (chain d) s' = stored (chain d) (bmem l)"
  shows "touched l p conn' (l\<lparr>bmem := s', conns := (conns l)(p \<mapsto> conn')\<rparr>)"
proof -
  let ?l = "l\<lparr>bmem := s', conns := (conns l)(p \<mapsto> conn')\<rparr>"
  have "event_at ?l = event_at l" by (rule event_at_events) simp
  moreover have "masks ?l = masks l" by (rule masks_events) simp
  moreover have "chains_inv (map_option chain \<circ> conns ?l) (bmem ?l)" using assms(1) by (simp add: chains_upd)
  ultimately show ?thesis using assms(2) by (simp add: touched_def loop_frame_def)
qed

lemma touched_trans: "touched l p c1 l1 \<Longrightarrow> touched l1 p c2 l2 \<Longrightarrow> touched l p c2 l2"
  unfolding touched_def loop_frame_def by (elim conjE, intro conjI; simp)

lemma touched_chains: "touched l p c1 l1 \<Longrightarrow> chains_inv (map_option chain \<circ> conns l1) (bmem l1)"
  unfolding touched_def by (elim conjE)

lemma touched_event: "touched l p c1 l1 \<Longrightarrow> event_at l1 = event_at l"
  unfolding touched_def by (elim conjE)

text \<open>A change of the connection that keeps the chain.\<close>

lemma touched_set:
  assumes t: "touched l p c1 l1" and l2: "conns l2 = (conns l1)(p \<mapsto> c2)" "chain c2 = chain c1" "bmem l2 = bmem l1"
      "events l2 = events l1" "has_pool l2 = has_pool l1" "socks l2 = socks l1" "loop_frame l1 l2"
  shows "touched l p c2 l2"
proof -
  have c1: "conns l1 p = Some c1" using t by (simp add: touched_def)
  have "map_option chain \<circ> conns l2 = map_option chain \<circ> conns l1"
    using l2(1,2) c1 by (simp add: fun_eq_iff)
  then have "chains_inv (map_option chain \<circ> conns l2) (bmem l2)" using touched_chains [OF t] l2(3) by simp
  moreover have "event_at l2 = event_at l1" "masks l2 = masks l1"
    using event_at_events [OF l2(4)] masks_events [OF l2(4)] by simp_all
  moreover have "conns l2 = (conns l)(p \<mapsto> c2)" using t l2(1) by (simp add: touched_def)
  moreover have "loop_frame l l2" using t l2(7) loop_frame_trans unfolding touched_def by blast
  ultimately show ?thesis using t l2(3,5,6) unfolding touched_def by simp
qed

text \<open>The server on a back end that does not fail.\<close>

locale echo_server = reliable_poller watching limit addevent delevent poll
  for watching :: "(int \<Rightarrow> u32) \<Rightarrow> 'p \<Rightarrow> bool" and limit :: int
    and addevent :: "'p registrar" and delevent :: "'p registrar"
    and poll :: "'p echo \<Rightarrow> int \<Rightarrow> ('p echo \<times> int) option"
begin

lemma drop_result:
  assumes inv: "echo_inv watching limit sfd l" and e: "served l fd e" "fd \<noteq> sfd"
    and t: "touched l (evdata e) conn' l1" and s1: "synced watching limit l1"
  shows "\<exists>l'. drop_client delevent l1 fd = Some l' \<and> echo_inv watching limit sfd l' \<and> loop_frame l l'
    \<and> conns l' = conns l1 \<and> fds (socks l') fd = None \<and> (\<forall>x. \<not> served l' fd x)"
proof -
  obtain conn where c: "only_rw (evmask e)" "has_pool l" "finite (dom (fds (socks l)))" "fds (socks l) sfd \<noteq> None"
      "0 \<le> fd" "fd < setsize l"
    using echo_conn [OF inv e] by metis
  let ?b = "EV_RDABLE OR EV_WRABLE"
  have "fd < setsize l1" using t c(6) by (simp add: touched_def loop_frame_def)
  then obtain l2 where d: "delete_event delevent l1 fd ?b = Some (l2, 0)" "synced watching limit l2" "reg_frame l1 l2"
      "event_at l2 = (event_at l1)(fd := map_option (\<lambda>e. e\<lparr>evmask := evmask e AND NOT ?b\<rparr>) (event_at l1 fd))"
    using delete_reliable [OF s1 c(5), of ?b] by blast
  let ?l = "l2\<lparr>socks := sys_close fd (socks l2)\<rparr>"
  have ev: "event_at l1 fd = Some e" using t e(1) by (simp add: touched_def served_def)
  note f = reg_frame_echo [OF d(3)]
  have "event_at ?l = event_at l2" by (rule event_at_events) simp
  then have tab: "event_at ?l = (event_at l)(fd \<mapsto> e\<lparr>evmask := EV_NONE\<rparr>)"
    using d(4) ev t only_rw_clear [OF c(1)] by (simp add: touched_def)
  have "echo_inv watching limit sfd ?l"
  proof (rule echo_step [OF inv e, where conn' = conn' and e' = "e\<lparr>evmask := EV_NONE\<rparr>"])
    show "synced watching limit ?l" using d(2) synced_cong [of ?l l2] by simp
    show "has_pool ?l" using f t c(2) by (simp add: touched_def)
    show "conns ?l = (conns l)(evdata e \<mapsto> conn')" using f t by (simp add: touched_def)
    have "conns ?l = conns l1" "bmem ?l = bmem l1" using f by simp_all
    moreover have "chains_inv (map_option chain \<circ> conns l1) (bmem l1)" using t unfolding touched_def by (elim conjE)
    ultimately show "chains_inv (map_option chain \<circ> conns ?l) (bmem ?l)" by (simp only:)
    show "stored (chain d) (bmem ?l) = stored (chain d) (bmem l)" if "q \<noteq> evdata e" "conns l q = Some d" for q d
      using f t that by (simp add: touched_def)
    show "finite (dom (fds (socks ?l)))" "fds (socks ?l) sfd \<noteq> None"
      using f t c(3,4) e(2) sys_close_keeps [where n = "socks l" and fd = fd] by (simp_all add: touched_def)
  qed (use tab in simp_all)
  moreover have "loop_frame l ?l" using f t by (simp add: touched_def loop_frame_def)
  moreover have "\<forall>x. \<not> served ?l fd x" using tab by (simp add: served_def)
  moreover have "conns ?l = conns l1" "fds (socks ?l) fd = None" using f by (simp_all add: sys_close_def)
  ultimately show ?thesis using d(1) by (simp add: drop_client_def)
qed

lemma drop_ok:
  assumes "echo_inv watching limit sfd l" and "served l fd e" "fd \<noteq> sfd"
    and "touched l (evdata e) conn' l1" and "synced watching limit l1"
  shows "\<exists>l'. drop_client delevent l1 fd = Some l' \<and> echo_inv watching limit sfd l' \<and> loop_frame l l'"
  using drop_result [OF assms] by blast

end

context echo_server
begin

lemma table_ok:
  assumes inv: "echo_inv watching limit sfd l" and e: "served l fd e" "fd \<noteq> sfd"
    and t: "touched l (evdata e) conn' l1"
    and l2: "synced watching limit l2" "reg_frame l1 l2" "event_at l2 = (event_at l1)(fd \<mapsto> e')" "evdata e' = evdata e"
    and entry: "only_rw (evmask e')" "conn_ok (bmem l1) e' conn''" "chain conn'' = chain conn'"
    and n: "finite (dom (fds n))" "fds n sfd \<noteq> None"
  shows "echo_inv watching limit sfd (l2\<lparr>conns := (conns l2)(evdata e \<mapsto> conn''), socks := n\<rparr>)
    \<and> loop_frame l (l2\<lparr>conns := (conns l2)(evdata e \<mapsto> conn''), socks := n\<rparr>)"
proof
  let ?l = "l2\<lparr>conns := (conns l2)(evdata e \<mapsto> conn''), socks := n\<rparr>"
  note f = reg_frame_echo [OF l2(2)]
  have t2: "touched l (evdata e) conn'' (l1\<lparr>conns := (conns l1)(evdata e \<mapsto> conn'')\<rparr>)"
    using entry(3) by (intro touched_set [OF t]) (simp_all add: loop_frame_def)
  have "event_at ?l = event_at l2" by (rule event_at_events) simp
  then have tab: "event_at ?l = (event_at l)(fd \<mapsto> e')" using l2(3) t by (simp add: touched_def)
  have same: "conns ?l = conns (l1\<lparr>conns := (conns l1)(evdata e \<mapsto> conn'')\<rparr>)" "bmem ?l = bmem l1" using f by simp_all
  show "echo_inv watching limit sfd ?l"
  proof (rule echo_step [OF inv e, where conn' = conn'' and e' = e'])
    show "synced watching limit ?l" using l2(1) synced_cong [of ?l l2] by simp
    show "has_pool ?l" using f t inv by (simp add: touched_def echo_inv_def)
    show "conns ?l = (conns l)(evdata e \<mapsto> conn'')" using f t by (simp add: touched_def)
    show "chains_inv (map_option chain \<circ> conns ?l) (bmem ?l)" using touched_chains [OF t2] unfolding same by simp
    show "stored (chain d) (bmem ?l) = stored (chain d) (bmem l)" if "q \<noteq> evdata e" "conns l q = Some d" for q d
      using f t that by (simp add: touched_def)
    show "only_rw (evmask e') \<and> conn_ok (bmem ?l) e' conn''" using entry(1,2) f by simp
  qed (use tab l2(4) n in simp_all)
  show "loop_frame l ?l" using f t by (simp add: touched_def loop_frame_def)
qed

lemma finish_ok:
  assumes inv: "echo_inv watching limit sfd l" and e: "served l fd e" "fd \<noteq> sfd"
    and t: "touched l (evdata e) conn' l1" and s1: "synced watching limit l1" and c: "conn_ok (bmem l1) e conn'"
  shows "echo_inv watching limit sfd l1 \<and> loop_frame l l1"
proof
  obtain conn where o: "only_rw (evmask e)" "has_pool l" "finite (dom (fds (socks l)))" "fds (socks l) sfd \<noteq> None"
    using echo_conn [OF inv e] by metis
  have ev: "event_at l1 = (event_at l)(fd \<mapsto> e)" using t e(1) by (simp add: touched_def served_def fun_upd_idem)
  show "echo_inv watching limit sfd l1"
    by (rule echo_step [OF inv e s1 _ _ touched_chains [OF t], where conn' = conn' and e' = e])
      (use t ev o c in \<open>simp_all add: touched_def\<close>)
  show "loop_frame l l1" using t by (simp add: touched_def)
qed

end

lemma synced_touch:
  "synced watching limit l \<Longrightarrow> synced watching limit (l\<lparr>bmem := s, conns := m\<rparr>)"
  "synced watching limit l \<Longrightarrow> synced watching limit (l\<lparr>bmem := s, conns := m, send_total := a\<rparr>)"
  "synced watching limit l \<Longrightarrow> synced watching limit (l\<lparr>bmem := s, conns := m, recv_total := b\<rparr>)"
  "synced watching limit l \<Longrightarrow> synced watching limit (l\<lparr>bmem := s, conns := m, send_total := a, recv_total := b\<rparr>)"
  by (rule iffD2 [OF synced_cong], simp_all)+

lemma shutdown_keeps:
  "fds n sfd \<noteq> None \<Longrightarrow> fds (fst (sys_shutdown env fd wr n)) sfd \<noteq> None"
  "finite (dom (fds n)) \<Longrightarrow> finite (dom (fds (fst (sys_shutdown env fd wr n))))"
proof -
  obtain n' r where "sys_shutdown env fd wr n = (n', r)" by fastforce
  moreover from this have "dom (fds n') = dom (fds n)"
    using on_fd_dom [of env fd _ n n' r] unfolding sys_shutdown_def by blast
  ultimately show "fds n sfd \<noteq> None \<Longrightarrow> fds (fst (sys_shutdown env fd wr n)) sfd \<noteq> None"
    "finite (dom (fds n)) \<Longrightarrow> finite (dom (fds (fst (sys_shutdown env fd wr n))))"
    by (auto simp: domIff)
qed

text \<open>Sent bytes leave the count as they leave the chain.\<close>

lemma conn_ok_sent:
  assumes "conn_ok s e conn" and "stored (chain conn) s = bs @ stored c s'" and "sent c = of_nat (length bs)"
  shows "conn_ok s' e (conn\<lparr>chain := c, total := total conn - sent c\<rparr>)"
  using assms by (simp add: conn_ok_def)

lemma conn_ok_received:
  assumes "conn_ok s e conn" and "stored c s' = stored (chain conn) s @ bs" and "recv c = of_nat (length bs)"
  shows "conn_ok s' e (conn\<lparr>chain := c, total := total conn + recv c\<rparr>)"
  using assms by (simp add: conn_ok_def)

lemma event_bits:
  "EV_WRABLE \<noteq> 0" "EV_WRABLE AND EV_RDABLE = (0 :: u32)" "EV_RDABLE \<noteq> 0" "EV_RDABLE AND EV_WRABLE = (0 :: u32)"
  by (simp_all add: EV_RDABLE_def EV_WRABLE_def)

lemma conn_ok_unwrite:
  "conn_ok s e conn \<Longrightarrow> conn_ok s (e\<lparr>evmask := evmask e AND NOT EV_WRABLE\<rparr>) (conn\<lparr>writing := 0\<rparr>)"
  by (auto simp: conn_ok_def mask_changes event_bits)

lemma conn_ok_eof:
  "conn_ok s e conn \<Longrightarrow> conn_ok s' (e\<lparr>evmask := evmask e AND NOT EV_RDABLE\<rparr>) (conn\<lparr>chain := c, eof := 1\<rparr>)"
  by (auto simp: conn_ok_def mask_changes event_bits)

lemma conn_ok_write:
  "conn_ok s e conn \<Longrightarrow> conn_ok s (entry_after EV_WRABLE WRITE_CB (evdata e) e) (conn\<lparr>writing := 1\<rparr>)"
  by (auto simp: conn_ok_def entry_after_def mask_changes event_bits)

context echo_server
begin

lemma writecb_ok:
  assumes io: "io_ok env" and inv: "echo_inv watching limit sfd l" and e: "served l fd e" "fd \<noteq> sfd"
  shows "\<exists>l'. client_writecb env delevent l fd (evdata e) = Some l' \<and> echo_inv watching limit sfd l' \<and> loop_frame l l'"
proof -
  obtain conn where conn: "conns l (evdata e) = Some conn" "conn_ok (bmem l) e conn" "only_rw (evmask e)" "evdata e \<noteq> NULL"
      "synced watching limit l" "finite (dom (fds (socks l)))" "fds (socks l) sfd \<noteq> None"
      "chains_inv (map_option chain \<circ> conns l) (bmem l)" "0 \<le> fd" "fd < setsize l"
    using echo_conn [OF inv e] by metis
  let ?p = "evdata e"
  have ld: "load (conns l) ?p = Some conn" using load_Some [of ?p "conns l"] conn(1,4) by simp
  obtain c s rv bs where snd: "buffer_chain_send (writev env) (chain conn) (bmem l) = Some (c, s, rv)"
      "chains_inv ((map_option chain \<circ> conns l)(?p \<mapsto> c)) s" "stored (chain conn) (bmem l) = bs @ stored c s"
      "sent c = of_nat (length bs)"
      "\<forall>q d. q \<noteq> ?p \<longrightarrow> conns l q = Some d \<longrightarrow> stored (chain d) s = stored (chain d) (bmem l)"
    using send_conn [OF io conn(8,1)] by blast
  let ?c1 = "conn\<lparr>chain := c\<rparr>" and ?c2 = "conn\<lparr>chain := c, total := total conn - sent c\<rparr>"
  let ?l1 = "l\<lparr>bmem := s, conns := (conns l)(?p \<mapsto> ?c1)\<rparr>"
  let ?l2 = "l\<lparr>bmem := s, conns := (conns l)(?p \<mapsto> ?c2), send_total := send_total l + sent c\<rparr>"
  have t1: "touched l ?p ?c1 ?l1" using snd(2,5) by (intro touchI) simp_all
  have t2: "touched l ?p ?c2 ?l2" by (rule touched_set [OF t1]) (simp_all add: loop_frame_def)
  have ok2: "conn_ok s e ?c2" by (rule conn_ok_sent [OF conn(2) snd(3,4)])
  have sc1: "set_conn (l\<lparr>bmem := s\<rparr>) ?p ?c1 = Some ?l1"
    using set_conn_eq [of ?p "l\<lparr>bmem := s\<rparr>" conn ?c1] conn(1,4) by simp
  have sc2: "set_conn (?l1\<lparr>send_total := send_total l + sent c\<rparr>) ?p ?c2 = Some ?l2"
    using set_conn_eq [of ?p "?l1\<lparr>send_total := send_total l + sent c\<rparr>" ?c1 ?c2] conn(4) by simp
  have body: "client_writecb env delevent l fd ?p =
      (if rv < 0 then drop_client delevent ?l1 fd
       else if total ?c2 = 0 then do {
         (l, _) \<leftarrow> delete_event delevent ?l2 fd EV_WRABLE;
         l \<leftarrow> set_conn l ?p (?c2\<lparr>writing := 0\<rparr>);
         Some (if eof conn \<noteq> 0 then l\<lparr>socks := fst (sys_shutdown (sockets env) fd True (socks l))\<rparr> else l)
       } else Some ?l2)"
    using ld snd(1) sc1 sc2 by (simp add: client_writecb_def Let_def)
  have s2: "synced watching limit ?l2" by (rule synced_touch(2) [OF conn(5)])
  consider "rv < 0" | "\<not> rv < 0" "total ?c2 = 0" | "\<not> rv < 0" "total ?c2 \<noteq> 0" by blast
  then show ?thesis
  proof cases
    case 1
    then show ?thesis using body drop_ok [OF inv e t1 synced_touch(1) [OF conn(5)]] by simp
  next
    case 2
    have "fd < setsize ?l2" using conn(10) by simp
    then obtain l3 where d: "delete_event delevent ?l2 fd EV_WRABLE = Some (l3, 0)" "synced watching limit l3" "reg_frame ?l2 l3"
        "event_at l3 = (event_at ?l2)(fd := map_option (\<lambda>e. e\<lparr>evmask := evmask e AND NOT EV_WRABLE\<rparr>) (event_at ?l2 fd))"
      using delete_reliable [OF s2 conn(9), of EV_WRABLE] by blast
    have "event_at ?l2 fd = Some e" using t2 e(1) by (simp add: touched_def served_def)
    then have tab: "event_at l3 = (event_at ?l2)(fd \<mapsto> e\<lparr>evmask := evmask e AND NOT EV_WRABLE\<rparr>)" using d(4) by simp
    note f = reg_frame_echo [OF d(3)]
    define n where "n = (if eof conn \<noteq> 0 then fst (sys_shutdown (sockets env) fd True (socks l)) else socks l)"
    have n: "finite (dom (fds n))" "fds n sfd \<noteq> None" using conn(6,7) shutdown_keeps unfolding n_def by auto
    have "set_conn l3 ?p (?c2\<lparr>writing := 0\<rparr>) = Some (l3\<lparr>conns := (conns l3)(?p \<mapsto> ?c2\<lparr>writing := 0\<rparr>)\<rparr>)"
      using set_conn_eq [of ?p l3 ?c2 "?c2\<lparr>writing := 0\<rparr>"] f conn(4) by simp
    moreover have "socks l3 = socks l" using f by simp
    moreover from this have "x\<lparr>socks := socks l\<rparr> = x" if "socks x = socks l3" for x :: "'a echo" using that by (cases x) simp
    ultimately have res: "client_writecb env delevent l fd ?p =
        Some (l3\<lparr>conns := (conns l3)(?p \<mapsto> ?c2\<lparr>writing := 0\<rparr>), socks := n\<rparr>)"
      using body 2 d(1) by (simp add: n_def)
    have en: "only_rw (evmask (e\<lparr>evmask := evmask e AND NOT EV_WRABLE\<rparr>))"
        "conn_ok (bmem ?l2) (e\<lparr>evmask := evmask e AND NOT EV_WRABLE\<rparr>) (?c2\<lparr>writing := 0\<rparr>)"
      using only_rw_and [OF conn(3)] conn_ok_unwrite [OF ok2] by simp_all
    show ?thesis unfolding res
      using table_ok [OF inv e t2 d(2,3) tab _ en _ n] by simp
  next
    case 3
    then show ?thesis using body finish_ok [OF inv e t2 s2] ok2 by simp
  qed
qed

text \<open>The second half of the read callback: what was received is sent back at once.\<close>

lemma echo_back_ok:
  assumes io: "io_ok env" and inv: "echo_inv watching limit sfd l" and e: "served l fd e" "fd \<noteq> sfd"
    and t: "touched l (evdata e) conn l1" and s1: "synced watching limit l1" and ok: "conn_ok (bmem l1) e conn"
  shows "\<exists>l'. echo_back env addevent delevent l1 fd (evdata e) conn = Some l' \<and> echo_inv watching limit sfd l'
    \<and> loop_frame l l'"
proof -
  obtain conn0 where o: "only_rw (evmask e)" "evdata e \<noteq> NULL" "finite (dom (fds (socks l)))" "fds (socks l) sfd \<noteq> None"
      "fd < setsize l" "1 \<le> fd"
    using echo_conn [OF inv e] by metis
  let ?p = "evdata e"
  have at: "conns l1 ?p = Some conn" using t by (simp add: touched_def)
  obtain c s rv bs where snd: "buffer_chain_send (writev env) (chain conn) (bmem l1) = Some (c, s, rv)"
      "chains_inv ((map_option chain \<circ> conns l1)(?p \<mapsto> c)) s" "stored (chain conn) (bmem l1) = bs @ stored c s"
      "sent c = of_nat (length bs)"
      "\<forall>q d. q \<noteq> ?p \<longrightarrow> conns l1 q = Some d \<longrightarrow> stored (chain d) s = stored (chain d) (bmem l1)"
    using send_conn [OF io touched_chains [OF t] at] by blast
  let ?c1 = "conn\<lparr>chain := c\<rparr>" and ?c2 = "conn\<lparr>chain := c, total := total conn - sent c\<rparr>"
  let ?l2 = "l1\<lparr>bmem := s, conns := (conns l1)(?p \<mapsto> ?c1)\<rparr>"
  let ?l3 = "l1\<lparr>bmem := s, conns := (conns l1)(?p \<mapsto> ?c2), send_total := send_total l1 + sent c\<rparr>"
  have t2: "touched l ?p ?c1 ?l2" using snd(2,5) by (intro touched_trans [OF t] touchI) simp_all
  have t3: "touched l ?p ?c2 ?l3" by (rule touched_set [OF t2]) (simp_all add: loop_frame_def)
  have s2: "synced watching limit ?l2" and s3: "synced watching limit ?l3"
    using synced_touch(1,2) [OF s1] by blast+
  have ok2: "conn_ok s e ?c2" by (rule conn_ok_sent [OF ok snd(3,4)])
  have sc1: "set_conn (l1\<lparr>bmem := s\<rparr>) ?p ?c1 = Some ?l2"
    using set_conn_eq [of ?p "l1\<lparr>bmem := s\<rparr>" conn ?c1] at o(2) by simp
  have sc2: "set_conn (?l2\<lparr>send_total := send_total l1 + sent c\<rparr>) ?p ?c2 = Some ?l3"
    using set_conn_eq [of ?p "?l2\<lparr>send_total := send_total l1 + sent c\<rparr>" ?c1 ?c2] o(2) by simp
  have body: "echo_back env addevent delevent l1 fd ?p conn =
      (if rv < 0 then drop_client delevent ?l2 fd
       else if total ?c2 > 0 then do {
         (l, _) \<leftarrow> create_event addevent ?l3 fd EV_WRABLE WRITE_CB ?p;
         set_conn l ?p (?c2\<lparr>writing := 1\<rparr>)
       } else Some ?l3)"
    using snd(1) sc1 sc2 by (simp add: echo_back_def Let_def)
  consider "rv < 0" | "\<not> rv < 0" "total ?c2 > 0" | "\<not> rv < 0" "\<not> total ?c2 > 0" by blast
  then show ?thesis
  proof cases
    case 1
    then show ?thesis using body drop_ok [OF inv e t2 s2] by simp
  next
    case 2
    have nz: "WRITE_CB \<noteq> 0" "EV_WRABLE \<noteq> EV_NONE" by (simp_all add: WRITE_CB_def EV_WRABLE_def EV_NONE_def)
    have at: "event_at ?l3 fd = Some e" using touched_event [OF t3] e(1) by (simp only: served_def)
    have reg: "evmask e \<noteq> EV_NONE" using e(1) by (simp add: served_def)
    obtain l4 where d: "create_event addevent ?l3 fd EV_WRABLE WRITE_CB ?p = Some (l4, 0)" "synced watching limit l4"
        "reg_frame ?l3 l4" and tab: "event_at l4 = (event_at ?l3)(fd \<mapsto> entry_after EV_WRABLE WRITE_CB ?p e)"
      using create_reliable [OF s3 nz o(6) at reg, of ?p] by auto
    note f = reg_frame_echo [OF d(3)]
    let ?c3 = "?c2\<lparr>writing := 1\<rparr>"
    have sk: "socks l4 = socks l" using f t by (simp add: touched_def)
    then have "l4\<lparr>conns := (conns l4)(?p \<mapsto> ?c3), socks := socks l\<rparr> = l4\<lparr>conns := (conns l4)(?p \<mapsto> ?c3)\<rparr>"
      by (cases l4) simp
    moreover have "set_conn l4 ?p ?c3 = Some (l4\<lparr>conns := (conns l4)(?p \<mapsto> ?c3)\<rparr>)"
      using set_conn_eq [of ?p l4 ?c2 ?c3] f o(2) by simp
    ultimately have res: "echo_back env addevent delevent l1 fd ?p conn =
        Some (l4\<lparr>conns := (conns l4)(?p \<mapsto> ?c3), socks := socks l\<rparr>)"
      using body 2 d(1) by simp
    have en: "only_rw (evmask (entry_after EV_WRABLE WRITE_CB ?p e))"
        "conn_ok (bmem ?l3) (entry_after EV_WRABLE WRITE_CB ?p e) ?c3"
      using only_rw_or [OF o(1) only_rw_events(2)] conn_ok_write [OF ok2] by (simp_all add: entry_after_def)
    show ?thesis unfolding res
      using table_ok [OF inv e t3 d(2,3) tab _ en _ o(3,4)] by (simp add: entry_after_def)
  next
    case 3
    then show ?thesis using body finish_ok [OF inv e t3 s3] ok2 by simp
  qed
qed

lemma readcb_ok:
  assumes io: "io_ok env" and inv: "echo_inv watching limit sfd l" and e: "served l fd e" "fd \<noteq> sfd"
  shows "\<exists>l'. client_readcb env addevent delevent l fd (evdata e) = Some l' \<and> echo_inv watching limit sfd l'
    \<and> loop_frame l l'"
proof -
  obtain conn where conn: "conns l (evdata e) = Some conn" "conn_ok (bmem l) e conn" "only_rw (evmask e)" "evdata e \<noteq> NULL"
      "synced watching limit l" "finite (dom (fds (socks l)))" "fds (socks l) sfd \<noteq> None"
      "chains_inv (map_option chain \<circ> conns l) (bmem l)" "0 \<le> fd" "fd < setsize l" "1 \<le> fd"
    using echo_conn [OF inv e] by metis
  let ?p = "evdata e"
  have ld: "load (conns l) ?p = Some conn" using load_Some [of ?p "conns l"] conn(1,4) by simp
  obtain c s rv bs where rcv: "buffer_chain_recv (readv env) (balloc env) (junk env) (chain conn) (bmem l) = Some (c, s, rv)"
      "chains_inv ((map_option chain \<circ> conns l)(?p \<mapsto> c)) s" "stored c s = stored (chain conn) (bmem l) @ bs"
      "recv c = of_nat (length bs)"
      "\<forall>q d. q \<noteq> ?p \<longrightarrow> conns l q = Some d \<longrightarrow> stored (chain d) s = stored (chain d) (bmem l)"
    using recv_conn [OF io conn(8,1)] by blast
  let ?c1 = "conn\<lparr>chain := c\<rparr>" and ?c2 = "conn\<lparr>chain := c, total := total conn + recv c\<rparr>"
  let ?l1 = "l\<lparr>bmem := s, conns := (conns l)(?p \<mapsto> ?c1)\<rparr>"
  let ?l2 = "l\<lparr>bmem := s, conns := (conns l)(?p \<mapsto> ?c2), recv_total := recv_total l + recv c\<rparr>"
  have t1: "touched l ?p ?c1 ?l1" using rcv(2,5) by (intro touchI) simp_all
  have t2: "touched l ?p ?c2 ?l2" by (rule touched_set [OF t1]) (simp_all add: loop_frame_def)
  have s1: "synced watching limit ?l1" and s2: "synced watching limit ?l2"
    using synced_touch(1,3) [OF conn(5)] by blast+
  have ok2: "conn_ok s e ?c2" by (rule conn_ok_received [OF conn(2) rcv(3,4)])
  have sc1: "set_conn (l\<lparr>bmem := s\<rparr>) ?p ?c1 = Some ?l1"
    using set_conn_eq [of ?p "l\<lparr>bmem := s\<rparr>" conn ?c1] conn(1,4) by simp
  have sc2: "set_conn (?l1\<lparr>recv_total := recv_total l + recv c\<rparr>) ?p ?c2 = Some ?l2"
    using set_conn_eq [of ?p "?l1\<lparr>recv_total := recv_total l + recv c\<rparr>" ?c1 ?c2] conn(4) by simp
  have body: "client_readcb env addevent delevent l fd ?p =
      (if rv < 0 \<or> rv = 0 \<and> total conn = 0 then drop_client delevent ?l1 fd
       else if rv = 0 then do {
         (l, _) \<leftarrow> delete_event delevent ?l1 fd EV_RDABLE;
         set_conn (l\<lparr>socks := fst (sys_shutdown (sockets env) fd False (socks l))\<rparr>) ?p (?c1\<lparr>eof := 1\<rparr>)
       } else if writing conn \<noteq> 0 then Some ?l2
       else echo_back env addevent delevent ?l2 fd ?p ?c2)"
    using ld rcv(1) sc1 sc2 by (simp add: client_readcb_def echo_back_def Let_def)
  consider "rv < 0 \<or> rv = 0 \<and> total conn = 0" | "rv = 0" "total conn \<noteq> 0" | "0 < rv" "writing conn \<noteq> 0"
    | "0 < rv" "writing conn = 0" by linarith
  then show ?thesis
  proof cases
    case 1
    then show ?thesis using body drop_ok [OF inv e t1 s1] by simp
  next
    case 2
    have "fd < setsize ?l1" using conn(10) by simp
    then obtain l3 where d: "delete_event delevent ?l1 fd EV_RDABLE = Some (l3, 0)" "synced watching limit l3" "reg_frame ?l1 l3"
        "event_at l3 = (event_at ?l1)(fd := map_option (\<lambda>e. e\<lparr>evmask := evmask e AND NOT EV_RDABLE\<rparr>) (event_at ?l1 fd))"
      using delete_reliable [OF s1 conn(9), of EV_RDABLE] by blast
    have "event_at ?l1 fd = Some e" using t1 e(1) by (simp add: touched_def served_def)
    then have tab: "event_at l3 = (event_at ?l1)(fd \<mapsto> e\<lparr>evmask := evmask e AND NOT EV_RDABLE\<rparr>)" using d(4) by simp
    note f = reg_frame_echo [OF d(3)]
    define n where "n = fst (sys_shutdown (sockets env) fd False (socks l))"
    have n: "finite (dom (fds n))" "fds n sfd \<noteq> None" using conn(6,7) shutdown_keeps unfolding n_def by auto
    let ?c3 = "conn\<lparr>chain := c, eof := 1\<rparr>"
    have "set_conn (l3\<lparr>socks := n\<rparr>) ?p ?c3 = Some (l3\<lparr>conns := (conns l3)(?p \<mapsto> ?c3), socks := n\<rparr>)"
      using set_conn_eq [of ?p "l3\<lparr>socks := n\<rparr>" ?c1 ?c3] f conn(4) by simp
    then have res: "client_readcb env addevent delevent l fd ?p =
        Some (l3\<lparr>conns := (conns l3)(?p \<mapsto> ?c3), socks := n\<rparr>)"
      using body 2 d(1) f by (simp add: n_def)
    have en: "only_rw (evmask (e\<lparr>evmask := evmask e AND NOT EV_RDABLE\<rparr>))"
        "conn_ok (bmem ?l1) (e\<lparr>evmask := evmask e AND NOT EV_RDABLE\<rparr>) ?c3"
      using only_rw_and [OF conn(3)] conn_ok_eof [OF conn(2)] by simp_all
    show ?thesis unfolding res using table_ok [OF inv e t1 d(2,3) tab _ en _ n] by simp
  next
    case 3
    then show ?thesis using body finish_ok [OF inv e t2 s2] ok2 by simp
  next
    case 4
    then show ?thesis using body echo_back_ok [OF io inv e t2 s2] ok2 conn(3,4) by simp
  qed
qed

end

section \<open>Accepting connections\<close>

text \<open>A connection that no event refers to yet.\<close>

definition unused :: "('p, 'z) eloop_scheme \<Rightarrow> int \<Rightarrow> ptr \<Rightarrow> bool" where
  "unused l sfd p \<longleftrightarrow> (\<forall>fd e. served l fd e \<longrightarrow> fd \<noteq> sfd \<longrightarrow> evdata e \<noteq> p)"

lemma echo_add:
  assumes inv: "echo_inv watching limit sfd l" and io: "io_ok env" and p: "fresh (conns l) p"
    and n: "finite (dom (fds n))" "fds n sfd \<noteq> None"
  shows "\<exists>s q. buffer_pool_get (balloc env) (junk env) (bmem l) = Some (s, q)
    \<and> echo_inv watching limit sfd
        (l\<lparr>socks := n, requests := k, bmem := s, conns := (conns l)(p \<mapsto> \<lparr>eof = 0, writing = 0, total = 0, chain = new_chain q\<rparr>)\<rparr>)
    \<and> stored (new_chain q) s = []
    \<and> unused l sfd p"
proof -
  have ch: "chains_inv (map_option chain \<circ> conns l) (bmem l)" using inv by (simp add: echo_inv_def)
  have np: "p \<noteq> NULL" "conns l p = None" using p by (simp_all add: fresh_def)
  obtain s q where g: "buffer_pool_get (balloc env) (junk env) (bmem l) = Some (s, q)"
      "chains_inv ((map_option chain \<circ> conns l)(p \<mapsto> new_chain q)) s" "stored (new_chain q) s = []"
      "\<forall>r d. (map_option chain \<circ> conns l) r = Some d \<longrightarrow> stored d s = stored d (bmem l)"
    using chains_new [OF ch, of p "balloc env" "junk env"] np(2) io by (auto simp: io_ok_def)
  let ?c = "\<lparr>eof = 0, writing = 0, total = 0, chain = new_chain q\<rparr>"
  let ?l = "l\<lparr>socks := n, requests := k, bmem := s, conns := (conns l)(p \<mapsto> ?c)\<rparr>"
  have "event_at ?l = event_at l" by (rule event_at_events) simp
  then have serv: "served ?l d x = served l d x" for d x by (simp add: served_def)
  have old: "stored (chain d) s = stored (chain d) (bmem l)" if "conns l r = Some d" for r d
    using g(4) that by auto
  have un: "unused l sfd p"
    using inv np(2) unfolding unused_def echo_inv_def entry_served_def by fastforce
  have "entry_served ?l sfd d x" if "served l d x" for d x
  proof -
    have es: "entry_served l sfd d x" using inv that by (simp add: echo_inv_def)
    show ?thesis
    proof (cases "d = sfd")
      case False
      then obtain conn where c: "conns l (evdata x) = Some conn" "conn_ok (bmem l) x conn" "only_rw (evmask x)" "1 \<le> d"
        using es by (auto simp: entry_served_def)
      then have "evdata x \<noteq> p" "conn_ok s x conn" using np(2) old [OF c(1)] by (auto simp: conn_ok_def)
      then show ?thesis using c False by (simp add: entry_served_def)
    qed (use es in \<open>simp add: entry_served_def\<close>)
  qed
  moreover have "synced watching limit ?l" using inv synced_cong [of ?l l] by (simp add: echo_inv_def)
  moreover have "chains_inv (map_option chain \<circ> conns ?l) (bmem ?l)" using g(2) by (simp add: chains_upd)
  ultimately have "echo_inv watching limit sfd ?l"
    using inv np(1) n unfolding echo_inv_def serv by simp
  then show ?thesis using g(1,3) un by blast
qed

text \<open>The event of a new connection.\<close>

lemma echo_register:
  assumes inv: "echo_inv watching limit sfd l" and un: "unused l sfd p" and fd: "fd \<noteq> sfd" "1 \<le> fd"
    and c: "conns l p = Some \<lparr>eof = 0, writing = 0, total = 0, chain = c\<rparr>" "stored c (bmem l) = []"
    and l': "synced watching limit l'" "reg_frame l l'"
      "event_at l' = (event_at l)(fd \<mapsto> entry_after EV_RDABLE READ_CB p e)" "event_at l fd = Some e"
  shows "echo_inv watching limit sfd l'"
proof -
  let ?e = "entry_after EV_RDABLE READ_CB p e"
  note f = reg_frame_echo [OF l'(2)]
  have nz: "evmask ?e \<noteq> EV_NONE" using event_bits(3) by (simp add: entry_after_def or_none) (simp add: EV_NONE_def)
  have serv: "served l' d x \<longleftrightarrow> (if d = fd then x = ?e else served l d x)" for d x
    using l'(3) nz by (auto simp: served_def)
  have old: "only_rw (evmask e)" "evmask e AND EV_WRABLE \<noteq> 0 \<Longrightarrow> evwrite e = WRITE_CB"
  proof -
    show "only_rw (evmask e)"
    proof (cases "evmask e = EV_NONE")
      case False
      then have "served l fd e" using l'(4) by (simp add: served_def)
      then show ?thesis using inv fd(1) unfolding echo_inv_def entry_served_def by metis
    qed (simp add: only_rw_def EV_NONE_def)
    assume w: "evmask e AND EV_WRABLE \<noteq> 0"
    then have "served l fd e" using l'(4) by (auto simp: served_def EV_NONE_def)
    then obtain conn where "conn_ok (bmem l) e conn" using inv fd(1) unfolding echo_inv_def entry_served_def by metis
    then show "evwrite e = WRITE_CB" using w by (simp add: conn_ok_def)
  qed
  have "only_rw (evmask ?e)" using only_rw_or [OF old(1) only_rw_events(1)] by (simp add: entry_after_def)
  moreover have "conn_ok (bmem l') ?e \<lparr>eof = 0, writing = 0, total = 0, chain = c\<rparr>"
    using old(2) c(2) f by (simp add: conn_ok_def entry_after_def mask_changes event_bits)
  ultimately have "entry_served l' sfd fd ?e" using c(1) fd f by (simp add: entry_served_def entry_after_def)
  moreover have "entry_served l' sfd d x" if "served l d x" for d x
    using inv that f by (simp add: echo_inv_def entry_served_def)
  ultimately have "\<forall>d x. served l' d x \<longrightarrow> entry_served l' sfd d x" using serv by simp
  moreover have "d = d'"
    if "served l' d x" "served l' d' x'" "d \<noteq> sfd" "d' \<noteq> sfd" "evdata x = evdata x'" for d d' x x'
  proof -
    have p: "evdata ?e = p" by (simp add: entry_after_def)
    have "d = fd \<longleftrightarrow> d' = fd" using that p un serv unfolding unused_def by metis
    then consider "d = d'" | "d \<noteq> fd" "d' \<noteq> fd" by blast
    then show ?thesis
    proof cases
      case 2
      then have "served l d x" "served l d' x'" using that(1,2) serv by simp_all
      then show ?thesis using inv that(3-5) unfolding echo_inv_def by blast
    qed
  qed
  moreover have "has_pool l' \<and> NULL \<notin> dom (conns l') \<and> chains_inv (map_option chain \<circ> conns l') (bmem l')
      \<and> finite (dom (fds (socks l'))) \<and> fds (socks l') sfd \<noteq> None"
    using inv f by (simp add: echo_inv_def)
  ultimately show ?thesis unfolding echo_inv_def using l'(1) by blast
qed

lemma sys_close_accepts [simp]: "accepts (sys_close fd n) = accepts n"
  by (simp add: sys_close_def)

lemma fail_with_accepts [simp]: "accepts (fail_with env e t n) = accepts n"
  by (simp add: fail_with_def socket_error_def)

lemma sys_close_dom: "finite (dom (fds n)) \<Longrightarrow> finite (dom (fds (sys_close fd n)))"
  by (simp add: sys_close_def)

text \<open>The options of a new descriptor, with \<^verbatim>\<open>close\<close> when one fails; \<open>same_open\<close> is what they keep.\<close>

definition same_open :: "int \<Rightarrow> net \<Rightarrow> net \<Rightarrow> bool" where
  "same_open sfd n n' \<longleftrightarrow> accepts n' = accepts n
     \<and> (finite (dom (fds n)) \<longrightarrow> finite (dom (fds n'))) \<and> (fds n sfd \<noteq> None \<longrightarrow> fds n' sfd \<noteq> None)"

lemma same_open_trans: "same_open sfd n1 n2 \<Longrightarrow> same_open sfd n2 n3 \<Longrightarrow> same_open sfd n1 n3"
  by (simp add: same_open_def)

lemma same_open_on_fd: "on_fd env fd f n = (n', r) \<Longrightarrow> same_open sfd n n'"
  using on_fd_dom [of env fd f n n' r] by (auto simp: same_open_def domIff)

lemma same_open_fail: "same_open sfd n m \<Longrightarrow> same_open sfd n (fail_with env e t m)"
  by (simp add: same_open_def)

lemma same_open_close: "fd \<noteq> sfd \<Longrightarrow> same_open sfd n m \<Longrightarrow> same_open sfd n (if c then sys_close fd m else m)"
  by (auto simp: same_open_def sys_close_dom sys_close_keeps)

lemma set_nonblock_same: "set_nonblock env e fd n = (n', r) \<Longrightarrow> same_open sfd n n'"
proof -
  assume n': "set_nonblock env e fd n = (n', r)"
  obtain n1 r1 where 1: "on_fd env fd id n = (n1, r1)" by fastforce
  obtain n2 r2 where 2: "on_fd env fd (status_update (\<lambda>_. the (map_option status (fds n1 fd)) OR O_NONBLOCK)) n1 = (n2, r2)"
    by fastforce
  note s = same_open_on_fd [OF 1, of sfd] same_open_trans [OF same_open_on_fd [OF 1, of sfd] same_open_on_fd [OF 2]]
  then show ?thesis using n' 1 2 same_open_fail
    by (auto simp: set_nonblock_def sys_getfl_def Let_def split: option.splits if_splits prod.splits)
qed

lemma set_nodelay_same: "set_tcp_nodelay env e fd v n = (n', r) \<Longrightarrow> same_open sfd n n'"
  using same_open_on_fd same_open_fail
  by (fastforce simp: set_tcp_nodelay_def sys_setsockopt_def Let_def split: if_splits prod.splits)

text \<open>Fields of the loop that only the loop itself uses may change.\<close>

lemma echo_inv_cong:
  assumes "echo_inv watching limit sfd l" and "events l' = events l" and "synced watching limit l'"
    and "conns l' = conns l" "bmem l' = bmem l" "has_pool l' = has_pool l" "socks l' = socks l"
  shows "echo_inv watching limit sfd l'"
proof -
  have "served l' d x = served l d x" for d x using event_at_events [OF assms(2)] by (simp add: served_def)
  then show ?thesis using assms unfolding echo_inv_def by (simp add: entry_served_def)
qed

context echo_server
begin

lemma client_ok:
  assumes io: "io_ok env" and inv: "echo_inv watching limit sfd (l\<lparr>socks := m\<rparr>)" and cfd: "cfd \<noteq> sfd"
    and n: "finite (dom (fds (socks l)))" "fds (socks l) sfd \<noteq> None"
  shows "\<exists>l'. accept_client env addevent cfd l = Some l' \<and> echo_inv watching limit sfd l' \<and> loop_frame l l'
    \<and> same_open sfd (socks l) (socks l')"
proof -
  obtain n1 r1 where o1: "set_nonblock (sockets env) True cfd (socks l) = (n1, r1)" by fastforce
  let ?n1 = "if r1 \<noteq> 0 then sys_close cfd n1 else n1"
  obtain n2 r2 where o2: "set_tcp_nodelay (sockets env) True cfd 1 ?n1 = (n2, r2)" by fastforce
  let ?n = "if r2 \<noteq> 0 then sys_close cfd n2 else n2"
  have so: "same_open sfd (socks l) ?n"
    using same_open_trans [OF same_open_close [OF cfd set_nonblock_same [OF o1]] same_open_close [OF cfd set_nodelay_same [OF o2]]]
    by simp
  let ?p = "calloc env (requests l + 1) (conns l)"
  let ?l = "l\<lparr>socks := m\<rparr>"
  have "dom (map_option chain \<circ> conns l) = dom (conns l)" by (auto simp: domIff)
  moreover have "finite (dom (map_option chain \<circ> conns l))"
    using inv by (auto simp: echo_inv_def chains_inv_def family_def)
  ultimately have p: "fresh (conns ?l) ?p" using io by (simp add: io_ok_def)
  have n': "finite (dom (fds ?n))" "fds ?n sfd \<noteq> None" using so n by (simp_all add: same_open_def)
  obtain s q where g: "buffer_pool_get (balloc env) (junk env) (bmem l) = Some (s, q)"
      "echo_inv watching limit sfd (?l\<lparr>socks := ?n, requests := requests l + 2, bmem := s,
         conns := (conns ?l)(?p \<mapsto> \<lparr>eof = 0, writing = 0, total = 0, chain = new_chain q\<rparr>)\<rparr>)"
      "stored (new_chain q) s = []" "unused ?l sfd ?p"
    using echo_add [OF inv io p n', of "requests l + 2"] by auto
  let ?c = "\<lparr>eof = 0, writing = 0, total = 0, chain = new_chain q\<rparr>"
  define l1 where "l1 = l\<lparr>socks := ?n, requests := requests l + 2, bmem := s, conns := (conns l)(?p \<mapsto> ?c)\<rparr>"
  have l1': "l1 = l\<lparr>socks := ?n, bmem := s, requests := requests l + 2, conns := (conns l)(?p \<mapsto> ?c)\<rparr>"
    by (simp add: l1_def)
  have i1: "echo_inv watching limit sfd l1" using g(2) by (simp add: l1_def)
  have s1: "synced watching limit l1" using i1 by (simp add: echo_inv_def)
  have "event_at l1 = event_at ?l" by (rule event_at_events) (simp add: l1_def)
  then have un: "unused l1 sfd ?p" using g(4) by (simp add: unused_def served_def)
  have np: "?p \<noteq> NULL" "has_pool l" "chain_served env (requests l)"
    using p inv io by (simp_all add: fresh_def echo_inv_def io_ok_def)
  have nz: "READ_CB \<noteq> 0" "EV_RDABLE \<noteq> EV_NONE" by (simp_all add: READ_CB_def EV_RDABLE_def EV_NONE_def)
  obtain l2 r where c: "create_event addevent l1 cfd EV_RDABLE READ_CB ?p = Some (l2, r)" "synced watching limit l2"
      "reg_frame l1 l2" "r = 0 \<and> 1 \<le> cfd \<and> cfd < setsize l1 \<and> masks l2 = (masks l1)(cfd := masks l1 cfd OR EV_RDABLE)
         \<and> event_at l2 = (event_at l1)(cfd := map_option (entry_after EV_RDABLE READ_CB ?p) (event_at l1 cfd))
       \<or> r = -1 \<and> events l2 = events l1"
    using create_ok [OF s1 nz, of cfd ?p] by blast
  have res: "accept_client env addevent cfd l = Some l2"
    using o1 o2 g(1) c(1) [unfolded l1'] np by (simp add: accept_client_def Let_def new_chain_def)
  have "echo_inv watching limit sfd l2"
  proof (cases "r = 0")
    case True
    then have fd: "1 \<le> cfd" "cfd < setsize l1" using c(4) by simp_all
    have "loop_ok l1" using s1 by (simp add: synced_def)
    then obtain e where e: "event_at l1 cfd = Some e" using event_at_ok(1) [of l1 cfd] fd by fastforce
    have "event_at l2 = (event_at l1)(cfd \<mapsto> entry_after EV_RDABLE READ_CB ?p e)" using c(4) True e by simp
    then show ?thesis using fd e g(3)
      by (intro echo_register [OF i1 un cfd _ _ _ c(2,3)]) (simp_all add: l1_def)
  next
    case False
    then have ev: "events l2 = events l1" using c(4) by simp
    show ?thesis by (rule echo_inv_cong [OF i1 ev c(2)]) (use reg_frame_echo [OF c(3)] in simp_all)
  qed
  moreover have "loop_frame l l1" by (simp add: loop_frame_def l1_def)
  then have "loop_frame l l2" using reg_frame_echo [OF c(3)] loop_frame_trans by blast
  moreover have "same_open sfd (socks l) (socks l2)" using so reg_frame_echo [OF c(3)] by (simp add: l1_def)
  ultimately show ?thesis using res by blast
qed

end

lemma accept_result:
  assumes "newfd_ok env" and "finite (dom (fds n))" and "tcp_accept env sfd ip len port n = (n', cfd, ip', port')"
  shows "accepts n' = accepts n + 1 \<and> (cfd = -1 \<and> dom (fds n') = dom (fds n)
    \<or> 0 \<le> cfd \<and> refuses env (accepts n) = None \<and> fds n cfd = None \<and> dom (fds n') = insert cfd (dom (fds n)))"
proof -
  have new: "0 \<le> newfd env j (fds n)" "fds n (newfd env j (fds n)) = None" for j
    using assms(1,2) by (simp_all add: newfd_ok_def)
  obtain sa where "sys_accept env sfd n = (n', cfd, sa)"
    using assms(3) by (auto simp: tcp_accept_def split: prod.splits if_splits)
  then show ?thesis using new by (auto simp: sys_accept_def Let_def split: if_splits option.splits)
qed

lemma echo_socks:
  assumes "echo_inv watching limit sfd l" and "finite (dom (fds n))" and "fds n sfd \<noteq> None"
  shows "echo_inv watching limit sfd (l\<lparr>socks := n\<rparr>)"
proof -
  have "event_at (l\<lparr>socks := n\<rparr>) = event_at l" by (rule event_at_events) simp
  then have "served (l\<lparr>socks := n\<rparr>) d x = served l d x" for d x by (simp add: served_def)
  moreover have "synced watching limit (l\<lparr>socks := n\<rparr>) = synced watching limit l" by (rule synced_cong) simp_all
  ultimately show ?thesis using assms unfolding echo_inv_def by (simp add: entry_served_def)
qed

text \<open>A registered callback is one of the three, and the data of a connection are a live connection.\<close>

lemma registered_typed:
  assumes inv: "echo_inv watching limit sfd l" and cb: "registered l cb fd data"
  obtains e where "served l fd e" and "evdata e = data" and "fd = sfd \<Longrightarrow> cb = ACCEPT_CB"
    and "fd \<noteq> sfd \<Longrightarrow> (cb = READ_CB \<or> cb = WRITE_CB) \<and> (\<exists>conn. load (conns l) data = Some conn)"
proof -
  obtain e where e: "event_at l fd = Some e" "evdata e = data"
      "evmask e AND EV_RDABLE \<noteq> 0 \<and> evread e = cb \<or> evmask e AND EV_WRABLE \<noteq> 0 \<and> evwrite e = cb"
    using cb by (auto simp: registered_def split: option.splits)
  have s: "served l fd e" using e(1,3) by (auto simp: served_def EV_NONE_def)
  have es: "entry_served l sfd fd e" using inv s by (simp add: echo_inv_def)
  have "cb = ACCEPT_CB" if "fd = sfd" using that es e(3) event_bits(4) by (auto simp: entry_served_def)
  moreover have "(cb = READ_CB \<or> cb = WRITE_CB) \<and> (\<exists>conn. load (conns l) data = Some conn)" if ns: "fd \<noteq> sfd"
  proof -
    obtain conn where c: "conns l (evdata e) = Some conn" "conn_ok (bmem l) e conn"
      using es ns by (auto simp: entry_served_def)
    then have "data \<noteq> NULL" using inv e(2) by (auto simp: echo_inv_def)
    then show ?thesis using c e(2,3) load_Some [of data "conns l"] by (auto simp: conn_ok_def)
  qed
  ultimately show thesis using that [OF s e(2)] by blast
qed

context echo_server
begin

lemma accept_loop_ok:
  assumes io: "io_ok env" and stop: "refuses (sockets env) k \<noteq> None"
    and "echo_inv watching limit sfd l" and "accepts (socks l) \<le> k"
  shows "\<exists>l'. accept_loop env addevent sfd l = Some l' \<and> echo_inv watching limit sfd l' \<and> loop_frame l l'"
  using assms(3,4)
proof (induction "k - accepts (socks l)" arbitrary: l rule: less_induct)
  case less
  obtain n cfd ip port where a: "tcp_accept (sockets env) sfd (Some []) 256 (Some 0) (socks l) = (n, cfd, ip, port)"
    using prod_cases4 by blast
  have s: "finite (dom (fds (socks l)))" "fds (socks l) sfd \<noteq> None" using less.prems(1) by (simp_all add: echo_inv_def)
  have "newfd_ok (sockets env)" using io by (simp add: io_ok_def)
  note r = accept_result [OF this s(1) a]
  show ?case
  proof (cases "cfd < 0")
    case True
    then have dom: "dom (fds n) = dom (fds (socks l))" using r by auto
    then have "finite (dom (fds n))" "fds n sfd \<noteq> None" using s by (simp, metis domIff)
    then have "echo_inv watching limit sfd (l\<lparr>socks := n\<rparr>)" by (rule echo_socks [OF less.prems(1)])
    moreover have "accept_loop env addevent sfd l = Some (l\<lparr>socks := n\<rparr>)"
      using a True by (simp add: accept_loop.simps)
    ultimately show ?thesis by (simp add: loop_frame_def)
  next
    case False
    then have c: "refuses (sockets env) (accepts (socks l)) = None" "fds (socks l) cfd = None"
        "dom (fds n) = insert cfd (dom (fds (socks l)))" "accepts n = accepts (socks l) + 1" using r by auto
    have ne: "cfd \<noteq> sfd" using c(2) s(2) by metis
    have n: "finite (dom (fds n))" "fds n sfd \<noteq> None" using c(3) s by (simp, metis domIff insertI2)
    have "l\<lparr>socks := n, socks := socks l\<rparr> = l" by simp
    then have inv: "echo_inv watching limit sfd ((l\<lparr>socks := n\<rparr>)\<lparr>socks := socks l\<rparr>)" using less.prems(1) by simp
    obtain l1 where l1: "accept_client env addevent cfd (l\<lparr>socks := n\<rparr>) = Some l1" "echo_inv watching limit sfd l1"
        "loop_frame (l\<lparr>socks := n\<rparr>) l1" "same_open sfd n (socks l1)"
      using client_ok [OF io inv ne] n by auto
    have "accepts (socks l) \<noteq> k" using stop c(1) by auto
    then have "k - accepts (socks l1) < k - accepts (socks l)" "accepts (socks l1) \<le> k"
      using l1(4) c(4) less.prems(2) by (simp_all add: same_open_def)
    then obtain l' where l': "accept_loop env addevent sfd l1 = Some l'" "echo_inv watching limit sfd l'" "loop_frame l1 l'"
      using less.hyps [of l1] l1(2) by blast
    have "loop_frame l l1" using l1(3) by (simp add: loop_frame_def)
    then show ?thesis using l' loop_frame_trans a False l1(1) by (auto simp: accept_loop.simps)
  qed
qed

lemma accept_ok:
  assumes "io_ok env" and inv: "echo_inv watching limit sfd l"
  shows "\<exists>l'. server_accept_cb env addevent l sfd data = Some l' \<and> echo_inv watching limit sfd l' \<and> loop_frame l l'"
proof -
  obtain k where k: "accepts (socks l) \<le> k" "refuses (sockets env) k \<noteq> None"
    using assms(1) unfolding io_ok_def by blast
  then show ?thesis using accept_loop_ok [OF assms(1) k(2) inv k(1)] by (simp add: server_accept_cb_def)
qed

text \<open>Whatever callback is registered for a descriptor returns, and the invariant holds afterwards.\<close>

lemma fire_ok:
  assumes io: "io_ok env" and inv: "echo_inv watching limit sfd l" and cb: "registered l cb fd data"
  shows "\<exists>l'. echo_fire env addevent delevent cb l fd data = Some l' \<and> echo_inv watching limit sfd l' \<and> loop_frame l l'"
proof -
  obtain e where e: "served l fd e" "evdata e = data" "fd = sfd \<Longrightarrow> cb = ACCEPT_CB"
      "fd \<noteq> sfd \<Longrightarrow> (cb = READ_CB \<or> cb = WRITE_CB) \<and> (\<exists>conn. load (conns l) data = Some conn)"
    using registered_typed [OF inv cb] by blast
  show ?thesis
  proof (cases "fd = sfd")
    case True
    then show ?thesis using accept_ok [OF io inv, of data] e(3) by (simp add: echo_fire_def)
  next
    case False
    then show ?thesis using readcb_ok [OF io inv e(1) False] writecb_ok [OF io inv e(1) False] e(2,4)
      by (auto simp: echo_fire_def ACCEPT_CB_def READ_CB_def WRITE_CB_def)
  qed
qed

end

section \<open>Data lost at the end of a stream\<close>

context echo_server
begin

lemma eof_drops:
  assumes io: "io_ok env" and inv: "echo_inv watching limit sfd l" and e: "served l fd e" "fd \<noteq> sfd"
    and conn: "conns l (evdata e) = Some conn" "total conn = 0"
    and rcv: "buffer_chain_recv (readv env) (balloc env) (junk env) (chain conn) (bmem l) = Some (c, s, 0)"
  shows "\<exists>l' conn' bs. client_readcb env addevent delevent l fd (evdata e) = Some l' \<and> conns l' (evdata e) = Some conn'
    \<and> cin (chain conn') = cin (chain conn) @ bs \<and> cout (chain conn') = cout (chain conn) \<and> recv c = of_nat (length bs)
    \<and> fds (socks l') fd = None \<and> (\<forall>x. \<not> served l' fd x)"
proof -
  have o: "evdata e \<noteq> NULL" "synced watching limit l" "chains_inv (map_option chain \<circ> conns l) (bmem l)"
    using inv conn by (auto simp: echo_inv_def)
  let ?p = "evdata e"
  obtain bs where r: "chains_inv ((map_option chain \<circ> conns l)(?p \<mapsto> c)) s" "recv c = of_nat (length bs)"
      "cin c = cin (chain conn) @ bs" "cout c = cout (chain conn)"
      "\<forall>q d. q \<noteq> ?p \<longrightarrow> conns l q = Some d \<longrightarrow> stored (chain d) s = stored (chain d) (bmem l)"
    using recv_conn [OF io o(3) conn(1)] rcv by (simp only: option.inject prod.inject) blast
  let ?c1 = "conn\<lparr>chain := c\<rparr>"
  let ?l1 = "l\<lparr>bmem := s, conns := (conns l)(?p \<mapsto> ?c1)\<rparr>"
  have t: "touched l ?p ?c1 ?l1" using r(1,5) by (intro touchI) simp_all
  have ld: "load (conns l) ?p = Some conn" using load_Some [of ?p "conns l"] conn(1) o(1) by simp
  have "set_conn (l\<lparr>bmem := s\<rparr>) ?p ?c1 = Some ?l1" using set_conn_eq [of ?p "l\<lparr>bmem := s\<rparr>" conn ?c1] conn(1) o(1) by simp
  then have body: "client_readcb env addevent delevent l fd ?p = drop_client delevent ?l1 fd"
    using ld rcv conn(2) by (simp add: client_readcb_def Let_def)
  obtain l' where l': "drop_client delevent ?l1 fd = Some l'" "conns l' = conns ?l1" "fds (socks l') fd = None"
      "\<forall>x. \<not> served l' fd x"
    using drop_result [OF inv e t synced_touch(1) [OF o(2)]] by blast
  then have "conns l' ?p = Some ?c1" by simp
  then show ?thesis using body l'(1,3,4) r(2-4) by (intro exI [of _ l'] exI [of _ ?c1] exI [of _ bs]) simp
qed

end

end
