(* ===== verification/Min_Queue.thy ===== *)
theory Min_Queue
  imports Prelude
begin

text \<open>
  The contracts between the timer heap and the loop that fires timers, both in \<^verbatim>\<open>kznet/timer.c\<close>.
  \<open>min_queue\<close> is what the loop needs of the heap: a collection of elements with keys, of which it can
  look at a smallest one. \<open>timed_queue\<close> adds one turn for an element that is due: its callback is asked,
  and the element is removed, or gets a new key, the time after the call plus the interval asked for.
  \<open>fires\<close> is the meaning of the whole loop on the table of keys alone, and \<open>paced\<close> what the clock must do
  for the loop to end: an element that asks for a further call can be due again before the loop is done
  with the others.
\<close>

section \<open>The loop on a table of keys\<close>

definition agenda :: "ptr set \<Rightarrow> (ptr \<Rightarrow> int) \<Rightarrow> ptr \<rightharpoonup> int" where
  "agenda E key = (\<lambda>p. if p \<in> E then Some (key p) else None)"

lemma agenda_simps [simp]:
  "agenda E key p = Some x \<longleftrightarrow> p \<in> E \<and> x = key p" "agenda E key p = None \<longleftrightarrow> p \<notin> E"
  "agenda E key = Map.empty \<longleftrightarrow> E = {}"
  by (auto simp: agenda_def fun_eq_iff)

text \<open>
  \<open>fires rd ans K k i ps K' k'\<close>: with the keys \<open>K\<close>, \<open>k\<close> readings of the clock and \<open>i\<close> calls of callbacks
  made, the callbacks of \<open>ps\<close> are called in this order, which leaves the keys \<open>K'\<close> after \<open>k'\<close> readings.
  \<open>rd k\<close> is reading \<open>k\<close>, \<open>ans i p\<close> what the callback of \<open>p\<close> returns if it is called as number \<open>i\<close>.
\<close>

definition least_due :: "(ptr \<rightharpoonup> int) \<Rightarrow> int \<Rightarrow> ptr \<Rightarrow> bool" where
  "least_due K now p \<longleftrightarrow> (\<exists>x. K p = Some x \<and> x \<le> now \<and> (\<forall>q y. K q = Some y \<longrightarrow> x \<le> y))"

inductive fires :: "(nat \<Rightarrow> int) \<Rightarrow> (nat \<Rightarrow> ptr \<Rightarrow> int) \<Rightarrow> (ptr \<rightharpoonup> int) \<Rightarrow> nat \<Rightarrow> nat \<Rightarrow> ptr list \<Rightarrow> (ptr \<rightharpoonup> int) \<Rightarrow> nat \<Rightarrow> bool"
  for rd ans where
  empty: "fires rd ans Map.empty k i [] Map.empty k"
| early: "K \<noteq> Map.empty \<Longrightarrow> \<forall>q y. K q = Some y \<longrightarrow> rd k < y \<Longrightarrow> fires rd ans K k i [] K (Suc k)"
| last: "least_due K (rd k) p \<Longrightarrow> ans (Suc i) p \<le> 0 \<Longrightarrow> fires rd ans (K(p := None)) (k + 1) (Suc i) ps K' k'
    \<Longrightarrow> fires rd ans K k i (p # ps) K' k'"
| again: "least_due K (rd k) p \<Longrightarrow> 0 < ans (Suc i) p
    \<Longrightarrow> fires rd ans (K(p \<mapsto> rd (k + 1) + ans (Suc i) p)) (k + 2) (Suc i) ps K' k'
    \<Longrightarrow> fires rd ans K k i (p # ps) K' k'"

text \<open>
  What the loop has not touched is as before, nothing is due at its last reading, and whatever it
  has touched was due at one of its readings.
\<close>

lemma fires_others: "fires rd ans K k i ps K' k' \<Longrightarrow> q \<notin> set ps \<Longrightarrow> K' q = K q"
  by (induction rule: fires.induct) auto

lemma fires_dom: "fires rd ans K k i ps K' k' \<Longrightarrow> dom K' \<subseteq> dom K \<and> set ps \<subseteq> dom K"
  by (induction rule: fires.induct) (auto simp: least_due_def split: if_splits)

lemma fires_kept: "fires rd ans K k i ps K' k' \<Longrightarrow> \<forall>i p. 0 < ans i p \<Longrightarrow> dom K' = dom K"
  by (induction rule: fires.induct) (auto simp: least_due_def not_le [symmetric])

lemma fires_rest: "fires rd ans K k i ps K' k' \<Longrightarrow> K' q = Some y \<Longrightarrow> rd (k' - 1) < y"
  by (induction rule: fires.induct) auto

lemma fires_ticks: "fires rd ans K k i ps K' k' \<Longrightarrow> k + length ps \<le> k'"
  by (induction rule: fires.induct) auto

lemma fires_due:
  "fires rd ans K k i ps K' k' \<Longrightarrow> q \<in> set ps \<Longrightarrow> \<exists>j x. k \<le> j \<and> j < k' \<and> K q = Some x \<and> x \<le> rd j"
proof (induction rule: fires.induct)
  case (last K k p i ps K' k')
  show ?case
  proof (cases "q = p")
    case True
    then show ?thesis using last(1) fires_ticks [OF last(3)] by (auto simp: least_due_def)
  next
    case False
    then show ?thesis using last(4,5) by (auto intro: Suc_leD)
  qed
next
  case (again K k p i ps K' k')
  show ?case
  proof (cases "q = p")
    case True
    then show ?thesis using again(1) fires_ticks [OF again(3)] by (auto simp: least_due_def)
  next
    case False
    then obtain j x where "k + 2 \<le> j" "j < k'" "K q = Some x" "x \<le> rd j" using again(4,5) by auto
    then show ?thesis by (intro exI [of _ j] exI [of _ x]) simp
  qed
qed auto

text \<open>
  Again and again, \<open>2 n + 2\<close> readings of the clock in a row lie within each of the intervals \<open>R\<close>: with \<open>n\<close>
  timers there is time for a round of the loop. Nothing is asked when no interval is positive.
\<close>

definition paced :: "nat \<Rightarrow> int set \<Rightarrow> (nat \<Rightarrow> int) \<Rightarrow> bool" where
  "paced n R rd \<longleftrightarrow> (\<forall>k. \<exists>j \<ge> k. \<forall>r \<in> R. \<forall>i i'. j \<le> i \<and> i < i' \<and> i' \<le> j + 2 * n + 1 \<longrightarrow> rd i' < rd i + r)"

lemma paced_none [simp]: "paced n {} rd"
  by (auto simp: paced_def)

lemma paced_le: "paced n R rd \<Longrightarrow> m \<le> n \<Longrightarrow> S \<subseteq> R \<Longrightarrow> paced m S rd"
  unfolding paced_def by (meson add_le_mono1 add_left_mono mult_le_mono2 order_trans subsetD)

section \<open>The contracts\<close>

fun drain :: "('s \<Rightarrow> ptr option) \<Rightarrow> ('s \<Rightarrow> ptr \<Rightarrow> int) \<Rightarrow> ('s \<Rightarrow> ptr \<Rightarrow> 's option) \<Rightarrow> ('s \<Rightarrow> int) \<Rightarrow>
    nat \<Rightarrow> 's \<Rightarrow> ('s \<times> ptr list) option" where
  "drain peek key step time 0 s = None"
| "drain peek key step time (Suc n) s = do {
     p \<leftarrow> peek s;
     if p = NULL \<or> time s < key s p then Some (s, [])
     else do {
       s' \<leftarrow> step s p;
       (s'', ps) \<leftarrow> drain peek key step time n s';
       Some (s'', p # ps)
     }
   }"

locale min_queue =
  fixes invar :: "'s \<Rightarrow> bool"
    and elems :: "'s \<Rightarrow> ptr set"
    and key :: "'s \<Rightarrow> ptr \<Rightarrow> int"
    and peek :: "'s \<Rightarrow> ptr option"
  assumes finite_law: "invar s \<Longrightarrow> finite (elems s) \<and> NULL \<notin> elems s"
    and peek_law: "invar s \<Longrightarrow>
      \<exists>p. peek s = Some p \<and> (if elems s = {} then p = NULL else p \<in> elems s \<and> (\<forall>q \<in> elems s. key s p \<le> key s q))"
begin

lemma peek_cases:
  assumes "invar s"
  obtains "peek s = Some NULL" and "elems s = {}"
  | p where "peek s = Some p" and "p \<noteq> NULL" and "p \<in> elems s" and "now < key s p"
      and "\<forall>q \<in> elems s. now < key s q"
  | p where "peek s = Some p" and "p \<noteq> NULL" and "p \<in> elems s" and "key s p \<le> now"
      and "least_due (agenda (elems s) (key s)) now p"
proof -
  obtain p where p: "peek s = Some p"
      "if elems s = {} then p = NULL else p \<in> elems s \<and> (\<forall>q \<in> elems s. key s p \<le> key s q)"
    using peek_law [OF assms] by blast
  show thesis
  proof (cases "elems s = {}")
    case True
    then show ?thesis using p that(1) by simp
  next
    case False
    then have mem: "p \<in> elems s" "p \<noteq> NULL" and least: "\<forall>q \<in> elems s. key s p \<le> key s q"
      using p(2) finite_law [OF assms] by auto
    show ?thesis
    proof (cases "now < key s p")
      case True
      then show ?thesis using that(2) [OF p(1)] mem least by (meson less_le_trans)
    next
      case False
      then show ?thesis using that(3) [OF p(1)] mem least by (auto simp: least_due_def)
    qed
  qed
qed

end

locale timed_queue = min_queue +
  fixes step :: "'a \<Rightarrow> ptr \<Rightarrow> 'a option"
    and tick :: "'a \<Rightarrow> nat"
    and cnt :: "'a \<Rightarrow> nat"
    and rd :: "nat \<Rightarrow> int"
    and ans :: "nat \<Rightarrow> ptr \<Rightarrow> int"
    and R :: "int set"
  assumes step_law: "invar s \<Longrightarrow> peek s = Some p \<Longrightarrow> p \<in> elems s \<Longrightarrow> key s p \<le> rd (tick s) \<Longrightarrow>
      \<exists>s'. step s p = Some s' \<and> invar s' \<and> cnt s' = Suc (cnt s)
        \<and> (if ans (Suc (cnt s)) p \<le> 0
            then agenda (elems s') (key s') = (agenda (elems s) (key s))(p := None) \<and> tick s' = tick s + 1
            else agenda (elems s') (key s') = (agenda (elems s) (key s))(p \<mapsto> rd (tick s + 1) + ans (Suc (cnt s)) p)
              \<and> tick s' = tick s + 2 \<and> ans (Suc (cnt s)) p \<in> R)"
begin

abbreviation run :: "nat \<Rightarrow> 'a \<Rightarrow> ('a \<times> ptr list) option" where
  "run \<equiv> drain peek key step (\<lambda>s. rd (tick s))"

text \<open>One step, by what the callback returns.\<close>

lemma step_cases:
  assumes "invar s" and "peek s = Some p" and "p \<in> elems s" and "key s p \<le> rd (tick s)"
  obtains s' where "step s p = Some s'" and "invar s'" and "cnt s' = Suc (cnt s)" and "ans (Suc (cnt s)) p \<le> 0"
      and "tick s' = tick s + 1" and "elems s' = elems s - {p}" and "\<forall>q \<in> elems s'. key s' q = key s q"
      and "agenda (elems s') (key s') = (agenda (elems s) (key s))(p := None)"
  | s' where "step s p = Some s'" and "invar s'" and "cnt s' = Suc (cnt s)" and "0 < ans (Suc (cnt s)) p"
      and "ans (Suc (cnt s)) p \<in> R" and "tick s' = tick s + 2" and "elems s' = elems s"
      and "\<forall>q \<in> elems s'. key s' q = (if q = p then rd (tick s + 1) + ans (Suc (cnt s)) p else key s q)"
      and "agenda (elems s') (key s') = (agenda (elems s) (key s))(p \<mapsto> rd (tick s + 1) + ans (Suc (cnt s)) p)"
proof -
  obtain s' where s': "step s p = Some s'" "invar s'" "cnt s' = Suc (cnt s)"
      "if ans (Suc (cnt s)) p \<le> 0
        then agenda (elems s') (key s') = (agenda (elems s) (key s))(p := None) \<and> tick s' = tick s + 1
        else agenda (elems s') (key s') = (agenda (elems s) (key s))(p \<mapsto> rd (tick s + 1) + ans (Suc (cnt s)) p)
          \<and> tick s' = tick s + 2 \<and> ans (Suc (cnt s)) p \<in> R"
    using step_law [OF assms] by blast
  have get: "(agenda (elems s') (key s')) q = Some y \<longleftrightarrow> q \<in> elems s' \<and> y = key s' q" for q y by simp
  show thesis
  proof (cases "ans (Suc (cnt s)) p \<le> 0")
    case True
    then have a: "agenda (elems s') (key s') = (agenda (elems s) (key s))(p := None)" "tick s' = tick s + 1"
      using s'(4) by simp_all
    have "elems s' = dom (agenda (elems s') (key s'))" by (auto simp: dom_def)
    also have "\<dots> = elems s - {p}" unfolding a(1) by (auto simp: dom_def split: if_splits)
    finally have e: "elems s' = elems s - {p}" .
    have "key s' q = key s q" if "q \<in> elems s'" for q
      using get [of q "key s' q"] that e unfolding a(1) by simp
    then show ?thesis using that(1) s'(1-3) True a e by blast
  next
    case False
    then have a: "agenda (elems s') (key s') = (agenda (elems s) (key s))(p \<mapsto> rd (tick s + 1) + ans (Suc (cnt s)) p)"
        "tick s' = tick s + 2" "ans (Suc (cnt s)) p \<in> R" "0 < ans (Suc (cnt s)) p"
      using s'(4) by simp_all
    have "elems s' = dom (agenda (elems s') (key s'))" by (auto simp: dom_def)
    also have "\<dots> = elems s" unfolding a(1) using assms(3) by (auto simp: dom_def split: if_splits)
    finally have e: "elems s' = elems s" .
    have "key s' q = (if q = p then rd (tick s + 1) + ans (Suc (cnt s)) p else key s q)" if "q \<in> elems s'" for q
      using get [of q "key s' q"] that e unfolding a(1) by (simp split: if_splits)
    then show ?thesis using that(2) s'(1-3) a e by blast
  qed
qed

text \<open>The loop, as far as it is run, is the one on the table of keys.\<close>

lemma run_fires:
  "run n s = Some (s', ps) \<Longrightarrow> invar s \<Longrightarrow>
    invar s' \<and> cnt s' = cnt s + length ps
    \<and> fires rd ans (agenda (elems s) (key s)) (tick s) (cnt s) ps (agenda (elems s') (key s'))
        (if elems s' = {} then tick s' else Suc (tick s'))"
proof (induction n arbitrary: s ps)
  case 0
  then show ?case by simp
next
  case (Suc n)
  show ?case
  proof (cases rule: peek_cases [OF Suc.prems(2), where now = "rd (tick s)"])
    case 1
    then show ?thesis using Suc.prems fires.empty [of rd ans "tick s" "cnt s"]
      by (auto simp: agenda_def [of "{}"])
  next
    case (2 p)
    have "elems s \<noteq> {}" using 2(3) by blast
    then show ?thesis using 2 Suc.prems by (auto intro!: fires.early)
  next
    case (3 p)
    show ?thesis
    proof (cases rule: step_cases [OF Suc.prems(2) 3(1,3,4)])
      case (1 s1)
      then obtain qs where qs: "run n s1 = Some (s', qs)" "ps = p # qs"
        using Suc.prems(1) 3(1,2,4) by (auto simp: bind_eq_Some_conv)
      then show ?thesis using Suc.IH [OF qs(1) 1(2)] 1(3-5) fires.last [of _ rd "tick s", OF 3(5), of ans "cnt s"]
        unfolding 1(8) by (simp del: fun_upd_apply)
    next
      case (2 s1)
      then obtain qs where qs: "run n s1 = Some (s', qs)" "ps = p # qs"
        using Suc.prems(1) 3(1,2,4) by (auto simp: bind_eq_Some_conv)
      then show ?thesis using Suc.IH [OF qs(1) 2(2)] 2(3-6) fires.again [of _ rd "tick s", OF 3(5), of ans "cnt s"]
        unfolding 2(9) by (simp del: fun_upd_apply)
    qed
  qed
qed

text \<open>
  The loop ends. \<open>j\<close> begins a stretch of readings close together; \<open>U\<close> are the elements not called since
  then, and each of the others has a key behind that stretch.
\<close>

lemma run_ends_late:
  assumes "invar s" and "j \<le> tick s" and "finite U" and "tick s + 2 * card U \<le> j + 2 * n + 1"
    and close: "\<forall>r \<in> R. \<forall>i i'. j \<le> i \<and> i < i' \<and> i' \<le> j + 2 * n + 1 \<longrightarrow> rd i' < rd i + r"
    and "\<forall>p \<in> elems s - U. \<forall>i. tick s \<le> i \<and> i \<le> j + 2 * n + 1 \<longrightarrow> rd i < key s p"
  shows "\<exists>m s' ps. run m s = Some (s', ps)"
  using assms(1-4,6)
proof (induction "card U" arbitrary: s U rule: less_induct)
  case less
  show ?case
  proof (cases rule: peek_cases [OF less.prems(1), where now = "rd (tick s)"])
    case 1
    then have "run 1 s = Some (s, [])" by simp
    then show ?thesis by blast
  next
    case (2 p)
    then have "run 1 s = Some (s, [])" by simp
    then show ?thesis by blast
  next
    case (3 p)
    have old: "rd i < key s q" if "q \<in> elems s" "q \<notin> U" "tick s \<le> i" "i \<le> j + 2 * n + 1" for q i
      using less.prems(5) that by blast
    have "p \<in> U"
    proof (rule ccontr)
      assume "p \<notin> U"
      then have "rd (tick s) < key s p" using less.prems(4,5) 3(3) by simp
      then show False using 3(4) by simp
    qed
    then have card: "card U = Suc (card (U - {p}))" by (rule card.remove [OF less.prems(3)])
    have "\<exists>s1. step s p = Some s1 \<and> (\<exists>m s' ps. run m s1 = Some (s', ps))"
    proof (cases rule: step_cases [OF less.prems(1) 3(1,3,4)])
      case (1 s1)
      have "\<exists>m s' ps. run m s1 = Some (s', ps)"
      proof (rule less.hyps [OF _ 1(2)])
        show "card (U - {p}) < card U" "finite (U - {p})" "j \<le> tick s1" using card less.prems(2,3) 1(5) by simp_all
        show "tick s1 + 2 * card (U - {p}) \<le> j + 2 * n + 1" using card less.prems(4) 1(5) by simp
        show "\<forall>q \<in> elems s1 - (U - {p}). \<forall>i. tick s1 \<le> i \<and> i \<le> j + 2 * n + 1 \<longrightarrow> rd i < key s1 q"
          using 1(5-7) by (auto intro!: old)
      qed
      then show ?thesis using 1(1) by blast
    next
      case (2 s1)
      have "rd i < rd (tick s + 1) + ans (Suc (cnt s)) p" if "tick s1 \<le> i" "i \<le> j + 2 * n + 1" for i
        using close that 2(5,6) less.prems(2) by simp
      then have new: "\<forall>q \<in> elems s1 - (U - {p}). \<forall>i. tick s1 \<le> i \<and> i \<le> j + 2 * n + 1 \<longrightarrow> rd i < key s1 q"
        using 2(6-8) by (auto intro!: old)
      have "\<exists>m s' ps. run m s1 = Some (s', ps)"
      proof (rule less.hyps [OF _ 2(2) _ _ _ new])
        show "card (U - {p}) < card U" "finite (U - {p})" "j \<le> tick s1" using card less.prems(2,3) 2(6) by simp_all
        show "tick s1 + 2 * card (U - {p}) \<le> j + 2 * n + 1" using card less.prems(4) 2(6) by simp
      qed
      then show ?thesis using 2(1) by blast
    qed
    then obtain s1 m s' ps where "step s p = Some s1" "run m s1 = Some (s', ps)" by blast
    then have "run (Suc m) s = Some (s', p # ps)" using 3(1,2,4) by simp
    then show ?thesis by blast
  qed
qed

lemma run_ends:
  assumes "invar s" and "card (elems s) \<le> n" and "paced n R rd"
  shows "\<exists>m s' ps. run m s = Some (s', ps)"
proof -
  obtain j where j: "tick s \<le> j"
      "\<forall>r \<in> R. \<forall>i i'. j \<le> i \<and> i < i' \<and> i' \<le> j + 2 * n + 1 \<longrightarrow> rd i' < rd i + r"
    using assms(3) unfolding paced_def by blast
  then have "tick s \<le> j + 1" by simp
  with assms(1,2) show ?thesis
  proof (induction "j + 1 - tick s" arbitrary: s rule: less_induct)
    case less
    show ?case
    proof (cases "j \<le> tick s")
      case True
      have "finite (elems s)" using finite_law [OF less.prems(1)] by simp
      then show ?thesis using run_ends_late [OF less.prems(1) True _ _ j(2)] less.prems(2,3) by force
    next
      case early: False
      show ?thesis
      proof (cases rule: peek_cases [OF less.prems(1), where now = "rd (tick s)"])
        case 1
        then have "run 1 s = Some (s, [])" by simp
        then show ?thesis by blast
      next
        case (2 p)
        then have "run 1 s = Some (s, [])" by simp
        then show ?thesis by blast
      next
        case (3 p)
        have fin: "finite (elems s)" using finite_law [OF less.prems(1)] by simp
        have "\<exists>s1. step s p = Some s1 \<and> (\<exists>m s' ps. run m s1 = Some (s', ps))"
        proof (cases rule: step_cases [OF less.prems(1) 3(1,3,4)])
          case (1 s1)
          have "card (elems s1) \<le> n" using 1(6) fin less.prems(2) card_Diff1_le [of "elems s" p] by simp
          then have "\<exists>m s' ps. run m s1 = Some (s', ps)"
            using early 1(2,5) by (intro less.hyps) auto
          then show ?thesis using 1(1) by blast
        next
          case (2 s1)
          then have "\<exists>m s' ps. run m s1 = Some (s', ps)"
            using early less.prems(2) by (intro less.hyps) auto
          then show ?thesis using 2(1) by blast
        qed
        then obtain s1 m s' ps where "step s p = Some s1" "run m s1 = Some (s', ps)" by blast
        then have "run (Suc m) s = Some (s', p # ps)" using 3(1,2,4) by simp
        then show ?thesis by blast
      qed
    qed
  qed
qed

end

end
