(* ===== verification/Timer_Loop.thy ===== *)
theory Timer_Loop
  imports Timer Min_Queue
begin

text \<open>
  The timer operations of \<^verbatim>\<open>kznet/timer.c\<close> that a client and the event loop call: creation and
  deletion with the pool of structures, the time to the next timer, and the loop that fires timers.
  \<open>timers_inv s n ps\<close> is the invariant: \<open>n\<close> timers in the heap, the structures \<open>ps\<close> in the pool, in
  the order in which they will be reused.
\<close>

fun pool_chain :: "(ptr \<rightharpoonup> timer) \<Rightarrow> ptr \<Rightarrow> ptr list \<Rightarrow> bool" where
  "pool_chain m p [] \<longleftrightarrow> p = NULL"
| "pool_chain m p (q # qs) \<longleftrightarrow> p = q \<and> q \<noteq> NULL
     \<and> (\<exists>t. m q = Some t \<and> min_heap_idx t = -1 \<and> pool_chain m (tnext t) qs)"

definition timers_inv :: "'z tstate_scheme \<Rightarrow> nat \<Rightarrow> ptr list \<Rightarrow> bool" where
  "timers_inv s n ps \<longleftrightarrow> heap_inv s n
     \<and> (\<forall>p \<in> set (active s). \<exists>t. timers s p = Some t \<and> tnext t = NULL)
     \<and> pool_chain (timers s) (head_next (theap s)) ps \<and> distinct ps
     \<and> tail (theap s) = (if ps = [] then None else Some (last ps))
     \<and> psize (theap s) = int (length ps) \<and> allocs (theap s) = int (n + length ps)
     \<and> dom (timers s) = set (active s) \<union> set ps"

lemma pool_chain_cong:
  "(\<And>q. q \<in> set ps \<Longrightarrow> m' q = m q) \<Longrightarrow> pool_chain m' p ps = pool_chain m p ps"
  by (induction ps arbitrary: p) auto

lemma pool_chain_fresh [simp]: "t \<notin> set ps \<Longrightarrow> pool_chain (m(t := x)) p ps = pool_chain m p ps"
  by (rule pool_chain_cong) auto

lemma pool_chain_idx: "pool_chain m p ps \<Longrightarrow> q \<in> set ps \<Longrightarrow> q \<noteq> NULL \<and> (\<exists>t. m q = Some t \<and> min_heap_idx t = -1)"
  by (induction ps arbitrary: p) auto

lemma pool_chain_last:
  assumes "pool_chain m p (ps @ [q])"
  shows "\<exists>t. m q = Some t \<and> tnext t = NULL"
  using assms by (induction ps arbitrary: p) auto

text \<open>Appending a structure behind the last one.\<close>

lemma pool_chain_append:
  assumes "pool_chain m p (ps @ [q])" and "t \<noteq> NULL" and "t \<notin> set (ps @ [q])" and "q \<notin> set ps"
    and "m t = Some tm" and "min_heap_idx tm = -1" and "tnext tm = NULL"
  shows "pool_chain (m(q := map_option (tnext_update (\<lambda>_. t)) (m q))) p (ps @ [q, t])"
  using assms
proof (induction ps arbitrary: p)
  case (Cons a ps)
  then show ?case by auto
qed auto

lemma heap_inv_active:
  assumes "heap_inv s n"
  shows "active s = take n (ents s)" and "length (active s) = n" and "distinct (active s)"
    and "p \<in> set (active s) \<Longrightarrow> \<exists>i < n. ents s ! i = p"
    and "p \<in> set (active s) \<Longrightarrow> live_timer s p \<and> (\<exists>t. timers s p = Some t \<and> 0 \<le> min_heap_idx t)"
proof -
  have slots: "slots_ok s n" and now: "now (theap s) = int n" using assms by (auto simp: heap_inv_def)
  show act: "active s = take n (ents s)" by (simp add: now)
  show len: "length (active s) = n" using slots by (simp add: now slots_ok_def)
  show "distinct (active s)" using slots_distinct [OF slots] by (simp add: now)
  show ex: "\<exists>i < n. ents s ! i = p" if "p \<in> set (active s)" for p
    using that len act by (auto simp: in_set_conv_nth)
  show "live_timer s p \<and> (\<exists>t. timers s p = Some t \<and> 0 \<le> min_heap_idx t)" if p: "p \<in> set (active s)"
  proof -
    obtain i where "i < n" "ents s ! i = p" using ex [OF p] by blast
    then show ?thesis using slots_nth [OF slots, of i] by (auto simp: at_slot_def)
  qed
qed

lemma heap_inv_outside:
  assumes inv: "heap_inv s n" and same: "ents s' = ents s" "now (theap s') = now (theap s)"
      "all_slots (theap s') = all_slots (theap s)"
    and agree: "\<And>p. p \<in> set (active s) \<Longrightarrow> timers s' p = timers s p"
  shows "heap_inv s' n"
proof -
  have slots: "slots_ok s n" and heap: "heap_on (key s) n (ents s)" using inv by (auto simp: heap_inv_def)
  have "ents s ! j \<in> set (active s)" if "j < n" for j
    using that slots heap_inv_active(1) [OF inv] by (auto simp: in_set_conv_nth slots_ok_def)
  then have eq: "timers s' (ents s ! j) = timers s (ents s ! j)" if "j < n" for j using agree that by blast
  have "slots_ok s' n" using slots by (simp add: slots_ok_def same at_slot_def eq)
  moreover have "heap_on (key s') n (ents s')" unfolding heap_on_def
  proof (intro allI impI)
    fix j assume j: "0 < j \<and> j < n"
    then have "par j < n" using par_less [of j] by linarith
    then show "key s' (ents s' ! par j) \<le> key s' (ents s' ! j)"
      using heap j by (simp add: heap_on_def key_def same eq)
  qed
  ultimately show ?thesis using inv same by (simp add: heap_inv_def)
qed

lemma active_pool_disjoint:
  assumes "timers_inv s n ps"
  shows "set (active s) \<inter> set ps = {}"
proof -
  have heap: "heap_inv s n" and pool: "pool_chain (timers s) (head_next (theap s)) ps"
    using assms by (auto simp: timers_inv_def)
  show ?thesis
    using heap_inv_active(5) [OF heap] pool_chain_idx [OF pool] by fastforce
qed

section \<open>Deletion\<close>

text \<open>The callback of a timer and the data it is called with.\<close>

definition call_of :: "'z tstate_scheme \<Rightarrow> ptr \<Rightarrow> nat \<times> ptr" where
  "call_of s p = (case timers s p of None \<Rightarrow> (0, NULL) | Some t \<Rightarrow> (tcb t, tdata t))"

lemma call_no_idx:
  "call_of s p = (case map_option no_idx (timers s p) of None \<Rightarrow> (0, NULL) | Some t \<Rightarrow> (tcb t, tdata t))"
  by (simp add: call_of_def no_idx_def split: option.splits)

lemma wframe_call: "wframe s s' T \<Longrightarrow> call_of s' = call_of s"
  by (simp add: wframe_def call_no_idx fun_eq_iff)

lemma wframe_next:
  assumes "wframe s s' T" and "timers s p = Some u"
  shows "\<exists>u'. timers s' p = Some u' \<and> tnext u' = tnext u"
proof -
  have "map_option no_idx (timers s' p) = Some (no_idx u)" using assms by (simp add: wframe_def)
  then obtain u' where "timers s' p = Some u'" "no_idx u' = no_idx u" by auto
  moreover from this(2) have "tnext u' = tnext u" by (auto simp: no_idx_def dest: arg_cong [of _ _ tnext])
  ultimately show ?thesis by blast
qed

lemma delete_timer_ok:
  assumes inv: "timers_inv s (Suc n) ps" and n: "Suc n < 2 ^ 29" and t: "t \<in> set (active s)"
  obtains s' where "delete_timer s t = Some (s', 0)" and "add_mset t (mset (active s')) = mset (active s)"
    and "timers_inv s' n (if allocs (theap s) > maxsize (theap s) then ps else ps @ [t])"
    and "\<And>p. p \<noteq> t \<Longrightarrow> key s' p = key s p \<and> call_of s' p = call_of s p" and "maxsize (theap s') = maxsize (theap s)"
    and "ticks s' = ticks s" and "trace s' = trace s" and "length (ents s') = length (ents s)"
    and "allocs (theap s) > maxsize (theap s) \<Longrightarrow> timers s' t = None"
    and "\<not> allocs (theap s) > maxsize (theap s) \<Longrightarrow> \<exists>tm. timers s' t = Some tm \<and> min_heap_idx tm = -1"
proof -
  have heap: "heap_inv s (Suc n)" and pool: "pool_chain (timers s) (head_next (theap s)) ps"
    and dist: "distinct ps" and tl: "tail (theap s) = (if ps = [] then None else Some (last ps))"
    and size: "psize (theap s) = int (length ps)" and al: "allocs (theap s) = int (Suc n + length ps)"
    and dom: "dom (timers s) = set (active s) \<union> set ps"
    using inv by (auto simp: timers_inv_def)
  obtain i where i: "i < Suc n" "ents s ! i = t" using heap_inv_active(4) [OF heap t] by blast
  obtain tm where tm: "timers s t = Some tm" "0 \<le> min_heap_idx tm" "tnext tm = NULL" "t \<noteq> NULL"
    using heap_inv_active(5) [OF heap t] inv t by (auto simp: timers_inv_def live_timer_def)
  obtain s1 tm1 where s1: "heap_delete s t = Some s1" "heap_inv s1 n"
      "add_mset t (mset (active s1)) = mset (active s)" "wframe s s1 (set (active s))"
      "timers s1 t = Some tm1" "min_heap_idx tm1 = -1" "t \<notin> set (active s1)"
      "length (ents s1) = length (ents s)"
    using heap_delete_ok [OF heap n i] by metis
  note next_same = wframe_next [OF s1(4)]
  have tm1: "tnext tm1 = NULL" using next_same [OF tm(1)] s1(5) tm(3) by simp
  have fields: "maxsize (theap s1) = maxsize (theap s)" "allocs (theap s1) = allocs (theap s)"
      "psize (theap s1) = psize (theap s)" "head_next (theap s1) = head_next (theap s)"
      "tail (theap s1) = tail (theap s)" "ticks s1 = ticks s" "trace s1 = trace s"
    using s1(4) by (simp_all add: wframe_def)
  have act: "set (active s) = insert t (set (active s1))"
    using s1(3) by (metis set_mset_add_mset_insert set_mset_mset)
  have pool1: "pool_chain (timers s1) (head_next (theap s)) ps"
  proof -
    have "timers s1 q = timers s q" if "q \<in> set ps" for q
      using that active_pool_disjoint [OF inv] s1(4) by (auto simp: wframe_def)
    then show ?thesis using pool pool_chain_cong by metis
  qed
  have dom1: "dom (timers s1) = insert t (set (active s1)) \<union> set ps"
  proof -
    have "dom (timers s1) = dom (timers s)"
      using s1(4) unfolding wframe_def dom_def by (metis option.map_disc_iff)
    then show ?thesis using dom act by simp
  qed
  have t_pool: "t \<notin> set ps" using active_pool_disjoint [OF inv] t by auto
  have act1: "\<forall>p \<in> set (active s1). \<exists>u. timers s1 p = Some u \<and> tnext u = NULL"
    using inv act next_same unfolding timers_inv_def by (metis insertCI)
  have keys: "key s1 = key s" "call_of s1 = call_of s"
    using wframe_key [OF s1(4)] wframe_call [OF s1(4)] by simp_all
  show thesis
  proof (cases "allocs (theap s) > maxsize (theap s)")
    case True
    define s' where "s' = set_heap (s1\<lparr>timers := (timers s1)(t := None)\<rparr>) (\<lambda>h. h\<lparr>allocs := allocs h - 1\<rparr>)"
    have "delete_timer s t = Some (s', 0)"
      using True tm s1(1,5) fields by (simp add: delete_timer_def s'_def)
    moreover have "timers_inv s' n ps"
    proof -
      have "heap_inv s' n" using s1(2,7) by (rule_tac heap_inv_outside) (auto simp: s'_def)
      moreover have "pool_chain (timers s') (head_next (theap s')) ps"
        using pool1 t_pool fields(4) by (simp add: s'_def)
      moreover have "\<forall>p \<in> set (active s'). \<exists>u. timers s' p = Some u \<and> tnext u = NULL"
        using act1 s1(7) by (auto simp: s'_def)
      moreover have "dom (timers s') = set (active s') \<union> set ps"
        using dom1 s1(7) t_pool by (auto simp: s'_def)
      ultimately show ?thesis using fields dist tl size al by (simp add: timers_inv_def s'_def)
    qed
    moreover have "key s' p = key s p \<and> call_of s' p = call_of s p" if "p \<noteq> t" for p
      using that keys by (simp add: key_def call_of_def s'_def fun_eq_iff)
    moreover have "active s' = active s1" by (simp add: s'_def)
    ultimately show thesis using that [of s'] True s1(3,8) fields by (simp add: s'_def)
  next
    case False
    define m where "m = (case tail (theap s) of None \<Rightarrow> timers s1
      | Some q \<Rightarrow> (timers s1)(q := map_option (tnext_update (\<lambda>_. t)) (timers s1 q)))"
    define s' where "s' = set_heap (s1\<lparr>timers := m\<rparr>) (\<lambda>h. h\<lparr>tail := Some t, psize := psize h + 1,
      head_next := (if tail (theap s) = None then t else head_next h)\<rparr>)"
    have outside: "m p = timers s1 p" if "p \<notin> set ps" for p
      using that tl by (auto simp: m_def split: if_splits)
    have "delete_timer s t = Some (s', 0)"
    proof (cases "ps = []")
      case True
      then show ?thesis using False tm s1(1,5) fields tl by (simp add: delete_timer_def s'_def m_def)
    next
      case ps: False
      then have "last ps \<noteq> NULL" "\<exists>u. timers s1 (last ps) = Some u"
        using pool_chain_idx [OF pool1, of "last ps"] by auto
      then show ?thesis using ps False tm s1(1,5) fields tl by (auto simp: delete_timer_def s'_def m_def)
    qed
    moreover have pool2: "pool_chain m (head_next (theap s')) (ps @ [t])"
    proof (cases ps rule: rev_cases)
      case Nil
      then show ?thesis using tl s1(5,6) tm(4) tm1 by (simp add: m_def s'_def)
    next
      case (snoc qs q)
      then have "pool_chain (timers s1) (head_next (theap s)) (qs @ [q])" using pool1 by simp
      then have "pool_chain ((timers s1)(q := map_option (tnext_update (\<lambda>_. t)) (timers s1 q)))
          (head_next (theap s)) (qs @ [q, t])"
        using tm(4) t_pool dist s1(5,6) tm1 by (intro pool_chain_append) (auto simp: snoc)
      then show ?thesis using tl fields(4) by (simp add: snoc m_def s'_def)
    qed
    moreover have "timers_inv s' n (ps @ [t])"
    proof -
      have pool_active: "set (active s1) \<inter> set ps = {}" using active_pool_disjoint [OF inv] act by auto
      have "heap_inv s' n"
        using s1(2) pool_active by (rule_tac heap_inv_outside) (auto simp: s'_def intro!: outside)
      moreover have "\<forall>p \<in> set (active s'). \<exists>u. timers s' p = Some u \<and> tnext u = NULL"
      proof
        fix p assume "p \<in> set (active s')"
        then have "p \<in> set (active s1)" "m p = timers s1 p" using pool_active by (auto simp: s'_def intro!: outside)
        then show "\<exists>u. timers s' p = Some u \<and> tnext u = NULL" using act1 by (simp add: s'_def)
      qed
      moreover have "dom (timers s') = dom (timers s1)"
        by (auto simp: s'_def m_def split: option.splits)
      ultimately show ?thesis
        using pool2 fields dist t_pool size al dom1 by (auto simp: timers_inv_def s'_def)
    qed
    moreover have "key s' p = key s p \<and> call_of s' p = call_of s p" for p
    proof -
      have "key s' p = key s1 p" "call_of s' p = call_of s1 p"
        by (auto simp: key_def call_of_def s'_def m_def split: option.splits)
      then show ?thesis by (simp add: keys)
    qed
    moreover have "active s' = active s1" by (simp add: s'_def)
    moreover have "timers s' t = Some tm1" using outside [OF t_pool] s1(5) by (simp add: s'_def)
    ultimately show thesis using that [of s'] False s1(3,6,8) fields by (simp add: s'_def)
  qed
qed

section \<open>Creation\<close>

definition reading :: "clock \<Rightarrow> nat \<Rightarrow> int" where
  "reading clk k =
     (case clk k of
        Timespec sec nsec \<Rightarrow> sec * 1000 + nsec sdiv 1000000
      | Timeval sec usec \<Rightarrow> sec * 1000 + usec sdiv 1000)"

lemma get_now_time_reading: "get_now_time clk s = (reading clk (ticks s), s\<lparr>ticks := ticks s + 1\<rparr>)"
  by (simp add: get_now_time_def reading_def split: time_value.split)

text \<open>
  The state when \<^verbatim>\<open>create_timer\<close> calls \<^verbatim>\<open>_heap_push\<close>: the structure \<open>te\<close>, from the front of the pool or
  new, is filled in but is neither in the heap nor in the pool.
\<close>

definition prepared :: "'z tstate_scheme \<Rightarrow> ptr list \<Rightarrow> ptr \<Rightarrow> timer \<Rightarrow> 'z tstate_scheme" where
  "prepared s ps te t = s\<lparr>timers := (timers s)(te \<mapsto> t), ticks := ticks s + 1, theap := (theap s)
     \<lparr>head_next := (case tl ps of [] \<Rightarrow> NULL | q # _ \<Rightarrow> q),
      tail := (if tl ps = [] then None else tail (theap s)),
      psize := int (length (tl ps)),
      allocs := (if ps = [] then allocs (theap s) + 1 else allocs (theap s))\<rparr>\<rparr>"

lemma create_timer_prepared:
  assumes inv: "timers_inv s n ps" and "0 < msec" and "cb \<noteq> 0" and p: "ps = [] \<Longrightarrow> fresh (timers s) p"
    and te: "te = (if ps = [] then p else hd ps)"
    and t: "t = \<lparr>min_heap_idx = -1, when_msec = reading clk (ticks s) + msec, tdata = data, tcb = cb, tnext = NULL\<rparr>"
  shows "create_timer p mem clk s msec cb data =
    do { (s', r) \<leftarrow> heap_push mem (prepared s ps te t) te; Some (s', if r = 0 then te else NULL) }"
proof (cases ps)
  case Nil
  then have "head_next (theap s) = NULL" "psize (theap s) = 0" "tail (theap s) = None"
    using inv by (auto simp: timers_inv_def)
  then have heap: "(theap s)\<lparr>head_next := NULL, tail := None, psize := 0, allocs := x\<rparr> = (theap s)\<lparr>allocs := x\<rparr>" for x
    by (intro timer_heap.equality) simp_all
  have "te = p" "p \<noteq> NULL" using Nil p by (simp_all add: te fresh_def)
  then show ?thesis using assms(2,3) Nil \<open>head_next (theap s) = NULL\<close> heap
    unfolding \<open>te = p\<close>
    by (cases s) (simp add: create_timer_def add_millisec_to_now_def get_now_time_reading prepared_def t)
next
  case (Cons q qs)
  then obtain u where q: "head_next (theap s) = q" "q \<noteq> NULL" "timers s q = Some u"
      "pool_chain (timers s) (tnext u) qs"
    using inv by (auto simp: timers_inv_def)
  have nxt: "tnext u = (case qs of [] \<Rightarrow> NULL | r # _ \<Rightarrow> r)" "tnext u = NULL \<longleftrightarrow> qs = []"
    using q(4) by (cases qs; simp)+
  have "psize (theap s) = int (length qs) + 1" using inv Cons by (simp add: timers_inv_def)
  moreover have "te = q" using Cons by (simp add: te)
  ultimately show ?thesis unfolding \<open>te = q\<close> using assms(2,3) Cons q(1-3) nxt
    by (cases s; cases u) (simp add: create_timer_def add_millisec_to_now_def get_now_time_reading prepared_def t)
qed

lemma prepared_inv:
  assumes inv: "timers_inv s n ps" and p: "ps = [] \<Longrightarrow> fresh (timers s) p" and t: "min_heap_idx t = -1"
  defines "te \<equiv> (if ps = [] then p else hd ps)"
  shows "heap_inv (prepared s ps te t) n" and "live_timer (prepared s ps te t) te" and "te \<notin> set (active s)"
    and "te \<notin> set (tl ps)" and "pool_chain (timers (prepared s ps te t)) (head_next (theap (prepared s ps te t))) (tl ps)"
proof -
  have heap: "heap_inv s n" and pool: "pool_chain (timers s) (head_next (theap s)) ps" and dist: "distinct ps"
    and dom: "dom (timers s) = set (active s) \<union> set ps"
    using inv by (auto simp: timers_inv_def)
  show out: "te \<notin> set (active s)" and tl: "te \<notin> set (tl ps)"
    using p active_pool_disjoint [OF inv] dist dom by (cases ps; auto simp: te_def fresh_def domIff)+
  have "te \<noteq> NULL" using p pool by (cases ps) (auto simp: te_def fresh_def)
  then show "live_timer (prepared s ps te t) te" by (simp add: live_timer_def prepared_def)
  show "heap_inv (prepared s ps te t) n"
    using heap out by (rule_tac heap_inv_outside) (auto simp: prepared_def)
  show "pool_chain (timers (prepared s ps te t)) (head_next (theap (prepared s ps te t))) (tl ps)"
  proof (cases ps)
    case (Cons q qs)
    then have "\<exists>u :: timer. pool_chain (timers s) (tnext u) qs" using pool by auto
    then obtain u :: timer where "pool_chain (timers s) (tnext u) qs" by blast
    then have "pool_chain (timers s) (case qs of [] \<Rightarrow> NULL | r # _ \<Rightarrow> r) qs" by (cases qs) auto
    then show ?thesis using Cons tl by (simp add: prepared_def)
  qed (simp add: prepared_def)
qed

lemma create_timer_ok:
  assumes inv: "timers_inv s n ps" and n: "n < 2 ^ 29" and args: "0 < msec" "cb \<noteq> 0"
    and p: "ps = [] \<Longrightarrow> fresh (timers s) p"
    and mem: "n < length (ents s) \<or> mem (max (int n * 2) (int n + 1) * 8)"
  defines "te \<equiv> (if ps = [] then p else hd ps)"
  obtains s' where "create_timer p mem clk s msec cb data = Some (s', te)" and "timers_inv s' (Suc n) (tl ps)"
    and "mset (active s') = add_mset te (mset (active s))" and "key s' = (key s)(te := reading clk (ticks s) + msec)"
    and "call_of s' te = (cb, data)" and "ticks s' = ticks s + 1" and "maxsize (theap s') = maxsize (theap s)"
proof -
  define t where "t = \<lparr>min_heap_idx = -1, when_msec = reading clk (ticks s) + msec, tdata = data, tcb = cb, tnext = NULL\<rparr>"
  define s1 where "s1 = prepared s ps te t"
  have pre: "heap_inv s1 n" "live_timer s1 te" "te \<notin> set (active s)" "te \<notin> set (tl ps)"
      "pool_chain (timers s1) (head_next (theap s1)) (tl ps)"
    using prepared_inv [OF inv p, of t] by (simp_all add: s1_def t_def te_def)
  have same: "ents s1 = ents s" "now (theap s1) = now (theap s)" by (simp_all add: s1_def prepared_def)
  have now: "now (theap s) = int n" using inv by (simp add: timers_inv_def heap_inv_def)
  have "te \<notin> set (take n (ents s1))" using pre(3) same now by simp
  moreover have "n < length (ents s1) \<or> mem (max (int n * 2) (int n + 1) * 8)" using mem same by simp
  ultimately obtain s' where s': "heap_push mem s1 te = Some (s', 0)" "heap_inv s' (Suc n)"
      "mset (active s') = add_mset te (mset (active s1))" "wframe s1 s' (insert te (set (active s1)))"
    using heap_push_ok [OF pre(1) n pre(2)] by metis
  have act: "active s1 = active s" using same by simp
  have set': "set (active s') = insert te (set (active s))"
    using s'(3) act by (metis set_mset_add_mset_insert set_mset_mset)
  have create: "create_timer p mem clk s msec cb data = Some (s', te)"
    using create_timer_prepared [OF inv args p, of te t clk data mem] s'(1) by (simp add: s1_def t_def te_def)
  have key1: "key s1 = (key s)(te := reading clk (ticks s) + msec)"
    by (auto simp: key_def s1_def prepared_def t_def fun_eq_iff)
  have "call_of s' te = call_of s1 te" using wframe_call [OF s'(4)] by simp
  then have call: "call_of s' te = (cb, data)" by (simp add: call_of_def s1_def prepared_def t_def)
  note next_same = wframe_next [OF s'(4)]
  have disj: "set (active s) \<inter> set ps = {}" using active_pool_disjoint [OF inv] .
  have sub: "set (tl ps) \<subseteq> set ps" by (cases ps) auto
  have pool': "pool_chain (timers s') (head_next (theap s')) (tl ps)"
  proof -
    have "timers s' q = timers s1 q" if "q \<in> set (tl ps)" for q
      using that s'(4) act disj sub pre(4) by (auto simp: wframe_def)
    then show ?thesis using pool_chain_cong [of "tl ps" "timers s'" "timers s1"] pre(5) s'(4)
      by (simp add: wframe_def)
  qed
  have nexts: "\<exists>u. timers s' q = Some u \<and> tnext u = NULL" if q: "q \<in> set (active s')" for q
  proof -
    have "\<exists>u. timers s1 q = Some u \<and> tnext u = NULL"
      using q set' inv by (auto simp: timers_inv_def s1_def prepared_def t_def)
    then show ?thesis using next_same by metis
  qed
  have dom': "dom (timers s') = set (active s') \<union> set (tl ps)"
  proof -
    have "dom (timers s') = dom (timers s1)"
      using s'(4) unfolding wframe_def dom_def by (metis option.map_disc_iff)
    also have "\<dots> = insert te (dom (timers s))" by (simp add: s1_def prepared_def)
    also have "\<dots> = insert te (set (active s)) \<union> set (tl ps)"
      using inv by (cases ps) (auto simp: timers_inv_def te_def)
    finally show ?thesis using set' by simp
  qed
  have "timers_inv s' (Suc n) (tl ps)"
    unfolding timers_inv_def
  proof (intro conjI)
    show "distinct (tl ps)" using inv by (simp add: timers_inv_def distinct_tl)
    show "tail (theap s') = (if tl ps = [] then None else Some (last (tl ps)))"
      using inv s'(4) by (cases ps) (auto simp: wframe_def s1_def prepared_def timers_inv_def)
    show "psize (theap s') = int (length (tl ps))" "allocs (theap s') = int (Suc n + length (tl ps))"
      using inv s'(4) by (cases ps; simp add: wframe_def s1_def prepared_def timers_inv_def)+
  qed (use s'(2) nexts pool' dom' in auto)
  moreover have "key s' = (key s)(te := reading clk (ticks s) + msec)"
    using wframe_key [OF s'(4)] key1 by simp
  moreover have "ticks s' = ticks s + 1" "maxsize (theap s') = maxsize (theap s)"
    using s'(4) by (simp_all add: wframe_def s1_def prepared_def)
  moreover have "mset (active s') = add_mset te (mset (active s))" using s'(3) act by simp
  ultimately show thesis using that create call by blast
qed

section \<open>The heap as a queue of timers\<close>

definition tq_inv :: "'z tstate_scheme \<Rightarrow> bool" where
  "tq_inv s \<longleftrightarrow> (\<exists>n ps. timers_inv s n ps \<and> n < 2 ^ 29)"

definition tq_elems :: "'z tstate_scheme \<Rightarrow> ptr set" where
  "tq_elems s = set (active s)"

text \<open>The state a callback is called with: the clock was read, the call is recorded.\<close>

definition called :: "'z tstate_scheme \<Rightarrow> ptr \<Rightarrow> 'z tstate_scheme" where
  "called s p = s\<lparr>ticks := ticks s + 1, trace := trace s @ [call_of s p]\<rparr>"

lemma called_simps [simp]:
  "timers (called s p) = timers s" "theap (called s p) = theap s" "ticks (called s p) = Suc (ticks s)"
  "trace (called s p) = trace s @ [call_of s p]" "key (called s p) = key s" "call_of (called s p) = call_of s"
  "timers_inv (called s p) n ps = timers_inv s n ps"
proof -
  show "timers (called s p) = timers s" "theap (called s p) = theap s" "ticks (called s p) = Suc (ticks s)"
    "trace (called s p) = trace s @ [call_of s p]"
    by (simp_all add: called_def)
  then show "key (called s p) = key s" "call_of (called s p) = call_of s"
    by (simp_all add: key_def call_of_def fun_eq_iff)
  then show "timers_inv (called s p) n ps = timers_inv s n ps"
    by (simp add: timers_inv_def heap_inv_def slots_ok_def at_slot_def called_def)
qed

lemma heap_top_least:
  assumes "heap_inv s n"
  shows "n = 0 \<Longrightarrow> heap_top s = Some NULL"
    and "0 < n \<Longrightarrow> heap_top s = Some (ents s ! 0) \<and> ents s ! 0 \<in> set (active s) \<and> ents s ! 0 \<noteq> NULL
      \<and> (\<forall>q \<in> set (active s). key s (ents s ! 0) \<le> key s q)"
proof -
  have now: "now (theap s) = int n" and slots: "slots_ok s n" and heap: "heap_on (key s) n (ents s)"
    using assms by (auto simp: heap_inv_def)
  show "heap_top s = Some NULL" if "n = 0" using that now by (simp add: heap_top_def)
  assume n: "0 < n"
  then have len: "0 < length (ents s)" using slots by (auto simp: slots_ok_def)
  have "ents s ! 0 \<in> set (active s)"
    using n slots heap_inv_active(1) [OF assms] by (auto simp: in_set_conv_nth slots_ok_def intro!: exI [of _ 0])
  moreover have "key s (ents s ! 0) \<le> key s q" if q: "q \<in> set (active s)" for q
  proof -
    obtain i where "i < n" "ents s ! i = q" using heap_inv_active(4) [OF assms q] by blast
    then show ?thesis using heap_root_le [OF heap, of i] by simp
  qed
  moreover have "ents s ! 0 \<noteq> NULL" using slots_nth [OF slots n] by (simp add: at_slot_def)
  moreover have "heap_top s = Some (ents s ! 0)" using n now len by (simp add: heap_top_def tes_at_def)
  ultimately show "heap_top s = Some (ents s ! 0) \<and> ents s ! 0 \<in> set (active s) \<and> ents s ! 0 \<noteq> NULL
      \<and> (\<forall>q \<in> set (active s). key s (ents s ! 0) \<le> key s q)"
    by blast
qed

interpretation timer_queue: min_queue tq_inv tq_elems key heap_top
proof
  fix s assume "tq_inv s"
  then obtain n ps where inv: "timers_inv s n ps" by (auto simp: tq_inv_def)
  then have heap: "heap_inv s n" by (simp add: timers_inv_def)
  show "finite (tq_elems s) \<and> NULL \<notin> tq_elems s"
    using heap_inv_active(5) [OF heap] by (auto simp: tq_elems_def live_timer_def)
  show "\<exists>p. heap_top s = Some p \<and> (if tq_elems s = {} then p = NULL
      else p \<in> tq_elems s \<and> (\<forall>q \<in> tq_elems s. key s p \<le> key s q))"
  proof (cases "n = 0")
    case True
    then have "active s = []" using heap_inv_active(2) [OF heap] by (metis length_0_conv)
    then show ?thesis using heap_top_least(1) [OF heap True] by (simp add: tq_elems_def)
  next
    case False
    then show ?thesis using heap_top_least(2) [OF heap] by (auto simp: tq_elems_def)
  qed
qed

section \<open>The operations on timers leave the rest of the state alone\<close>

lemma place_more: "place s i t = Some s' \<Longrightarrow> tstate.more s' = tstate.more s"
  by (auto simp: place_def bind_eq_Some_conv split: if_splits)

lemma shift_up_more: "shift_up s hole t = Some s' \<Longrightarrow> tstate.more s' = tstate.more s"
proof (induction s hole t arbitrary: s' rule: shift_up.induct)
  case (1 s hole t)
  note step = shift_up.simps [of s hole t, unfolded Let_def] and prem = "1.prems"
  let ?parent = "(hole - 1) sdiv 2"
  show ?case
  proof (cases "hole = 0 \<or> greater_at s ?parent t \<noteq> Some True")
    case True
    then have "place s hole t = Some s'"
      using prem by (simp add: step split: if_splits option.splits bool.splits)
    then show ?thesis by (rule place_more)
  next
    case False
    then obtain p x where px: "tes_at s ?parent = Some p" "place s hole p = Some x" "shift_up x ?parent t = Some s'"
      using prem by (simp add: step split: option.splits)
    then have "tstate.more s' = tstate.more x" using "1.IH" [OF refl _ _ _ px(1,2)] False by simp
    then show ?thesis using place_more [OF px(2)] by simp
  qed
qed

lemma shift_down_more: "shift_down s hole t = Some s' \<Longrightarrow> tstate.more s' = tstate.more s"
proof (induction s hole t arbitrary: s' rule: shift_down.induct)
  case (1 s hole t)
  note step = shift_down.simps [of s hole t]
  obtain c where c: "i32 (2 * (hole + 1)) = Some c" using "1.prems" by (simp add: step split: option.splits)
  show ?case
  proof (cases "place s hole t = Some s'")
    case True
    then show ?thesis by (rule place_more)
  next
    case False
    then have le: "c \<le> now (theap s)" using "1.prems" c by (simp add: step split: if_splits)
    note p0 = "1.prems" [unfolded step c option.case if_P [OF le]]
    obtain c' where c'1: "smaller_child s c = Some c'"
      using p0 by (cases "smaller_child s c") simp_all
    note p1 = p0 [unfolded c'1 option.case]
    obtain p where c'2: "tes_at s c' = Some p" using p1 by (cases "tes_at s c'") simp_all
    note p2 = p1 [unfolded c'2 option.case] and c' = c'1 c'2
    obtain g where g: "elem_greater s t p = Some g" using p2 by (cases "elem_greater s t p") simp_all
    note p3 = p2 [unfolded g option.case]
    have "g" using p3 False by (cases g) simp_all
    then have gt: "elem_greater s t p = Some True" using g by simp
    obtain x where x: "place s hole p = Some x" "shift_down x c' t = Some s'"
      using p3 \<open>g\<close> by (cases "place s hole p") simp_all
    then have "tstate.more s' = tstate.more x" using "1.IH" [OF c le c' gt _ x] by simp
    then show ?thesis using place_more [OF x(1)] by simp
  qed
qed

lemma heap_delete_more: "heap_delete s t = Some s' \<Longrightarrow> tstate.more s' = tstate.more s"
  by (auto simp: heap_delete_def Let_def bind_eq_Some_conv split: if_splits dest!: shift_up_more shift_down_more)

lemma heap_adjust_more: "heap_adjust s t = Some s' \<Longrightarrow> tstate.more s' = tstate.more s"
  by (auto simp: heap_adjust_def Let_def bind_eq_Some_conv split: if_splits dest!: shift_up_more shift_down_more)

lemma heap_push_more:
  assumes "heap_push mem s t = Some (s', r)"
  shows "tstate.more s' = tstate.more s"
proof -
  have res: "tstate.more s1 = tstate.more s" if "reserve mem s n = Some (s1, q)" for s1 n q
    using that by (auto simp: reserve_def Let_def bind_eq_Some_conv split: if_splits)
  let ?rest = "\<lambda>(s, r). if r \<noteq> 0 then Some (s, -1)
      else do {
        s \<leftarrow> shift_up s (now (theap s)) t;
        n \<leftarrow> i32 (now (theap s) + 1);
        Some (set_heap s (\<lambda>h. h\<lparr>now := n\<rparr>), 0)
      }"
  obtain n y where y: "(if all_slots (theap s) < n then reserve mem s n else Some (s, 0)) = Some y" "?rest y = Some (s', r)"
    using assms unfolding heap_push_def by (auto simp only: Option.bind_eq_Some_conv [of "i32 _"] Option.bind_eq_Some_conv [of "If _ _ _"])
  obtain s1 q where "y = (s1, q)" by (cases y)
  then have s1: "(if all_slots (theap s) < n then reserve mem s n else Some (s, 0)) = Some (s1, q)"
    and rest: "?rest (s1, q) = Some (s', r)" using y by simp_all
  have "tstate.more s1 = tstate.more s" using s1 res by (simp split: if_splits)
  moreover have "tstate.more s' = tstate.more s1"
    using rest shift_up_more by (fastforce simp: bind_eq_Some_conv split: if_splits)
  ultimately show ?thesis by simp
qed

lemma create_timer_more:
  assumes "create_timer p mem clk s msec cb data = Some (s', t)" and "head_next (theap s) = NULL"
  shows "tstate.more s' = tstate.more s"
proof (cases "p = NULL")
  case True
  then show ?thesis using assms by (auto simp: create_timer_def split: if_splits)
next
  case False
  let ?t = "\<lparr>min_heap_idx = -1, when_msec = reading clk (ticks s) + msec, tdata = data, tcb = cb, tnext = NULL\<rparr>"
  let ?s = "(set_heap s (\<lambda>h. h\<lparr>allocs := allocs h + 1\<rparr>))\<lparr>ticks := ticks s + 1, timers := (timers s)(p \<mapsto> ?t)\<rparr>"
  have "\<exists>r. heap_push mem ?s p = Some (s', r)"
    using assms False
    by (simp add: create_timer_def add_millisec_to_now_def get_now_time_reading Let_def case_prod_beta bind_eq_Some_conv
        split: if_splits) (elim exE conjE; auto)
  moreover have "tstate.more ?s = tstate.more s" by simp
  ultimately show ?thesis using heap_push_more by metis
qed

lemma delete_timer_more: "delete_timer s t = Some (s', r) \<Longrightarrow> tstate.more s' = tstate.more s"
  by (auto simp: delete_timer_def Let_def bind_eq_Some_conv split: if_splits option.splits dest!: heap_delete_more)

section \<open>One turn of the loop\<close>

text \<open>
  The turn for a timer whose callback leaves the timers alone; \<open>s0\<close> is the state the callback leaves. If
  it returns at most 0, its timer is deleted.
\<close>

lemma turn_deletes:
  assumes "timers_inv s n ps" and "n < 2 ^ 29" and "0 < n" and "heap_top s = Some p"
    and "key s p \<le> reading clk (ticks s)" and "r \<le> 0"
    and "call (fst (call_of s p)) (called s p) (snd (call_of s p)) = Some (s0, r)"
    and s0: "timers s0 = timers s" "theap s0 = theap s" "ticks s0 = ticks s + 1" "trace s0 = trace s @ [call_of s p]"
  shows "\<exists>s' ps'. process_turn call clk s = Some (Inr s') \<and> timers_inv s' (n - 1) ps'
    \<and> add_mset p (mset (active s')) = mset (active s) \<and> (\<forall>q. q \<noteq> p \<longrightarrow> key s' q = key s q \<and> call_of s' q = call_of s q)
    \<and> trace s' = trace s @ [call_of s p] \<and> ticks s' = ticks s + 1 \<and> tstate.more s' = tstate.more s0"
proof -
  have heap: "heap_inv s n" using assms(1) by (simp add: timers_inv_def)
  have p: "p \<in> set (active s)" "p \<noteq> NULL" using heap_top_least(2) [OF heap assms(3)] assms(4) by auto
  obtain t where t: "timers s p = Some t" using heap_inv_active(5) [OF heap p(1)] by auto
  have same: "key s0 = key s" "call_of s0 = call_of s" "timers_inv s0 n ps = timers_inv s n ps"
    by (simp_all add: key_def call_of_def fun_eq_iff s0 timers_inv_def heap_inv_def slots_ok_def at_slot_def
        key_def [abs_def])
  obtain k where k: "n = Suc k" using assms(3) by (cases n) auto
  have "timers_inv s0 (Suc k) ps" "Suc k < 2 ^ 29" "p \<in> set (active s0)" using assms(1,2) k p(1) same s0 by simp_all
  then obtain s' where s': "delete_timer s0 p = Some (s', 0)" "add_mset p (mset (active s')) = mset (active s0)"
      "timers_inv s' k (if allocs (theap s0) > maxsize (theap s0) then ps else ps @ [p])"
      "\<And>q. q \<noteq> p \<Longrightarrow> key s' q = key s0 q \<and> call_of s' q = call_of s0 q" "ticks s' = ticks s0" "trace s' = trace s0"
    using delete_timer_ok by metis
  have call: "call_of s p = (tcb t, tdata t)" "key s p = when_msec t" using t by (simp_all add: call_of_def key_def)
  have "process_turn call clk s = Some (Inr s')"
    using assms(4-7) p(2) t call s'(1) by (simp add: process_turn_def get_now_time_reading called_def)
  moreover have "tstate.more s' = tstate.more s0" using delete_timer_more [OF s'(1)] .
  ultimately show ?thesis using s'(2-6) s0 same k
    by (intro exI [of _ s'] exI [of _ "if allocs (theap s0) > maxsize (theap s0) then ps else ps @ [p]"]) simp
qed

text \<open>
  A callback that returns a positive number and leaves the timers alone; \<open>s0\<close> is the state it leaves.
\<close>

lemma turn_rearms:
  assumes "timers_inv s n ps" and "n < 2 ^ 29" and "0 < n" and "heap_top s = Some p"
    and "key s p \<le> reading clk (ticks s)" and "0 < r"
    and "call (fst (call_of s p)) (called s p) (snd (call_of s p)) = Some (s0, r)"
    and s0: "timers s0 = timers s" "theap s0 = theap s" "ticks s0 = ticks s + 1" "trace s0 = trace s @ [call_of s p]"
  shows "\<exists>s'. process_turn call clk s = Some (Inr s') \<and> timers_inv s' n ps
    \<and> mset (active s') = mset (active s) \<and> key s' = (key s)(p := reading clk (ticks s + 1) + r)
    \<and> trace s' = trace s @ [call_of s p] \<and> call_of s' = call_of s \<and> ticks s' = ticks s + 2
    \<and> tstate.more s' = tstate.more s0"
proof -
  have heap: "heap_inv s n" using assms(1) by (simp add: timers_inv_def)
  have p: "p = ents s ! 0" "p \<in> set (active s)" "p \<noteq> NULL"
    using heap_top_least(2) [OF heap assms(3)] assms(4) by auto
  obtain t where t: "timers s p = Some t" using heap_inv_active(5) [OF heap p(2)] by auto
  define w where "w = reading clk (ticks s + 1) + r"
  define s1 where "s1 = s0\<lparr>ticks := ticks s + 2\<rparr>"
  have s1: "timers s1 = timers s" "theap s1 = theap s" "key s1 = key s" "trace s1 = trace s @ [call_of s p]"
    by (simp_all add: s1_def key_def fun_eq_iff s0)
  have "heap_inv s1 n" using heap by (rule heap_inv_outside) (simp_all add: s1)
  then obtain s' where s': "heap_adjust (set_when s1 p w) p = Some s'" "heap_inv s' n"
      "mset (active s') = mset (active s1)" "wframe (set_when s1 p w) s' (set (active s1))"
    using heap_adjust_ok [of s1 n 0 p w] assms(2,3) p(1) s1(2) by auto
  have act: "set (active s') = set (active s)" using s'(3) s1(2) by (metis set_mset_mset)
  have call: "call_of s p = (tcb t, tdata t)" "key s p = when_msec t" using t by (simp_all add: call_of_def key_def)
  have "process_turn call clk s = map_option Inr (heap_adjust (set_when s1 p w) p)"
    using assms(4-7) p(3) t call s0
    by (cases "heap_adjust (set_when s1 p w) p")
      (auto simp: process_turn_def get_now_time_reading add_millisec_to_now_def called_def s1_def w_def set_when_def)
  then have "process_turn call clk s = Some (Inr s')" using s'(1) by simp
  moreover have "key s' = (key s)(p := w)"
    using wframe_key [OF s'(4)] key_set_when [of s1 p w] t s1(1,3) by simp
  moreover have "timers_inv s' n ps"
  proof -
    have disj: "set (active s) \<inter> set ps = {}" using active_pool_disjoint [OF assms(1)] .
    have "timers s' q = timers s q" if "q \<in> set ps" for q
    proof -
      have "q \<notin> set (active s1)" "q \<noteq> p" using that disj p(2) s1(2) by auto
      then show ?thesis using s'(4) s1(1) by (simp add: wframe_def set_when_def)
    qed
    then have "pool_chain (timers s') (head_next (theap s')) ps"
      using assms(1) s'(4) pool_chain_cong [of ps "timers s'" "timers s"]
      by (simp add: timers_inv_def wframe_def set_when_def s1(2))
    moreover have "\<exists>u. timers s' q = Some u \<and> tnext u = NULL" if q: "q \<in> set (active s')" for q
    proof -
      obtain u where "timers s q = Some u" "tnext u = NULL"
        using q act assms(1) by (auto simp: timers_inv_def)
      then obtain u where "timers (set_when s1 p w) q = Some u" "tnext u = NULL"
        by (cases "q = p") (auto simp: set_when_def s1(1))
      then show ?thesis using s'(4) by (metis wframe_next)
    qed
    moreover have "dom (timers s') = dom (timers s)"
    proof -
      have "dom (timers s') = dom (timers (set_when s1 p w))"
        using s'(4) unfolding wframe_def dom_def by (metis option.map_disc_iff)
      then show ?thesis by (auto simp: set_when_def s1(1))
    qed
    ultimately show ?thesis
      using assms(1) s'(2,4) act by (simp add: timers_inv_def wframe_def set_when_def s1(2))
  qed
  moreover have "trace s' = trace s @ [call_of s p]" "ticks s' = ticks s + 2"
    using s'(4) s1(4) by (simp_all add: wframe_def set_when_def s1_def)
  moreover have "call_of s' = call_of s"
    using wframe_call [OF s'(4)] t s1(1) by (auto simp: call_of_def set_when_def fun_eq_iff)
  moreover have "tstate.more s' = tstate.more s0" using heap_adjust_more [OF s'(1)] by (simp add: set_when_def s1_def)
  ultimately show ?thesis using s'(3) s1(2) by (intro exI [of _ s']) (simp add: w_def)
qed

section \<open>Firing timers\<close>

text \<open>
  The callbacks \<open>C\<close>, each with its data, are \<open>quiet\<close>: in the states of the program that \<open>Q\<close> describes they
  return, leave the timers alone, and keep \<open>Q\<close>, which is about the rest of the state only. What they
  return, \<open>ret i cb d\<close>, may depend on the number \<open>i\<close> of calls made so far. \<open>intervals ret C\<close> are the times
  after which they ask to be called again.
\<close>

definition quiet :: "(nat \<times> ptr) set \<Rightarrow> (nat \<Rightarrow> nat \<Rightarrow> ptr \<Rightarrow> int) \<Rightarrow> ('z tstate_scheme \<Rightarrow> bool) \<Rightarrow>
    (nat \<Rightarrow> 'z tstate_scheme \<Rightarrow> ptr \<Rightarrow> ('z tstate_scheme \<times> int) option) \<Rightarrow> bool" where
  "quiet C ret Q call \<longleftrightarrow> (\<forall>s s'. tstate.more s' = tstate.more s \<longrightarrow> Q s \<longrightarrow> Q s')
     \<and> (\<forall>(cb, d) \<in> C. \<forall>s. Q s \<longrightarrow> (\<exists>s'. call cb s d = Some (s', ret (length (trace s)) cb d) \<and> Q s'
          \<and> timers s' = timers s \<and> theap s' = theap s \<and> ticks s' = ticks s \<and> trace s' = trace s))"

definition intervals :: "(nat \<Rightarrow> nat \<Rightarrow> ptr \<Rightarrow> int) \<Rightarrow> (nat \<times> ptr) set \<Rightarrow> int set" where
  "intervals ret C = {r. 0 < r \<and> (\<exists>i. \<exists>(cb, d) \<in> C. ret i cb d = r)}"

text \<open>A state with at most \<open>n\<close> timers, the callbacks of which are \<open>cs\<close> and quiet.\<close>

definition firing :: "(nat \<times> ptr) set \<Rightarrow> (nat \<Rightarrow> nat \<Rightarrow> ptr \<Rightarrow> int) \<Rightarrow> ('z tstate_scheme \<Rightarrow> bool) \<Rightarrow>
    (nat \<Rightarrow> 'z tstate_scheme \<Rightarrow> ptr \<Rightarrow> ('z tstate_scheme \<times> int) option) \<Rightarrow> (ptr \<Rightarrow> nat \<times> ptr) \<Rightarrow> nat \<Rightarrow>
    'z tstate_scheme \<Rightarrow> bool" where
  "firing C ret Q call cs n s \<longleftrightarrow> quiet C ret Q call \<and> n < 2 ^ 29 \<and> (\<exists>m \<le> n. \<exists>ps. timers_inv s m ps) \<and> Q s
     \<and> (\<forall>p \<in> set (active s). call_of s p = cs p \<and> cs p \<in> C)"

definition turn_of :: "(nat \<Rightarrow> 'z tstate_scheme \<Rightarrow> ptr \<Rightarrow> ('z tstate_scheme \<times> int) option) \<Rightarrow> clock \<Rightarrow>
    'z tstate_scheme \<Rightarrow> ptr \<Rightarrow> 'z tstate_scheme option" where
  "turn_of call clk s p = (case process_turn call clk s of Some (Inr s') \<Rightarrow> Some s' | _ \<Rightarrow> None)"

lemma turn_ofI [simp]: "process_turn call clk s = Some (Inr s') \<Longrightarrow> turn_of call clk s p = Some s'"
  by (simp add: turn_of_def)

lemma firing_tq: "firing C ret Q call cs n s \<Longrightarrow> tq_inv s"
  unfolding firing_def tq_inv_def by (meson le_less_trans)

lemma quietD:
  assumes "quiet C ret Q call" and "(cb, d) \<in> C" and "Q s"
  obtains s' where "call cb s d = Some (s', ret (length (trace s)) cb d)" and "Q s'" and "timers s' = timers s"
    and "theap s' = theap s" and "ticks s' = ticks s" and "trace s' = trace s"
  using assms unfolding quiet_def by blast

lemma quiet_more: "quiet C ret Q call \<Longrightarrow> Q s \<Longrightarrow> tstate.more s' = tstate.more s \<Longrightarrow> Q s'"
  unfolding quiet_def by blast

lemma firing_turn:
  assumes f: "firing C ret Q call cs n s" and top: "heap_top s = Some p" and p: "p \<in> tq_elems s"
    and due: "key s p \<le> reading clk (ticks s)"
  defines "r \<equiv> ret (Suc (length (trace s))) (fst (cs p)) (snd (cs p))"
  obtains s' where "process_turn call clk s = Some (Inr s')" and "firing C ret Q call cs n s'"
    and "trace s' = trace s @ [cs p]"
    and "agenda (tq_elems s') (key s') = (agenda (tq_elems s) (key s))
      (p := if r \<le> 0 then None else Some (reading clk (ticks s + 1) + r))"
    and "ticks s' = ticks s + (if r \<le> 0 then 1 else 2)" and "0 < r \<longrightarrow> r \<in> intervals ret C"
proof -
  have act: "p \<in> set (active s)" using p by (simp add: tq_elems_def)
  obtain m ps where m: "timers_inv s m ps" "m \<le> n" and n: "n < 2 ^ 29" and qu: "quiet C ret Q call" and Q: "Q s"
      and cs: "\<And>q. q \<in> set (active s) \<Longrightarrow> call_of s q = cs q \<and> cs q \<in> C"
    using f unfolding firing_def by blast
  have heap: "heap_inv s m" using m(1) by (simp add: timers_inv_def)
  have len: "length (active s) = m" using heap_inv_active(2) [OF heap] .
  have pos: "0 < m" using length_pos_if_in_set [OF act] unfolding len .
  have small: "m < 2 ^ 29" using m(2) n by linarith
  have "Q (called s p)" by (rule quiet_more [OF qu Q]) (simp add: called_def)
  moreover have "(fst (call_of s p), snd (call_of s p)) \<in> C" using cs [OF act] by simp
  ultimately obtain s0 where s0: "call (fst (call_of s p)) (called s p) (snd (call_of s p)) = Some (s0, r)" "Q s0"
      "timers s0 = timers s" "theap s0 = theap s" "ticks s0 = ticks s + 1" "trace s0 = trace s @ [call_of s p]"
    using quietD [OF qu] cs [OF act] unfolding r_def by (metis called_simps(1-4) length_append_singleton Suc_eq_plus1)
  note turn = m(1) small pos top due
  have in_C: "r \<in> intervals ret C" if "0 < r"
  proof -
    have "(fst (cs p), snd (cs p)) \<in> C" using cs [OF act] by simp
    then show ?thesis using that unfolding intervals_def r_def by blast
  qed
  show thesis
  proof (cases "r \<le> 0")
    case True
    obtain s' ps' where s': "process_turn call clk s = Some (Inr s')" "timers_inv s' (m - 1) ps'"
        "add_mset p (mset (active s')) = mset (active s)" "\<forall>q. q \<noteq> p \<longrightarrow> key s' q = key s q \<and> call_of s' q = call_of s q"
        "trace s' = trace s @ [call_of s p]" "ticks s' = ticks s + 1" "tstate.more s' = tstate.more s0"
      using turn_deletes [where call = call, OF turn True s0(1,3-6)] by blast
    have "distinct (p # active s')"
      using s'(3) heap_inv_active(3) [OF heap] mset_eq_imp_distinct_iff [of "p # active s'" "active s"] by simp
    moreover have "insert p (set (active s')) = set (active s)"
      using s'(3) by (metis set_mset_add_mset_insert set_mset_mset)
    ultimately have set': "set (active s') = set (active s) - {p}" by auto
    then have "firing C ret Q call cs n s'"
      using s'(2,4) m(2) n qu quiet_more [OF qu s0(2) s'(7)] cs
      by (auto simp: firing_def intro!: exI [of _ "m - 1"])
    moreover have "agenda (tq_elems s') (key s') = (agenda (tq_elems s) (key s))(p := None)"
      using set' s'(4) by (auto simp: agenda_def tq_elems_def fun_eq_iff)
    ultimately show ?thesis using that [OF s'(1)] s'(5,6) cs [OF act] True in_C by simp
  next
    case False
    then have "0 < r" by simp
    then obtain s' where s': "process_turn call clk s = Some (Inr s')" "timers_inv s' m ps"
        "mset (active s') = mset (active s)" "key s' = (key s)(p := reading clk (ticks s + 1) + r)"
        "trace s' = trace s @ [call_of s p]" "call_of s' = call_of s" "ticks s' = ticks s + 2"
        "tstate.more s' = tstate.more s0"
      using turn_rearms [where call = call, OF turn _ s0(1,3-6)] by blast
    have set': "set (active s') = set (active s)" using s'(3) by (metis set_mset_mset)
    then have "firing C ret Q call cs n s'"
      using s'(2,6) m(2) n qu quiet_more [OF qu s0(2) s'(8)] cs
      by (auto simp: firing_def intro!: exI [of _ m])
    moreover have "agenda (tq_elems s') (key s') = (agenda (tq_elems s) (key s))(p \<mapsto> reading clk (ticks s + 1) + r)"
      using set' s'(4) act by (auto simp: agenda_def tq_elems_def fun_eq_iff)
    ultimately show ?thesis using that [OF s'(1)] s'(5,7) cs [OF act] False in_C by simp
  qed
qed

interpretation firing_queue: timed_queue "firing C ret Q call cs n" tq_elems key heap_top "turn_of call clk" ticks
    "\<lambda>s. length (trace s)" "reading clk" "\<lambda>i p. ret i (fst (cs p)) (snd (cs p))" "intervals ret C"
  for C :: "(nat \<times> ptr) set" and ret and Q :: "'z tstate_scheme \<Rightarrow> bool" and call cs n clk
proof
  fix s :: "'z tstate_scheme" assume f: "firing C ret Q call cs n s"
  show "finite (tq_elems s) \<and> NULL \<notin> tq_elems s" using timer_queue.finite_law [OF firing_tq [OF f]] .
  show "\<exists>p. heap_top s = Some p \<and> (if tq_elems s = {} then p = NULL
      else p \<in> tq_elems s \<and> (\<forall>q \<in> tq_elems s. key s p \<le> key s q))"
    using timer_queue.peek_law [OF firing_tq [OF f]] .
  fix p assume "heap_top s = Some p" "p \<in> tq_elems s" "key s p \<le> reading clk (ticks s)"
  then obtain s' where "process_turn call clk s = Some (Inr s')" "firing C ret Q call cs n s'"
      "trace s' = trace s @ [cs p]"
      "agenda (tq_elems s') (key s') = (agenda (tq_elems s) (key s))
        (p := if ret (Suc (length (trace s))) (fst (cs p)) (snd (cs p)) \<le> 0 then None
          else Some (reading clk (ticks s + 1) + ret (Suc (length (trace s))) (fst (cs p)) (snd (cs p))))"
      "ticks s' = ticks s + (if ret (Suc (length (trace s))) (fst (cs p)) (snd (cs p)) \<le> 0 then 1 else 2)"
      "0 < ret (Suc (length (trace s))) (fst (cs p)) (snd (cs p)) \<longrightarrow>
        ret (Suc (length (trace s))) (fst (cs p)) (snd (cs p)) \<in> intervals ret C"
    by (rule firing_turn [OF f])
  then show "\<exists>s'. turn_of call clk s p = Some s' \<and> firing C ret Q call cs n s'
      \<and> length (trace s') = Suc (length (trace s))
      \<and> (if ret (Suc (length (trace s))) (fst (cs p)) (snd (cs p)) \<le> 0
          then agenda (tq_elems s') (key s') = (agenda (tq_elems s) (key s))(p := None) \<and> ticks s' = ticks s + 1
          else agenda (tq_elems s') (key s') = (agenda (tq_elems s) (key s))
              (p \<mapsto> reading clk (ticks s + 1) + ret (Suc (length (trace s))) (fst (cs p)) (snd (cs p)))
            \<and> ticks s' = ticks s + 2 \<and> ret (Suc (length (trace s))) (fst (cs p)) (snd (cs p)) \<in> intervals ret C)"
    by (intro exI [of _ s']) simp
qed

lemma turn_stops:
  assumes "tq_inv s" and "heap_top s = Some p"
  shows "p = NULL \<Longrightarrow> process_turn call clk s = Some (Inl s)"
    and "p \<noteq> NULL \<Longrightarrow> reading clk (ticks s) < key s p \<Longrightarrow> process_turn call clk s = Some (Inl (s\<lparr>ticks := ticks s + 1\<rparr>))"
proof -
  show "process_turn call clk s = Some (Inl s)" if "p = NULL" using that assms(2) by (simp add: process_turn_def)
  assume ne: "p \<noteq> NULL"
  then have elem: "p \<in> tq_elems s" using timer_queue.peek_law [OF assms(1)] assms(2) by (auto split: if_splits)
  obtain n ps where "timers_inv s n ps" using assms(1) by (auto simp: tq_inv_def)
  then have "heap_inv s n" by (simp add: timers_inv_def)
  then obtain t where t: "timers s p = Some t"
    using heap_inv_active(5) [of s n p] elem by (auto simp: tq_elems_def)
  show "process_turn call clk s = Some (Inl (s\<lparr>ticks := ticks s + 1\<rparr>))" if "reading clk (ticks s) < key s p"
    using that assms(2) ne t by (simp add: process_turn_def get_now_time_reading key_def)
qed

text \<open>The loop of the code is the loop of the contract; the final reading of the clock is counted.\<close>

lemma process_loop_drain:
  assumes "firing C ret Q call cs n s"
    and "drain heap_top key (turn_of call clk) (\<lambda>s. reading clk (ticks s)) k s = Some (s', ps)"
  shows "process_loop call clk s c = Some (Some
      (if tq_elems s' = {} then s' else s'\<lparr>ticks := ticks s' + 1\<rparr>, c + int (length ps)))
    \<and> trace s' = trace s @ map cs ps"
  using assms
proof (induction k arbitrary: s c ps)
  case 0
  then show ?case by simp
next
  case (Suc k)
  note inv = firing_tq [OF Suc.prems(1)]
  show ?case
  proof (cases rule: timer_queue.peek_cases [OF inv, where now = "reading clk (ticks s)"])
    case 1
    then show ?thesis using Suc.prems(2) turn_stops(1) [OF inv] by (subst process_loop.simps) auto
  next
    case (2 p)
    then have "tq_elems s \<noteq> {}" by blast
    then show ?thesis using 2 Suc.prems(2) turn_stops(2) [OF inv 2(1,2,4)] by (subst process_loop.simps) auto
  next
    case (3 p)
    obtain s1 where s1: "process_turn call clk s = Some (Inr s1)" "firing C ret Q call cs n s1" "trace s1 = trace s @ [cs p]"
      using firing_turn [OF Suc.prems(1) 3(1,3,4)] by metis
    then obtain qs where qs: "drain heap_top key (turn_of call clk) (\<lambda>s. reading clk (ticks s)) k s1 = Some (s', qs)"
        "ps = p # qs"
      using Suc.prems(2) 3(1,2,4) by (auto simp: bind_eq_Some_conv)
    show ?thesis using Suc.IH [OF s1(2) qs(1), of "c + 1"] s1(1,3) qs(2)
      by (subst process_loop.simps) (simp add: algebra_simps)
  qed
qed

lemma tq_inv_cong: "timers s' = timers s \<Longrightarrow> theap s' = theap s \<Longrightarrow> tq_inv s' = tq_inv s"
  by (simp add: tq_inv_def timers_inv_def heap_inv_def slots_ok_def at_slot_def key_def [abs_def])

lemma timers_inv_cong: "timers s' = timers s \<Longrightarrow> theap s' = theap s \<Longrightarrow> timers_inv s' n ps = timers_inv s n ps"
  by (simp add: timers_inv_def heap_inv_def slots_ok_def at_slot_def key_def [abs_def])

lemma firing_ticks: "firing C ret Q call cs n s \<Longrightarrow> firing C ret Q call cs n (s\<lparr>ticks := k\<rparr>)"
proof -
  assume f: "firing C ret Q call cs n s"
  have "Q (s\<lparr>ticks := k\<rparr>)" using f quiet_more [of C ret Q call s "s\<lparr>ticks := k\<rparr>"] by (simp add: firing_def)
  moreover have "timers_inv (s\<lparr>ticks := k\<rparr>) m ps = timers_inv s m ps" for m ps by (rule timers_inv_cong) simp_all
  ultimately show ?thesis using f by (simp add: firing_def call_of_def)
qed

lemma process_fires:
  assumes f: "firing C ret Q call cs n s" and "paced n (intervals ret C) (reading clk)"
  obtains s' fired where "process_time_events call clk s = Some (Some (s', int (length fired)))"
    and "firing C ret Q call cs n s'"
    and "fires (reading clk) (\<lambda>i p. ret i (fst (cs p)) (snd (cs p))) (agenda (set (active s)) (key s)) (ticks s)
      (length (trace s)) fired (agenda (set (active s')) (key s')) (ticks s')"
    and "trace s' = trace s @ map cs fired"
proof -
  obtain m ps where m: "timers_inv s m ps" "m \<le> n" using f unfolding firing_def by blast
  then have "length (active s) \<le> n" using heap_inv_active(2) by (auto simp: timers_inv_def)
  then have "card (tq_elems s) \<le> n" unfolding tq_elems_def using card_length [of "active s"] by linarith
  then obtain k s1 fired where run: "drain heap_top key (turn_of call clk) (\<lambda>s. reading clk (ticks s)) k s = Some (s1, fired)"
    using firing_queue.run_ends [OF f _ assms(2)] by blast
  have s1: "firing C ret Q call cs n s1"
      "fires (reading clk) (\<lambda>i p. ret i (fst (cs p)) (snd (cs p))) (agenda (tq_elems s) (key s)) (ticks s)
        (length (trace s)) fired (agenda (tq_elems s1) (key s1)) (if tq_elems s1 = {} then ticks s1 else Suc (ticks s1))"
    using firing_queue.run_fires [OF run f] by simp_all
  define s' where "s' = (if tq_elems s1 = {} then s1 else s1\<lparr>ticks := ticks s1 + 1\<rparr>)"
  have same: "tq_elems s' = tq_elems s1" "key s' = key s1" "trace s' = trace s1"
      "ticks s' = (if tq_elems s1 = {} then ticks s1 else Suc (ticks s1))"
    by (simp_all add: s'_def tq_elems_def key_def fun_eq_iff)
  have "process_time_events call clk s = Some (Some (s', int (length fired)))" "trace s' = trace s @ map cs fired"
    using process_loop_drain [OF f run, of 0] same(3) by (simp_all add: process_time_events_def s'_def)
  moreover have "firing C ret Q call cs n s'" using s1(1) firing_ticks [OF s1(1)] by (simp add: s'_def)
  ultimately show thesis using that s1(2) same by (simp add: tq_elems_def)
qed

text \<open>With the index of a timer that is not in the heap, \<^verbatim>\<open>_shift_down\<close> reads in front of the array.\<close>

lemma shift_down_negative: "shift_down s (-1) t = None"
proof -
  have "i32 (2 * (-1 + 1)) = Some 0" by (simp add: i32_def)
  moreover have "smaller_child s 0 = None \<or> smaller_child s 0 = Some (-1)"
    by (cases "tes_at s 0") (auto simp: smaller_child_def tes_at_def)
  moreover have "tes_at s (-1) = None" "place s (-1) t = None" by (simp_all add: tes_at_def place_def)
  ultimately show ?thesis by (subst shift_down.simps) (auto split: option.splits)
qed

section \<open>Properties\<close>

text \<open>A new heap, and the state of a program that has created it.\<close>

definition no_timers :: "timer_heap \<Rightarrow> tstate" where
  "no_timers h = \<lparr>timers = Map.empty, theap = h, ticks = 0, trace = []\<rparr>"

definition sample_timers :: tstate where
  "sample_timers = no_timers \<lparr>now = 0, all_slots = 16, tes = replicate 16 NULL, maxsize = 16, allocs = 0,
     psize = 0, head_next = NULL, tail = None\<rparr>"

lemma created_inv:
  assumes "timer_heap_create mem msize = Some h"
  shows "timers_inv (no_timers h) 0 []"
  using assms by (auto simp: timer_heap_create_def timers_inv_def no_timers_def heap_inv_def slots_ok_def
      heap_on_def split: if_splits)

lemma sample_created: "timer_heap_create (\<lambda>_. True) 10 = Some (theap sample_timers)"
  by (simp add: timer_heap_create_def sample_timers_def no_timers_def)

lemma sample_inv: "timers_inv sample_timers 0 []"
  using created_inv [OF sample_created] by (simp add: no_timers_def sample_timers_def)

text \<open>The state after one timer, with callback 1, was created at time 5250 to expire at 5300.\<close>

definition sample_clock :: clock where "sample_clock k = Timeval 5 (250000 + 100000 * int k)"

lemma sample_reading: "reading sample_clock k = 5250 + 100 * int k"
proof -
  have "(250000 + 100000 * int k) sdiv 1000 = (250 + 100 * int k) * 1000 sdiv 1000" by (simp add: algebra_simps)
  also have "\<dots> = 250 + 100 * int k" unfolding signed_divide_int_def by (simp add: sgn_if)
  finally show ?thesis by (simp add: reading_def sample_clock_def)
qed

lemma sample_paced: "\<forall>r \<in> R. 100 * (2 * int n + 1) < r \<Longrightarrow> paced n R (reading sample_clock)"
  unfolding paced_def sample_reading by (intro allI exI conjI ballI impI, rule order_refl) force

lemma sample_one:
  obtains s where "create_timer 8 (\<lambda>_. True) sample_clock sample_timers 50 1 77 = Some (s, 8)"
    and "timers_inv s 1 []" and "active s = [8]" and "key s 8 = 5300" and "ticks s = 1" and "call_of s 8 = (1, 77)"
    and "maxsize (theap s) = 16"
proof -
  have "0 < length (ents sample_timers)" by (simp add: sample_timers_def no_timers_def)
  moreover have "fresh (timers sample_timers) 8" by (simp add: fresh_def sample_timers_def no_timers_def)
  ultimately obtain s where s: "create_timer 8 (\<lambda>_. True) sample_clock sample_timers 50 1 77 = Some (s, 8)"
      "timers_inv s (Suc 0) (tl [])" "mset (active s) = add_mset 8 (mset (active sample_timers))"
      "key s = (key sample_timers)(8 := reading sample_clock (ticks sample_timers) + 50)"
      "call_of s 8 = (1, 77)" "ticks s = ticks sample_timers + 1" "maxsize (theap s) = maxsize (theap sample_timers)"
    using create_timer_ok [OF sample_inv, of 50 1 8 "\<lambda>_. True" sample_clock 77] by auto
  have "active sample_timers = []" by (simp add: sample_timers_def no_timers_def)
  then have "mset (active s) = {#8#}" using s(3) by simp
  then have "active s = [8]" by (metis mset_single_iff)
  moreover have "ticks sample_timers = 0" "maxsize (theap sample_timers) = 16"
    by (simp_all add: sample_timers_def no_timers_def)
  ultimately show thesis using that [of s] s by (simp add: sample_reading)
qed

text \<open>
  C1. \<^verbatim>\<open>process_time_events\<close>, for callbacks that return, leave the timers alone and ask for a further call
  (a positive return) or for none as they like: it ends, whenever the clock, again and again, is read
  \<open>2 n + 2\<close> times within the shortest interval asked for (nothing is needed of the clock when no callback
  asks for a further call). It does what \<open>fires\<close> says: while the earliest expiry is due, the callback of
  that timer is called, and its timer is deleted, or expires again at the time after the call plus the
  interval, in a heap that is in order. So a timer not called stays as it is and expires after the last
  reading of the clock, and a timer called was due; the number of calls is returned.
\<close>

theorem process_fires_due:
  assumes "timers_inv s n ps" and "n < 2 ^ 29" and "call_of s ` set (active s) \<subseteq> C" and "quiet C ret Q call" and "Q s"
    and "paced n (intervals ret C) (reading clk)"
  shows "\<exists>s' fired. process_time_events call clk s = Some (Some (s', int (length fired))) \<and> tq_inv s' \<and> Q s'
    \<and> fires (reading clk) (\<lambda>i p. ret i (fst (call_of s p)) (snd (call_of s p))) (agenda (set (active s)) (key s))
        (ticks s) (length (trace s)) fired (agenda (set (active s')) (key s')) (ticks s')
    \<and> trace s' = trace s @ map (call_of s) fired
    \<and> (\<forall>p \<in> set (active s'). call_of s' p = call_of s p \<and> reading clk (ticks s' - 1) < key s' p)
    \<and> (\<forall>p \<in> set (active s) - set fired. p \<in> set (active s') \<and> key s' p = key s p)
    \<and> (\<forall>p \<in> set fired. p \<in> set (active s) \<and> (\<exists>j. ticks s \<le> j \<and> j < ticks s' \<and> key s p \<le> reading clk j))"
proof -
  have "firing C ret Q call (call_of s) n s" using assms(1-5) by (auto simp: firing_def)
  then obtain s' fired where s': "process_time_events call clk s = Some (Some (s', int (length fired)))"
      "firing C ret Q call (call_of s) n s'"
      "fires (reading clk) (\<lambda>i p. ret i (fst (call_of s p)) (snd (call_of s p))) (agenda (set (active s)) (key s))
        (ticks s) (length (trace s)) fired (agenda (set (active s')) (key s')) (ticks s')"
      "trace s' = trace s @ map (call_of s) fired"
    using process_fires assms(6) by blast
  have "p \<in> set (active s') \<and> key s' p = key s p" if "p \<in> set (active s) - set fired" for p
  proof -
    have "agenda (set (active s')) (key s') p = Some (key s p)"
      using fires_others [OF s'(3), of p] that by (simp add: agenda_def)
    then show ?thesis by simp
  qed
  moreover have "p \<in> set (active s) \<and> (\<exists>j. ticks s \<le> j \<and> j < ticks s' \<and> key s p \<le> reading clk j)" if "p \<in> set fired" for p
    using fires_due [OF s'(3) that] by auto
  moreover have "call_of s' p = call_of s p \<and> reading clk (ticks s' - 1) < key s' p" if "p \<in> set (active s')" for p
    using that s'(2) fires_rest [OF s'(3), of p "key s' p"] by (simp add: firing_def)
  ultimately show ?thesis using s' firing_tq [OF s'(2)] by (intro exI [of _ s'] exI [of _ fired]) (simp add: firing_def)
qed

text \<open>A timer of 50 ms that asks to be called again after 1000 ms: due at 5300, called at 5350, again at 6450.\<close>

theorem process_fires_due_witness:
  "\<exists>s s'. create_timer 8 (\<lambda>_. True) sample_clock sample_timers 50 1 77 = Some (s, 8)
    \<and> process_time_events (\<lambda>cb s d. Some (s, 1000)) sample_clock s = Some (Some (s', 1))
    \<and> active s' = [8] \<and> key s' 8 = 6450 \<and> trace s' = trace s @ [(1, 77)] \<and> ticks s' = 4"
proof -
  obtain s where s: "create_timer 8 (\<lambda>_. True) sample_clock sample_timers 50 1 77 = Some (s, 8)"
      "timers_inv s 1 []" "active s = [8]" "key s 8 = 5300" "ticks s = 1" "call_of s 8 = (1, 77)"
    by (rule sample_one)
  let ?ret = "\<lambda>(i :: nat) (cb :: nat) (d :: ptr). 1000 :: int"
  have "quiet {(1, 77)} ?ret (\<lambda>_. True) (\<lambda>cb (s :: tstate) d. Some (s, 1000))" by (simp add: quiet_def)
  moreover have "paced 1 (intervals ?ret {(1, 77)}) (reading sample_clock)"
    by (rule sample_paced) (auto simp: intervals_def)
  ultimately obtain s' fired where f:
      "process_time_events (\<lambda>cb s d. Some (s, 1000)) sample_clock s = Some (Some (s', int (length fired)))" "tq_inv s'"
      "fires (reading sample_clock) (\<lambda>i p. 1000) (agenda {8} (key s)) 1 (length (trace s)) fired
        (agenda (set (active s')) (key s')) (ticks s')"
      "trace s' = trace s @ map (call_of s) fired"
    using process_fires_due [OF s(2), of "{(1, 77)}" ?ret "\<lambda>_. True" "\<lambda>cb s d. Some (s, 1000)" sample_clock] s(3,5,6)
    by auto
  have start: "agenda {8} (key s) = [8 \<mapsto> 5300]" by (auto simp: agenda_def s(4) fun_eq_iff)
  have "fired = [8] \<and> agenda (set (active s')) (key s') = [8 \<mapsto> 6450] \<and> ticks s' = 4"
    using f(3) unfolding start
  proof (cases rule: fires.cases)
    case (again p ps)
    then have p: "p = 8" by (simp add: least_due_def split: if_splits)
    have "fires (reading sample_clock) (\<lambda>i p. 1000) [8 \<mapsto> 6450] 3 (Suc (length (trace s))) ps
        (agenda (set (active s')) (key s')) (ticks s')"
      using again by (simp add: p sample_reading eval_nat_numeral)
    then show ?thesis
    proof (cases rule: fires.cases)
      case early
      then show ?thesis using again(1) p by simp
    qed (auto simp: least_due_def sample_reading fun_eq_iff split: if_splits)
  qed (auto simp: least_due_def sample_reading fun_eq_iff split: if_splits)
  then have r: "fired = [8]" "agenda (set (active s')) (key s') = [8 \<mapsto> 6450]" "ticks s' = 4" by blast+
  have "set (active s') = dom (agenda (set (active s')) (key s'))" by (auto simp: dom_def)
  then have set': "set (active s') = {8}" unfolding r(2) by simp
  obtain n ps where "timers_inv s' n ps" using f(2) by (auto simp: tq_inv_def)
  then have "distinct (active s')" using heap_inv_active(3) by (auto simp: timers_inv_def)
  moreover have "xs = [8]" if "distinct xs" "set xs = {8}" for xs :: "ptr list"
  proof (cases xs)
    case (Cons x r)
    then have "x = 8" "set r \<subseteq> {8}" "8 \<notin> set r" using that by auto
    then have "set r = {}" by (metis insertI1 subset_singletonD)
    then show ?thesis using Cons \<open>x = 8\<close> by simp
  qed (use that in simp)
  ultimately have "active s' = [8]" using set' by blast
  moreover have "key s' 8 = 6450" using fun_cong [OF r(2), of 8] by (simp add: agenda_def set')
  ultimately show ?thesis using s(1,6) f(1,4) r by auto
qed

text \<open>
  C7. \<^verbatim>\<open>create_timer\<close> takes the structure at the front of the pool (or, when the pool is empty, the one
  \<^verbatim>\<open>malloc\<close> returns), puts it into the heap to expire at the time now plus the interval, and changes no
  other timer. The array is doubled when it is full.
\<close>

theorem create_timer_spec:
  assumes "timers_inv s n ps" and "n < 2 ^ 29" and "0 < msec" and "cb \<noteq> 0"
    and "ps = [] \<longrightarrow> fresh (timers s) p" and "n < length (ents s) \<or> mem (max (int n * 2) (int n + 1) * 8)"
  shows "\<exists>s'. create_timer p mem clk s msec cb data = Some (s', if ps = [] then p else hd ps)
    \<and> timers_inv s' (Suc n) (tl ps) \<and> mset (active s') = add_mset (if ps = [] then p else hd ps) (mset (active s))
    \<and> key s' = (key s)((if ps = [] then p else hd ps) := reading clk (ticks s) + msec)
    \<and> call_of s' (if ps = [] then p else hd ps) = (cb, data)"
proof -
  have "ps = [] \<Longrightarrow> fresh (timers s) p" using assms(5) by blast
  then show ?thesis using create_timer_ok [OF assms(1-4), of p mem clk data] assms(6) by metis
qed

theorem create_timer_spec_witness:
  "\<exists>s'. create_timer 8 (\<lambda>_. False) sample_clock sample_timers 50 1 77 = Some (s', 8) \<and> timers_inv s' 1 []
    \<and> key s' 8 = 5300"
proof -
  have "0 < length (ents sample_timers)" "fresh (timers sample_timers) 8" "ticks sample_timers = 0"
    by (simp_all add: sample_timers_def no_timers_def fresh_def)
  then show ?thesis
    using create_timer_spec [OF sample_inv, of 50 1 8 "\<lambda>_. False" sample_clock 77]
    by (auto simp: sample_reading)
qed

text \<open>
  C8. \<^verbatim>\<open>delete_timer\<close> of a timer in the heap removes it, and only it; the structure goes to the end of the
  pool, or is freed when there are more structures than \<^verbatim>\<open>maxsize\<close>. Of a structure in the pool it
  returns -1 and changes nothing.
\<close>

theorem delete_timer_spec:
  assumes "timers_inv s n ps" and "n < 2 ^ 29"
  shows "(t \<in> set (active s) \<longrightarrow> (\<exists>s'. delete_timer s t = Some (s', 0)
      \<and> timers_inv s' (n - 1) (if allocs (theap s) > maxsize (theap s) then ps else ps @ [t])
      \<and> add_mset t (mset (active s')) = mset (active s) \<and> (\<forall>p. p \<noteq> t \<longrightarrow> key s' p = key s p)
      \<and> (allocs (theap s) > maxsize (theap s) \<longrightarrow> timers s' t = None)))
    \<and> (t \<in> set ps \<longrightarrow> delete_timer s t = Some (s, -1))"
proof (intro conjI impI)
  assume t: "t \<in> set (active s)"
  have heap: "heap_inv s n" using assms(1) by (simp add: timers_inv_def)
  obtain i where "i < n" using heap_inv_active(4) [OF heap t] by blast
  then obtain k where k: "n = Suc k" by (cases n) auto
  show "\<exists>s'. delete_timer s t = Some (s', 0)
      \<and> timers_inv s' (n - 1) (if allocs (theap s) > maxsize (theap s) then ps else ps @ [t])
      \<and> add_mset t (mset (active s')) = mset (active s) \<and> (\<forall>p. p \<noteq> t \<longrightarrow> key s' p = key s p)
      \<and> (allocs (theap s) > maxsize (theap s) \<longrightarrow> timers s' t = None)"
    by (rule delete_timer_ok [OF assms(1,2) [unfolded k] t]) (use k in auto)
next
  assume "t \<in> set ps"
  then have "t \<noteq> NULL \<and> (\<exists>u. timers s t = Some u \<and> min_heap_idx u = -1)"
    using pool_chain_idx assms(1) by (auto simp: timers_inv_def)
  then show "delete_timer s t = Some (s, -1)" by (auto simp: delete_timer_def)
qed

theorem delete_timer_spec_witness:
  "\<exists>s s'. create_timer 8 (\<lambda>_. True) sample_clock sample_timers 50 1 77 = Some (s, 8)
    \<and> delete_timer s 8 = Some (s', 0) \<and> mset (active s') = {#}"
proof -
  obtain s where s: "create_timer 8 (\<lambda>_. True) sample_clock sample_timers 50 1 77 = Some (s, 8)"
      "timers_inv s 1 []" "active s = [8]"
    by (rule sample_one)
  have "8 \<in> set (active s)" using s(3) by simp
  then obtain s' where "delete_timer s 8 = Some (s', 0)" "add_mset 8 (mset (active s')) = mset (active s)"
    using delete_timer_spec [OF s(2), of 8] by auto
  moreover from this(2) have "mset (active s') = {#}" using s(3) by simp
  ultimately show ?thesis using s(1) by blast
qed

text \<open>
  \<^verbatim>\<open>get_shortest_msec\<close> is -1 without timers, and else the time until the earliest expiry, cut to
  the range from 0 to the largest 32-bit number; so the event loop sleeps no longer than until then.
\<close>

theorem get_shortest_msec_spec:
  assumes "timers_inv s n ps"
  shows "get_shortest_msec clk s = (if n = 0 then Some (s, -1) else Some (s\<lparr>ticks := ticks s + 1\<rparr>,
    max 0 (min 2147483647 (Min (key s ` set (active s)) - reading clk (ticks s)))))"
proof -
  have heap: "heap_inv s n" using assms by (simp add: timers_inv_def)
  show ?thesis
  proof (cases "n = 0")
    case True
    then show ?thesis using heap_top_least(1) [OF heap] by (simp add: get_shortest_msec_def)
  next
    case False
    let ?p = "ents s ! 0"
    have p: "heap_top s = Some ?p" "?p \<in> set (active s)" "?p \<noteq> NULL"
        "\<forall>q \<in> set (active s). key s ?p \<le> key s q"
      using heap_top_least(2) [OF heap] False by auto
    obtain t where t: "timers s ?p = Some t" using heap_inv_active(5) [OF heap p(2)] by auto
    have "Min (key s ` set (active s)) = key s ?p"
      using p(2,4) by (intro Min_eqI) auto
    then show ?thesis using False p(1,3) t
      by (auto simp: get_shortest_msec_def get_now_time_reading key_def Let_def)
  qed
qed

theorem get_shortest_msec_spec_witness:
  "\<exists>s. create_timer 8 (\<lambda>_. True) sample_clock sample_timers 50 1 77 = Some (s, 8)
    \<and> get_shortest_msec (\<lambda>_. Timespec 5 280000000) s = Some (s\<lparr>ticks := 2\<rparr>, 20)"
proof -
  obtain s where s: "create_timer 8 (\<lambda>_. True) sample_clock sample_timers 50 1 77 = Some (s, 8)"
      "timers_inv s 1 []" "active s = [8]" "key s 8 = 5300" "ticks s = 1"
    by (rule sample_one)
  have "reading (\<lambda>_. Timespec 5 280000000) 1 = 5280" by (simp add: reading_def signed_divide_int_def)
  then show ?thesis using get_shortest_msec_spec [OF s(2), of "\<lambda>_. Timespec 5 280000000"] s by auto
qed

text \<open>
  A callback that returns a positive number and leaves the timers alone is called again later:
  the turn sets the expiry of its timer to the time after the call plus that number, and restores the
  order of the heap. No timer is added or removed.
\<close>

theorem process_turn_rearms:
  assumes "timers_inv s n ps" and "n < 2 ^ 29" and "0 < n" and "heap_top s = Some p"
    and "key s p \<le> reading clk (ticks s)" and "0 < r" and "\<forall>cb s d. call cb s d = Some (s, r)"
  shows "\<exists>s'. process_turn call clk s = Some (Inr s') \<and> timers_inv s' n ps
    \<and> mset (active s') = mset (active s) \<and> key s' = (key s)(p := reading clk (ticks s + 1) + r)
    \<and> trace s' = trace s @ [call_of s p]"
proof -
  have "call (fst (call_of s p)) (called s p) (snd (call_of s p)) = Some (called s p, r)" using assms(7) by blast
  then show ?thesis using turn_rearms [OF assms(1-6), of call "called s p"] by auto
qed

theorem process_turn_rearms_witness:
  "\<exists>s s'. create_timer 8 (\<lambda>_. True) sample_clock sample_timers 50 1 77 = Some (s, 8)
    \<and> process_turn (\<lambda>cb s d. Some (s, 30)) sample_clock s = Some (Inr s') \<and> key s' 8 = 5480"
proof -
  obtain s where s: "create_timer 8 (\<lambda>_. True) sample_clock sample_timers 50 1 77 = Some (s, 8)"
      "timers_inv s 1 []" "active s = [8]" "key s 8 = 5300" "ticks s = 1"
    by (rule sample_one)
  have "heap_inv s 1" using s(2) by (simp add: timers_inv_def)
  then have "heap_top s = Some 8" using heap_top_least(2) [of s 1] s(3) by auto
  then show ?thesis
    using process_turn_rearms [OF s(2), of 8 sample_clock 30 "\<lambda>cb s d. Some (s, 30)"] s(1,4,5)
    by (auto simp: sample_reading)
qed

lemma process_loop_runs_on:
  "process_loop call clk s c = Some x \<Longrightarrow> timers_inv s 1 ps \<Longrightarrow> heap_top s = Some p \<Longrightarrow> key s p \<le> reading clk (ticks s) \<Longrightarrow>
     0 < r \<Longrightarrow> \<forall>cb s d. call cb s d = Some (s, r) \<Longrightarrow> \<forall>k. reading clk k + r \<le> reading clk (k + 1) \<Longrightarrow> False"
proof (induction arbitrary: p rule: process_loop.raw_induct [rotated 1, consumes 1, case_names 1])
  case (1 f call clk s c x)
  have "call (fst (call_of s p)) (called s p) (snd (call_of s p)) = Some (called s p, r)" using 1(7) by blast
  then obtain s' where s': "process_turn call clk s = Some (Inr s')" "timers_inv s' 1 ps"
      "mset (active s') = mset (active s)" "key s' = (key s)(p := reading clk (ticks s + 1) + r)" "ticks s' = ticks s + 2"
    using turn_rearms [OF 1(3) _ _ 1(4-6), of call "called s p"] by auto
  have "heap_inv s 1" "heap_inv s' 1" using 1(3) s'(2) by (simp_all add: timers_inv_def)
  note top = heap_top_least(2) [OF this(1)] heap_top_least(2) [OF this(2)]
    and len = heap_inv_active(2) [OF this(1)]
  have p: "p \<in> set (active s)" using top(1) 1(4) by simp
  obtain q where q: "heap_top s' = Some q" "q \<in> set (active s')" using top(2) by auto
  have "set (active s') = set (active s)" using s'(3) by (metis set_mset_mset)
  moreover have "a = b" if "length xs = 1" "a \<in> set xs" "b \<in> set xs" for xs :: "ptr list" and a b
    using that by (cases xs) auto
  ultimately have "q = p" using len p q(2) by metis
  moreover have "reading clk (ticks s + 1) + r \<le> reading clk (ticks s')" using 1(8) s'(5) by (metis add.assoc one_add_one)
  ultimately have due: "heap_top s' = Some p" "key s' p \<le> reading clk (ticks s')" using q(1) s'(4) by simp_all
  have "f call clk s' (c + 1) = Some x" using 1(2) s'(1) by simp
  then show ?case using "1.IH" s'(2) due 1(6-8) by blast
qed

text \<open>
  Without a condition on the clock the loop need not end: a timer that asks to be called again after \<open>r\<close>
  milliseconds is called for ever when any two readings of the clock in a row are that far apart.
\<close>

theorem process_runs_on:
  assumes "timers_inv s 1 ps" and "heap_top s = Some p" and "key s p \<le> reading clk (ticks s)" and "0 < r"
    and call: "\<forall>cb s d. call cb s d = Some (s, r)" and clock: "\<forall>k. reading clk k + r \<le> reading clk (k + 1)"
  shows "process_time_events call clk s = None"
proof (rule ccontr)
  assume "process_time_events call clk s \<noteq> None"
  then obtain x where "process_loop call clk s 0 = Some x" by (auto simp: process_time_events_def)
  then show False by (rule process_loop_runs_on [OF _ assms])
qed

theorem process_runs_on_witness:
  "\<exists>s. create_timer 8 (\<lambda>_. True) sample_clock sample_timers 50 1 77 = Some (s, 8)
    \<and> process_time_events (\<lambda>cb s d. Some (s, 30)) (\<lambda>k. Timeval (10 + int k) 0) s = None"
proof -
  obtain s where s: "create_timer 8 (\<lambda>_. True) sample_clock sample_timers 50 1 77 = Some (s, 8)"
      "timers_inv s 1 []" "active s = [8]" "key s 8 = 5300" "ticks s = 1"
    by (rule sample_one)
  have "heap_inv s 1" using s(2) by (simp add: timers_inv_def)
  then have "heap_top s = Some 8" using heap_top_least(2) [of s 1] s(3) by auto
  moreover have "reading (\<lambda>k. Timeval (10 + int k) 0) k = 1000 * (10 + int k)" for k by (simp add: reading_def)
  ultimately show ?thesis
    using process_runs_on [OF s(2), of 8 "\<lambda>k. Timeval (10 + int k) 0" 30 "\<lambda>cb s d. Some (s, 30)"] s(1,4,5) by simp
qed

text \<open>
  C39. A callback that deletes its own timer and returns a positive number, as it may to be called
  again, makes \<^verbatim>\<open>process_time_events\<close> access memory outside the array or a freed structure: the timer is
  adjusted although its index is -1.
\<close>

theorem callback_deletes_own_timer:
  assumes "timers_inv s n ps" and "n < 2 ^ 29" and "0 < n" and "heap_top s = Some p"
    and "key s p \<le> reading clk (ticks s)" and "0 < r"
    and "\<forall>cb s d. call cb s d = map_option (\<lambda>(s', _). (s', r)) (delete_timer s p)"
  shows "process_turn call clk s = None \<and> process_time_events call clk s = Some None"
proof -
  have inv: "tq_inv s" using assms(1,2) unfolding tq_inv_def by blast
  have heap: "heap_inv s n" using assms(1) by (simp add: timers_inv_def)
  have p: "p \<in> set (active s)" "p \<noteq> NULL" using heap_top_least(2) [OF heap assms(3)] assms(4) by auto
  obtain t where t: "timers s p = Some t" using heap_inv_active(5) [OF heap p(1)] by auto
  then have key: "key s p = when_msec t" "call_of s p = (tcb t, tdata t)" by (simp_all add: key_def call_of_def)
  obtain k where k: "n = Suc k" using assms(3) by (cases n) auto
  obtain s1 where s1: "delete_timer (called s p) p = Some (s1, 0)"
      "timers s1 p = None \<or> (\<exists>u. timers s1 p = Some u \<and> min_heap_idx u = -1)"
  proof -
    have "timers_inv (called s p) (Suc k) ps" "Suc k < 2 ^ 29" "p \<in> set (active (called s p))"
      using assms(1,2) k p(1) by simp_all
    then show thesis by (rule delete_timer_ok) (use that in blast)
  qed
  have "process_turn call clk s = None"
  proof (cases "timers s1 p")
    case None
    then show ?thesis using assms(4-7) p t key s1(1)
      by (simp add: process_turn_def get_now_time_reading add_millisec_to_now_def called_def modify_def load_def)
  next
    case (Some u)
    then have "min_heap_idx u = -1" using s1(2) by simp
    then have "heap_adjust (s1\<lparr>ticks := x, timers := (timers s1)(p \<mapsto> u\<lparr>when_msec := w\<rparr>)\<rparr>) p = None" for x w
      using p(2) by (simp add: heap_adjust_def shift_down_negative)
    then show ?thesis using assms(4-7) p t key s1(1) Some
      by (simp add: process_turn_def get_now_time_reading add_millisec_to_now_def called_def)
  qed
  then show ?thesis by (simp add: process_time_events_def process_loop.simps)
qed

theorem callback_deletes_own_timer_witness:
  "\<exists>s. create_timer 8 (\<lambda>_. True) sample_clock sample_timers 50 1 77 = Some (s, 8)
    \<and> process_time_events (\<lambda>cb s d. map_option (\<lambda>(s', _). (s', 30)) (delete_timer s 8)) sample_clock s = Some None"
proof -
  obtain s where s: "create_timer 8 (\<lambda>_. True) sample_clock sample_timers 50 1 77 = Some (s, 8)"
      "timers_inv s 1 []" "active s = [8]" "key s 8 = 5300" "ticks s = 1"
    by (rule sample_one)
  have "heap_inv s 1" using s(2) by (simp add: timers_inv_def)
  then have "heap_top s = Some 8" using heap_top_least(2) [of s 1] s(3) by auto
  then show ?thesis
    using callback_deletes_own_timer [OF s(2), of 8 sample_clock 30
        "\<lambda>cb s d. map_option (\<lambda>(s', _). (s', 30)) (delete_timer s 8)"] s(1,4,5)
    by (simp add: sample_reading)
qed

text \<open>
  A callback that deletes its own timer while the pool is empty, creates another timer and returns
  0, loses the new timer: it gets the structure of the old one, which \<^verbatim>\<open>process_time_events\<close> then deletes.
\<close>

theorem callback_replaces_timer:
  assumes "timers_inv s n []" and "n < 2 ^ 29" and "0 < n" and "heap_top s = Some p"
    and "key s p \<le> reading clk (ticks s)" and "\<not> allocs (theap s) > maxsize (theap s)"
    and "0 < msec" and "cb' \<noteq> 0"
    and "\<forall>cb s d. call cb s d =
      do { (s1, _) \<leftarrow> delete_timer s p; (s2, q) \<leftarrow> create_timer NULL mem clk s1 msec cb' data'; Some (s2, 0) }"
  shows "\<exists>s1 s2 s3. delete_timer (called s p) p = Some (s1, 0)
    \<and> create_timer NULL mem clk s1 msec cb' data' = Some (s2, p) \<and> p \<in> set (active s2)
    \<and> process_turn call clk s = Some (Inr s3) \<and> add_mset p (mset (active s3)) = mset (active s)"
proof -
  have heap: "heap_inv s n" using assms(1) by (simp add: timers_inv_def)
  have p: "p \<in> set (active s)" "p \<noteq> NULL" using heap_top_least(2) [OF heap assms(3)] assms(4) by auto
  obtain t where t: "timers s p = Some t" using heap_inv_active(5) [OF heap p(1)] by auto
  then have key: "key s p = when_msec t" "call_of s p = (tcb t, tdata t)" by (simp_all add: key_def call_of_def)
  obtain k where k: "n = Suc k" using assms(3) by (cases n) auto
  then have k_small: "Suc k < 2 ^ 29" "k < 2 ^ 29" using assms(2) by simp_all
  have "timers_inv (called s p) (Suc k) []" "p \<in> set (active (called s p))"
    using assms(1) k p(1) by simp_all
  then obtain s1 where s1: "delete_timer (called s p) p = Some (s1, 0)"
      "add_mset p (mset (active s1)) = mset (active (called s p))"
      "timers_inv s1 k (if allocs (theap (called s p)) > maxsize (theap (called s p)) then [] else [] @ [p])"
      "length (ents s1) = length (ents (called s p))"
    using delete_timer_ok k_small(1) by metis
  have inv1: "timers_inv s1 k [p]" using s1(3) assms(6) by simp
  have "Suc k \<le> length (ents s)" using heap k by (simp add: heap_inv_def slots_ok_def)
  then have room: "k < length (ents s1) \<or> mem (max (int k * 2) (int k + 1) * 8)" using s1(4) by simp
  obtain s2 where s2: "create_timer NULL mem clk s1 msec cb' data' = Some (s2, p)" "timers_inv s2 (Suc k) []"
      "mset (active s2) = add_mset p (mset (active s1))"
    using create_timer_ok [OF inv1 k_small(2) assms(7,8), of NULL mem clk data'] room by auto
  have act2: "mset (active s2) = mset (active s)" using s1(2) s2(3) by simp
  then have p2: "p \<in> set (active s2)" using p(1) by (metis set_mset_mset)
  obtain s3 where s3: "delete_timer s2 p = Some (s3, 0)" "add_mset p (mset (active s3)) = mset (active s2)"
    using delete_timer_ok [OF s2(2) k_small(1) p2] by metis
  have "process_turn call clk s = Some (Inr s3)"
    using assms(4,5,9) p(2) t key s1(1) s2(1) s3(1)
    by (simp add: process_turn_def get_now_time_reading called_def)
  then show ?thesis using s1(1) s2(1) p2 s3(2) act2 by auto
qed

theorem callback_replaces_timer_witness:
  "\<exists>s s3. create_timer 8 (\<lambda>_. True) sample_clock sample_timers 50 1 77 = Some (s, 8)
    \<and> process_turn (\<lambda>cb s d. do { (s1, _) \<leftarrow> delete_timer s 8;
          (s2, q) \<leftarrow> create_timer NULL (\<lambda>_. True) sample_clock s1 60 2 78; Some (s2, 0) }) sample_clock s = Some (Inr s3)
    \<and> mset (active s3) = {#}"
proof -
  obtain s where s: "create_timer 8 (\<lambda>_. True) sample_clock sample_timers 50 1 77 = Some (s, 8)"
      "timers_inv s 1 []" "active s = [8]" "key s 8 = 5300" "ticks s = 1"
      "maxsize (theap s) = 16"
    by (rule sample_one)
  have "heap_inv s 1" "allocs (theap s) = 1" using s(2) by (simp_all add: timers_inv_def)
  moreover from this(1) have "heap_top s = Some 8" using heap_top_least(2) [of s 1] s(3) by auto
  ultimately show ?thesis
    using callback_replaces_timer [OF s(2), of 8 sample_clock 60 2 "\<lambda>cb s d. do { (s1, _) \<leftarrow> delete_timer s 8;
          (s2, q) \<leftarrow> create_timer NULL (\<lambda>_. True) sample_clock s1 60 2 78; Some (s2, 0) }" "\<lambda>_. True" 78] s(1,3,4,5,6)
    by (auto simp: sample_reading)
qed

text \<open>
  When the array is full and cannot be enlarged, \<^verbatim>\<open>create_timer\<close> returns null but keeps the structure
  it took: it is live, in neither the heap nor the pool, and is counted in \<^verbatim>\<open>allocs\<close> for ever.
\<close>

theorem create_timer_leaks:
  assumes "timers_inv s n ps" and "n < 2 ^ 29" and "0 < msec" and "cb \<noteq> 0"
    and "ps = [] \<longrightarrow> fresh (timers s) p" and "length (ents s) = n" and "\<forall>k. \<not> mem k"
  shows "\<exists>s'. create_timer p mem clk s msec cb data = Some (s', NULL) \<and> active s' = active s
    \<and> pool_chain (timers s') (head_next (theap s')) (tl ps)
    \<and> timers s' (if ps = [] then p else hd ps) \<noteq> None
    \<and> (if ps = [] then p else hd ps) \<notin> set (active s') \<union> set (tl ps)
    \<and> allocs (theap s') = int (n + length (tl ps)) + 1"
proof -
  have p: "ps = [] \<Longrightarrow> fresh (timers s) p" using assms(5) by blast
  let ?te = "if ps = [] then p else hd ps"
  define t where "t = \<lparr>min_heap_idx = -1, when_msec = reading clk (ticks s) + msec, tdata = data, tcb = cb, tnext = NULL\<rparr>"
  define s1 where "s1 = prepared s ps ?te t"
  have pre: "heap_inv s1 n" "live_timer s1 ?te" "?te \<notin> set (active s)" "?te \<notin> set (tl ps)"
      "pool_chain (timers s1) (head_next (theap s1)) (tl ps)"
    using prepared_inv [OF assms(1) p, of t] by (simp_all add: s1_def t_def)
  have now: "now (theap s1) = int n" "all_slots (theap s1) = int n" and len: "length (ents s1) = n"
    using assms(1,6) by (simp_all add: timers_inv_def heap_inv_def s1_def prepared_def)
  have "i32 (int n + 1) = Some (int n + 1)" using assms(2) by (intro i32_small) auto
  moreover have "reserve mem s1 (int n + 1) = Some (s1, -1)"
    using reserve_ok [OF pre(1) assms(2) len, of mem] assms(7) by simp
  ultimately have "heap_push mem s1 ?te = Some (s1, -1)"
    using now by (simp add: heap_push_def)
  then have "create_timer p mem clk s msec cb data = Some (s1, NULL)"
    using create_timer_prepared [OF assms(1,3,4) p refl t_def, of mem] by (simp add: s1_def)
  moreover have "active s1 = active s" by (simp add: s1_def prepared_def)
  moreover have "allocs (theap s1) = int (n + length (tl ps)) + 1"
    using assms(1) by (cases ps) (simp_all add: timers_inv_def s1_def prepared_def)
  ultimately show ?thesis using pre by (auto simp: live_timer_def)
qed

text \<open>A heap of no capacity stands for a full one.\<close>

theorem create_timer_leaks_witness:
  "\<exists>s'. create_timer 8 (\<lambda>_. False) sample_clock (no_timers \<lparr>now = 0, all_slots = 0, tes = [], maxsize = 16,
      allocs = 0, psize = 0, head_next = NULL, tail = None\<rparr>) 50 1 77 = Some (s', NULL)
    \<and> timers s' 8 \<noteq> None \<and> active s' = [] \<and> head_next (theap s') = NULL \<and> allocs (theap s') = 1"
proof -
  let ?s = "no_timers \<lparr>now = 0, all_slots = 0, tes = [], maxsize = 16, allocs = 0, psize = 0,
    head_next = NULL, tail = None\<rparr>"
  have "timers_inv ?s 0 []"
    by (simp add: timers_inv_def no_timers_def heap_inv_def slots_ok_def heap_on_def)
  moreover have "fresh (timers ?s) 8" "length (ents ?s) = 0" "active ?s = []"
    by (simp_all add: no_timers_def fresh_def)
  ultimately show ?thesis
    using create_timer_leaks [of ?s 0 "[]" 50 1 8 "\<lambda>_. False" sample_clock 77] by auto
qed

text \<open>
  \<^verbatim>\<open>timer_heap_delete\<close> ends and frees exactly the structures in the pool; the timers still in the
  heap are never freed.
\<close>

theorem timer_heap_delete_pool_only:
  assumes "timers_inv s n ps"
  shows "\<exists>m. timer_heap_delete s = Some m \<and> dom m = set (active s)"
proof -
  have "free_pool p h = Some (\<lambda>q. if q \<in> set qs then None else h q)"
    if "pool_chain h p qs" "distinct qs" for h p qs
    using that
  proof (induction qs arbitrary: h p)
    case Nil
    then show ?case by (subst free_pool.simps) simp
  next
    case (Cons q qs)
    then obtain t :: timer where t: "p = q" "q \<noteq> NULL" "h q = Some t" "pool_chain h (tnext t) qs" by auto
    then have chain: "pool_chain (h(q := None)) (tnext t) qs" using Cons.prems(2) by simp
    have "distinct qs" using Cons.prems(2) by simp
    then have "free_pool (tnext t) (h(q := None)) = Some (\<lambda>r. if r \<in> set qs then None else (h(q := None)) r)"
      by (rule Cons.IH [OF chain])
    then show ?case using t(1-3) by (subst free_pool.simps) (simp add: fun_eq_iff)
  qed
  then have "timer_heap_delete s = Some (\<lambda>q. if q \<in> set ps then None else timers s q)"
    using assms by (simp add: timers_inv_def timer_heap_delete_def)
  moreover have "dom (\<lambda>q. if q \<in> set ps then None else timers s q) = dom (timers s) - set ps"
    by (auto split: if_splits)
  ultimately show ?thesis using assms active_pool_disjoint [OF assms] by (auto simp: timers_inv_def)
qed

theorem timer_heap_delete_pool_only_witness:
  "\<exists>s m. create_timer 8 (\<lambda>_. True) sample_clock sample_timers 50 1 77 = Some (s, 8)
    \<and> timer_heap_delete s = Some m \<and> dom m = {8}"
proof -
  obtain s where s: "create_timer 8 (\<lambda>_. True) sample_clock sample_timers 50 1 77 = Some (s, 8)"
      "timers_inv s 1 []" "active s = [8]"
    by (rule sample_one)
  then show ?thesis using timer_heap_delete_pool_only [OF s(2)] by auto
qed

end
