(* ===== verification/Event_Turn.thy ===== *)
theory Event_Turn
  imports Event_Backends Timer_Loop
begin

text \<open>
  One turn of the event loop: the ready descriptors of \<^verbatim>\<open>kznet/event.c\<close> and \<^verbatim>\<open>kznet/poller.c\<close> together with
  the timers of \<^verbatim>\<open>kznet/timer.c\<close>, and the loop over the turns.
\<close>

unbundle bit_operations_syntax

section \<open>The rest of the loop\<close>

lemma more_fields:
  assumes "tstate.more l' = tstate.more (l :: ('p, 'z) eloop_scheme)"
  shows "events l' = events l" "actives l' = actives l" "setsize l' = setsize l" "maxfd l' = maxfd l"
    "poller l' = poller l" "stop l' = stop l" "etrace l' = etrace l"
  using assms by (cases l; cases l'; simp)+

lemma synced_more: "tstate.more l' = tstate.more l \<Longrightarrow> synced watching limit l' = synced watching limit l"
  using more_fields [of l' l] masks_events [of l' l] loop_ok_cong [of l' l] by (simp add: synced_def)

lemma keeps_setsize: "keeps Q fire \<Longrightarrow> keeps (\<lambda>l. Q l \<and> setsize l = k) fire"
proof -
  assume keep: "keeps Q fire"
  have "\<exists>l'. fire cb l fd data = Some l' \<and> (Q l' \<and> setsize l' = k) \<and> actives l' = actives l \<and> setsize l' = setsize l"
    if "cb \<noteq> 0" "Q l \<and> setsize l = k" "registered l cb fd data" "0 \<le> fd" "fd < setsize l" for cb l fd data
    using keepsD [OF keep that(1) _ that(3-5)] that(2) by auto
  then show ?thesis using keep unfolding keeps_def by simp
qed

section \<open>Firing the timers of a loop\<close>

text \<open>At most \<open>N\<close> timers, in order, with callbacks and data from \<open>C\<close>.\<close>

definition timers_ok :: "nat \<Rightarrow> (nat \<times> ptr) set \<Rightarrow> 'z tstate_scheme \<Rightarrow> bool" where
  "timers_ok N C s \<longleftrightarrow> N < 2 ^ 29 \<and> (\<exists>n \<le> N. \<exists>ps. timers_inv s n ps) \<and> call_of s ` set (active s) \<subseteq> C"

lemma timers_ok_tq: "timers_ok N C s \<Longrightarrow> tq_inv s"
  unfolding timers_ok_def tq_inv_def by (meson le_less_trans)

lemma timers_ok_cong: "timers s' = timers s \<Longrightarrow> theap s' = theap s \<Longrightarrow> timers_ok N C s' = timers_ok N C s"
  using timers_inv_cong [of s' s] by (simp add: timers_ok_def call_of_def)

lemma process_time_ok:
  assumes "timers_ok N C s" and "quiet C ret Q call" and "Q s" and "paced N (intervals ret C) (reading clk)"
  shows "\<exists>s' fired. process_time_events call clk s = Some (Some (s', int (length (fired :: ptr list)))) \<and> timers_ok N C s'
    \<and> Q s' \<and> (\<forall>p \<in> set (active s'). reading clk (ticks s' - 1) < key s' p)"
proof -
  have "firing C ret Q call (call_of s) N s" using assms(1-3) by (auto simp: firing_def timers_ok_def)
  then obtain s' fired where s': "process_time_events call clk s = Some (Some (s', int (length fired)))"
      "firing C ret Q call (call_of s) N s'"
      "fires (reading clk) (\<lambda>i p. ret i (fst (call_of s p)) (snd (call_of s p))) (agenda (set (active s)) (key s))
        (ticks s) (length (trace s)) fired (agenda (set (active s')) (key s')) (ticks s')"
    using process_fires assms(4) by blast
  have "timers_ok N C s'" "Q s'" using s'(2) by (auto simp: firing_def timers_ok_def)
  moreover have "reading clk (ticks s' - 1) < key s' p" if "p \<in> set (active s')" for p
    using fires_rest [OF s'(3), of p "key s' p"] that by simp
  ultimately show ?thesis using s'(1) by blast
qed

lemma get_shortest_ok:
  assumes "tq_inv s"
  shows "\<exists>s' t. get_shortest_msec clk s = Some (s', t) \<and> timers s' = timers s \<and> theap s' = theap s
    \<and> tstate.more s' = tstate.more s"
proof -
  obtain p where p: "heap_top s = Some p" "p \<noteq> NULL \<Longrightarrow> p \<in> tq_elems s"
    using timer_queue.peek_law [OF assms] by (auto split: if_splits)
  show ?thesis
  proof (cases "p = NULL")
    case True
    then show ?thesis using p(1) by (simp add: get_shortest_msec_def)
  next
    case False
    obtain n ps where "timers_inv s n ps" using assms by (auto simp: tq_inv_def)
    then have "heap_inv s n" by (simp add: timers_inv_def)
    then obtain t where "timers s p = Some t"
      using heap_inv_active(5) [of s n p] p(2) [OF False] by (auto simp: tq_elems_def)
    then show ?thesis using p(1) False by (simp add: get_shortest_msec_def get_now_time_reading Let_def)
  qed
qed

section \<open>One turn\<close>

context event_poller
begin

text \<open>
  A turn keeps what the callbacks of events and of timers keep, and \<^verbatim>\<open>poll\<close> and readings of the clock do.
\<close>

lemma turn_keeps:
  assumes "Q l" and sync: "\<And>l. Q l \<Longrightarrow> synced watching limit l \<and> tq_inv l" and keep: "keeps Q fire"
    and clock: "\<And>l l'. Q l \<Longrightarrow> timers l' = timers l \<Longrightarrow> theap l' = theap l \<Longrightarrow> tstate.more l' = tstate.more l \<Longrightarrow> Q l'"
    and polls: "\<And>l p acts. Q l \<Longrightarrow> synced watching limit (l\<lparr>poller := p, actives := acts\<rparr>) \<Longrightarrow>
      Q (l\<lparr>poller := p, actives := acts\<rparr>)"
    and times: "\<And>l. Q l \<Longrightarrow> \<exists>l' m. process_time_events call clk l = Some (Some (l', m)) \<and> Q l' \<and> P l' m"
  shows "\<exists>l' n m. process_events poll fire call clk l = Some (l', n + m) \<and> 0 \<le> n \<and> n \<le> setsize l \<and> Q l' \<and> P l' m"
proof -
  obtain l0 t where l0: "get_shortest_msec clk l = Some (l0, t)" "timers l0 = timers l" "theap l0 = theap l"
      "tstate.more l0 = tstate.more l"
    using get_shortest_ok sync [OF assms(1)] by blast
  have Q0: "Q l0" by (rule clock [OF assms(1) l0(2-4)])
  have s0: "synced watching limit l0" using sync [OF Q0] by simp
  obtain p acts n where poll: "poll l0 t = Some (l0\<lparr>poller := p, actives := acts\<rparr>, n)" "watching (masks l0) p"
      "length acts = length (actives l0)" "0 \<le> n" "n \<le> setsize l0"
      "\<forall>j < nat n. masks l0 (afd (acts ! j)) \<noteq> EV_NONE"
    using s0 poll_law [of l0 t] unfolding synced_def by blast
  define l1 where "l1 = l0\<lparr>poller := p, actives := acts\<rparr>"
  have m1: "masks l1 = masks l0" by (rule masks_events) (simp add: l1_def)
  have ok1: "loop_ok l1 = loop_ok l0" by (rule loop_ok_cong) (simp_all add: l1_def poll(3))
  have "synced watching limit l1" using s0 m1 ok1 poll(2) by (simp add: synced_def l1_def)
  then have Q1: "Q l1" using polls [OF Q0] by (simp add: l1_def)
  have ok0: "loop_ok l0" using s0 by (simp add: synced_def)
  have len: "0 + nat n \<le> length (actives l1)" using poll(3-5) ok0 by (simp add: l1_def loop_ok_def)
  have ready: "\<forall>i < 0 + nat n. 0 \<le> afd (actives l1 ! i) \<and> afd (actives l1 ! i) < setsize l1"
    using poll(6) masks_range [OF ok0] by (auto simp: l1_def)
  obtain l2 where l2: "dispatch fire (nat n) 0 l1 0 = Some (l2, 0 + int (nat n))" "Q l2" "setsize l2 = setsize l1"
    using dispatch_ok [OF keep Q1 len ready] by blast
  obtain l3 m where l3: "process_time_events call clk l2 = Some (Some (l3, m))" "Q l3" "P l3 m"
    using times [OF l2(2)] by blast
  have "process_events poll fire call clk l = Some (l3, n + m)"
    using l0(1) poll(1,4) l2(1) l3(1) by (simp add: process_events_def l1_def)
  moreover have "setsize l0 = setsize l" using more_fields(3) [OF l0(4)] .
  ultimately show ?thesis using poll(4,5) l3(2,3) by (intro exI [of _ l3] exI [of _ n] exI [of _ m]) simp
qed

lemma turn_ok:
  assumes s: "synced watching limit l" and ok: "timers_ok N C l"
    and keep: "keeps (\<lambda>l. synced watching limit l \<and> timers_ok N C l) fire"
    and quiet: "quiet C ret (\<lambda>l'. synced watching limit l' \<and> setsize l' = setsize l) call"
    and clock: "paced N (intervals ret C) (reading clk)"
  shows "\<exists>l' n fired. process_events poll fire call clk l = Some (l', n + int (length (fired :: ptr list)))
    \<and> 0 \<le> n \<and> n \<le> setsize l \<and> synced watching limit l' \<and> setsize l' = setsize l \<and> timers_ok N C l'
    \<and> (\<forall>p \<in> set (active l'). reading clk (ticks l' - 1) < key l' p)"
proof -
  let ?Q = "\<lambda>l' :: ('p, 'z) eloop_scheme. (synced watching limit l' \<and> timers_ok N C l') \<and> setsize l' = setsize l"
  let ?P = "\<lambda>(l' :: ('p, 'z) eloop_scheme) m. (\<exists>fired :: ptr list. m = int (length fired))
      \<and> (\<forall>p \<in> set (active l'). reading clk (ticks l' - 1) < key l' p)"
  have "\<exists>l' n m. process_events poll fire call clk l = Some (l', n + m) \<and> 0 \<le> n \<and> n \<le> setsize l \<and> ?Q l' \<and> ?P l' m"
  proof (rule turn_keeps)
    show "?Q l" using s ok by simp
    show "keeps ?Q fire" by (rule keeps_setsize [OF keep])
    show "synced watching limit l1 \<and> tq_inv l1" if "?Q l1" for l1 using that timers_ok_tq by blast
    show "?Q l2" if "?Q l1" "timers l2 = timers l1" "theap l2 = theap l1" "tstate.more l2 = tstate.more l1" for l1 l2
      using that timers_ok_cong [of l2 l1] synced_more [OF that(4)] more_fields(3) [OF that(4)] by simp
    show "?Q (l1\<lparr>poller := p, actives := acts\<rparr>)" if "?Q l1" "synced watching limit (l1\<lparr>poller := p, actives := acts\<rparr>)"
      for l1 p acts
      using that timers_ok_cong [of "l1\<lparr>poller := p, actives := acts\<rparr>" l1] by simp
    fix l1 assume q: "?Q l1"
    then obtain l2 and fired :: "ptr list" where "process_time_events call clk l1 = Some (Some (l2, int (length fired)))"
        "timers_ok N C l2" "synced watching limit l2 \<and> setsize l2 = setsize l"
        "\<forall>p \<in> set (active l2). reading clk (ticks l2 - 1) < key l2 p"
      using process_time_ok [OF _ quiet _ clock, of l1] by blast
    then show "\<exists>l2 m. process_time_events call clk l1 = Some (Some (l2, m)) \<and> ?Q l2 \<and> ?P l2 m"
      by (intro exI [of _ l2] exI [of _ "int (length fired)"]) auto
  qed
  then show ?thesis by blast
qed

end

section \<open>Sequences of turns\<close>

text \<open>\<open>turns turn k l\<close>: \<open>k\<close> turns of the loop, none of them begun after it was stopped.\<close>

fun turns :: "(('p, 'z) eloop_scheme \<Rightarrow> (('p, 'z) eloop_scheme \<times> int) option) \<Rightarrow> nat \<Rightarrow> ('p, 'z) eloop_scheme \<Rightarrow> ('p, 'z) eloop_scheme option" where
  "turns turn 0 l = Some l"
| "turns turn (Suc k) l = (if stop l then None else do { (l, _) \<leftarrow> turn l; turns turn k l })"

lemma turns_run: "turns turn k l = Some l' \<Longrightarrow> stop l' \<Longrightarrow> run_loop turn l = Some l'"
proof (induction k arbitrary: l)
  case 0
  then show ?case by (subst run_loop.simps) simp
next
  case (Suc k)
  then show ?case by (subst run_loop.simps) (auto split: if_splits simp: bind_eq_Some_conv)
qed

lemma run_turns: "run_loop turn l = Some l' \<Longrightarrow> \<exists>k. turns turn k l = Some l' \<and> stop l'"
proof (induction rule: run_loop.raw_induct [rotated 1, consumes 1, case_names 1])
  case (1 f turn l l')
  show ?case
  proof (cases "stop l")
    case True
    then show ?thesis using 1 by (intro exI [of _ 0]) simp
  next
    case False
    then obtain l1 n where t: "turn l = Some (l1, n)" "f turn l1 = Some l'"
      using 1 by (auto simp: bind_eq_Some_conv)
    then obtain k where "turns turn k l1 = Some l'" "stop l'" using "1.IH" by blast
    then show ?thesis using False t(1) by (intro exI [of _ "Suc k"]) simp
  qed
qed

section \<open>Properties\<close>

text \<open>
  C3. A turn of the loop on \<^verbatim>\<open>epoll\<close> returns, whatever the kernel reports. The callbacks of events may
  register and remove events and create and delete timers, as long as they keep the loop in order, with
  at most \<open>N\<close> timers, the callbacks of which are in \<open>C\<close>; these may register and remove events, leave the
  timers alone, and ask for a further call or for none, and, as in C1, the clock is again and again read
  \<open>2 N + 2\<close> times within the shortest interval asked for. The turn keeps the table, the interest list of the
  kernel and the timers in order, handles at most as many descriptors as the table has, and leaves no
  timer that had expired at its last reading of the clock.
\<close>

theorem epoll_turn:
  assumes "synced (epoll_watching ctl wait interest) (2 ^ 31) l" and "timers_ok N C l"
    and "keeps (\<lambda>l. synced (epoll_watching ctl wait interest) (2 ^ 31) l \<and> timers_ok N C l) fire"
    and "quiet C ret (\<lambda>l'. synced (epoll_watching ctl wait interest) (2 ^ 31) l' \<and> setsize l' = setsize l) call"
    and "paced N (intervals ret C) (reading clk)"
  shows "\<exists>l' n fired. process_events (epoll_poll wait) fire call clk l = Some (l', n + int (length (fired :: ptr list)))
    \<and> 0 \<le> n \<and> n \<le> setsize l \<and> synced (epoll_watching ctl wait interest) (2 ^ 31) l' \<and> setsize l' = setsize l
    \<and> timers_ok N C l' \<and> (\<forall>p \<in> set (active l'). reading clk (ticks l' - 1) < key l' p)"
  by (rule epoll_backend.turn_ok [OF assms])

lemma etrace_synced: "synced watching limit l \<Longrightarrow> synced watching limit (l\<lparr>etrace := t\<rparr>)"
  using masks_events [of "l\<lparr>etrace := t\<rparr>" l] loop_ok_cong [of "l\<lparr>etrace := t\<rparr>" l] by (simp add: synced_def)

text \<open>A callback that removes its own registration keeps the loop in order.\<close>

lemma removing_keeps:
  "keeps (\<lambda>l. synced (epoll_watching ctl wait interest) (2 ^ 31) l \<and> timers_ok N C l)
     (\<lambda>cb l fd data. map_option fst (delete_event (epoll_delevent ctl) l fd EV_RDABLE))"
proof -
  let ?Q = "\<lambda>l. synced (epoll_watching ctl wait interest) (2 ^ 31) l \<and> timers_ok N C l"
  have "\<exists>l'. map_option fst (delete_event (epoll_delevent ctl) l fd EV_RDABLE) = Some l' \<and> ?Q l'
      \<and> actives l' = actives l \<and> setsize l' = setsize l"
    if Q: "?Q l" and "0 \<le> fd" for l fd
  proof -
    obtain l' r where l': "delete_event (epoll_delevent ctl) l fd EV_RDABLE = Some (l', r)"
        "synced (epoll_watching ctl wait interest) (2 ^ 31) l'" "reg_frame l l'"
      using epoll_backend.delete_ok [OF conjunct1 [OF Q] \<open>0 \<le> fd\<close>, of EV_RDABLE] by blast
    then show ?thesis using reg_frame_fields [OF l'(3)] timers_ok_cong [of l' l] Q by simp
  qed
  moreover have "?Q l \<Longrightarrow> ?Q (l\<lparr>etrace := t\<rparr>)" for l t
    using etrace_synced [of "epoll_watching ctl wait interest" "2 ^ 31" l t] timers_ok_cong [of "l\<lparr>etrace := t\<rparr>" l] by simp
  moreover have "?Q l \<Longrightarrow> loop_ok l" for l by (simp add: synced_def)
  ultimately show ?thesis unfolding keeps_def by blast
qed

lemma sample_loop_tq [simp]: "timers_inv (sample_loop p) 0 []" "active (sample_loop p) = []"
  by (auto simp: timers_inv_def sample_loop_def heap_inv_def slots_ok_def heap_on_def)

text \<open>
  A loop with descriptor 5 registered, whose callback removes it, and with a timer of 50 ms that removes
  descriptor 6 and asks to be called again after 1000 ms.
\<close>

abbreviation sample_fire :: "nat \<Rightarrow> (int \<rightharpoonup> u32) epoll eloop \<Rightarrow> int \<Rightarrow> ptr \<Rightarrow> (int \<rightharpoonup> u32) epoll eloop option" where
  "sample_fire \<equiv> \<lambda>cb l fd data. map_option fst (delete_event (epoll_delevent sample_ctl) l fd EV_RDABLE)"

abbreviation sample_call :: "nat \<Rightarrow> (int \<rightharpoonup> u32) epoll eloop \<Rightarrow> ptr \<Rightarrow> ((int \<rightharpoonup> u32) epoll eloop \<times> int) option" where
  "sample_call \<equiv> \<lambda>cb l d. map_option (\<lambda>(l, _). (l, 1000)) (delete_event (epoll_delevent sample_ctl) l 6 EV_RDABLE)"

lemma sample_quiet:
  "quiet C (\<lambda>_ _ _. 1000) (\<lambda>l. synced (epoll_watching sample_ctl sample_wait (\<lambda>k. k)) (2 ^ 31) l \<and> setsize l = k) sample_call"
proof -
  let ?Q = "\<lambda>l. synced (epoll_watching sample_ctl sample_wait (\<lambda>k. k)) (2 ^ 31) l \<and> setsize l = k"
  have "\<exists>l'. sample_call cb l d = Some (l', 1000) \<and> ?Q l' \<and> timers l' = timers l \<and> theap l' = theap l
      \<and> ticks l' = ticks l \<and> trace l' = trace l" if Q: "?Q l" for cb l d
  proof -
    obtain l' r where l': "delete_event (epoll_delevent sample_ctl) l 6 EV_RDABLE = Some (l', r)"
        "synced (epoll_watching sample_ctl sample_wait (\<lambda>k. k)) (2 ^ 31) l'" "reg_frame l l'"
      using epoll_backend.delete_ok [OF conjunct1 [OF Q], of 6 EV_RDABLE] by auto
    then show ?thesis using reg_frame_fields [OF l'(3)] Q by simp
  qed
  then show ?thesis unfolding quiet_def using synced_more more_fields(3) by blast
qed

theorem epoll_turn_witness:
  "\<exists>l0 l l'. create_event (epoll_addevent sample_ctl) (sample_loop sample_epoll) 5 EV_RDABLE 7 42 = Some (l0, 0)
    \<and> create_timer 8 (\<lambda>_. True) sample_clock l0 50 1 77 = Some (l, 8)
    \<and> process_events (epoll_poll sample_wait) sample_fire sample_call sample_clock l = Some l'
    \<and> synced (epoll_watching sample_ctl sample_wait (\<lambda>k. k)) (2 ^ 31) (fst l') \<and> timers_ok 1 {(1, 77)} (fst l')"
proof -
  have ev: "EV_RDABLE \<noteq> EV_NONE" by (simp add: EV_RDABLE_def EV_NONE_def)
  obtain l0 r where l0: "create_event (epoll_addevent sample_ctl) (sample_loop sample_epoll) 5 EV_RDABLE 7 42 = Some (l0, r)"
      "synced (epoll_watching sample_ctl sample_wait (\<lambda>k. k)) (2 ^ 31) l0" "reg_frame (sample_loop sample_epoll) l0"
    using epoll_backend.create_ok [OF sample_epoll_synced _ ev, of 7 5 42] by auto
  have r: "r = 0"
    using l0(1) by (simp add: create_event_def sample_loop_def sample_epoll_def epoll_addevent_def event_at_def
        epoll_ctl_call_def sample_ctl_def set_event_def Let_def)
  have same: "timers l0 = timers (sample_loop sample_epoll)" "theap l0 = theap (sample_loop sample_epoll)"
    using reg_frame_fields [OF l0(3)] by simp_all
  have "timers_inv l0 0 []" using timers_inv_cong [OF same] by simp
  moreover have "fresh (timers l0) 8" "0 < length (ents l0)" "active l0 = []" "head_next (theap l0) = NULL"
    by (simp_all add: same fresh_def sample_loop_def)
  ultimately obtain l where l: "create_timer 8 (\<lambda>_. True) sample_clock l0 50 1 77 = Some (l, 8)"
      "timers_inv l (Suc 0) (tl [])" "mset (active l) = add_mset 8 (mset (active l0))" "call_of l 8 = (1, 77)"
    using create_timer_ok [of l0 0 "[]" 50 1 8 "\<lambda>_. True" sample_clock 77] by auto
  have more: "tstate.more l = tstate.more l0"
    using create_timer_more [OF l(1)] \<open>head_next (theap l0) = NULL\<close> by blast
  have "set (active l) = {8}"
    using l(3) \<open>active l0 = []\<close> by (metis mset.simps(1) set_mset_add_mset_insert set_mset_empty set_mset_mset)
  then have ok: "timers_ok 1 {(1, 77)} l" using l(2,4) by (auto simp: timers_ok_def intro!: exI [of _ "Suc 0"])
  have "paced 1 (intervals (\<lambda>_ _ _. 1000) {(1, 77)}) (reading sample_clock)"
    by (rule sample_paced) (auto simp: intervals_def)
  then obtain l' n and fired :: "ptr list" where
      "process_events (epoll_poll sample_wait) sample_fire sample_call sample_clock l = Some (l', n + int (length fired))"
      "synced (epoll_watching sample_ctl sample_wait (\<lambda>k. k)) (2 ^ 31) l'" "timers_ok 1 {(1, 77)} l'"
    using epoll_turn [OF _ ok removing_keeps sample_quiet, of sample_clock] l0(2) synced_more [OF more] by blast
  then show ?thesis using l0(1) r l(1) by (intro exI [of _ l0] exI [of _ l] exI [of _ "(l', n + int (length fired))"]) simp
qed

text \<open>
  \<^verbatim>\<open>event_loop_start\<close> returns exactly when after some number of turns, each begun while the loop was
  not stopped, \<^verbatim>\<open>event_loop_stop\<close> has been called, and then with the state after this turn: the turn in
  which it is called is completed. A call of \<^verbatim>\<open>event_loop_stop\<close> before the start is forgotten.
\<close>

theorem event_loop_start_turns:
  "(event_loop_start turn l = Some l' \<longleftrightarrow> (\<exists>k. turns turn k (l\<lparr>stop := False\<rparr>) = Some l' \<and> stop l'))
    \<and> event_loop_start turn (event_loop_stop l) = event_loop_start turn l"
  using turns_run [of turn _ "l\<lparr>stop := False\<rparr>" l'] run_turns [of turn "l\<lparr>stop := False\<rparr>" l']
  unfolding event_loop_start_def event_loop_stop_def by (cases l) auto

lemma event_loop_created:
  assumes "event_loop_create mem pnew junk junka maxevents maxtimers = Some l" and "0 \<le> maxevents"
  shows "pnew = Some (poller l)" "loop_ok l" "masks l = (\<lambda>_. EV_NONE)" "setsize l = maxevents" "\<not> stop l" "timers l = Map.empty"
    "timers_inv l 0 []" "active l = []" "0 < length (ents l)"
proof -
  obtain h p where h: "timer_heap_create mem maxtimers = Some h" and p: "pnew = Some p"
    and l: "l = \<lparr>timers = Map.empty, theap = h, ticks = 0, trace = [], maxfd = -1, setsize = maxevents,
      events = map (\<lambda>i. (junk i)\<lparr>evmask := EV_NONE\<rparr>) [0..<nat maxevents],
      actives = map junka [0..<nat maxevents], poller = p, stop = False, etrace = []\<rparr>"
    using assms(1) by (auto simp: event_loop_create_def split: if_splits option.splits)
  show "pnew = Some (poller l)" "setsize l = maxevents" "\<not> stop l" "timers l = Map.empty" using p by (simp_all add: l)
  show none: "masks l = (\<lambda>_. EV_NONE)" using assms(2) by (auto simp: masks_def l)
  show "loop_ok l" unfolding loop_ok_def none using assms(2) by (auto simp: l entry_ok_def EV_NONE_def)
  show "timers_inv l 0 []"
    using h by (auto simp: timer_heap_create_def timers_inv_def l heap_inv_def slots_ok_def heap_on_def split: if_splits)
  show "active l = []" "0 < length (ents l)" using h by (auto simp: l timer_heap_create_def split: if_splits)
qed



section \<open>Select without timers\<close>

text \<open>
  \<^verbatim>\<open>select\<close> is documented to fail for an invalid timeout. Without timers the loop hands it \<open>-1\<close>
  milliseconds, that is \<open>0\<close> seconds and \<open>-1000\<close> microseconds.
\<close>

definition select_rejects :: "select_call \<Rightarrow> bool" where
  "select_rejects sel \<longleftrightarrow> (\<forall>k n R W sec usec. sec < 0 \<or> usec < 0 \<longrightarrow> fst (sel k n R W (sec, usec)) = -1)"

lemma select_deaf_turn:
  assumes "select_rejects sel" and "now (theap l) = 0"
  shows "\<exists>p. process_events (select_poll sel) fire call clk l = Some (l\<lparr>poller := p\<rparr>, 0)"
proof -
  have top: "heap_top x = Some NULL" if "theap x = theap l" for x :: "(fdsets, 'z) eloop_scheme"
    using assms(2) that by (simp add: heap_top_def)
  have short: "get_shortest_msec clk l = Some (l, -1)" by (simp add: get_shortest_msec_def top)
  have tv: "((-1 :: int) sdiv 1000, ((-1 :: int) smod 1000) * 1000) = (0, -1000)"
    by (simp add: signed_divide_int_def signed_modulo_int_def sgn_if)
  obtain r R W where c: "sel (ticks l) (maxfd l + 1) (rfds (poller l)) (wfds (poller l)) (0, -1000) = (r, R, W)"
    by (cases "sel (ticks l) (maxfd l + 1) (rfds (poller l)) (wfds (poller l)) (0, -1000)")
  have "fst (sel (ticks l) (maxfd l + 1) (rfds (poller l)) (wfds (poller l)) (0, -1000)) = -1"
    using assms(1) unfolding select_rejects_def by simp
  then have "r = -1" using c by simp
  then obtain p where poll: "select_poll sel l (-1) = Some (l\<lparr>poller := p\<rparr>, 0)"
    unfolding select_poll_def tv using c by (simp add: Let_def)
  have "process_turn call clk (l\<lparr>poller := p\<rparr>) = Some (Inl (l\<lparr>poller := p\<rparr>))" by (simp add: process_turn_def top)
  then have "process_time_events call clk (l\<lparr>poller := p\<rparr>) = Some (Some (l\<lparr>poller := p\<rparr>, 0))"
    unfolding process_time_events_def by (subst process_loop.simps) simp
  then show ?thesis using short poll by (intro exI [of _ p]) (simp add: process_events_def)
qed

lemma select_deaf_loop:
  assumes "select_rejects sel"
  shows "run_loop turn l = Some l' \<Longrightarrow> turn = process_events (select_poll sel) fire call clk \<Longrightarrow>
    now (theap l) = 0 \<Longrightarrow> stop l"
proof (induction rule: run_loop.raw_induct [rotated 1, consumes 1, case_names 1])
  case (1 f turn l l')
  obtain p where t: "turn l = Some (l\<lparr>poller := p\<rparr>, 0)"
    using select_deaf_turn [OF assms "1.prems"(2)] "1.prems"(1) by blast
  show ?case
  proof (rule ccontr)
    assume ns: "\<not> stop l"
    then have "f turn (l\<lparr>poller := p\<rparr>) = Some l'" using 1 t by simp
    then have "stop (l\<lparr>poller := p\<rparr>)" using "1.IH" "1.prems" by simp
    then show False using ns by simp
  qed
qed

text \<open>
  C40. Without timers the loop on \<^verbatim>\<open>select\<close> is deaf: every turn calls \<^verbatim>\<open>select\<close> with a negative timeout,
  which is rejected at once, so a turn handles nothing and calls no callback, whatever descriptors are
  ready, and \<^verbatim>\<open>event_loop_start\<close> never returns.
\<close>

theorem select_without_timers:
  assumes "select_rejects sel" and "now (theap l) = 0"
  shows "(\<exists>p. process_events (select_poll sel) fire call clk l = Some (l\<lparr>poller := p\<rparr>, 0))
    \<and> event_loop_start (process_events (select_poll sel) fire call clk) l = None"
proof
  show "\<exists>p. process_events (select_poll sel) fire call clk l = Some (l\<lparr>poller := p\<rparr>, 0)"
    by (rule select_deaf_turn [OF assms])
  have "stop (l\<lparr>stop := False\<rparr>)"
    if "run_loop (process_events (select_poll sel) fire call clk) (l\<lparr>stop := False\<rparr>) = Some l'" for l'
    using select_deaf_loop [OF assms(1) that refl] assms(2) by simp
  then show "event_loop_start (process_events (select_poll sel) fire call clk) l = None"
    unfolding event_loop_start_def
    by (cases "run_loop (process_events (select_poll sel) fire call clk) (l\<lparr>stop := False\<rparr>)") auto
qed

theorem select_without_timers_witness:
  "event_loop_start (process_events (select_poll (\<lambda>k n R W (sec, usec). if sec < 0 \<or> usec < 0 then (-1, R, W) else (1, R, W)))
      (\<lambda>cb l fd data. Some l) (\<lambda>cb l d. Some (l, 0)) sample_clock)
    (sample_loop \<lparr>rfds = {5}, wfds = {}, crfds = {}, cwfds = {}\<rparr>) = None"
proof -
  have "select_rejects (\<lambda>k n R W (sec, usec). if sec < 0 \<or> usec < 0 then (-1, R, W) else (1, R, W))"
    by (simp add: select_rejects_def)
  moreover have "now (theap (sample_loop \<lparr>rfds = {5}, wfds = {}, crfds = {}, cwfds = {}\<rparr>)) = 0"
    by (simp add: sample_loop_def)
  ultimately show ?thesis by (rule select_without_timers [THEN conjunct2])
qed

end
