(* ===== verification/Echo_Program.thy ===== *)
theory Echo_Program
  imports Echo_Server Event_Turn
begin

text \<open>
  The echo server of \<^verbatim>\<open>kznet/demo.c\<close> as a program: \<^verbatim>\<open>main\<close> sets it up, and the turns of the event loop
  keep its invariant. The lemmas hold for every back end of the contract of \<open>Echo_Server\<close>; the theorems
  at the end are those for \<^verbatim>\<open>select\<close>, and \<open>Echo_Epoll\<close> has those for \<^verbatim>\<open>epoll\<close>.
\<close>

unbundle bit_operations_syntax

section \<open>The timer that prints\<close>

text \<open>The one timer of the program is in the heap, with the callback \<^verbatim>\<open>print_info\<close>.\<close>

definition ticking :: "'z tstate_scheme \<Rightarrow> bool" where
  "ticking s \<longleftrightarrow> timers_ok 1 {(PRINT_CB, NULL)} s \<and> active s \<noteq> []"

lemma ticking_cong: "timers s' = timers s \<Longrightarrow> theap s' = theap s \<Longrightarrow> ticking s' = ticking s"
  using timers_ok_cong [of s' s] by (simp add: ticking_def)

lemma ticking_tq: "ticking s \<Longrightarrow> tq_inv s"
  unfolding ticking_def using timers_ok_tq by blast

text \<open>
  \<^verbatim>\<open>print_info\<close> returns 1000: its timer is never deleted, and the loop over the timers ends when, again
  and again, four readings of the clock in a row lie within a second. The four are those of a turn in
  which the timer fires and of the start of the next turn, with no system call in between that waits.
\<close>

lemma print_intervals: "intervals (\<lambda>_ _ _. 1000) C \<subseteq> {1000}"
  by (auto simp: intervals_def)

lemma print_quiet:
  fixes Q :: "'p echo \<Rightarrow> bool"
  assumes "\<And>l l'. tstate.more l' = tstate.more l \<Longrightarrow> Q l \<Longrightarrow> Q l'"
    and "\<And>l a b. Q l \<Longrightarrow> Q (l\<lparr>prev_recv := a, prev_send := b\<rparr>)"
  shows "quiet {(PRINT_CB, NULL)} (\<lambda>_ _ _. 1000) Q echo_call"
  using assms unfolding quiet_def by (auto simp: echo_call_def print_info_def)

lemma print_loop:
  fixes l :: "'p echo"
  assumes tick: "ticking l" and Q: "Q l" and qu: "quiet {(PRINT_CB, NULL)} (\<lambda>_ _ _. 1000) Q echo_call"
    and clock: "paced 1 {1000} (reading clk)"
  shows "\<exists>l' m. process_time_events echo_call clk l = Some (Some (l', m)) \<and> ticking l' \<and> Q l' \<and> 0 \<le> m"
proof -
  have "firing {(PRINT_CB, NULL)} (\<lambda>_ _ _. 1000) Q echo_call (call_of l) 1 l"
    using tick Q qu by (auto simp: ticking_def timers_ok_def firing_def)
  moreover have "paced 1 (intervals (\<lambda>_ _ _. 1000) {(PRINT_CB, NULL)}) (reading clk)"
    by (rule paced_le [OF clock le_refl print_intervals])
  ultimately obtain l' fired where l': "process_time_events echo_call clk l = Some (Some (l', int (length fired)))"
      "firing {(PRINT_CB, NULL)} (\<lambda>_ _ _. 1000) Q echo_call (call_of l) 1 l'"
      "fires (reading clk) (\<lambda>i p. 1000) (agenda (set (active l)) (key l)) (ticks l) (length (trace l)) fired
        (agenda (set (active l')) (key l')) (ticks l')"
    by (rule process_fires)
  have "set (active l') = set (active l)"
    using fires_kept [OF l'(3)] by (auto simp: dom_def)
  then have "active l' \<noteq> []" using tick by (metis set_empty ticking_def)
  moreover have "timers_ok 1 {(PRINT_CB, NULL)} l'" "Q l'" using l'(2) by (auto simp: firing_def timers_ok_def)
  ultimately show ?thesis using l'(1) by (auto simp: ticking_def)
qed

section \<open>The invariant of the program\<close>

definition server_inv :: "((int \<Rightarrow> u32) \<Rightarrow> 'p \<Rightarrow> bool) \<Rightarrow> int \<Rightarrow> int \<Rightarrow> 'p echo \<Rightarrow> bool" where
  "server_inv watching limit sfd l \<longleftrightarrow> echo_inv watching limit sfd l \<and> ticking l \<and> \<not> stop l"

lemma more_echo:
  assumes "tstate.more l' = tstate.more (l :: 'p echo)"
  shows "conns l' = conns l" "bmem l' = bmem l" "has_pool l' = has_pool l" "socks l' = socks l"
  using assms by (cases l; cases l'; simp)+

lemma echo_inv_more:
  assumes "echo_inv watching limit sfd l" and "tstate.more l' = tstate.more l"
  shows "echo_inv watching limit sfd l'"
proof -
  have "synced watching limit l'" using assms(1) synced_more [OF assms(2)] by (simp add: echo_inv_def)
  then show ?thesis by (rule echo_inv_cong [OF assms(1) more_fields(1) [OF assms(2)] _ more_echo [OF assms(2)]])
qed

context echo_server
begin

lemma fire_keeps: "io_ok env \<Longrightarrow> keeps (server_inv watching limit sfd) (echo_fire env addevent delevent)"
proof -
  assume io: "io_ok env"
  have "loop_ok l" if "server_inv watching limit sfd l" for l :: "'p echo"
    using that by (simp add: server_inv_def echo_inv_def synced_def)
  moreover have "server_inv watching limit sfd (l\<lparr>etrace := t\<rparr>)" if q: "server_inv watching limit sfd l" for l :: "'p echo" and t
  proof -
    have s: "synced watching limit (l\<lparr>etrace := t\<rparr>)" using q etrace_synced [of watching limit l t] by (simp add: server_inv_def echo_inv_def)
    have "echo_inv watching limit sfd (l\<lparr>etrace := t\<rparr>)"
      by (rule echo_inv_cong [of watching limit sfd l]) (use q s in \<open>simp_all add: server_inv_def\<close>)
    then show ?thesis using q ticking_cong [of "l\<lparr>etrace := t\<rparr>" l] by (simp add: server_inv_def)
  qed
  moreover have "\<exists>l'. echo_fire env addevent delevent cb l fd data = Some l' \<and> server_inv watching limit sfd l'
      \<and> actives l' = actives l \<and> setsize l' = setsize l"
    if q: "server_inv watching limit sfd l" and r: "registered l cb fd data" for cb l fd data
  proof -
    obtain l' where l': "echo_fire env addevent delevent cb l fd data = Some l'" "echo_inv watching limit sfd l'"
        "loop_frame l l'"
      using fire_ok [OF io _ r] q by (auto simp: server_inv_def)
    then show ?thesis using q ticking_cong [of l' l] by (auto simp: server_inv_def loop_frame_def)
  qed
  ultimately show ?thesis unfolding keeps_def by blast
qed

lemma server_turn:
  assumes io: "io_ok env" and inv: "server_inv watching limit sfd l"
    and clock: "paced 1 {1000} (reading clk)"
  shows "\<exists>l' n m. process_events poll (echo_fire env addevent delevent) echo_call clk l = Some (l', n + m)
    \<and> 0 \<le> n \<and> n \<le> setsize l \<and> server_inv watching limit sfd l' \<and> 0 \<le> m"
proof -
  have "\<exists>l' n m. process_events poll (echo_fire env addevent delevent) echo_call clk l = Some (l', n + m)
      \<and> 0 \<le> n \<and> n \<le> setsize l \<and> server_inv watching limit sfd l' \<and> 0 \<le> m"
  proof (rule turn_keeps)
    show "server_inv watching limit sfd l" by (rule inv)
    show "synced watching limit l \<and> tq_inv l" if "server_inv watching limit sfd l" for l :: "'p echo"
      using that ticking_tq [of l] by (simp add: server_inv_def echo_inv_def)
    show "keeps (server_inv watching limit sfd) (echo_fire env addevent delevent)" by (rule fire_keeps [OF io])
    show "server_inv watching limit sfd l'" if "server_inv watching limit sfd l" "timers l' = timers l"
      "theap l' = theap l" "tstate.more l' = tstate.more l" for l l' :: "'p echo"
      using that ticking_cong [OF that(2,3)] echo_inv_more [OF _ that(4)] more_fields(6) [OF that(4)]
      by (simp add: server_inv_def)
    show "server_inv watching limit sfd (l\<lparr>poller := p, actives := acts\<rparr>)"
      if "server_inv watching limit sfd l" "synced watching limit (l\<lparr>poller := p, actives := acts\<rparr>)" for l :: "'p echo" and p acts
      using that ticking_cong [of "l\<lparr>poller := p, actives := acts\<rparr>" l]
        echo_inv_cong [of watching limit sfd l "l\<lparr>poller := p, actives := acts\<rparr>"] by (simp add: server_inv_def)
    fix l :: "'p echo" assume q: "server_inv watching limit sfd l"
    let ?Q = "\<lambda>l :: 'p echo. echo_inv watching limit sfd l \<and> \<not> stop l"
    have set_prev: "?Q (l\<lparr>prev_recv := a, prev_send := b\<rparr>)" if Q: "?Q l" for l :: "'p echo" and a b
    proof -
      have sync: "synced watching limit (l\<lparr>prev_recv := a, prev_send := b\<rparr>)"
        using Q synced_cong [of "l\<lparr>prev_recv := a, prev_send := b\<rparr>" l] by (simp add: echo_inv_def)
      have "echo_inv watching limit sfd (l\<lparr>prev_recv := a, prev_send := b\<rparr>)"
        by (rule echo_inv_cong [of watching limit sfd l]) (use Q sync in simp_all)
      then show ?thesis using Q by simp
    qed
    have qu: "quiet {(PRINT_CB, NULL)} (\<lambda>_ _ _. 1000) ?Q echo_call"
    proof (rule print_quiet)
      show "?Q l2" if "tstate.more l2 = tstate.more l1" "?Q l1" for l1 l2 :: "'p echo"
        using that echo_inv_more [OF _ that(1)] more_fields(6) [OF that(1)] by simp
    qed (rule set_prev)
    have tick: "ticking l" and inv: "?Q l" using q by (simp_all add: server_inv_def)
    obtain l' m where "process_time_events echo_call clk l = Some (Some (l', m))" "ticking l'" "?Q l'" "0 \<le> m"
      using print_loop [OF tick inv qu clock] by blast
    then show "\<exists>l' m. process_time_events echo_call clk l = Some (Some (l', m)) \<and> server_inv watching limit sfd l' \<and> 0 \<le> m"
      by (auto simp: server_inv_def)
  qed
  then show ?thesis by blast
qed

lemma server_turns:
  assumes io: "io_ok env" and clock: "paced 1 {1000} (reading clk)"
  shows "server_inv watching limit sfd l \<Longrightarrow>
    \<exists>l'. turns (process_events poll (echo_fire env addevent delevent) echo_call clk) k l = Some l' \<and> server_inv watching limit sfd l'"
proof (induction k arbitrary: l)
  case (Suc k)
  then show ?case using server_turn [OF io Suc.prems clock] by (fastforce simp: server_inv_def)
qed simp

end

section \<open>Setting up\<close>

text \<open>The loop as \<^verbatim>\<open>event_loop_create\<close> makes it, with what the callbacks use.\<close>

lemma extend_loop:
  fixes l :: "'p eloop"
  shows "timers (eloop.extend l x) = timers l" "theap (eloop.extend l x) = theap l" "ticks (eloop.extend l x) = ticks l"
    "events (eloop.extend l x) = events l" "actives (eloop.extend l x) = actives l" "setsize (eloop.extend l x) = setsize l"
    "maxfd (eloop.extend l x) = maxfd l" "poller (eloop.extend l x) = poller l" "stop (eloop.extend l x) = stop l"
    "masks (eloop.extend l x) = masks l" "loop_ok (eloop.extend l x) = loop_ok l"
    "timers_inv (eloop.extend l x) n ps = timers_inv l n ps"
proof -
  show f: "timers (eloop.extend l x) = timers l" "theap (eloop.extend l x) = theap l" "ticks (eloop.extend l x) = ticks l"
    "events (eloop.extend l x) = events l" "actives (eloop.extend l x) = actives l" "setsize (eloop.extend l x) = setsize l"
    "maxfd (eloop.extend l x) = maxfd l" "poller (eloop.extend l x) = poller l" "stop (eloop.extend l x) = stop l"
    by (simp_all add: eloop.defs)
  show m: "masks (eloop.extend l x) = masks l" by (simp add: masks_def f fun_eq_iff)
  show "loop_ok (eloop.extend l x) = loop_ok l" by (simp add: loop_ok_def f m)
  show "timers_inv (eloop.extend l x) n ps = timers_inv l n ps"
    by (simp add: timers_inv_def heap_inv_def slots_ok_def at_slot_def live_timer_def key_def [abs_def] f)
qed

context echo_server
begin

lemma started_ok:
  assumes l: "synced watching limit l" "masks l = (\<lambda>_. EV_NONE)" "\<not> stop l" "conns l = Map.empty" "has_pool l"
      "pool_inv (bmem l) [] [] {}" "finite (dom (fds (socks l)))" "fds (socks l) sfd \<noteq> None"
    and t: "timers_inv l 0 []" "active l = []" "0 < length (ents l)" "timers l = Map.empty" "tp \<noteq> NULL"
  shows "\<exists>l1 l2 r. create_timer tp mem clk l 1000 PRINT_CB NULL = Some (l1, tp)
    \<and> create_event addevent l1 sfd EV_RDABLE ACCEPT_CB NULL = Some (l2, r) \<and> server_inv watching limit sfd l2"
proof -
  obtain l1 where l1: "create_timer tp mem clk l 1000 PRINT_CB NULL = Some (l1, tp)" "timers_inv l1 1 []"
      "mset (active l1) = {#tp#}" "call_of l1 tp = (PRINT_CB, NULL)"
    by (rule create_timer_ok [OF t(1), of 1000 PRINT_CB tp mem clk NULL])
      (use t in \<open>simp_all add: PRINT_CB_def fresh_def\<close>)
  have "head_next (theap l) = NULL" using t(1) by (simp add: timers_inv_def)
  then have more: "tstate.more l1 = tstate.more l" using create_timer_more [OF l1(1)] by simp
  have s1: "synced watching limit l1" using l(1) synced_more [OF more] by simp
  have m1: "masks l1 = (\<lambda>_. EV_NONE)" using l(2) masks_events [OF more_fields(1) [OF more]] by simp
  have "set (active l1) = {tp}" using l1(3) by (metis set_mset_add_mset_insert set_mset_empty set_mset_mset)
  then have tick: "ticking l1" using l1(2,4) by (auto simp: ticking_def timers_ok_def intro!: exI [of _ 1])
  have nz: "ACCEPT_CB \<noteq> 0" "EV_RDABLE \<noteq> EV_NONE" by (simp_all add: ACCEPT_CB_def EV_RDABLE_def EV_NONE_def)
  obtain l2 r where l2: "create_event addevent l1 sfd EV_RDABLE ACCEPT_CB NULL = Some (l2, r)" "synced watching limit l2"
      "reg_frame l1 l2" "r = 0 \<and> 1 \<le> sfd \<and> sfd < setsize l1 \<and> masks l2 = (masks l1)(sfd := masks l1 sfd OR EV_RDABLE)
         \<and> event_at l2 = (event_at l1)(sfd := map_option (entry_after EV_RDABLE ACCEPT_CB NULL) (event_at l1 sfd))
       \<or> r = -1 \<and> events l2 = events l1"
    using create_ok [OF s1 nz, of sfd NULL] by blast
  have none: "\<not> served l1 d x" for d x using event_at_masks [of l1 d x] m1 by (auto simp: served_def)
  have serv: "entry_served l2 sfd d x \<and> d = sfd" if s: "served l2 d x" for d x
  proof (cases "r = 0")
    case True
    then have fd: "1 \<le> sfd" "sfd < setsize l1" using l2(4) by simp_all
    have ev: "event_at l2 = (event_at l1)(sfd := map_option (entry_after EV_RDABLE ACCEPT_CB NULL) (event_at l1 sfd))"
      using l2(4) True by simp
    then have d: "d = sfd" using s none [of d x] by (auto simp: served_def split: if_splits)
    then obtain e where e: "event_at l1 sfd = Some e" "x = entry_after EV_RDABLE ACCEPT_CB NULL e"
      using s ev by (auto simp: served_def)
    then have "evmask e = EV_NONE" using event_at_masks [OF e(1)] m1 by simp
    then show ?thesis using fd d e(2) event_bits(3) by (simp add: entry_served_def entry_after_def EV_NONE_def)
  next
    case False
    then have "event_at l2 = event_at l1" using l2(4) event_at_events [of l2 l1] by simp
    then show ?thesis using s none [of d x] by (simp add: served_def)
  qed
  note f = reg_frame_echo [OF l2(3)] more_echo [OF more]
  have "chains_inv (map_option chain \<circ> conns l2) (bmem l2)"
    using chains_empty [OF l(6)] l(4) f by (simp add: comp_def)
  then have "echo_inv watching limit sfd l2"
    unfolding echo_inv_def using l2(2) l(4,5,7,8) f serv by auto
  moreover have "ticking l2" using tick f(1) ticking_cong [of l2 l1] by (simp add: loop_frame_def)
  moreover have "\<not> stop l2" using f(1) l(3) more_fields(6) [OF more] by (simp add: loop_frame_def)
  ultimately show ?thesis using l1(1) l2(1) by (simp add: server_inv_def)
qed

end

section \<open>The program\<close>

lemma pool_created:
  "buffer_pool_create mem k = Some p \<Longrightarrow> pool_inv \<lparr>bufs = Map.empty, bpool = p, mallocs = i, ios = j\<rparr> [] [] {}"
  by (auto simp: buffer_pool_create_def pool_inv_def memory_ok_def pool_ok_def split: if_splits)

text \<open>With an address and no failing system call, the setup goes through.\<close>

lemma setup_succeeds:
  assumes "newfd_ok (sockets env)" and "finite (dom (fds n))" and "resolve (sockets env) ''localhost'' (port_text 3456) True = Inr (p # ps)"
    and "\<forall>k < 7. fails (sockets env) (calls n + k) = None"
    and "echo_setup env mem tp clk pnew junke junka addev n = Some r"
  shows "\<not> isl r"
proof -
  let ?s = "newfd (sockets env) (Suc (calls n)) (fds n)"
  have s: "0 \<le> ?s" using assms(1,2) unfolding newfd_ok_def by blast
  then have "?s \<noteq> -1" "\<not> ?s < 0" by simp_all
  moreover have "fails (sockets env) (calls n) = None" "fails (sockets env) (Suc (calls n)) = None"
    "fails (sockets env) (Suc (Suc (calls n))) = None" "fails (sockets env) (Suc (Suc (Suc (calls n)))) = None"
    "fails (sockets env) (Suc (Suc (Suc (Suc (calls n))))) = None" "fails (sockets env) (Suc (Suc (Suc (Suc (Suc (calls n)))))) = None"
    "fails (sockets env) (Suc (Suc (Suc (Suc (Suc (Suc (calls n))))))) = None"
    using assms(4) [rule_format, of 0] assms(4) [rule_format, of 1] assms(4) [rule_format, of 2] assms(4) [rule_format, of 3]
      assms(4) [rule_format, of 4] assms(4) [rule_format, of 5] assms(4) [rule_format, of 6] by (simp_all add: numeral_eq_Suc)
  ultimately show ?thesis using assms(3,5)
    by (auto simp: echo_setup_def tcp_server_serve_def sys_socket_def attempt_def set_reuseaddr_def sys_setsockopt_def on_fd_def
        sys_bind_def sys_listen_def set_nonblock_def sys_getfl_def set_tcp_nodelay_def Let_def bind_eq_Some_conv split: if_splits)
qed

text \<open>One turn of the server, and the states of the program after its setup.\<close>

abbreviation server_events ::
    "io_env \<Rightarrow> 'p registrar \<Rightarrow> 'p registrar \<Rightarrow> ('p echo \<Rightarrow> int \<Rightarrow> ('p echo \<times> int) option) \<Rightarrow> clock \<Rightarrow>
     'p echo \<Rightarrow> ('p echo \<times> int) option" where
  "server_events env addev delev poll clk \<equiv> process_events poll (echo_fire env addev delev) echo_call clk"

inductive server_reach ::
    "io_env \<Rightarrow> (int \<Rightarrow> bool) \<Rightarrow> ptr \<Rightarrow> clock \<Rightarrow> 'p option \<Rightarrow> (nat \<Rightarrow> ev_event) \<Rightarrow> (nat \<Rightarrow> ev_active) \<Rightarrow>
     'p registrar \<Rightarrow> 'p registrar \<Rightarrow> ('p echo \<Rightarrow> int \<Rightarrow> ('p echo \<times> int) option) \<Rightarrow> net \<Rightarrow> 'p echo \<Rightarrow> bool"
  for env mem tp clk pnew junke junka addev delev poll n where
  start: "echo_setup env mem tp clk pnew junke junka addev n = Some (Inr l) \<Longrightarrow>
    server_reach env mem tp clk pnew junke junka addev delev poll n l"
| turn: "server_reach env mem tp clk pnew junke junka addev delev poll n l \<Longrightarrow>
    server_events env addev delev poll clk l = Some (l', k) \<Longrightarrow>
    server_reach env mem tp clk pnew junke junka addev delev poll n l'"

text \<open>The pointers passed as \<^verbatim>\<open>void *\<close> have the type the registered callbacks cast them to.\<close>

definition well_typed :: "'p echo \<Rightarrow> bool" where
  "well_typed l \<longleftrightarrow> (\<forall>cb fd data. registered l cb fd data \<longrightarrow> cb = ACCEPT_CB \<or> (cb = READ_CB \<or> cb = WRITE_CB)
      \<and> (\<exists>conn. load (conns l) data = Some conn)
      \<and> (\<forall>cb' fd'. cb' \<noteq> ACCEPT_CB \<longrightarrow> registered l cb' fd' data \<longrightarrow> fd' = fd))"

lemma inv_well_typed:
  assumes inv: "server_inv watching limit sfd l"
  shows "well_typed l"
proof -
  have einv: "echo_inv watching limit sfd l" using inv by (simp add: server_inv_def)
  have conn: "(\<exists>e. served l fd e \<and> evdata e = data) \<and> (fd = sfd \<longrightarrow> cb = ACCEPT_CB)
      \<and> (fd \<noteq> sfd \<longrightarrow> (cb = READ_CB \<or> cb = WRITE_CB) \<and> (\<exists>conn. load (conns l) data = Some conn))"
    if "registered l cb fd data" for cb fd data
    by (rule registered_typed [OF einv that]) blast
  have "fd' = fd" if "registered l cb fd data" "registered l cb' fd' data" "cb \<noteq> ACCEPT_CB" "cb' \<noteq> ACCEPT_CB"
    for cb cb' fd fd' data
    using conn [OF that(1)] conn [OF that(2)] that(3,4) einv unfolding echo_inv_def by metis
  then show ?thesis using conn unfolding well_typed_def by metis
qed

text \<open>What the invariant says of the bytes.\<close>

lemma server_flow:
  assumes "server_inv watching limit sfd l"
  shows "conns l p = Some conn \<Longrightarrow> cin (chain conn) = cout (chain conn) @ stored (chain conn) (bmem l)"
    and "served l fd e \<Longrightarrow> fd \<noteq> sfd \<Longrightarrow> conns l (evdata e) = Some conn \<Longrightarrow> eof conn = 0 \<Longrightarrow>
      total conn = of_nat (length (stored (chain conn) (bmem l)))"
proof -
  have inv: "echo_inv watching limit sfd l" using assms by (simp add: server_inv_def)
  show "cin (chain conn) = cout (chain conn) @ stored (chain conn) (bmem l)" if "conns l p = Some conn"
    using inv that chains_flow [of "map_option chain \<circ> conns l" "bmem l" p] by (simp add: echo_inv_def)
  show "total conn = of_nat (length (stored (chain conn) (bmem l)))"
    if "served l fd e" "fd \<noteq> sfd" "conns l (evdata e) = Some conn" "eof conn = 0"
    using echo_conn [OF inv that(1,2)] that(3,4) by (metis conn_ok_def option.inject)
qed

text \<open>The connections: each has written a prefix of what it has read, and \<^verbatim>\<open>total\<close> counts the rest.\<close>

definition echoing :: "int \<Rightarrow> 'p echo \<Rightarrow> bool" where
  "echoing sfd l \<longleftrightarrow>
     (\<forall>p conn. conns l p = Some conn \<longrightarrow> cin (chain conn) = cout (chain conn) @ stored (chain conn) (bmem l))
     \<and> (\<forall>fd e conn. served l fd e \<longrightarrow> fd \<noteq> sfd \<longrightarrow> conns l (evdata e) = Some conn \<longrightarrow> eof conn = 0 \<longrightarrow>
          total conn = of_nat (length (stored (chain conn) (bmem l))))"

lemma inv_echoing: "server_inv watching limit sfd l \<Longrightarrow> echoing sfd l"
  unfolding echoing_def by (intro conjI allI impI) (simp_all add: server_flow)

context echo_server
begin

lemma setup_ok:
  assumes io: "io_ok env" and n: "finite (dom (fds n))" and mem: "\<forall>k. mem k" and tp: "tp \<noteq> NULL"
    and p0: "watching (\<lambda>_. EV_NONE) p0" "100 \<le> limit"
  shows "\<exists>r. echo_setup env mem tp clk (Some p0) junke junka addevent n = Some r
    \<and> (case r of Inl n' \<Rightarrow> True | Inr l \<Rightarrow> \<exists>sfd. server_inv watching limit sfd l)"
proof -
  obtain n1 sfd where serve: "tcp_server_serve (sockets env) True ''localhost'' 3456 SOMAXCONN n = (n1, sfd)" by fastforce
  obtain n2 r2 where nonblock: "set_nonblock (sockets env) True sfd n1 = (n2, r2)" by fastforce
  obtain n3 r3 where nodelay: "set_tcp_nodelay (sockets env) True sfd 1 n2 = (n3, r3)" by fastforce
  obtain p where p: "buffer_pool_create (\<lambda>k. mem (int k)) 100 = Some p" using mem by (auto simp: buffer_pool_create_def)
  obtain loop where loop: "event_loop_create mem (Some p0) junke junka 100 10 = Some loop"
    using mem by (auto simp: event_loop_create_def timer_heap_create_def)
  have c: "Some p0 = Some (poller loop)" "loop_ok loop" "masks loop = (\<lambda>_. EV_NONE)" "setsize loop = 100" "\<not> stop loop"
      "timers loop = Map.empty" "timers_inv loop 0 []" "active loop = []" "0 < length (ents loop)"
    using event_loop_created [OF loop] by simp_all
  show ?thesis
  proof (cases "sfd < 0 \<or> r2 \<noteq> 0 \<or> r3 \<noteq> 0")
    case True
    then show ?thesis using serve nonblock nodelay by (auto simp: echo_setup_def Let_def)
  next
    case False
    have "newfd_ok (sockets env)" using io by (simp add: io_ok_def)
    then obtain d where "fds n1 = (fds n)(sfd \<mapsto> d)" using server_opens [OF _ n serve] False by auto
    then have n1: "finite (dom (fds n1))" "fds n1 sfd \<noteq> None" using n by simp_all
    have n3: "finite (dom (fds n3))" "fds n3 sfd \<noteq> None"
      using same_open_trans [OF set_nonblock_same [OF nonblock] set_nodelay_same [OF nodelay], of sfd] n1
      by (simp_all add: same_open_def)
    define s where "s = \<lparr>bufs = Map.empty, bpool = p, mallocs = 0, ios = 0\<rparr>"
    define l :: "'p echo" where "l = eloop.extend loop (echo.fields Map.empty s True n3 0 0 0 0 0)"
    note e = extend_loop [of loop "echo.fields Map.empty s True n3 0 0 0 0 0", folded l_def]
    have x: "conns l = Map.empty" "bmem l = s" "has_pool l" "socks l = n3" by (simp_all add: l_def eloop.defs echo.defs)
    have "watching (\<lambda>_. EV_NONE) (poller loop)" using c(1) p0(1) by simp
    then have "synced watching limit l" using e c p0(2) by (simp add: synced_def)
    moreover have "pool_inv (bmem l) [] [] {}" using pool_created [OF p] x by (simp add: s_def)
    ultimately obtain l1 l2 r where r: "create_timer tp mem clk l 1000 PRINT_CB NULL = Some (l1, tp)"
        "create_event addevent l1 sfd EV_RDABLE ACCEPT_CB NULL = Some (l2, r)" "server_inv watching limit sfd l2"
      using started_ok [of l sfd tp mem clk] e c x n3 tp by auto
    have "echo_setup env mem tp clk (Some p0) junke junka addevent n = Some (Inr l2)"
      using serve nonblock nodelay False p loop r(1,2)
      by (simp add: echo_setup_def Let_def l_def s_def)
    then show ?thesis using r(3) by auto
  qed
qed

lemma reach_inv:
  assumes "server_reach env mem tp clk (Some p0) junke junka addevent delevent poll n l" and io: "io_ok env"
    and start: "finite (dom (fds n))" "\<forall>k. mem k" "tp \<noteq> NULL" "watching (\<lambda>_. EV_NONE) p0" "100 \<le> limit"
    and clock: "paced 1 {1000} (reading clk)"
  shows "\<exists>sfd. server_inv watching limit sfd l"
  using assms(1)
proof (induction rule: server_reach.induct)
  case (start l)
  then show ?case using setup_ok [OF io assms(3-7), of clk junke junka] by auto
next
  case (turn l l' k)
  then obtain sfd where "server_inv watching limit sfd l" by blast
  then show ?case using server_turn [OF io _ clock, of sfd l] turn.hyps(2) by auto
qed

lemma reach_turn:
  assumes "server_reach env mem tp clk (Some p0) junke junka addevent delevent poll n l" and io: "io_ok env"
    and "finite (dom (fds n))" "\<forall>k. mem k" "tp \<noteq> NULL" "watching (\<lambda>_. EV_NONE) p0" "100 \<le> limit"
    and clock: "paced 1 {1000} (reading clk)"
  shows "well_typed l \<and> (\<exists>sfd. echoing sfd l) \<and> (\<exists>l' k. server_events env addevent delevent poll clk l = Some (l', k)
    \<and> server_reach env mem tp clk (Some p0) junke junka addevent delevent poll n l')"
proof -
  obtain sfd where inv: "server_inv watching limit sfd l" using reach_inv [OF assms] by blast
  obtain l' k where t: "server_events env addevent delevent poll clk l = Some (l', k)"
    using server_turn [OF io inv clock] by blast
  show ?thesis using inv_well_typed [OF inv] inv_echoing [OF inv] t server_reach.turn [OF assms(1) t] by blast
qed

text \<open>No number of turns ends the program.\<close>

lemma main_serves:
  assumes io: "io_ok env" and "finite (dom (fds n))" "\<forall>k. mem k" "tp \<noteq> NULL" "watching (\<lambda>_. EV_NONE) p0" "100 \<le> limit"
    and clock: "paced 1 {1000} (reading clk)"
  shows "\<exists>r. echo_setup env mem tp clk (Some p0) junke junka addevent n = Some r
    \<and> (case r of
        Inl n' \<Rightarrow> echo_main env mem tp clk (Some p0) junke junka addevent delevent poll n = Some (Inl n')
      | Inr l \<Rightarrow> (\<exists>sfd. \<forall>k. \<exists>l'. turns (server_events env addevent delevent poll clk) k l = Some l' \<and> server_inv watching limit sfd l')
          \<and> echo_main env mem tp clk (Some p0) junke junka addevent delevent poll n = None)
    \<and> ((\<exists>p ps. resolve (sockets env) ''localhost'' (port_text 3456) True = Inr (p # ps))
        \<and> (\<forall>k < 7. fails (sockets env) (calls n + k) = None) \<longrightarrow> \<not> isl r)"
proof -
  obtain r where r: "echo_setup env mem tp clk (Some p0) junke junka addevent n = Some r"
      "case r of Inl n' \<Rightarrow> True | Inr l \<Rightarrow> \<exists>sfd. server_inv watching limit sfd l"
    using setup_ok [OF assms(1-6), of clk junke junka] by blast
  have "newfd_ok (sockets env)" using io by (simp add: io_ok_def)
  then have s: "(\<exists>p ps. resolve (sockets env) ''localhost'' (port_text 3456) True = Inr (p # ps))
      \<and> (\<forall>k < 7. fails (sockets env) (calls n + k) = None) \<longrightarrow> \<not> isl r"
    using setup_succeeds [OF _ assms(2) _ _ r(1)] by blast
  show ?thesis
  proof (cases r)
    case (Inl n')
    then show ?thesis using r(1) s by (simp add: echo_main_def)
  next
    case (Inr l)
    then obtain sfd where inv: "server_inv watching limit sfd l" using r(2) by auto
    have t: "\<exists>l'. turns (server_events env addevent delevent poll clk) k l = Some l' \<and> server_inv watching limit sfd l'" for k
      by (rule server_turns [OF io clock inv])
    have "l\<lparr>stop := False\<rparr> = l" using inv by (simp add: server_inv_def)
    moreover have "run_loop (server_events env addevent delevent poll clk) l = None"
    proof (rule ccontr)
      assume "run_loop (server_events env addevent delevent poll clk) l \<noteq> None"
      then obtain l' k where "turns (server_events env addevent delevent poll clk) k l = Some l'" "stop l'" using run_turns by blast
      then show False using t [of k] by (simp add: server_inv_def)
    qed
    ultimately have "event_loop_start (server_events env addevent delevent poll clk) l = None" by (simp add: event_loop_start_def)
    then show ?thesis using r(1) Inr t by (intro exI [of _ r]) (auto simp: echo_main_def)
  qed
qed

end

section \<open>The back end on select\<close>

interpretation select_echo: echo_server select_watching FD_SETSIZE select_addevent select_delevent "select_poll sel"
  for sel :: select_call
  by unfold_locales

abbreviation select_server ::
    "io_env \<Rightarrow> select_call \<Rightarrow> clock \<Rightarrow> fdsets echo \<Rightarrow> (fdsets echo \<times> int) option" where
  "select_server env sel clk \<equiv> server_events env select_addevent select_delevent (select_poll sel) clk"

abbreviation select_reach ::
    "io_env \<Rightarrow> (int \<Rightarrow> bool) \<Rightarrow> ptr \<Rightarrow> clock \<Rightarrow> (nat \<Rightarrow> ev_event) \<Rightarrow> (nat \<Rightarrow> ev_active) \<Rightarrow> select_call \<Rightarrow> net \<Rightarrow>
     fdsets echo \<Rightarrow> bool" where
  "select_reach env mem tp clk junke junka sel n \<equiv> server_reach env mem tp clk (select_create mem) junke junka
     select_addevent select_delevent (select_poll sel) n"

lemma select_start:
  assumes "\<forall>k. mem k"
  obtains p0 where "select_create mem = Some p0" and "select_watching (\<lambda>_. EV_NONE) p0" and "100 \<le> FD_SETSIZE"
  using assms by (auto simp: select_create_def select_watching_def EV_NONE_def FD_SETSIZE_def)

section \<open>A sample environment\<close>

definition sample_io :: io_env where
  "sample_io = \<lparr>readv = echo_readv, writev = echo_writev, balloc = echo_alloc, junk = (\<lambda>_. 7),
     sockets = sample_sock (\<lambda>k. if k mod 16 < 8 then None else Some EAGAIN), chain_served = (\<lambda>_. True),
     calloc = (\<lambda>n m. Suc (Max (insert 0 (dom m))))\<rparr>"

lemma sample_io_ok: "io_ok sample_io"
proof -
  have "\<exists>k \<ge> n. refuses (sockets sample_io) k \<noteq> None" for n :: nat
    by (rule exI [of _ "2 * n + 1"]) (simp add: sample_io_def sample_sock_def)
  then have w: "\<forall>n. \<exists>k \<ge> n. refuses (sockets sample_io) k \<noteq> None" by blast
  have m: "\<forall>n m. finite (dom m) \<longrightarrow> fresh m (calloc sample_io n m)" by (simp add: sample_io_def fresh_max)
  have s: "newfd_ok (sockets sample_io)" by (simp add: sample_io_def sample_newfd)
  show ?thesis unfolding io_ok_def
    by (intro conjI w m s) (simp_all add: sample_io_def echo_stops echo_no_storm echo_bounds echo_alloc_ok)
qed

text \<open>
  The clock of a server nobody talks to. It is read when the timer is created and when the first turn
  asks how long to wait; then it waits a second, and the four readings follow after which it waits again:
  the timer is due, is set anew, is not due, and the next turn asks how long to wait.
\<close>

definition idle_clock :: clock where "idle_clock k = Timespec (int ((k + 2) div 4)) 0"

lemma idle_paced: "paced 1 {1000} (reading idle_clock)"
  unfolding paced_def
proof (intro allI exI conjI ballI impI)
  fix k i i' :: nat and r :: int
  show "k \<le> 4 * k + 2" by simp
  assume "r \<in> {1000}" "4 * k + 2 \<le> i \<and> i < i' \<and> i' \<le> 4 * k + 2 + 2 * 1 + 1"
  moreover from this(2) have "(i + 2) div 4 = k + 1" "(i' + 2) div 4 = k + 1" by linarith+
  ultimately show "reading idle_clock i' < reading idle_clock i + r" by (simp add: reading_def idle_clock_def)
qed

lemma sample_goes_through:
  assumes "echo_setup sample_io mem tp clk pnew junke junka addev no_sockets = Some r"
  shows "\<not> isl r"
proof -
  have env: "newfd_ok (sockets sample_io)" "resolve (sockets sample_io) ''localhost'' (port_text 3456) True =
      Inr ([\<lparr>ai_family = AF_INET, ai_socktype = 1, ai_protocol = 6, ai_addr = [127, 0, 0, 1]\<rparr>])"
    "\<forall>k < 7. fails (sockets sample_io) (calls no_sockets + k) = None"
    by (simp_all add: sample_newfd sample_io_def, simp_all add: sample_sock_def no_sockets_def)
  show ?thesis by (rule setup_succeeds [OF env(1) no_sockets_finite env(2,3) assms])
qed

lemma sample_setup:
  obtains l sfd where "echo_setup sample_io (\<lambda>_. True) 9 idle_clock (select_create (\<lambda>_. True)) junke junka select_addevent
      no_sockets = Some (Inr l)" and "server_inv select_watching FD_SETSIZE sfd l"
proof -
  let ?r = "echo_setup sample_io (\<lambda>_. True) 9 idle_clock (select_create (\<lambda>_. True)) junke junka select_addevent no_sockets"
  obtain p0 where p0: "select_create (\<lambda>_. True) = Some p0" "select_watching (\<lambda>_. EV_NONE) p0" "100 \<le> FD_SETSIZE"
    by (rule select_start [of "\<lambda>_. True"]) simp_all
  obtain r where r: "?r = Some r" "case r of Inl n' \<Rightarrow> True | Inr l \<Rightarrow> \<exists>sfd. server_inv select_watching FD_SETSIZE sfd l"
    unfolding p0(1) using select_echo.setup_ok [OF sample_io_ok no_sockets_finite _ _ p0(2,3), of "\<lambda>_. True" 9 idle_clock junke junka]
    by auto
  show thesis using sample_goes_through [OF r(1)] r that by (cases r) auto
qed

section \<open>Properties\<close>

text \<open>
  C5. A turn of the echo server on \<^verbatim>\<open>select\<close> returns, whatever the kernel reports and however much it reads
  and writes, provided that memory is there, that \<^verbatim>\<open>readv\<close> and \<^verbatim>\<open>writev\<close> are not interrupted for ever, that
  \<^verbatim>\<open>accept\<close> fails again and again, when nobody waits to be accepted, and that four readings of the clock in
  a row lie within a second, again and again. The turn handles at most as
  many descriptors as the table has, and keeps the program in order: the table, the two sets, the
  connections, their chains, the pool and the timer agree. Every connection has then written a prefix of
  what it has read and holds the rest; \<^verbatim>\<open>total\<close> is the number of bytes held, as long as the client has not
  closed its side.
\<close>

theorem echo_turn:
  assumes "io_ok env" and "server_inv select_watching FD_SETSIZE sfd l" and "paced 1 {1000} (reading clk)"
  shows "\<exists>l' n m. select_server env sel clk l = Some (l', n + m) \<and> 0 \<le> n \<and> n \<le> setsize l \<and> 0 \<le> m
    \<and> server_inv select_watching FD_SETSIZE sfd l' \<and> echoing sfd l'"
  using select_echo.server_turn [OF assms, of sel] inv_echoing by blast

theorem echo_turn_witness:
  "\<exists>l l' k. echo_setup sample_io (\<lambda>_. True) 9 idle_clock (select_create (\<lambda>_. True)) (\<lambda>_. \<lparr>evmask = 0, evdata = 0, evread = 0, evwrite = 0\<rparr>)
      (\<lambda>_. \<lparr>afd = 0, aevent = 0\<rparr>) select_addevent no_sockets = Some (Inr l)
    \<and> select_server sample_io (\<lambda>k n R W tv. (1, R, W)) idle_clock l = Some (l', k)"
proof -
  obtain l sfd where l: "echo_setup sample_io (\<lambda>_. True) 9 idle_clock (select_create (\<lambda>_. True))
      (\<lambda>_. \<lparr>evmask = 0, evdata = 0, evread = 0, evwrite = 0\<rparr>) (\<lambda>_. \<lparr>afd = 0, aevent = 0\<rparr>) select_addevent no_sockets = Some (Inr l)"
      "server_inv select_watching FD_SETSIZE sfd l"
    by (rule sample_setup)
  show ?thesis using echo_turn [OF sample_io_ok l(2) idle_paced, of "\<lambda>k n R W tv. (1, R, W)"] l(1) by blast
qed

text \<open>
  The program serves for ever: with memory, its setup ends in an early return or in a state from
  which every number of turns is defined and keeps the program in order, so that \<^verbatim>\<open>main\<close> does not return.
  There is no early return when the name has an address and the first seven system calls succeed.
\<close>

theorem echo_main_serves:
  assumes "io_ok env" and "finite (dom (fds n))" and "\<forall>k. mem k" and "tp \<noteq> NULL"
    and "paced 1 {1000} (reading clk)"
  shows "\<exists>r. echo_setup env mem tp clk (select_create mem) junke junka select_addevent n = Some r
    \<and> (case r of
        Inl n' \<Rightarrow> echo_main env mem tp clk (select_create mem) junke junka select_addevent select_delevent (select_poll sel) n
          = Some (Inl n')
      | Inr l \<Rightarrow> (\<exists>sfd. \<forall>k. \<exists>l'. turns (select_server env sel clk) k l = Some l' \<and> server_inv select_watching FD_SETSIZE sfd l')
          \<and> echo_main env mem tp clk (select_create mem) junke junka select_addevent select_delevent (select_poll sel) n = None)
    \<and> ((\<exists>p ps. resolve (sockets env) ''localhost'' (port_text 3456) True = Inr (p # ps))
        \<and> (\<forall>k < 7. fails (sockets env) (calls n + k) = None) \<longrightarrow> \<not> isl r)"
proof -
  obtain p0 where p0: "select_create mem = Some p0" "select_watching (\<lambda>_. EV_NONE) p0" "100 \<le> FD_SETSIZE"
    using assms(3) by (rule select_start)
  show ?thesis unfolding p0(1) using select_echo.main_serves [OF assms(1-4) p0(2,3) assms(5)] .
qed

theorem echo_main_serves_witness:
  "echo_main sample_io (\<lambda>_. True) 9 idle_clock (select_create (\<lambda>_. True)) (\<lambda>_. \<lparr>evmask = 0, evdata = 0, evread = 0, evwrite = 0\<rparr>)
      (\<lambda>_. \<lparr>afd = 0, aevent = 0\<rparr>) select_addevent select_delevent (select_poll (\<lambda>k n R W tv. (1, R, W))) no_sockets = None"
proof -
  obtain l sfd where l: "echo_setup sample_io (\<lambda>_. True) 9 idle_clock (select_create (\<lambda>_. True))
      (\<lambda>_. \<lparr>evmask = 0, evdata = 0, evread = 0, evwrite = 0\<rparr>) (\<lambda>_. \<lparr>afd = 0, aevent = 0\<rparr>) select_addevent no_sockets = Some (Inr l)"
    by (rule sample_setup)
  show ?thesis
    using echo_main_serves [OF sample_io_ok no_sockets_finite _ _ idle_paced, of "\<lambda>_. True" 9
        "\<lambda>_. \<lparr>evmask = 0, evdata = 0, evread = 0, evwrite = 0\<rparr>" "\<lambda>_. \<lparr>afd = 0, aevent = 0\<rparr>" "\<lambda>k n R W tv. (1, R, W)"] l
    by auto
qed

text \<open>
  The pointers the program passes as \<^verbatim>\<open>void *\<close> have the type the callbacks cast them to: in every state
  the program reaches, a registered callback is \<^verbatim>\<open>server_accept_cb\<close>, which ignores its data, or one of the
  two callbacks of a connection, and then its data are a live connection that no other descriptor has.
  From every such state the next turn is defined.
\<close>

theorem echo_type_sound:
  assumes "select_reach env mem tp clk junke junka sel n l" and "io_ok env" and "finite (dom (fds n))" and "\<forall>k. mem k"
    and "tp \<noteq> NULL" and "paced 1 {1000} (reading clk)"
  shows "well_typed l \<and> (\<exists>l' k. select_server env sel clk l = Some (l', k) \<and> select_reach env mem tp clk junke junka sel n l')"
proof -
  obtain p0 where p0: "select_create mem = Some p0" "select_watching (\<lambda>_. EV_NONE) p0" "100 \<le> FD_SETSIZE"
    using assms(4) by (rule select_start)
  show ?thesis
    using select_echo.reach_turn [OF assms(1) [unfolded p0(1)] assms(2-5) p0(2,3) assms(6)] unfolding p0(1) by blast
qed

theorem echo_type_sound_witness:
  "\<exists>l l' k. select_reach sample_io (\<lambda>_. True) 9 idle_clock (\<lambda>_. \<lparr>evmask = 0, evdata = 0, evread = 0, evwrite = 0\<rparr>)
      (\<lambda>_. \<lparr>afd = 0, aevent = 0\<rparr>) (\<lambda>k n R W tv. (1, R, W)) no_sockets l
    \<and> select_server sample_io (\<lambda>k n R W tv. (1, R, W)) idle_clock l = Some (l', k)"
proof -
  let ?e = "\<lambda>_ :: nat. \<lparr>evmask = 0 :: u32, evdata = 0, evread = 0, evwrite = 0\<rparr>" and ?a = "\<lambda>_ :: nat. \<lparr>afd = 0 :: int, aevent = 0 :: u32\<rparr>"
  let ?sel = "\<lambda>(k :: nat) (n :: int) (R :: int set) (W :: int set) (tv :: int \<times> int). (1 :: int, R, W)"
  obtain l sfd where l: "echo_setup sample_io (\<lambda>_. True) 9 idle_clock (select_create (\<lambda>_. True)) ?e ?a select_addevent
      no_sockets = Some (Inr l)"
    by (rule sample_setup)
  then have r: "select_reach sample_io (\<lambda>_. True) 9 idle_clock ?e ?a ?sel no_sockets l" by (rule server_reach.start)
  show ?thesis using echo_type_sound [OF r sample_io_ok no_sockets_finite _ _ idle_paced] r by auto
qed

text \<open>
  A connection on a new server: descriptor 5, at address 8, with an empty chain. The environment fills
  all the room at the first read, and then reports the end of the stream.
\<close>

definition eof_readv :: "nat \<Rightarrow> nat \<Rightarrow> read_result" where
  "eof_readv n m = (if n = 0 then Bytes (replicate m 7) else Bytes [])"

definition eof_io :: io_env where "eof_io = sample_io\<lparr>readv := eof_readv\<rparr>"

lemma eof_io_ok: "io_ok eof_io"
proof -
  have "read_stops eof_readv (Suc k)" "reads_ok eof_readv" for k
    by (simp_all add: read_stops_def eof_readv_def reads_ok_def)
  then have "\<forall>n. \<exists>k \<ge> n. read_stops eof_readv k" "reads_ok eof_readv" using le_Suc_eq by blast+
  then show ?thesis using sample_io_ok unfolding io_ok_def by (auto simp: eof_io_def)
qed

lemma sample_block:
  "buffer_pool_get echo_alloc (\<lambda>_. 7) empty_state = Some (\<lparr>bufs = [1 \<mapsto> new_buffer (\<lambda>_. 7)],
     bpool = \<lparr>bmax = 100, ballocs = 1, bsize = 0, bhead = NULL, btail = None\<rparr>, mallocs = 1, ios = 0\<rparr>, 1)"
  by (simp add: buffer_pool_get_def buffer_pool_peek_def buffer_detach_def empty_state_def echo_alloc_def load_def store_def
      modify_def Let_def new_buffer_def)

lemma sample_eof:
  assumes "buffer_pool_get echo_alloc (\<lambda>_. 7) empty_state = Some (s, q)"
  shows "\<exists>c s'. buffer_chain_recv eof_readv echo_alloc (\<lambda>_. 7) (new_chain q) s = Some (c, s', 0) \<and> recv c = 8112"
proof -
  have s: "s = \<lparr>bufs = [1 \<mapsto> new_buffer (\<lambda>_. 7)],
     bpool = \<lparr>bmax = 100, ballocs = 1, bsize = 0, bhead = NULL, btail = None\<rparr>, mallocs = 1, ios = 0\<rparr>" and q: "q = 1"
    using assms unfolding sample_block option.inject prod.inject by blast+
  define bs :: "u8 list" where "bs = replicate (room + room) 7"
  have bs: "eof_readv 0 (room + room) = Bytes bs" "length bs = room + room" "bs \<noteq> []" "0 < room"
    by (simp_all add: eof_readv_def bs_def BUFFER_SIZE_def BUFFER_HSIZE_def)
  have size: "buffer_wsize (new_buffer (\<lambda>_. 7)) = room"
    by (simp add: buffer_wsize_def new_buffer_def BUFFER_SIZE_def BUFFER_HSIZE_def)
  have eof: "eof_readv (Suc 0) m = Bytes []" for m by (simp add: eof_readv_def)
  have "\<exists>c s'. recv_loop eof_readv echo_alloc (\<lambda>_. 7) (new_chain q\<lparr>recv := 0\<rparr>) s = Some (c, s', 0) \<and> recv c = of_nat (length bs)"
    apply (subst recv_loop.simps)
    using bs size
    apply (simp add: s q new_chain_def buffer_pool_peek_def buffer_detach_def echo_alloc_def load_def store_def modify_def Let_def)
    apply (subst recv_loop.simps)
    apply (simp add: eof buffer_pool_peek_def echo_alloc_def load_def Let_def new_buffer_def)
    done
  then show ?thesis by (simp add: buffer_chain_recv_def bs(2) BUFFER_SIZE_def BUFFER_HSIZE_def)
qed

lemma sample_connection:
  obtains l :: "fdsets echo" and e conn c s where "echo_inv select_watching FD_SETSIZE 3 l" and "served l 5 e"
    and "conns l (evdata e) = Some conn" and "total conn = 0"
    and "buffer_chain_recv (readv eof_io) (balloc eof_io) (junk eof_io) (chain conn) (bmem l) = Some (c, s, 0)" and "recv c = 8112"
proof -
  let ?n = "no_sockets\<lparr>fds := [3 \<mapsto> \<lparr>status = 0, dflags = 0, options = Map.empty, phase = Created, shut_rd = False, shut_wr = False\<rparr>]\<rparr>"
  let ?sets = "\<lparr>rfds = {}, wfds = {}, crfds = {}, cwfds = {}\<rparr>"
  define l0 :: "fdsets echo" where "l0 = eloop.extend (sample_loop ?sets) (echo.fields Map.empty empty_state True ?n 0 0 0 0 0)"
  note e0 = extend_loop [of "sample_loop ?sets" "echo.fields Map.empty empty_state True ?n 0 0 0 0 0", folded l0_def]
  have x: "conns l0 = Map.empty" "bmem l0 = empty_state" "has_pool l0" "socks l0 = ?n" by (simp_all add: l0_def eloop.defs echo.defs)
  have "masks (sample_loop ?sets) = (\<lambda>_. EV_NONE)" by (rule ext) (rule sample_masks)
  then have m: "masks l0 = (\<lambda>_. EV_NONE)" using e0(10) by simp
  have none: "\<not> served l0 d y" for d y using event_at_masks [of l0 d y] m by (auto simp: served_def)
  have "synced select_watching FD_SETSIZE l0" using sample_select_synced e0 by (simp add: synced_def)
  then have i0: "echo_inv select_watching FD_SETSIZE 3 l0"
    unfolding echo_inv_def using x none chains_empty [OF empty_state_pool] by (simp add: comp_def)
  have "fresh (conns l0) 8" "finite (dom (fds ?n))" "fds ?n 3 \<noteq> None" using x by (simp_all add: fresh_def)
  note add = echo_add [OF i0 eof_io_ok this, of 1]
  obtain s q where g: "buffer_pool_get echo_alloc (\<lambda>_. 7) empty_state = Some (s, q)"
      "echo_inv select_watching FD_SETSIZE 3 (l0\<lparr>socks := ?n, requests := 1, bmem := s,
         conns := (conns l0)(8 \<mapsto> \<lparr>eof = 0, writing = 0, total = 0, chain = new_chain q\<rparr>)\<rparr>)"
      "stored (new_chain q) s = []"
    using add x by (auto simp: eof_io_def sample_io_def)
  let ?c = "\<lparr>eof = 0, writing = 0, total = 0, chain = new_chain q\<rparr>"
  define l1 where "l1 = l0\<lparr>socks := ?n, requests := 1, bmem := s, conns := (conns l0)(8 \<mapsto> ?c)\<rparr>"
  have i1: "echo_inv select_watching FD_SETSIZE 3 l1" using g(2) by (simp only: l1_def)
  then have s1: "synced select_watching FD_SETSIZE l1" by (simp add: echo_inv_def)
  have "event_at l1 = event_at l0" by (rule event_at_events) (simp add: l1_def)
  then have "\<not> served l1 d y" for d y using none [of d y] by (simp add: served_def)
  then have un: "unused l1 3 8" by (simp add: unused_def)
  have nz: "READ_CB \<noteq> 0" "EV_RDABLE \<noteq> EV_NONE" by (simp_all add: READ_CB_def EV_RDABLE_def EV_NONE_def)
  have size: "setsize l1 = 10" using e0(6) by (simp add: l1_def)
  obtain l2 where l2: "synced select_watching FD_SETSIZE l2" "reg_frame l1 l2"
      "event_at l2 = (event_at l1)(5 := map_option (entry_after EV_RDABLE READ_CB 8) (event_at l1 5))"
    using select_registers [OF s1 nz, of 5 8] size by auto
  have "loop_ok l1" using s1 by (simp add: synced_def)
  then obtain e where e: "event_at l1 5 = Some e" using event_at_ok(1) [of l1 5] size by auto
  let ?e = "entry_after EV_RDABLE READ_CB 8 e"
  have ev: "event_at l2 = (event_at l1)(5 \<mapsto> ?e)" using l2(3) e by simp
  have i2: "echo_inv select_watching FD_SETSIZE 3 l2"
    by (rule echo_register [OF i1 un _ _ _ _ l2(1,2) ev e, of "new_chain q"]) (simp_all add: l1_def g(3))
  have "served l2 5 ?e" using ev nz(2) by (simp add: served_def entry_after_def or_none)
  moreover have "conns l2 (evdata ?e) = Some ?c" "bmem l2 = s" using reg_frame_echo [OF l2(2)] by (simp_all add: l1_def entry_after_def)
  moreover obtain c s' where "buffer_chain_recv eof_readv echo_alloc (\<lambda>_. 7) (new_chain q) s = Some (c, s', 0)" "recv c = 8112"
    using sample_eof [OF g(1)] by blast
  ultimately show thesis using that [OF i2, of ?e ?c c s'] by (simp add: eof_io_def sample_io_def)
qed

text \<open>
  C34. At the end of the stream bytes are lost: when the read callback of a connection that holds nothing
  (\<^verbatim>\<open>total\<close> is 0) receives bytes and the end of the stream in one call, it closes the descriptor with these
  bytes in the chain. They are counted nowhere and never written. (A connection that still holds bytes
  is kept, and writes these bytes too.)
\<close>

theorem echo_loses_data:
  assumes "io_ok env" and "echo_inv select_watching FD_SETSIZE sfd l" and "served l fd e" and "fd \<noteq> sfd"
    and "conns l (evdata e) = Some conn" and "total conn = 0"
    and "buffer_chain_recv (readv env) (balloc env) (junk env) (chain conn) (bmem l) = Some (c, s, 0)" and "0 < recv c"
  shows "\<exists>l' conn' bs. client_readcb env select_addevent select_delevent l fd (evdata e) = Some l'
    \<and> conns l' (evdata e) = Some conn' \<and> cin (chain conn') = cin (chain conn) @ bs \<and> bs \<noteq> []
    \<and> cout (chain conn') = cout (chain conn) \<and> fds (socks l') fd = None \<and> (\<forall>x. \<not> served l' fd x)"
proof -
  obtain l' conn' bs where r: "client_readcb env select_addevent select_delevent l fd (evdata e) = Some l'"
      "conns l' (evdata e) = Some conn'" "cin (chain conn') = cin (chain conn) @ bs" "cout (chain conn') = cout (chain conn)"
      "recv c = of_nat (length bs)" "fds (socks l') fd = None" "\<forall>x. \<not> served l' fd x"
    using select_echo.eof_drops [OF assms(1-7)] by blast
  then have "bs \<noteq> []" using assms(8) by auto
  then show ?thesis using r by blast
qed

theorem echo_loses_data_witness:
  "\<exists>l l' e conn conn' bs. served l 5 e \<and> conns l (evdata e) = Some conn
    \<and> client_readcb eof_io select_addevent select_delevent l 5 (evdata e) = Some l' \<and> conns l' (evdata e) = Some conn'
    \<and> cin (chain conn') = cin (chain conn) @ bs \<and> bs \<noteq> [] \<and> cout (chain conn') = cout (chain conn) \<and> fds (socks l') 5 = None"
proof -
  obtain l :: "fdsets echo" and e conn c s where l: "echo_inv select_watching FD_SETSIZE 3 l" "served l 5 e"
      "conns l (evdata e) = Some conn" "total conn = 0"
      "buffer_chain_recv (readv eof_io) (balloc eof_io) (junk eof_io) (chain conn) (bmem l) = Some (c, s, 0)" "recv c = 8112"
    by (rule sample_connection)
  have "0 < recv c" using l(6) by simp
  then show ?thesis using echo_loses_data [OF eof_io_ok l(1,2) _ l(3-5)] l(2,3) by fastforce
qed

end
