(* ===== verification/Echo_Epoll.thy ===== *)
theory Echo_Epoll
  imports Echo_Program
begin

text \<open>
  The echo server of \<^verbatim>\<open>kznet/demo.c\<close> on \<^verbatim>\<open>epoll\<close>, the back end of the build on Linux. A registration of
  a new descriptor may fail here at any time, which the program does not notice; the other calls of
  \<^verbatim>\<open>epoll_ctl\<close> are made for watched descriptors only and do not fail (\<open>epoll_steady\<close>).
\<close>

section \<open>The server on epoll\<close>

interpretation epoll_echo: echo_server "epoll_firm ctl wait interest" "2 ^ 31" "epoll_addevent ctl" "epoll_delevent ctl"
    "epoll_poll wait"
  for ctl :: "'k epoll_ctl" and wait :: "'k epoll_wait" and interest
  by unfold_locales

abbreviation epoll_server ::
    "io_env \<Rightarrow> 'k epoll_ctl \<Rightarrow> 'k epoll_wait \<Rightarrow> clock \<Rightarrow> 'k epoll echo \<Rightarrow> ('k epoll echo \<times> int) option" where
  "epoll_server env ctl wait clk \<equiv> server_events env (epoll_addevent ctl) (epoll_delevent ctl) (epoll_poll wait) clk"

abbreviation epoll_reach ::
    "io_env \<Rightarrow> (int \<Rightarrow> bool) \<Rightarrow> ptr \<Rightarrow> clock \<Rightarrow> 'k epoll option \<Rightarrow> (nat \<Rightarrow> ev_event) \<Rightarrow> (nat \<Rightarrow> ev_active) \<Rightarrow>
     'k epoll_ctl \<Rightarrow> 'k epoll_wait \<Rightarrow> net \<Rightarrow> 'k epoll echo \<Rightarrow> bool" where
  "epoll_reach env mem tp clk pnew junke junka ctl wait n \<equiv> server_reach env mem tp clk pnew junke junka
     (epoll_addevent ctl) (epoll_delevent ctl) (epoll_poll wait) n"

text \<open>A new instance watches nothing.\<close>

lemma epoll_start:
  assumes "epoll_kernel ctl wait interest" and "epoll_steady ctl interest" and "interest k = Map.empty"
    and "\<forall>m. mem m" and "created \<noteq> -1"
  shows "epoll_create mem created k 100 = Some \<lparr>epfd = created, kern = k\<rparr>"
    and "epoll_firm ctl wait interest (\<lambda>_. EV_NONE) \<lparr>epfd = created, kern = k\<rparr>"
  using assms by (simp_all add: epoll_create_def epoll_firm_def epoll_watching_def)

section \<open>A sample kernel\<close>

text \<open>A kernel that has room for descriptors below 50 only, and reports all it watches as readable.\<close>

definition small_ctl :: "(int \<rightharpoonup> u32) epoll_ctl" where
  "small_ctl k op fd e =
     (if op = CTL_ADD \<and> 50 \<le> fd then (k, -1) else if op = CTL_DEL then (k(fd := None), 0) else (k(fd \<mapsto> e), 0))"

lemma small_kernel: "epoll_kernel small_ctl sample_wait (\<lambda>k. k)" "epoll_steady small_ctl (\<lambda>k. k)"
  by (auto simp: epoll_kernel_def epoll_steady_def small_ctl_def sample_wait_def)

lemma sample_epoll_setup:
  obtains l where "echo_setup sample_io (\<lambda>_. True) 9 idle_clock (epoll_create (\<lambda>_. True) 7 Map.empty 100) junke junka
      (epoll_addevent small_ctl) no_sockets = Some (Inr l)"
proof -
  have p0: "epoll_create (\<lambda>_. True) 7 Map.empty 100 = Some \<lparr>epfd = 7, kern = Map.empty :: int \<rightharpoonup> u32\<rparr>"
      "epoll_firm small_ctl sample_wait (\<lambda>k. k) (\<lambda>_. EV_NONE) \<lparr>epfd = 7, kern = Map.empty\<rparr>"
    using epoll_start [OF small_kernel, of Map.empty "\<lambda>_. True" 7] by simp_all
  obtain r where r: "echo_setup sample_io (\<lambda>_. True) 9 idle_clock (epoll_create (\<lambda>_. True) 7 Map.empty 100) junke junka
      (epoll_addevent small_ctl) no_sockets = Some r"
    using epoll_echo.setup_ok [OF sample_io_ok no_sockets_finite _ _ p0(2), of "\<lambda>_. True" 9 idle_clock junke junka] p0(1)
    by auto
  show thesis using sample_goes_through [OF r] r that by (cases r) auto
qed

section \<open>Properties\<close>

text \<open>
  C11. In every state the echo server reaches on \<^verbatim>\<open>epoll\<close>, whatever the kernel reports and however often it
  refuses new registrations, as long as memory is there, \<^verbatim>\<open>accept\<close> fails again and again, when nobody waits
  to be accepted, and four readings of the clock in a row lie within a second, again and again, the pointers the program passes as \<^verbatim>\<open>void *\<close> have the type the callbacks cast
  them to: a registered callback is \<^verbatim>\<open>server_accept_cb\<close>, which ignores its data, or one of the two callbacks
  of a connection, and then its data are a live connection that no other descriptor has. Every
  connection has written a prefix of what it has read and holds the rest, and the next turn is defined.
\<close>

theorem echo_epoll_sound:
  assumes "epoll_reach env mem tp clk (epoll_create mem created k 100) junke junka ctl wait n l"
    and "epoll_kernel ctl wait interest" and "epoll_steady ctl interest" and "interest k = Map.empty" and "created \<noteq> -1"
    and "io_ok env" and "finite (dom (fds n))" and "\<forall>m. mem m" and "tp \<noteq> NULL"
    and "paced 1 {1000} (reading clk)"
  shows "well_typed l \<and> (\<exists>sfd. echoing sfd l) \<and> (\<exists>l' m. epoll_server env ctl wait clk l = Some (l', m)
    \<and> epoll_reach env mem tp clk (epoll_create mem created k 100) junke junka ctl wait n l')"
proof -
  note p0 = epoll_start [OF assms(2-4,8,5)]
  show ?thesis
    using epoll_echo.reach_turn [OF assms(1) [unfolded p0(1)] assms(6-9) p0(2) _ assms(10)] unfolding p0(1) by simp
qed

theorem echo_epoll_sound_witness:
  "\<exists>l l' m. epoll_reach sample_io (\<lambda>_. True) 9 idle_clock (epoll_create (\<lambda>_. True) 7 Map.empty 100)
      (\<lambda>_. \<lparr>evmask = 0, evdata = 0, evread = 0, evwrite = 0\<rparr>) (\<lambda>_. \<lparr>afd = 0, aevent = 0\<rparr>) small_ctl sample_wait no_sockets l
    \<and> well_typed l \<and> epoll_server sample_io small_ctl sample_wait idle_clock l = Some (l', m)"
proof -
  let ?e = "\<lambda>_ :: nat. \<lparr>evmask = 0 :: u32, evdata = 0, evread = 0, evwrite = 0\<rparr>" and ?a = "\<lambda>_ :: nat. \<lparr>afd = 0 :: int, aevent = 0 :: u32\<rparr>"
  obtain l where "echo_setup sample_io (\<lambda>_. True) 9 idle_clock (epoll_create (\<lambda>_. True) 7 Map.empty 100) ?e ?a
      (epoll_addevent small_ctl) no_sockets = Some (Inr l)"
    by (rule sample_epoll_setup)
  then have r: "epoll_reach sample_io (\<lambda>_. True) 9 idle_clock (epoll_create (\<lambda>_. True) 7 Map.empty 100) ?e ?a small_ctl sample_wait
      no_sockets l"
    by (rule server_reach.start)
  show ?thesis
    using echo_epoll_sound [OF r small_kernel _ _ sample_io_ok no_sockets_finite _ _ idle_paced] r by auto
qed

text \<open>
  C13. On \<^verbatim>\<open>epoll\<close> the program serves for ever, under the conditions of C11, which the readings of a server
  that sleeps for a second in every turn satisfy: its setup ends in an early return or in a state from
  which every number of turns is defined and keeps the program in order, so that \<^verbatim>\<open>main\<close> does not return.
  There is no early return when the name has an address and the first seven system calls succeed.
\<close>

theorem echo_epoll_serves:
  assumes "epoll_kernel ctl wait interest" and "epoll_steady ctl interest" and "interest k = Map.empty" and "created \<noteq> -1"
    and "io_ok env" and "finite (dom (fds n))" and "\<forall>m. mem m" and "tp \<noteq> NULL"
    and "paced 1 {1000} (reading clk)"
  shows "\<exists>r. echo_setup env mem tp clk (epoll_create mem created k 100) junke junka (epoll_addevent ctl) n = Some r
    \<and> (case r of
        Inl n' \<Rightarrow> echo_main env mem tp clk (epoll_create mem created k 100) junke junka (epoll_addevent ctl) (epoll_delevent ctl)
          (epoll_poll wait) n = Some (Inl n')
      | Inr l \<Rightarrow> (\<exists>sfd. \<forall>j. \<exists>l'. turns (epoll_server env ctl wait clk) j l = Some l'
            \<and> server_inv (epoll_firm ctl wait interest) (2 ^ 31) sfd l')
          \<and> echo_main env mem tp clk (epoll_create mem created k 100) junke junka (epoll_addevent ctl) (epoll_delevent ctl)
            (epoll_poll wait) n = None)
    \<and> ((\<exists>p ps. resolve (sockets env) ''localhost'' (port_text 3456) True = Inr (p # ps))
        \<and> (\<forall>j < 7. fails (sockets env) (calls n + j) = None) \<longrightarrow> \<not> isl r)"
proof -
  note p0 = epoll_start [OF assms(1-3,7,4)]
  have "(100 :: int) \<le> 2 ^ 31" by simp
  from epoll_echo.main_serves [OF assms(5-8) p0(2) this assms(9)] show ?thesis unfolding p0(1) .
qed

theorem echo_epoll_serves_witness:
  "echo_main sample_io (\<lambda>_. True) 9 idle_clock (epoll_create (\<lambda>_. True) 7 Map.empty 100)
      (\<lambda>_. \<lparr>evmask = 0, evdata = 0, evread = 0, evwrite = 0\<rparr>) (\<lambda>_. \<lparr>afd = 0, aevent = 0\<rparr>)
      (epoll_addevent small_ctl) (epoll_delevent small_ctl) (epoll_poll sample_wait) no_sockets = None"
proof -
  let ?e = "\<lambda>_ :: nat. \<lparr>evmask = 0 :: u32, evdata = 0, evread = 0, evwrite = 0\<rparr>" and ?a = "\<lambda>_ :: nat. \<lparr>afd = 0 :: int, aevent = 0 :: u32\<rparr>"
  obtain l where "echo_setup sample_io (\<lambda>_. True) 9 idle_clock (epoll_create (\<lambda>_. True) 7 Map.empty 100) ?e ?a
      (epoll_addevent small_ctl) no_sockets = Some (Inr l)"
    by (rule sample_epoll_setup)
  then show ?thesis
    using echo_epoll_serves [OF small_kernel _ _ sample_io_ok no_sockets_finite _ _ idle_paced, of Map.empty 7 "\<lambda>_. True" 9 ?e ?a]
    by auto
qed

end
