(* ===== verification/Bit_Store.thy ===== *)
theory Bit_Store
  imports Prelude
begin

text \<open>
  The interface between the Bloom filter and the bit set: a store of bits addressed by position,
  of which the filter sets single bits and tests them. The locale \<open>bit_store\<close> states what the
  filter relies on; \<open>put_seq\<close> and \<open>test_seq\<close> are the two loops of the filter over a list of
  positions, with their behaviour proved once from the laws.
\<close>

fun put_seq :: "('s \<Rightarrow> u64 \<Rightarrow> 's option) \<Rightarrow> 's \<Rightarrow> u64 list \<Rightarrow> 's option" where
  "put_seq put s [] = Some s"
| "put_seq put s (n # ns) = do { s' \<leftarrow> put s n; put_seq put s' ns }"

fun test_seq :: "('s \<Rightarrow> u64 \<Rightarrow> bool option) \<Rightarrow> 's \<Rightarrow> u64 list \<Rightarrow> bool option" where
  "test_seq test s [] = Some True"
| "test_seq test s (n # ns) = do { b \<leftarrow> test s n; if \<not> b then Some False else test_seq test s ns }"

locale bit_store =
  fixes invar :: "'s \<Rightarrow> bool"
    and capacity :: "'s \<Rightarrow> u64"
    and members :: "'s \<Rightarrow> nat set"
    and put :: "'s \<Rightarrow> u64 \<Rightarrow> 's option"
    and test :: "'s \<Rightarrow> u64 \<Rightarrow> bool option"
  assumes put_law: "invar s \<Longrightarrow> n < capacity s \<Longrightarrow>
      \<exists>s'. put s n = Some s' \<and> invar s' \<and> capacity s' = capacity s
        \<and> members s' = insert (unat n) (members s)"
    and test_law: "invar s \<Longrightarrow> n < capacity s \<Longrightarrow> test s n = Some (unat n \<in> members s)"
begin

lemma put_seq_members:
  assumes "invar s" and "\<forall>n \<in> set ns. n < capacity s"
  shows "\<exists>s'. put_seq put s ns = Some s' \<and> invar s' \<and> capacity s' = capacity s
    \<and> members s' = members s \<union> unat ` set ns"
  using assms
proof (induction ns arbitrary: s)
  case Nil
  then show ?case by simp
next
  case (Cons n ns)
  then obtain s1 where s1: "put s n = Some s1" "invar s1" "capacity s1 = capacity s"
      "members s1 = insert (unat n) (members s)"
    using put_law [of s n] by auto
  with Cons.IH [of s1] Cons.prems obtain s' where "put_seq put s1 ns = Some s'" "invar s'"
      "capacity s' = capacity s1" "members s' = members s1 \<union> unat ` set ns"
    by auto
  with s1 show ?case by auto
qed

lemma test_seq_members:
  assumes "invar s" and "\<forall>n \<in> set ns. n < capacity s"
  shows "test_seq test s ns = Some (unat ` set ns \<subseteq> members s)"
  using assms by (induction ns) (auto simp: test_law)

text \<open>What was put is found, and later puts do not take it away.\<close>

lemma test_after_put:
  assumes "invar s" and "\<forall>n \<in> set ns. n < capacity s" and "\<forall>n \<in> set ms. n < capacity s"
    and "put_seq put s ns = Some s'"
  shows "test_seq test s' ms = Some (unat ` set ms \<subseteq> members s \<union> unat ` set ns)"
  using put_seq_members [OF assms(1,2)] assms(3,4) test_seq_members [of s' ms] by auto

end

end
