(* ===== verification/Bitset.thy ===== *)
theory Bitset
  imports Bit_Store
begin

text \<open>
  The bit set of \<^verbatim>\<open>bitset/bitset.c\<close>.

  The record \<open>bitset\<close> is \<^verbatim>\<open>struct bitset\<close>: its length in bits and the memory block its
  pointer \<^verbatim>\<open>bytes\<close> leads to. The block is what the allocator returned: the requested bytes and then
  a \<open>slack\<close>, whatever the program may find in the memory behind them (an empty slack is the C
  standard's view, where every access behind the requested size is undefined). A null \<^verbatim>\<open>bitset *\<close>
  is \<open>None\<close>. The parameter \<open>mem\<close> tells which requests the allocator serves.

  The abstraction \<open>bits_of\<close> is the set of positions below the length whose bit is 1; the
  invariant \<open>bs_inv\<close> says that the block holds the requested bytes and that the padding bits of
  the last byte are 0.
\<close>

unbundle bit_operations_syntax

record bitset =
  blen :: u64
  bytes :: "u8 list"

section \<open>The operations\<close>

text \<open>The number of bytes for \<open>len\<close> bits, an expression the code writes out in each operation.\<close>

definition nbytes :: "u64 \<Rightarrow> u64" where
  "nbytes len = (len + 7) div 8"

definition bitset_new :: "(u64 \<Rightarrow> bool) \<Rightarrow> u8 list \<Rightarrow> u64 \<Rightarrow> bitset option" where
  "bitset_new mem slack len =
     (if \<not> mem 16 then None
      else let nbyte = (len + 7) div 8 in
        if \<not> mem nbyte then None
        else Some \<lparr>blen = len, bytes = replicate (unat nbyte) 0 @ slack\<rparr>)"

definition bitset_get :: "bitset option \<Rightarrow> u64 \<Rightarrow> int option" where
  "bitset_get st n = (case st of
     None \<Rightarrow> Some 0
   | Some s \<Rightarrow>
       if n > blen s then Some 0
       else do {
         b \<leftarrow> aload (bytes s) (unat (n div 8));
         Some (uint (drop_bit (unat (n mod 8)) b AND 1))
       })"

definition bitset_set :: "bitset option \<Rightarrow> u64 \<Rightarrow> int \<Rightarrow> (bitset option \<times> int) option" where
  "bitset_set st n b = (case st of
     None \<Rightarrow> Some (None, 0)
   | Some s \<Rightarrow>
       if n > blen s \<or> (b \<noteq> 0 \<and> b \<noteq> 1) then Some (Some s, 0)
       else do {
         old \<leftarrow> aload (bytes s) (unat (n div 8));
         let prev = uint (drop_bit (unat (n mod 8)) old AND 1);
         bs \<leftarrow> astore (bytes s) (unat (n div 8))
           (if b = 1 then old OR push_bit (unat (n mod 8)) 1
            else old AND NOT (push_bit (unat (n mod 8)) 1));
         Some (Some (s\<lparr>bytes := bs\<rparr>), prev)
       })"

definition lsbmask :: "u8 list" where
  "lsbmask = [0x7F, 0x3F, 0x1F, 0x0F, 0x07, 0x03, 0x01]"

definition bitset_setall :: "bitset option \<Rightarrow> bitset option option" where
  "bitset_setall st = (case st of
     None \<Rightarrow> Some None
   | Some s \<Rightarrow> do {
       let nbs = nbytes (blen s);
       bs \<leftarrow> memset (bytes s) 0xFF (unat nbs);
       let mbits = (ucast (nbs * 8 - blen s) :: u32);
       if mbits \<noteq> 0 then do {
         old \<leftarrow> aload bs (unat (nbs - 1));
         mask \<leftarrow> aload lsbmask (unat (mbits - 1));
         bs' \<leftarrow> astore bs (unat (nbs - 1)) (old AND mask);
         Some (Some (s\<lparr>bytes := bs'\<rparr>))
       } else Some (Some (s\<lparr>bytes := bs\<rparr>))
     })"

definition bitset_clearall :: "bitset option \<Rightarrow> bitset option option" where
  "bitset_clearall st = (case st of
     None \<Rightarrow> Some None
   | Some s \<Rightarrow> do {
       bs \<leftarrow> memset (bytes s) 0 (unat (nbytes (blen s)));
       Some (Some (s\<lparr>bytes := bs\<rparr>))
     })"

definition bitset_length :: "bitset option \<Rightarrow> u64" where
  "bitset_length st = (case st of None \<Rightarrow> 0 | Some s \<Rightarrow> blen s)"

text \<open>\<^verbatim>\<open>bitset_count\<close> adds up a table of nibble counts over the bytes \<open>i\<close>, ..., \<open>nbytes\<close>.\<close>

definition count_table :: "u64 list" where
  "count_table = [0, 1, 1, 2, 1, 2, 2, 3, 1, 2, 2, 3, 2, 3, 3, 4]"

function count_loop :: "u8 list \<Rightarrow> nat \<Rightarrow> nat \<Rightarrow> u64 \<Rightarrow> u64 option" where
  "count_loop bs i nbs len =
     (if i \<le> nbs then do {
        c \<leftarrow> aload bs i;
        lo \<leftarrow> aload count_table (unat (c AND 0xF));
        hi \<leftarrow> aload count_table (unat (drop_bit 4 c));
        count_loop bs (Suc i) nbs (len + (lo + hi))
      } else Some len)"
  by pat_completeness auto
termination
  by (relation "measure (\<lambda>(bs, i, nbs, len). Suc nbs - i)") auto

declare count_loop.simps [simp del]

definition bitset_count :: "bitset option \<Rightarrow> u64 option" where
  "bitset_count st = (case st of
     None \<Rightarrow> Some 0
   | Some s \<Rightarrow> count_loop (bytes s) 0 (unat (nbytes (blen s))) 0)"

section \<open>Abstraction and invariant\<close>

text \<open>Bit \<open>n\<close> of a block, and the set a bit set stands for.\<close>

definition bit_at :: "u8 list \<Rightarrow> nat \<Rightarrow> bool" where
  "bit_at xs n \<longleftrightarrow> bit (xs ! (n div 8)) (n mod 8)"

definition bits_of :: "bitset \<Rightarrow> nat set" where
  "bits_of s = {n. n < unat (blen s) \<and> bit_at (bytes s) n}"

definition bs_shape :: "bitset \<Rightarrow> bool" where
  "bs_shape s \<longleftrightarrow> unat (blen s) + 7 < 2 ^ 64 \<and> (unat (blen s) + 7) div 8 \<le> length (bytes s)"

definition bs_inv :: "bitset \<Rightarrow> bool" where
  "bs_inv s \<longleftrightarrow> bs_shape s \<and>
     (\<forall>n. unat (blen s) \<le> n \<longrightarrow> n < 8 * ((unat (blen s) + 7) div 8) \<longrightarrow> \<not> bit_at (bytes s) n)"

lemma unat_nbytes: "unat len + 7 < 2 ^ 64 \<Longrightarrow> unat (nbytes len) = (unat len + 7) div 8"
  by (simp add: nbytes_def word_simps)

lemma shape_nbytes: "bs_shape s \<Longrightarrow> unat (nbytes (blen s)) = (unat (blen s) + 7) div 8"
  by (simp add: bs_shape_def unat_nbytes)

lemma shape_index: "bs_shape s \<Longrightarrow> n < unat (blen s) \<Longrightarrow> n div 8 < length (bytes s)"
  using div_lt_rounded [of n "unat (blen s)"] by (simp add: bs_shape_def)

section \<open>Single bits\<close>

lemma bit_value: "uint (drop_bit k b AND 1) = of_bool (bit (b :: u8) k)"
  by (simp add: and_one_eq bit_iff_odd_drop_bit mod_2_eq_odd)

lemma bit_set_bit: "k < 8 \<Longrightarrow> j < 8 \<Longrightarrow> bit ((b :: u8) OR 2 ^ k) j \<longleftrightarrow> bit b j \<or> j = k"
  by (auto simp: bit_simps)

lemma bit_clear_bit: "k < 8 \<Longrightarrow> j < 8 \<Longrightarrow> bit ((b :: u8) AND NOT (2 ^ k)) j \<longleftrightarrow> bit b j \<and> j \<noteq> k"
  by (auto simp: bit_simps)

lemma bit_at_update:
  assumes "n div 8 < length xs"
    and "\<And>j. j < 8 \<Longrightarrow> bit v j \<longleftrightarrow> (if j = n mod 8 then c else bit (xs ! (n div 8)) j)"
  shows "bit_at (xs[n div 8 := v]) m \<longleftrightarrow> (if m = n then c else bit_at xs m)"
proof (cases "m div 8 = n div 8")
  case True
  have "m = n \<longleftrightarrow> m mod 8 = n mod 8"
    using True by (metis div_mult_mod_eq)
  with True assms show ?thesis by (auto simp: bit_at_def)
next
  case False
  then show ?thesis by (auto simp: bit_at_def)
qed

section \<open>Reads and writes\<close>

lemma bits_of_less: "n \<in> bits_of s \<Longrightarrow> n < unat (blen s)"
  by (simp add: bits_of_def)

lemma unat_div8 [word_simps]: "unat ((n :: u64) div 8) = unat n div 8"
  by (simp add: unat_div)

lemma unat_mod8 [word_simps]: "unat ((n :: u64) mod 8) = unat n mod 8"
  by (simp add: unat_mod)

lemma bitset_get_in:
  assumes "bs_shape s" and "n < blen s"
  shows "bitset_get (Some s) n = Some (of_bool (unat n \<in> bits_of s))"
  using assms shape_index [of s "unat n"]
  by (simp add: bitset_get_def word_less_nat_alt word_simps bits_of_def bit_at_def bit_value)

lemma bitset_set_in:
  assumes "bs_inv s" and "n < blen s" and "b = 0 \<or> b = 1"
  obtains s' where "bitset_set (Some s) n b = Some (Some s', of_bool (unat n \<in> bits_of s))"
    and "bs_inv s'" and "blen s' = blen s"
    and "bits_of s' = (if b = 1 then insert (unat n) (bits_of s) else bits_of s - {unat n})"
proof -
  let ?i = "unat n div 8" and ?k = "unat n mod 8"
  define v where "v = (if b = 1 then bytes s ! ?i OR push_bit ?k 1
    else bytes s ! ?i AND NOT (push_bit ?k 1))"
  define s' where "s' = s\<lparr>bytes := (bytes s)[?i := v]\<rparr>"
  have n: "unat n < unat (blen s)" using assms(2) by (simp add: word_less_nat_alt)
  have sh: "bs_shape s" using assms(1) by (simp add: bs_inv_def)
  have i: "?i < length (bytes s)" using sh n by (rule shape_index)
  have "bit v j \<longleftrightarrow> (if j = ?k then b = 1 else bit (bytes s ! ?i) j)" if "j < 8" for j
    using that assms(3) by (auto simp: v_def bit_set_bit bit_clear_bit)
  then have at: "bit_at (bytes s') m \<longleftrightarrow> (if m = unat n then b = 1 else bit_at (bytes s) m)" for m
    using bit_at_update [OF i] by (simp add: s'_def)
  have "bitset_set (Some s) n b = Some (Some s', of_bool (unat n \<in> bits_of s))"
    using assms(2,3) i n
    by (auto simp: bitset_set_def word_simps s'_def v_def bit_value bits_of_def bit_at_def
      not_less)
  moreover have "bs_inv s'"
    using assms(1) n at by (auto simp: bs_inv_def bs_shape_def s'_def)
  moreover have "blen s' = blen s" by (simp add: s'_def)
  moreover have "bits_of s' = (if b = 1 then insert (unat n) (bits_of s) else bits_of s - {unat n})"
    using n at by (auto simp: bits_of_def s'_def)
  ultimately show thesis by (rule that)
qed

section \<open>Creation, clearing and filling\<close>

lemma bit_at_zeros: "n div 8 < m \<Longrightarrow> \<not> bit_at (replicate m 0 @ xs) n"
  by (simp add: bit_at_def nth_append)

lemma bitset_new_ok:
  assumes "mem 16" and "mem (nbytes len)" and "unat len + 7 < 2 ^ 64"
  obtains s where "bitset_new mem slack len = Some s" and "bs_inv s" and "blen s = len"
    and "bits_of s = {}" and "length (bytes s) = (unat len + 7) div 8 + length slack"
proof -
  let ?s = "\<lparr>blen = len, bytes = replicate ((unat len + 7) div 8) 0 @ slack\<rparr>"
  have clear: "n < 8 * ((unat len + 7) div 8) \<Longrightarrow> \<not> bit_at (bytes ?s) n" for n
    using bit_at_zeros [of n "(unat len + 7) div 8" slack] by simp
  have "bitset_new mem slack len = Some ?s"
    using assms unat_nbytes [OF assms(3)] by (simp add: bitset_new_def nbytes_def)
  moreover have "bs_inv ?s"
    using assms clear by (auto simp: bs_inv_def bs_shape_def)
  moreover have "bits_of ?s = {}"
    using clear by (auto simp: bits_of_def)
  ultimately show thesis using that by simp
qed

lemma bitset_clearall_ok:
  assumes "bs_shape s"
  obtains s' where "bitset_clearall (Some s) = Some (Some s')" and "bs_inv s'"
    and "blen s' = blen s" and "bits_of s' = {}"
proof -
  let ?m = "(unat (blen s) + 7) div 8"
  let ?s = "s\<lparr>bytes := replicate ?m 0 @ drop ?m (bytes s)\<rparr>"
  have clear: "n < 8 * ?m \<Longrightarrow> \<not> bit_at (bytes ?s) n" for n
    using bit_at_zeros [of n ?m] by simp
  have "bitset_clearall (Some s) = Some (Some ?s)"
    using assms by (simp add: bitset_clearall_def shape_nbytes bs_shape_def)
  moreover have "bs_inv ?s"
    using assms clear by (auto simp: bs_inv_def bs_shape_def)
  moreover have "bits_of ?s = {}"
    using clear by (auto simp: bits_of_def)
  ultimately show thesis using that by simp
qed

text \<open>The mask for \<open>m\<close> padding bits keeps the low \<open>8 - m\<close> bits.\<close>

lemma bit_lsbmask:
  assumes "0 < m" and "m < 8" and "k < 8"
  shows "bit (lsbmask ! (m - 1)) k \<longleftrightarrow> k < 8 - m"
proof -
  have "\<forall>m \<in> {1,2,3,4,5,6,7}. \<forall>k \<in> {0,1,2,3,4,5,6,7}. bit (lsbmask ! (m - 1)) k = (k < 8 - m)"
    by code_simp
  moreover have "m \<in> {1,2,3,4,5,6,7}" "k \<in> {0,1,2,3,4,5,6,7}"
    using assms by auto
  ultimately show ?thesis by blast
qed

lemma bit_0xFF: "k < 8 \<Longrightarrow> bit (0xFF :: u8) k"
proof -
  assume "k < 8"
  then have "k \<in> {0,1,2,3,4,5,6,7}" by auto
  moreover have "\<forall>k \<in> {0,1,2,3,4,5,6,7}. bit (0xFF :: u8) k" by code_simp
  ultimately show ?thesis by blast
qed

lemma bit_at_ones: "n div 8 < m \<Longrightarrow> bit_at (replicate m 0xFF @ xs) n"
  using bit_0xFF [of "n mod 8"] by (simp add: bit_at_def nth_append)

lemma shape_mbits:
  assumes "bs_shape s"
  defines "L \<equiv> unat (blen s)"
  defines "m \<equiv> (ucast (nbytes (blen s) * 8 - blen s) :: u32)"
  shows "unat m = 8 * ((L + 7) div 8) - L"
proof -
  have nb: "unat (nbytes (blen s)) = (L + 7) div 8"
    using assms(1) by (simp add: shape_nbytes L_def)
  have "L + 7 < 2 ^ 64" using assms(1) by (simp add: bs_shape_def L_def)
  then have "unat (nbytes (blen s)) * 8 < 2 ^ 64"
    unfolding nb by linarith
  then have prod: "unat (nbytes (blen s) * 8) = 8 * ((L + 7) div 8)"
    by (simp add: unat_word_ariths nb)
  have "blen s \<le> nbytes (blen s) * 8"
    by (simp add: word_le_nat_alt prod L_def [symmetric])
  then have "unat (nbytes (blen s) * 8 - blen s) = 8 * ((L + 7) div 8) - L"
    by (simp add: unat_sub prod L_def)
  moreover have "8 * ((L + 7) div 8) - L < 8" by arith
  ultimately show ?thesis by (simp add: m_def unsigned_ucast_eq take_bit_eq_mod)
qed

lemma last_byte_arith:
  "0 < 8 * Suc q - L \<Longrightarrow> 8 * Suc q - L < 8 \<Longrightarrow> r < 8 - (8 * Suc q - L) \<longleftrightarrow> 8 * q + r < (L :: nat)"
  by arith

lemma last_byte_index:
  assumes "n div 8 = nb - 1" and "0 < 8 * nb - L" and "8 * nb - L < (8::nat)" and "0 < nb"
  shows "n mod 8 < 8 - (8 * nb - L) \<longleftrightarrow> n < L"
proof -
  obtain q where q: "nb = Suc q" using assms(4) by (cases nb) auto
  have "8 * q + n mod 8 = n" using assms(1) q by (metis diff_Suc_1 mult_div_mod_eq)
  then show ?thesis using last_byte_arith [of q L "n mod 8"] assms(2,3) unfolding q by simp
qed

lemma bitset_setall_ok:
  assumes "bs_shape s"
  obtains s' where "bitset_setall (Some s) = Some (Some s')" and "bs_inv s'"
    and "blen s' = blen s" and "bits_of s' = {..<unat (blen s)}"
proof -
  let ?L = "unat (blen s)"
  let ?nb = "(?L + 7) div 8"
  let ?m = "8 * ?nb - ?L"
  let ?bs = "replicate ?nb 0xFF @ drop ?nb (bytes s)"
  define bs' where
    "bs' = (if ?m = 0 then ?bs else ?bs[?nb - 1 := ?bs ! (?nb - 1) AND lsbmask ! (?m - 1)])"
  let ?s = "s\<lparr>bytes := bs'\<rparr>"
  note nb = shape_nbytes [OF assms] and mb = shape_mbits [OF assms]
  have len: "length ?bs = length (bytes s)" "?nb \<le> length (bytes s)"
    using assms by (auto simp: bs_shape_def)
  have at: "bit_at bs' n \<longleftrightarrow> n < ?L" if n: "n < 8 * ?nb" for n
  proof (cases "?m = 0 \<or> n div 8 \<noteq> ?nb - 1")
    case True
    then have "bs' ! (n div 8) = ?bs ! (n div 8)" by (auto simp: bs'_def)
    then have "bit_at bs' n" using bit_at_ones [of n ?nb] n by (simp add: bit_at_def)
    moreover have "n < ?L" using True n by auto
    ultimately show ?thesis by simp
  next
    case False
    then have "bs' ! (n div 8) = 0xFF AND lsbmask ! (?m - 1)"
      using len n by (simp add: bs'_def nth_append)
    moreover have "bit (lsbmask ! (?m - 1)) (n mod 8) \<longleftrightarrow> n mod 8 < 8 - ?m"
      using False by (intro bit_lsbmask) auto
    moreover have "n mod 8 < 8 - ?m \<longleftrightarrow> n < ?L"
      using False by (intro last_byte_index) auto
    ultimately show ?thesis using bit_0xFF [of "n mod 8"] by (simp add: bit_at_def bit_and_iff)
  qed
  have zero: "(ucast (nbytes (blen s) * 8 - blen s) :: u32) = 0 \<longleftrightarrow> ?m = 0"
    using mb by (simp add: unat_eq_0 [symmetric])
  have "bitset_setall (Some s) = Some (Some ?s)"
  proof (cases "?m = 0")
    case True
    then show ?thesis using zero len nb by (simp add: bitset_setall_def bs'_def)
  next
    case False
    then have pos: "0 < ?nb" "?m < 8" by auto
    have "unat (nbytes (blen s) - 1) = ?nb - 1"
      using pos nb by (subst unat_minus_one) auto
    moreover have "unat ((ucast (nbytes (blen s) * 8 - blen s) :: u32) - 1) = ?m - 1"
      using False zero mb by (subst unat_minus_one) auto
    moreover have "aload ?bs (?nb - 1) = Some (?bs ! (?nb - 1))"
        "astore ?bs (?nb - 1) v = Some (?bs[?nb - 1 := v])" for v
      using pos len by auto
    moreover have "aload lsbmask (?m - 1) = Some (lsbmask ! (?m - 1))"
      using pos by (simp add: lsbmask_def)
    moreover have "memset (bytes s) 0xFF ?nb = Some ?bs" using len by simp
    ultimately show ?thesis
      using False zero nb by (simp only: bitset_setall_def bs'_def) simp
  qed
  moreover have "length bs' = length (bytes s)" using len by (simp add: bs'_def)
  then have "bs_inv ?s" using assms at by (auto simp: bs_inv_def bs_shape_def)
  moreover have "bits_of ?s = {..<?L}" using at by (auto simp: bits_of_def)
  ultimately show thesis using that by simp
qed

section \<open>Counting\<close>

text \<open>The number of 1 bits of a byte, and what the two table lookups of the loop add up to.\<close>

definition popcount :: "u8 \<Rightarrow> nat" where
  "popcount c = card {k. k < 8 \<and> bit c k}"

definition table_sum :: "u8 \<Rightarrow> u64" where
  "table_sum c = count_table ! unat (c AND 0xF) + count_table ! unat (drop_bit 4 c)"

lemma popcount_code: "popcount c = length (filter (bit c) [0..<8])"
proof -
  have "{k. k < 8 \<and> bit c k} = set (filter (bit c) [0..<8])" by auto
  then show ?thesis unfolding popcount_def by (simp only: distinct_card distinct_filter distinct_upt)
qed

lemma popcount_le: "popcount c \<le> 8"
  using length_filter_le [of "bit c" "[0..<8]"] by (simp add: popcount_code)

lemma count_table_nibble:
  "k < 16 \<Longrightarrow> count_table ! k = of_nat (length (filter (bit k) [0..<4]))"
proof -
  assume "k < 16"
  then have "k \<in> set [0..<16]" by simp
  moreover have "\<forall>k \<in> set [0..<16]. count_table ! k = of_nat (length (filter (bit k) [0..<4]))"
    by code_simp
  ultimately show ?thesis by blast
qed

lemma unat_low_nibble: "unat ((c :: u8) AND 0xF) < 16"
proof -
  have "c AND 0xF \<le> 0xF" by (rule word_and_le1)
  then show ?thesis by (simp add: word_le_nat_alt)
qed

lemma unat_high_nibble: "unat (drop_bit 4 (c :: u8)) < 16"
proof -
  have "unat c < 2 ^ LENGTH(8)" by (rule unsigned_less)
  then have "unat c div 16 < 16" by simp
  then show ?thesis by (simp add: drop_bit_eq_div unat_div)
qed

lemma nibble_bits:
  "length (filter (bit (unat ((c :: u8) AND 0xF))) [0..<4])
     + length (filter (bit (unat (drop_bit 4 c))) [0..<4]) = length (filter (bit c) [0..<8])"
proof -
  have "bit (unat (c AND 0xF)) k = bit c k" if "k < 4" for k
  proof -
    have "\<forall>k \<in> {0,1,2,3}. bit (0xF :: u8) k" by code_simp
    moreover have "k \<in> {0,1,2,3}" using that by auto
    ultimately have "bit (c AND 0xF) k = bit c k" by (subst bit_and_iff) blast
    moreover have "bit (unat (c AND 0xF)) k = bit (c AND 0xF) k"
      by (subst bit_unsigned_iff) simp
    ultimately show ?thesis by (rule trans [rotated])
  qed
  then have low: "filter (bit (unat (c AND 0xF))) [0..<4] = filter (bit c) [0..<4]"
    by (intro filter_cong) auto
  have "filter (bit c) [4..<8] = filter (bit c) (map (\<lambda>k. k + 4) [0..<4])"
    by (simp add: map_add_upt)
  also have "length \<dots> = length (filter (\<lambda>k. bit c (k + 4)) [0..<4])"
    by (simp add: filter_map o_def)
  also have "filter (\<lambda>k. bit c (k + 4)) [0..<4] = filter (bit (unat (drop_bit 4 c))) [0..<4]"
    by (rule filter_cong) (auto simp: bit_unsigned_iff bit_drop_bit_eq add.commute dest: bit_imp_le_length)
  finally have high: "length (filter (bit c) [4..<8])
      = length (filter (bit (unat (drop_bit 4 c))) [0..<4])" .
  have "[0..<8] = [0..<4] @ [4..<8]" by (simp add: upt_add_eq_append [of 0 4 4, simplified])
  then show ?thesis by (simp only: low high filter_append length_append)
qed

lemma table_sum_popcount: "table_sum c = of_nat (popcount c)"
  using count_table_nibble [OF unat_low_nibble [of c]] count_table_nibble [OF unat_high_nibble [of c]]
  by (simp only: table_sum_def popcount_code nibble_bits [symmetric] of_nat_add)

lemma count_loop_lookup:
  "i < length bs \<Longrightarrow> i \<le> nbs \<Longrightarrow>
    count_loop bs i nbs acc = count_loop bs (Suc i) nbs (acc + table_sum (bs ! i))"
proof -
  assume i: "i < length bs" "i \<le> nbs"
  have "length count_table = 16" by (simp add: count_table_def)
  then have "aload count_table (unat (c AND 0xF)) = Some (count_table ! unat (c AND 0xF))"
      "aload count_table (unat (drop_bit 4 c)) = Some (count_table ! unat (drop_bit 4 c))" for c :: u8
    using unat_low_nibble [of c] unat_high_nibble [of c] by (simp_all only: aload_Some)
  then show ?thesis
    by (subst count_loop.simps) (simp only: i aload_Some bind.bind_lunit if_True table_sum_def)
qed

lemma count_loop_sum:
  assumes "nbs < length bs"
  shows "i \<le> Suc nbs \<Longrightarrow>
    count_loop bs i nbs acc = Some (acc + of_nat (\<Sum>j = i..<Suc nbs. popcount (bs ! j)))"
proof (induction "Suc nbs - i" arbitrary: i acc)
  case 0
  then show ?case by (subst count_loop.simps) simp
next
  case (Suc d)
  then have i: "i < length bs" "i \<le> nbs" using assms by auto
  have "count_loop bs i nbs acc = count_loop bs (Suc i) nbs (acc + table_sum (bs ! i))"
    using i by (rule count_loop_lookup)
  also have "\<dots> = Some (acc + table_sum (bs ! i) + of_nat (\<Sum>j = Suc i..<Suc nbs. popcount (bs ! j)))"
    using Suc i by (intro Suc.hyps) auto
  also have "\<dots> = Some (acc + of_nat (\<Sum>j = i..<Suc nbs. popcount (bs ! j)))"
    using i by (simp add: table_sum_popcount sum.atLeast_Suc_lessThan [of i "Suc nbs"] del: sum.op_ivl_Suc)
  finally show ?case .
qed

lemma count_loop_overrun:
  "i \<le> length bs \<Longrightarrow> length bs \<le> nbs \<Longrightarrow> count_loop bs i nbs acc = None"
proof (induction "length bs - i" arbitrary: i acc)
  case 0
  then show ?case by (subst count_loop.simps) simp
next
  case (Suc d)
  then have "count_loop bs i nbs acc = count_loop bs (Suc i) nbs (acc + table_sum (bs ! i))"
    by (intro count_loop_lookup) auto
  also have "\<dots> = None" using Suc by (intro Suc.hyps) auto
  finally show ?case .
qed

lemma card_bits: "card {n. n < 8 * m \<and> bit_at xs n} = (\<Sum>j < m. popcount (xs ! j))"
proof (induction m)
  case 0
  then show ?case by simp
next
  case (Suc m)
  let ?A = "{n. n < 8 * m \<and> bit_at xs n}" and ?B = "(\<lambda>k. 8 * m + k) ` {k. k < 8 \<and> bit (xs ! m) k}"
  have "n \<in> ?B" if "n < 8 * Suc m" "bit_at xs n" "\<not> n < 8 * m" for n
  proof -
    have "n div 8 = m" using that by simp
    then have "n = 8 * m + n mod 8" "bit (xs ! m) (n mod 8)"
      using that by (auto simp: bit_at_def)
    then show ?thesis by (auto intro!: image_eqI [of _ _ "n mod 8"])
  qed
  then have "{n. n < 8 * Suc m \<and> bit_at xs n} = ?A \<union> ?B"
    by (auto simp: bit_at_def)
  moreover have "?A \<inter> ?B = {}" by auto
  moreover have "card ?B = popcount (xs ! m)"
    by (simp add: card_image inj_on_def popcount_def)
  ultimately show ?case using Suc by (simp add: card_Un_disjoint)
qed

lemma card_bits_of:
  assumes "bs_inv s"
  shows "card (bits_of s) = (\<Sum>j < (unat (blen s) + 7) div 8. popcount (bytes s ! j))"
proof -
  have le: "unat (blen s) \<le> 8 * ((unat (blen s) + 7) div 8)" by arith
  have "n < unat (blen s)" if "n < 8 * ((unat (blen s) + 7) div 8)" "bit_at (bytes s) n" for n
    using assms that by (auto simp: bs_inv_def not_le [symmetric])
  then have "bits_of s = {n. n < 8 * ((unat (blen s) + 7) div 8) \<and> bit_at (bytes s) n}"
    using le unfolding bits_of_def by (intro set_eqI) (auto intro: less_le_trans)
  then show ?thesis by (simp only: card_bits)
qed

lemma bitset_count_slack:
  assumes "bs_inv s" and "(unat (blen s) + 7) div 8 < length (bytes s)"
  shows "bitset_count (Some s) =
    Some (of_nat (card (bits_of s) + popcount (bytes s ! ((unat (blen s) + 7) div 8))))"
proof -
  let ?nb = "(unat (blen s) + 7) div 8"
  have "unat (nbytes (blen s)) = ?nb" using assms(1) by (simp add: bs_inv_def shape_nbytes)
  then have "bitset_count (Some s) = Some (0 + of_nat (\<Sum>j = 0..<Suc ?nb. popcount (bytes s ! j)))"
    using count_loop_sum [OF assms(2), of 0 0] by (simp add: bitset_count_def)
  then show ?thesis using card_bits_of [OF assms(1)] by (simp add: atLeast0LessThan)
qed

lemma bitset_count_no_slack:
  assumes "bs_inv s" and "(unat (blen s) + 7) div 8 = length (bytes s)"
  shows "bitset_count (Some s) = None"
  using assms count_loop_overrun [of 0 "bytes s" "length (bytes s)" 0]
  by (simp add: bitset_count_def bs_inv_def shape_nbytes)

section \<open>The bit set as a bit store\<close>

definition bitset_put1 :: "bitset \<Rightarrow> u64 \<Rightarrow> bitset option" where
  "bitset_put1 s n = do { (st, _) \<leftarrow> bitset_set (Some s) n 1; st }"

definition bitset_test1 :: "bitset \<Rightarrow> u64 \<Rightarrow> bool option" where
  "bitset_test1 s n = do { v \<leftarrow> bitset_get (Some s) n; Some (v = 1) }"

interpretation bits: bit_store bs_inv blen bits_of bitset_put1 bitset_test1
proof
  fix s n
  assume s: "bs_inv s" and n: "n < blen s"
  show "\<exists>s'. bitset_put1 s n = Some s' \<and> bs_inv s' \<and> blen s' = blen s
      \<and> bits_of s' = insert (unat n) (bits_of s)"
    by (rule bitset_set_in [OF s n, of 1]) (auto simp: bitset_put1_def)
  show "bitset_test1 s n = Some (unat n \<in> bits_of s)"
    using s n by (simp add: bitset_test1_def bitset_get_in bs_inv_def)
qed

section \<open>Correctness\<close>

lemma bs_inv_check:
  "bs_inv s \<longleftrightarrow> bs_shape s \<and>
     list_all (\<lambda>n. \<not> bit_at (bytes s) n) [unat (blen s)..<8 * ((unat (blen s) + 7) div 8)]"
  by (auto simp: bs_inv_def list_all_iff)

text \<open>
  Writing a bit inside the length returns the old value, changes that bit and no other, and
  keeps the invariant; nothing outside the block is touched.
\<close>

theorem bitset_set_get:
  assumes "bs_inv s" and "n < blen s" and "b = 0 \<or> b = 1"
  shows "\<exists>s' prev. bitset_set (Some s) n b = Some (Some s', prev)
    \<and> bitset_get (Some s) n = Some prev
    \<and> bs_inv s' \<and> blen s' = blen s
    \<and> (\<forall>m < blen s. bitset_get (Some s') m = (if m = n then Some b else bitset_get (Some s) m))"
proof -
  obtain s' where s': "bitset_set (Some s) n b = Some (Some s', of_bool (unat n \<in> bits_of s))"
      "bs_inv s'" "blen s' = blen s"
      "bits_of s' = (if b = 1 then insert (unat n) (bits_of s) else bits_of s - {unat n})"
    using assms by (rule bitset_set_in)
  have "bitset_get (Some s') m = (if m = n then Some b else bitset_get (Some s) m)"
    if "m < blen s" for m
    using that s' assms by (auto simp: bitset_get_in bs_inv_def unat_eq_iff_eq)
  then show ?thesis using s' assms by (auto simp: bitset_get_in bs_inv_def)
qed

theorem bitset_set_get_witness:
  "\<exists>s' prev. bitset_set (Some \<lparr>blen = 10, bytes = [4, 1]\<rparr>) 9 1 = Some (Some s', prev)
    \<and> bitset_get (Some s') 9 = Some 1 \<and> bitset_get (Some s') 2 = Some 1"
proof -
  let ?s = "\<lparr>blen = 10, bytes = [4, 1]\<rparr> :: bitset"
  have "bs_inv ?s" by (simp add: bs_inv_check bs_shape_def bit_at_def upt_rec)
  moreover have "(9 :: u64) < blen ?s" "(2 :: u64) < blen ?s" by simp_all
  moreover have "bitset_get (Some ?s) 2 = Some 1" by code_simp
  ultimately show ?thesis using bitset_set_get [of ?s 9 1] by fastforce
qed

text \<open>
  \<^verbatim>\<open>bitset_count\<close> reads one byte too many (its loop runs to \<open>nbytes\<close> inclusively): when
  the block holds only the requested bytes its behaviour is undefined, and otherwise it returns
  the number of 1 bits plus the 1 bits of the byte behind the requested ones.
\<close>

theorem bitset_count_overrun:
  assumes "bs_inv s"
  shows "bitset_count (Some s) =
    (if length (bytes s) = (unat (blen s) + 7) div 8 then None
     else Some (of_nat (card (bits_of s) + popcount (bytes s ! ((unat (blen s) + 7) div 8)))))"
  using assms bitset_count_slack [of s] bitset_count_no_slack [of s]
  by (auto simp: bs_inv_def bs_shape_def)

theorem bitset_count_overrun_witness:
  "bitset_count (Some \<lparr>blen = 10, bytes = [4, 1]\<rparr>) = None \<and>
   bitset_count (Some \<lparr>blen = 10, bytes = [4, 1, 7]\<rparr>) = Some 5"
proof -
  let ?s = "\<lparr>blen = 10, bytes = [4, 1]\<rparr> :: bitset" and ?t = "\<lparr>blen = 10, bytes = [4, 1, 7]\<rparr> :: bitset"
  have inv: "bs_inv ?s" "bs_inv ?t"
    by (simp_all add: bs_inv_check bs_shape_def bit_at_def upt_rec)
  have "bits_of ?t = set (filter (bit_at (bytes ?t)) [0..<10])" by (auto simp: bits_of_def)
  also have "\<dots> = {2, 8}" by code_simp
  finally have "card (bits_of ?t) = 2" by simp
  moreover have "popcount 7 = 3" by (simp only: popcount_code) code_simp
  ultimately show ?thesis
    using bitset_count_overrun [OF inv(1)] bitset_count_overrun [OF inv(2)] by simp
qed

text \<open>
  \<^verbatim>\<open>bitset_setall\<close> makes every position of the set 1 and leaves the padding of the last
  byte 0, \<^verbatim>\<open>bitset_clearall\<close> makes every position 0; both keep the invariant.
\<close>

theorem bitset_setall_clearall:
  assumes "bs_shape s"
  shows "\<exists>f c. bitset_setall (Some s) = Some (Some f) \<and> bitset_clearall (Some s) = Some (Some c)
    \<and> bs_inv f \<and> bs_inv c
    \<and> bitset_length (Some f) = blen s \<and> bitset_length (Some c) = blen s
    \<and> (\<forall>n < blen s. bitset_get (Some f) n = Some 1 \<and> bitset_get (Some c) n = Some 0)"
proof -
  obtain f where f: "bitset_setall (Some s) = Some (Some f)" "bs_inv f" "blen f = blen s"
      "bits_of f = {..<unat (blen s)}"
    using assms by (rule bitset_setall_ok)
  obtain c where c: "bitset_clearall (Some s) = Some (Some c)" "bs_inv c" "blen c = blen s"
      "bits_of c = {}"
    using assms by (rule bitset_clearall_ok)
  show ?thesis using f c
    by (auto simp: bitset_get_in bs_inv_def bitset_length_def word_less_nat_alt)
qed

theorem bitset_setall_clearall_witness:
  "\<exists>f. bitset_setall (Some \<lparr>blen = 10, bytes = [4, 1]\<rparr>) = Some (Some f)
    \<and> bs_inv f \<and> bitset_get (Some f) 9 = Some 1"
proof -
  let ?s = "\<lparr>blen = 10, bytes = [4, 1]\<rparr> :: bitset"
  have "bs_shape ?s" by (simp add: bs_shape_def)
  moreover have "(9 :: u64) < blen ?s" by simp
  ultimately show ?thesis using bitset_setall_clearall [of ?s] by blast
qed

text \<open>
  C28. The bounds check of \<^verbatim>\<open>bitset_get\<close> and \<^verbatim>\<open>bitset_set\<close> is \<^verbatim>\<open>n > set->length\<close>, so the
  position \<^verbatim>\<open>length\<close> itself passes: when the length is a multiple of 8 the access lies outside the
  requested block, and otherwise the call writes a padding bit, which breaks the invariant and is
  read back as if it were an element.
\<close>

theorem bitset_position_length:
  assumes "bs_inv s"
  shows "(8 dvd unat (blen s) \<and> length (bytes s) = unat (blen s) div 8 \<longrightarrow>
      bitset_get (Some s) (blen s) = None \<and> bitset_set (Some s) (blen s) 1 = None)
    \<and> (\<not> 8 dvd unat (blen s) \<longrightarrow>
      (\<exists>s'. bitset_set (Some s) (blen s) 1 = Some (Some s', 0)
        \<and> bitset_get (Some s') (blen s) = Some 1
        \<and> bits_of s' = bits_of s \<and> \<not> bs_inv s'))"
proof (intro conjI impI)
  let ?L = "unat (blen s)"
  assume "8 dvd ?L \<and> length (bytes s) = ?L div 8"
  then show "bitset_get (Some s) (blen s) = None" "bitset_set (Some s) (blen s) 1 = None"
    by (auto simp: bitset_get_def bitset_set_def word_simps)
next
  let ?L = "unat (blen s)"
  assume "\<not> 8 dvd ?L"
  then have pad: "?L < 8 * ((?L + 7) div 8)" by presburger
  then have "?L div 8 < (?L + 7) div 8" by arith
  then have i: "?L div 8 < length (bytes s)" using assms by (simp add: bs_inv_def bs_shape_def)
  define v where "v = bytes s ! (?L div 8) OR 2 ^ (?L mod 8)"
  define s' where "s' = s\<lparr>bytes := (bytes s)[?L div 8 := v]\<rparr>"
  have "bit v j \<longleftrightarrow> (if j = ?L mod 8 then True else bit (bytes s ! (?L div 8)) j)" if "j < 8" for j
    using that by (auto simp: v_def bit_set_bit)
  then have at: "bit_at (bytes s') m \<longleftrightarrow> m = ?L \<or> bit_at (bytes s) m" for m
    using bit_at_update [OF i, of v True m] by (simp add: s'_def)
  have "\<not> bit_at (bytes s) ?L" using assms pad by (simp add: bs_inv_def)
  then have "bitset_set (Some s) (blen s) 1 = Some (Some s', 0)"
    using i by (simp add: bitset_set_def word_simps s'_def v_def bit_value bit_at_def)
  moreover have "bitset_get (Some s') (blen s) = Some 1"
    using at [of ?L] i
    by (simp add: bitset_get_def word_simps bit_value bit_at_def s'_def)
  moreover have "bits_of s' = bits_of s" using at by (auto simp: bits_of_def s'_def)
  moreover have "\<not> bs_inv s'" using at [of ?L] pad by (auto simp: bs_inv_def s'_def)
  ultimately show "\<exists>s'. bitset_set (Some s) (blen s) 1 = Some (Some s', 0)
      \<and> bitset_get (Some s') (blen s) = Some 1 \<and> bits_of s' = bits_of s \<and> \<not> bs_inv s'"
    by blast
qed

theorem bitset_position_length_witness:
  "bitset_set (Some \<lparr>blen = 8, bytes = [4]\<rparr>) 8 1 = None \<and>
   (\<exists>s'. bitset_set (Some \<lparr>blen = 10, bytes = [4, 1]\<rparr>) 10 1 = Some (Some s', 0) \<and> \<not> bs_inv s')"
proof -
  let ?s = "\<lparr>blen = 8, bytes = [4]\<rparr> :: bitset" and ?t = "\<lparr>blen = 10, bytes = [4, 1]\<rparr> :: bitset"
  have inv: "bs_inv ?s" "bs_inv ?t"
    by (simp_all add: bs_inv_check bs_shape_def bit_at_def upt_rec)
  show ?thesis
    using bitset_position_length [OF inv(1)] bitset_position_length [OF inv(2)] by auto
qed

text \<open>
  \<^verbatim>\<open>bitset_new\<close> returns null exactly when the allocator fails; otherwise, for a length whose
  rounding up does not wrap around, the new set has the requested length, satisfies the invariant
  and reads 0 at every position. For the seven lengths above it wraps: the block is empty, and
  without slack even position 0 lies outside it.
\<close>

theorem bitset_new_spec:
  "(bitset_new mem slack len = None \<longleftrightarrow> \<not> mem 16 \<or> \<not> mem (nbytes len))
   \<and> (\<forall>s. bitset_new mem slack len = Some s \<longrightarrow>
       bitset_length (Some s) = len
       \<and> (unat len + 7 < 2 ^ 64 \<longrightarrow> bs_inv s \<and> (\<forall>n < len. bitset_get (Some s) n = Some 0))
       \<and> (2 ^ 64 \<le> unat len + 7 \<longrightarrow> slack = [] \<longrightarrow> bitset_get (Some s) 0 = None))"
proof -
  have null: "bitset_new mem slack len = None \<longleftrightarrow> \<not> mem 16 \<or> \<not> mem (nbytes len)"
    by (simp add: bitset_new_def nbytes_def Let_def)
  have ok: "bs_inv s \<and> (\<forall>n < len. bitset_get (Some s) n = Some 0)"
    if s: "bitset_new mem slack len = Some s" and len: "unat len + 7 < 2 ^ 64" for s
  proof -
    have "mem 16" "mem (nbytes len)" using s null by auto
    then obtain s' where "bitset_new mem slack len = Some s'" "bs_inv s'" "blen s' = len"
        "bits_of s' = {}"
      using len by (rule bitset_new_ok)
    then show ?thesis using s by (auto simp: bitset_get_in bs_inv_def)
  qed
  have "bitset_get (Some s) 0 = None"
    if s: "bitset_new mem [] len = Some s" and len: "2 ^ 64 \<le> unat len + 7" for s
  proof -
    have "unat len < 2 ^ LENGTH(64)" by (rule unsigned_less)
    then have "(unat len + 7) mod 2 ^ 64 < 8" using len by (subst mod_if) auto
    then have "unat (len + 7) < 8" by (simp add: unat_word_ariths)
    then have "unat ((len + 7) div 8) = 0" by (simp add: unat_div8)
    then show ?thesis using s
      by (auto simp: bitset_new_def bitset_get_def Let_def split: if_splits)
  qed
  moreover have "bitset_length (Some s) = len" if "bitset_new mem slack len = Some s" for s
    using that by (auto simp: bitset_new_def bitset_length_def Let_def split: if_splits)
  ultimately show ?thesis using null ok by blast
qed

theorem bitset_new_spec_witness:
  "\<exists>s. bitset_new (\<lambda>_. True) [] 100 = Some s \<and> bs_inv s \<and> bitset_get (Some s) 99 = Some 0"
proof -
  obtain s where s: "bitset_new (\<lambda>_. True) [] 100 = Some s"
    using bitset_new_spec [of "\<lambda>_. True" "[]" 100] by (cases "bitset_new (\<lambda>_. True) [] 100") auto
  then show ?thesis using bitset_new_spec [of "\<lambda>_. True" "[]" 100] by auto
qed

end
