(* ===== verification/Bloomfilter.thy ===== *)
theory Bloomfilter
  imports Complex_Main Bitset
begin

text \<open>
  The Bloom filter of \<^verbatim>\<open>bloomfilter/bloomfilter.c\<close>: the hash function \<^verbatim>\<open>murmurhash2\<close> over bytes
  and 32-bit words, and the filter over the bit set of \<^theory_text>\<open>Bitset\<close>.

  The record \<open>bloomfilter\<close> is \<^verbatim>\<open>struct bloomfilter\<close>. The error rate is the rational value of the
  C \<^verbatim>\<open>float\<close> (not NaN). The parameter \<open>ceil_log2f\<close> is the value of \<^verbatim>\<open>ceilf(log2f(x))\<close>, which the
  math library determines up to its rounding; every theorem holds for all its values, since the
  code clamps the result to 1..30. The product \<^verbatim>\<open>capacity * ceilf(k / 0.69)\<close> is a C \<^verbatim>\<open>float\<close>:
  \<open>f32_round\<close> is the rounding to its 24-bit significand.
\<close>

unbundle bit_operations_syntax

section \<open>The hash function\<close>

definition murmur_m :: u32 where
  "murmur_m = 0x5bd1e995"

text \<open>The four bytes of a little-endian \<^verbatim>\<open>uint32_t\<close>.\<close>

definition load32 :: "u8 \<Rightarrow> u8 \<Rightarrow> u8 \<Rightarrow> u8 \<Rightarrow> u32" where
  "load32 a b c d =
     ucast a OR push_bit 8 (ucast b) OR push_bit 16 (ucast c) OR push_bit 24 (ucast d)"

fun murmur_body :: "u32 \<Rightarrow> u8 list \<Rightarrow> u32 \<times> u8 list" where
  "murmur_body h (a # b # c # d # data) =
     (let k = load32 a b c d;
          k = k * murmur_m;
          k = k XOR drop_bit 24 k;
          k = k * murmur_m;
          h = h * murmur_m;
          h = h XOR k
      in murmur_body h data)"
| "murmur_body h data = (h, data)"

text \<open>The switch over the last bytes, whose cases fall through.\<close>

fun murmur_tail :: "u32 \<Rightarrow> u8 list \<Rightarrow> u32" where
  "murmur_tail h [a, b, c] = murmur_tail (h XOR push_bit 16 (ucast c)) [a, b]"
| "murmur_tail h [a, b] = murmur_tail (h XOR push_bit 8 (ucast b)) [a]"
| "murmur_tail h [a] = (h XOR ucast a) * murmur_m"
| "murmur_tail h _ = h"

definition murmurhash2 :: "u8 list \<Rightarrow> nat \<Rightarrow> u32 \<Rightarrow> u32" where
  "murmurhash2 key len seed =
     (let h = seed XOR word_of_nat len;
          (h, rest) = murmur_body h (take len key);
          h = murmur_tail h rest;
          h = h XOR drop_bit 13 h;
          h = h * murmur_m
      in h XOR drop_bit 15 h)"

definition strlen :: "cstr \<Rightarrow> nat" where
  "strlen s = length (takeWhile (\<lambda>c. c \<noteq> 0) s)"

definition bloom_hash :: "cstr \<Rightarrow> u32" where
  "bloom_hash data = murmurhash2 data (strlen data) 0xbc9f1d34"

section \<open>Single-precision integers\<close>

fun bit_length :: "nat \<Rightarrow> nat" where
  "bit_length n = (if n = 0 then 0 else Suc (bit_length (n div 2)))"

declare bit_length.simps [simp del]

text \<open>A natural number as a \<^verbatim>\<open>float\<close>: 24 significant bits, ties to even.\<close>

definition f32_round :: "nat \<Rightarrow> nat" where
  "f32_round n =
     (let e = bit_length n - 24; q = n div 2 ^ e; r = n mod 2 ^ e in
      if e = 0 then n
      else if 2 * r > 2 ^ e \<or> (2 * r = 2 ^ e \<and> odd q) then (q + 1) * 2 ^ e
      else q * 2 ^ e)"

section \<open>The filter\<close>

record bloomfilter =
  erate :: rat
  bk :: int
  capacity :: u64
  nbits :: u64
  count :: u64
  bset :: "bitset option"

text \<open>
  \<^verbatim>\<open>ceilf(k / 0.69)\<close>: for k in 1..30 the quotient is at least 1/69 away from every integer that
  it is not equal to, so the rounding of the division does not change its ceiling.
\<close>

definition bits_per_key :: "int \<Rightarrow> nat" where
  "bits_per_key k = nat ((100 * k + 68) div 69)"

definition bloomfilter_new ::
    "(u64 \<Rightarrow> bool) \<Rightarrow> u8 list \<Rightarrow> (rat \<Rightarrow> int) \<Rightarrow> u64 \<Rightarrow> rat \<Rightarrow> bloomfilter option option" where
  "bloomfilter_new mem slack ceil_log2f cap rate =
     (if rate \<le> 0 \<or> rate \<ge> 1 then Some None
      else if \<not> mem 40 then Some None
      else
        let k = ceil_log2f (1 / rate);
            k = (if k < 1 then 1 else k);
            k = (if k > 30 then 30 else k);
            product = f32_round (f32_round (unat cap) * bits_per_key k)
        in if product \<ge> 2 ^ 64 then None
           else let nb = word_of_nat product in
             Some (Some \<lparr>erate = rate, bk = k, capacity = cap, nbits = nb, count = 0,
               bset = bitset_new mem slack nb\<rparr>))"

fun bloom_add_loop :: "nat \<Rightarrow> u32 \<Rightarrow> u32 \<Rightarrow> u64 \<Rightarrow> bitset option \<Rightarrow> bitset option option" where
  "bloom_add_loop 0 h delta nb st = Some st"
| "bloom_add_loop (Suc i) h delta nb st =
     (if nb = 0 then None
      else let bitpos = (ucast ((ucast h :: u64) mod nb) :: u32) in do {
        (st', _) \<leftarrow> bitset_set st (ucast bitpos) 1;
        bloom_add_loop i (h + delta) delta nb st'
      })"

definition bloomfilter_add ::
    "bloomfilter option \<Rightarrow> cstr option \<Rightarrow> (bloomfilter option \<times> int) option" where
  "bloomfilter_add flt key =
     (case (flt, key) of
        (Some f, Some s) \<Rightarrow>
          if count f > capacity f then Some (Some f, 0)
          else let h = bloom_hash s; delta = drop_bit 17 h OR push_bit 15 h in do {
            st \<leftarrow> bloom_add_loop (nat (bk f)) h delta (nbits f) (bset f);
            Some (Some (f\<lparr>bset := st, count := count f + 1\<rparr>), 1)
          }
      | _ \<Rightarrow> Some (flt, 0))"

fun bloom_check_loop :: "nat \<Rightarrow> u32 \<Rightarrow> u32 \<Rightarrow> u64 \<Rightarrow> bitset option \<Rightarrow> int option" where
  "bloom_check_loop 0 h delta nb st = Some 1"
| "bloom_check_loop (Suc i) h delta nb st =
     (if nb = 0 then None
      else let bitpos = (ucast ((ucast h :: u64) mod nb) :: u32) in do {
        v \<leftarrow> bitset_get st (ucast bitpos);
        if v \<noteq> 1 then Some 0 else bloom_check_loop i (h + delta) delta nb st
      })"

definition bloomfilter_check :: "bloomfilter option \<Rightarrow> cstr option \<Rightarrow> int option" where
  "bloomfilter_check flt key =
     (case (flt, key) of
        (Some f, Some s) \<Rightarrow>
          let h = bloom_hash s; delta = drop_bit 17 h OR push_bit 15 h in
          bloom_check_loop (nat (bk f)) h delta (nbits f) (bset f)
      | _ \<Rightarrow> Some 0)"

section \<open>The positions of a key\<close>

fun positions :: "nat \<Rightarrow> u32 \<Rightarrow> u32 \<Rightarrow> u64 \<Rightarrow> u64 list" where
  "positions 0 h delta nb = []"
| "positions (Suc i) h delta nb =
     ucast (ucast ((ucast h :: u64) mod nb) :: u32) # positions i (h + delta) delta nb"

definition key_positions :: "bloomfilter \<Rightarrow> cstr \<Rightarrow> u64 list" where
  "key_positions f key =
     (let h = bloom_hash key; delta = drop_bit 17 h OR push_bit 15 h
      in positions (nat (bk f)) h delta (nbits f))"

lemma unat_ucast_up: "unat (ucast (h :: u32) :: u64) = unat h"
  by (simp add: unsigned_ucast_eq take_bit_nat_eq_self order.strict_trans2 [OF unsigned_less])

lemma unat_position:
  "unat (ucast (ucast ((ucast h :: u64) mod nb) :: u32) :: u64) = unat (h :: u32) mod unat nb"
proof -
  have "unat h < 2 ^ LENGTH(32)" by (rule unsigned_less)
  then have "unat h mod unat nb < 2 ^ 32" by (simp add: le_less_trans [OF mod_less_eq_dividend])
  then have "unat (ucast ((ucast h :: u64) mod nb) :: u32) = unat h mod unat nb"
    by (simp add: unsigned_ucast_eq [of "_ mod _"] unat_mod unat_ucast_up take_bit_nat_eq_self)
  then show ?thesis by (simp only: unat_ucast_up)
qed

lemma positions_less: "nb \<noteq> 0 \<Longrightarrow> \<forall>n \<in> set (positions i h delta nb). n < nb"
  by (induction i h delta nb rule: positions.induct)
    (auto simp: word_less_nat_alt unat_position unat_gt_0)

lemma length_positions [simp]: "length (positions i h delta nb) = i"
  by (induction i h delta nb rule: positions.induct) auto

lemma add_loop_put_seq:
  "nb \<noteq> 0 \<Longrightarrow> bs_inv s \<Longrightarrow> blen s = nb \<Longrightarrow>
    bloom_add_loop i h delta nb (Some s) =
      map_option Some (put_seq bitset_put1 s (positions i h delta nb))"
proof (induction i arbitrary: h s)
  case 0
  then show ?case by simp
next
  case (Suc i)
  let ?n = "ucast (ucast ((ucast h :: u64) mod nb) :: u32) :: u64"
  have n: "?n < blen s" using positions_less [of nb "Suc i" h delta] Suc.prems by simp
  obtain s' where s': "bitset_set (Some s) ?n 1 = Some (Some s', of_bool (unat ?n \<in> bits_of s))"
      "bs_inv s'" "blen s' = blen s"
    using Suc.prems(2) n by (rule bitset_set_in [of s ?n 1]) auto
  have "bitset_put1 s ?n = Some s'" using s' by (simp add: bitset_put1_def)
  then show ?case using s' Suc.prems Suc.IH [of s' "h + delta"] by (simp add: Let_def)
qed

lemma check_loop_test_seq:
  "nb \<noteq> 0 \<Longrightarrow> bloom_check_loop i h delta nb (Some s) =
    map_option of_bool (test_seq bitset_test1 s (positions i h delta nb))"
  by (induction i h delta nb "Some s" rule: bloom_check_loop.induct)
    (auto simp: bitset_test1_def Let_def split: bind_splits)

section \<open>Invariant\<close>

definition bf_inv :: "bloomfilter \<Rightarrow> bool" where
  "bf_inv f \<longleftrightarrow> nbits f \<noteq> 0 \<and> 1 \<le> bk f \<and> bk f \<le> 30
     \<and> (case bset f of None \<Rightarrow> False | Some s \<Rightarrow> bs_inv s \<and> blen s = nbits f)"

text \<open>The positions whose bit is set.\<close>

definition marked :: "bloomfilter \<Rightarrow> nat set" where
  "marked f = (case bset f of None \<Rightarrow> {} | Some s \<Rightarrow> bits_of s)"

lemma bf_invE:
  assumes "bf_inv f"
  obtains s where "bset f = Some s" "bs_inv s" "blen s = nbits f" "nbits f \<noteq> 0" "marked f = bits_of s"
  using assms by (auto simp: bf_inv_def marked_def split: option.splits)

lemma key_positions_less: "bf_inv f \<Longrightarrow> \<forall>n \<in> set (key_positions f key). n < nbits f"
  by (auto simp: key_positions_def bf_inv_def Let_def positions_less)

lemma bloomfilter_add_ok:
  assumes "bf_inv f" and "count f \<le> capacity f"
  obtains f' where "bloomfilter_add (Some f) (Some key) = Some (Some f', 1)" and "bf_inv f'"
    and "marked f' = marked f \<union> unat ` set (key_positions f key)"
    and "count f' = count f + 1" and "capacity f' = capacity f" and "nbits f' = nbits f"
    and "bk f' = bk f"
proof -
  obtain s where s: "bset f = Some s" "bs_inv s" "blen s = nbits f" "nbits f \<noteq> 0"
      "marked f = bits_of s"
    using assms(1) by (rule bf_invE)
  obtain s' where s': "put_seq bitset_put1 s (key_positions f key) = Some s'" "bs_inv s'"
      "blen s' = blen s" "bits_of s' = bits_of s \<union> unat ` set (key_positions f key)"
    using bits.put_seq_members [OF s(2)] key_positions_less [OF assms(1)] s(3) by metis
  let ?f = "f\<lparr>bset := Some s', count := count f + 1\<rparr>"
  have "bloomfilter_add (Some f) (Some key) = Some (Some ?f, 1)"
    using assms(2) s s' add_loop_put_seq [OF s(4) s(2) s(3)]
    by (simp add: bloomfilter_add_def key_positions_def Let_def not_less)
  moreover have "bf_inv ?f" "marked ?f = marked f \<union> unat ` set (key_positions f key)"
    using assms(1) s s' by (auto simp: bf_inv_def marked_def)
  ultimately show thesis using that [of ?f] by simp
qed

lemma bloomfilter_add_full:
  "\<not> count f \<le> capacity f \<Longrightarrow> bloomfilter_add (Some f) (Some key) = Some (Some f, 0)"
  by (simp add: bloomfilter_add_def not_le)

lemma bloomfilter_check_ok:
  assumes "bf_inv f"
  shows "bloomfilter_check (Some f) (Some key) =
    Some (of_bool (unat ` set (key_positions f key) \<subseteq> marked f))"
proof -
  obtain s where s: "bset f = Some s" "bs_inv s" "blen s = nbits f" "nbits f \<noteq> 0"
      "marked f = bits_of s"
    using assms by (rule bf_invE)
  then have "test_seq bitset_test1 s (key_positions f key)
      = Some (unat ` set (key_positions f key) \<subseteq> bits_of s)"
    using bits.test_seq_members key_positions_less [OF assms] by auto
  then show ?thesis
    using s check_loop_test_seq [OF s(4)]
    by (simp add: bloomfilter_check_def key_positions_def Let_def)
qed

section \<open>Sequences of additions\<close>

text \<open>Adding the keys of a list in turn, and the values the calls return.\<close>

fun bloom_adds :: "bloomfilter option \<Rightarrow> cstr list \<Rightarrow> (bloomfilter option \<times> int list) option" where
  "bloom_adds f [] = Some (f, [])"
| "bloom_adds f (k # ks) = do {
     (f1, r) \<leftarrow> bloomfilter_add f (Some k);
     (f2, rs) \<leftarrow> bloom_adds f1 ks;
     Some (f2, r # rs)
   }"

lemma bloom_adds_inv:
  "bf_inv f \<Longrightarrow> \<exists>f' rs. bloom_adds (Some f) ks = Some (Some f', rs) \<and> bf_inv f'
     \<and> nbits f' = nbits f \<and> bk f' = bk f \<and> marked f \<subseteq> marked f'"
proof (induction ks arbitrary: f)
  case Nil
  then show ?case by simp
next
  case (Cons k ks)
  show ?case
  proof (cases "count f \<le> capacity f")
    case True
    obtain f1 where "bloomfilter_add (Some f) (Some k) = Some (Some f1, 1)" "bf_inv f1"
        "marked f1 = marked f \<union> unat ` set (key_positions f k)" "nbits f1 = nbits f" "bk f1 = bk f"
      using Cons.prems True by (rule bloomfilter_add_ok)
    then show ?thesis using Cons.IH [of f1] by auto
  next
    case False
    moreover obtain f' rs where "bloom_adds (Some f) ks = Some (Some f', rs)" "bf_inv f'"
        "nbits f' = nbits f" "bk f' = bk f" "marked f \<subseteq> marked f'"
      using Cons.IH [OF Cons.prems] by blast
    ultimately show ?thesis by (simp add: bloomfilter_add_full)
  qed
qed

lemma key_positions_cong: "nbits f' = nbits f \<Longrightarrow> bk f' = bk f \<Longrightarrow> key_positions f' k = key_positions f k"
  by (simp add: key_positions_def)

lemma bloom_adds_marked:
  "bf_inv f \<Longrightarrow> unat (count f) + length ks \<le> unat (capacity f) + 1 \<Longrightarrow> unat (capacity f) + 1 < 2 ^ 64 \<Longrightarrow>
    \<exists>f'. bloom_adds (Some f) ks = Some (Some f', replicate (length ks) 1) \<and> bf_inv f'
     \<and> nbits f' = nbits f \<and> bk f' = bk f \<and> capacity f' = capacity f
     \<and> unat (count f') = unat (count f) + length ks
     \<and> marked f' = marked f \<union> (\<Union>k \<in> set ks. unat ` set (key_positions f k))"
proof (induction ks arbitrary: f)
  case Nil
  then show ?case by simp
next
  case (Cons k ks)
  then have le: "count f \<le> capacity f" by (simp add: word_le_nat_alt)
  obtain f1 where f1: "bloomfilter_add (Some f) (Some k) = Some (Some f1, 1)" "bf_inv f1"
      "marked f1 = marked f \<union> unat ` set (key_positions f k)" "nbits f1 = nbits f" "bk f1 = bk f"
      "count f1 = count f + 1" "capacity f1 = capacity f"
    using Cons.prems(1) le by (rule bloomfilter_add_ok)
  have count: "unat (count f1) = unat (count f) + 1"
    using Cons.prems by (simp add: f1 unat_add_no_wrap)
  then obtain f' where "bloom_adds (Some f1) ks = Some (Some f', replicate (length ks) 1)"
      "bf_inv f'" "nbits f' = nbits f1" "bk f' = bk f1" "capacity f' = capacity f1"
      "unat (count f') = unat (count f1) + length ks"
      "marked f' = marked f1 \<union> (\<Union>k \<in> set ks. unat ` set (key_positions f1 k))"
    using Cons.IH [of f1] Cons.prems f1 by auto
  then show ?case using f1 count key_positions_cong [of f1 f] by auto
qed

lemma bloom_adds_append:
  "bloom_adds f (ks @ ls) = do {
     (f1, rs) \<leftarrow> bloom_adds f ks;
     (f2, rs') \<leftarrow> bloom_adds f1 ls;
     Some (f2, rs @ rs')
   }"
  by (induction ks arbitrary: f) (auto simp: split_beta split: bind_splits)

lemma bloom_adds_full:
  "\<not> count f \<le> capacity f \<Longrightarrow> bloom_adds (Some f) ks = Some (Some f, replicate (length ks) 0)"
  by (induction ks) (auto simp: bloomfilter_add_full)

section \<open>Correctness\<close>

text \<open>
  C2. No false negatives: a key whose addition was accepted is reported present, after that
  addition and after any further additions, accepted or refused; all these calls are defined.
\<close>

theorem bloom_no_false_negative:
  assumes "bf_inv f" and "bloomfilter_add (Some f) (Some key) = Some (f1, 1)"
  shows "\<exists>f2 rs. bloom_adds f1 keys = Some (Some f2, rs)
    \<and> bloomfilter_check (Some f2) (Some key) = Some 1"
proof -
  have "count f \<le> capacity f" using assms(2) bloomfilter_add_full [of f key] by fastforce
  with assms(1) obtain g where g: "bloomfilter_add (Some f) (Some key) = Some (Some g, 1)"
      "bf_inv g" "marked g = marked f \<union> unat ` set (key_positions f key)" "nbits g = nbits f"
      "bk g = bk f"
    by (rule bloomfilter_add_ok)
  obtain f2 rs where "bloom_adds (Some g) keys = Some (Some f2, rs)" "bf_inv f2"
      "nbits f2 = nbits g" "bk f2 = bk g" "marked g \<subseteq> marked f2"
    using bloom_adds_inv [OF g(2)] by blast
  then show ?thesis
    using g assms(2) bloomfilter_check_ok [of f2 key] key_positions_cong [of f2 f key] by auto
qed

definition sample_filter :: bloomfilter where
  "sample_filter = \<lparr>erate = 1 / 2, bk = 1, capacity = 3, nbits = 6, count = 0,
     bset = Some \<lparr>blen = 6, bytes = [0]\<rparr>\<rparr>"

lemma sample_filter_inv: "bf_inv sample_filter" "marked sample_filter = {}"
    "count sample_filter = 0" "unat (capacity sample_filter) = 3"
  by (simp_all add: sample_filter_def bf_inv_def marked_def bs_inv_check bs_shape_def bit_at_def
      upt_rec bits_of_def)

theorem bloom_no_false_negative_witness:
  "\<exists>f1 f2 rs. bloomfilter_add (Some sample_filter) (Some [115, 101]) = Some (f1, 1)
    \<and> bloom_adds f1 [[97], [98, 99]] = Some (Some f2, rs)
    \<and> bloomfilter_check (Some f2) (Some [115, 101]) = Some 1"
proof -
  have "count sample_filter \<le> capacity sample_filter" by (simp add: sample_filter_def)
  with sample_filter_inv(1) obtain g
    where "bloomfilter_add (Some sample_filter) (Some [115, 101]) = Some (Some g, 1)"
    by (rule bloomfilter_add_ok)
  then show ?thesis
    using bloom_no_false_negative [OF sample_filter_inv(1), of "[115, 101]"] by blast
qed

text \<open>
  A fresh filter reports a key present exactly when every position of the key was set by one
  of the added keys, so the false positives are exactly the covered keys.
\<close>

theorem bloom_check_covered:
  assumes "bf_inv f" and "marked f = {}" and "count f = 0" and "unat (capacity f) + 1 < 2 ^ 64"
    and "length keys \<le> unat (capacity f) + 1"
  shows "\<exists>f'. bloom_adds (Some f) keys = Some (Some f', replicate (length keys) 1)
    \<and> bloomfilter_check (Some f') (Some key) =
        Some (if set (key_positions f key) \<subseteq> (\<Union>k \<in> set keys. set (key_positions f k)) then 1 else 0)"
proof -
  obtain f' where f': "bloom_adds (Some f) keys = Some (Some f', replicate (length keys) 1)"
      "bf_inv f'" "nbits f' = nbits f" "bk f' = bk f"
      "marked f' = (\<Union>k \<in> set keys. unat ` set (key_positions f k))"
    using bloom_adds_marked [OF assms(1), of keys] assms by auto
  have "unat ` set (key_positions f key) \<subseteq> marked f' \<longleftrightarrow>
      set (key_positions f key) \<subseteq> (\<Union>k \<in> set keys. set (key_positions f k))"
    by (simp only: f'(5) image_UN [symmetric] inj_image_subset_iff [OF inj_unsigned])
  then show ?thesis
    using f' bloomfilter_check_ok [OF f'(2), of key] key_positions_cong [of f' f key] by auto
qed

theorem bloom_check_covered_witness:
  "\<exists>f' v. bloom_adds (Some sample_filter) [[97], [98]] = Some (Some f', [1, 1])
    \<and> bloomfilter_check (Some f') (Some [99]) = Some v"
proof -
  have h: "unat (capacity sample_filter) + 1 < 2 ^ 64"
      "length [[97], [98 :: u8]] \<le> unat (capacity sample_filter) + 1"
    by (simp_all add: sample_filter_inv(4))
  have "replicate (length [[97], [98 :: u8]]) (1 :: int) = [1, 1]" by (simp add: numeral_2_eq_2)
  then show ?thesis
    using bloom_check_covered [OF sample_filter_inv(1-3) h, of "[99]"] by (simp only:) blast
qed

text \<open>
  The guard of \<^verbatim>\<open>bloomfilter_add\<close> is \<^verbatim>\<open>count > capacity\<close>: a fresh filter accepts one key more
  than its capacity and refuses every later one.
\<close>

theorem bloom_capacity_plus_one:
  assumes "bf_inv f" and "count f = 0" and "unat (capacity f) + 1 < 2 ^ 64"
  shows "\<exists>f'. bloom_adds (Some f) keys = Some (Some f',
      replicate (min (length keys) (unat (capacity f) + 1)) 1
        @ replicate (length keys - (unat (capacity f) + 1)) 0)"
proof -
  let ?n = "unat (capacity f) + 1"
  obtain f1 where f1: "bloom_adds (Some f) (take ?n keys) =
        Some (Some f1, replicate (min (length keys) ?n) 1)"
      "capacity f1 = capacity f" "unat (count f1) = min (length keys) ?n"
    using bloom_adds_marked [OF assms(1), of "take ?n keys"] assms by (auto simp: min.commute)
  show ?thesis
  proof (cases "length keys \<le> ?n")
    case True
    then show ?thesis using f1(1) by auto
  next
    case False
    then have "\<not> count f1 \<le> capacity f1" using f1 by (simp add: word_le_nat_alt)
    then have "bloom_adds (Some f) (take ?n keys @ drop ?n keys) = Some (Some f1,
        replicate (min (length keys) ?n) 1 @ replicate (length keys - ?n) 0)"
      using f1 by (simp only: bloom_adds_append) (simp add: bloom_adds_full)
    then show ?thesis by auto
  qed
qed

theorem bloom_capacity_plus_one_witness:
  "\<exists>f'. bloom_adds (Some sample_filter) [[1], [2], [3], [4], [5]] = Some (Some f', [1, 1, 1, 1, 0])"
proof -
  have h: "unat (capacity sample_filter) + 1 < 2 ^ 64" by (simp add: sample_filter_inv(4))
  have "replicate (min (length [[1], [2], [3], [4], [5 :: u8]]) (unat (capacity sample_filter) + 1)) 1
      @ replicate (length [[1], [2], [3], [4], [5 :: u8]] - (unat (capacity sample_filter) + 1)) (0 :: int)
      = [1, 1, 1, 1, 0]"
    by (simp add: sample_filter_inv(4) numeral_eq_Suc)
  then show ?thesis
    using bloom_capacity_plus_one [OF sample_filter_inv(1,3) h, of "[[1], [2], [3], [4], [5]]"]
    by (simp only:)
qed

section \<open>Creation\<close>

lemma bit_length_zero [simp]: "bit_length 0 = 0"
  by (simp add: bit_length.simps)

lemma bit_length_le: "n < 2 ^ k \<Longrightarrow> bit_length n \<le> k"
proof (induction k arbitrary: n)
  case 0
  then show ?case by simp
next
  case (Suc k)
  then have "n div 2 < 2 ^ k" by simp
  then have "bit_length (n div 2) \<le> k" by (rule Suc.IH)
  then show ?case by (simp add: bit_length.simps [of n])
qed

lemma f32_round_exact: "n < 2 ^ 24 \<Longrightarrow> f32_round n = n"
  using bit_length_le [of n 24] by (simp add: f32_round_def)

lemma bits_per_key_bounds: "1 \<le> k \<Longrightarrow> k \<le> 30 \<Longrightarrow> 2 \<le> bits_per_key k \<and> bits_per_key k \<le> 44"
  unfolding bits_per_key_def by linarith

text \<open>
  For a rate between 0 and 1 and a served allocation, \<^verbatim>\<open>bloomfilter_new\<close> builds an empty
  filter that satisfies the invariant, with the number of hash rounds clamped to 1..30 and exactly
  \<^verbatim>\<open>capacity * ceil(k / 0.69)\<close> bits (for capacities whose products a C \<^verbatim>\<open>float\<close> represents
  exactly); for any other rate it returns null.
\<close>

theorem bloomfilter_new_spec:
  assumes "\<And>n. mem n" and "cap \<noteq> 0" and "unat cap * 44 < 2 ^ 24"
  shows "if 0 < rate \<and> rate < 1
    then \<exists>f. bloomfilter_new mem slack ceil_log2f cap rate = Some (Some f) \<and> bf_inv f
      \<and> marked f = {} \<and> count f = 0 \<and> capacity f = cap
      \<and> bk f = max 1 (min 30 (ceil_log2f (1 / rate)))
      \<and> unat (nbits f) = unat cap * bits_per_key (bk f)
    else bloomfilter_new mem slack ceil_log2f cap rate = Some None"
proof (cases "0 < rate \<and> rate < 1")
  case True
  define k where "k = max 1 (min 30 (ceil_log2f (1 / rate)))"
  define b where "b = bits_per_key k"
  have k: "1 \<le> k" "k \<le> 30" by (auto simp: k_def)
  then have b: "2 \<le> b" "b \<le> 44" using bits_per_key_bounds by (auto simp: b_def)
  have c: "0 < unat cap" using assms(2) by (simp add: unat_gt_0)
  have "unat cap * b \<le> unat cap * 44" using b(2) by (rule mult_le_mono2)
  then have small: "unat cap * b < 2 ^ 24" using assms(3) by (rule le_less_trans)
  moreover have "unat cap < 2 ^ 24" using assms(3) by simp
  ultimately have prod: "f32_round (f32_round (unat cap) * b) = unat cap * b"
    by (simp only: f32_round_exact)
  define nb where "nb = (word_of_nat (unat cap * b) :: u64)"
  have nb: "unat nb = unat cap * b"
    using small unfolding nb_def unsigned_of_nat of_nat_id by (intro take_bit_nat_eq_self) simp
  then have nb7: "unat nb + 7 < 2 ^ 64" and "nb \<noteq> 0" using small c b by (auto simp: unat_gt_0 [symmetric])
  obtain s where s: "bitset_new mem slack nb = Some s" "bs_inv s" "blen s = nb" "bits_of s = {}"
    by (rule bitset_new_ok [of mem nb slack]) (use assms(1) nb7 in auto)
  let ?f = "\<lparr>erate = rate, bk = k, capacity = cap, nbits = nb, count = 0, bset = Some s\<rparr>"
  have clamp: "(let k = ceil_log2f (1 / rate); k = (if k < 1 then 1 else k)
      in if k > 30 then 30 else k) = k"
    by (auto simp: k_def Let_def)
  have "bloomfilter_new mem slack ceil_log2f cap rate = Some (Some ?f)"
    using True assms(1) prod small s(1) clamp
    by (simp add: bloomfilter_new_def Let_def b_def nb_def)
  moreover have "bf_inv ?f" "marked ?f = {}"
    using s k \<open>nb \<noteq> 0\<close> by (auto simp: bf_inv_def marked_def)
  ultimately show ?thesis using True nb by (auto simp: k_def b_def)
next
  case False
  then show ?thesis by (auto simp: bloomfilter_new_def not_le)
qed

theorem bloomfilter_new_spec_witness:
  "(\<exists>f. bloomfilter_new (\<lambda>_. True) [] (\<lambda>_. 17) 11000 (1 / 100000) = Some (Some f) \<and> bf_inv f
      \<and> bk f = 17 \<and> unat (nbits f) = 275000)
   \<and> bloomfilter_new (\<lambda>_. True) [] (\<lambda>_. 17) 11000 1 = Some None"
  using bloomfilter_new_spec [of "\<lambda>_. True" 11000 "1 / 100000" "[]" "\<lambda>_. 17"]
    bloomfilter_new_spec [of "\<lambda>_. True" 11000 1 "[]" "\<lambda>_. 17"]
  by (auto simp: bits_per_key_def)

text \<open>
  \<^verbatim>\<open>bloomfilter_new\<close> accepts the capacity 0 and then has a filter of 0 bits: every
  addition and every check divides by zero.
\<close>

theorem bloom_zero_capacity:
  assumes "\<And>n. mem n" and "0 < rate" and "rate < 1"
  shows "\<exists>f. bloomfilter_new mem slack ceil_log2f 0 rate = Some (Some f) \<and> nbits f = 0
    \<and> (\<forall>key. bloomfilter_add (Some f) (Some key) = None
        \<and> bloomfilter_check (Some f) (Some key) = None)"
proof -
  define k where "k = max 1 (min 30 (ceil_log2f (1 / rate)))"
  let ?f = "\<lparr>erate = rate, bk = k, capacity = 0, nbits = 0, count = 0,
    bset = bitset_new mem slack 0\<rparr>"
  have "(let k = ceil_log2f (1 / rate); k = (if k < 1 then 1 else k)
      in if k > 30 then 30 else k) = k"
    by (auto simp: k_def Let_def)
  then have "bloomfilter_new mem slack ceil_log2f 0 rate = Some (Some ?f)"
    using assms by (simp add: bloomfilter_new_def Let_def f32_round_exact)
  moreover have "1 \<le> k" by (simp add: k_def)
  then obtain m where "nat k = Suc m" by (cases "nat k") auto
  then have "bloomfilter_add (Some ?f) (Some key) = None"
      "bloomfilter_check (Some ?f) (Some key) = None" for key
    by (simp_all add: bloomfilter_add_def bloomfilter_check_def Let_def)
  ultimately show ?thesis by auto
qed

theorem bloom_zero_capacity_witness:
  "\<exists>f. bloomfilter_new (\<lambda>_. True) [] (\<lambda>_. 7) 0 (1 / 100) = Some (Some f)
    \<and> bloomfilter_add (Some f) (Some [97]) = None"
  using bloom_zero_capacity [of "\<lambda>_. True" "1 / 100" "[]" "\<lambda>_. 7"] by auto

text \<open>
  The result of \<^verbatim>\<open>bitset_new\<close> is not checked: when that allocation fails, the filter is
  returned all the same, additions report success and every check answers "absent", also for the
  keys just added.
\<close>

lemma add_loop_null: "nb \<noteq> 0 \<Longrightarrow> bloom_add_loop i h delta nb None = Some None"
  by (induction i arbitrary: h) (auto simp: bitset_set_def Let_def)

theorem bloom_unchecked_allocation:
  assumes "mem 40" and "\<not> mem 16" and "0 < rate" and "rate < 1"
    and "cap \<noteq> 0" and "unat cap * 44 < 2 ^ 24"
  shows "\<exists>f f'. bloomfilter_new mem slack ceil_log2f cap rate = Some (Some f) \<and> bset f = None
    \<and> bloomfilter_add (Some f) (Some key) = Some (Some f', 1)
    \<and> bloomfilter_check (Some f') (Some key) = Some 0"
proof -
  \<comment> \<open>The served filter differs from this one in its bit set only.\<close>
  obtain g where g: "bloomfilter_new (\<lambda>_. True) slack ceil_log2f cap rate = Some (Some g)" "bf_inv g"
      "count g = 0" "capacity g = cap"
    using bloomfilter_new_spec [of "\<lambda>_. True" cap rate slack ceil_log2f] assms(3-6) by auto
  let ?f = "g\<lparr>bset := None\<rparr>"
  let ?f' = "?f\<lparr>count := 1\<rparr>"
  have "bloomfilter_new mem slack ceil_log2f cap rate = Some (Some ?f)"
    using g(1) assms(1,2)
    by (auto simp: bloomfilter_new_def bitset_new_def Let_def split: if_splits)
  moreover have "1 \<le> bk g" using g(2) by (simp add: bf_inv_def)
  then obtain m where m: "nat (bk g) = Suc m" by (cases "nat (bk g)") auto
  have "nbits g \<noteq> 0" using g(2) by (simp add: bf_inv_def)
  then have "bloomfilter_add (Some ?f) (Some key) = Some (Some ?f', 1)"
      "bloomfilter_check (Some ?f') (Some key) = Some 0"
    using g(3,4) m
    by (simp_all add: bloomfilter_add_def bloomfilter_check_def add_loop_null bitset_get_def Let_def
        del: bloom_add_loop.simps)
  ultimately show ?thesis by auto
qed

theorem bloom_unchecked_allocation_witness:
  "\<exists>f f'. bloomfilter_new (\<lambda>n. n = 40) [] (\<lambda>_. 7) 100 (1 / 100) = Some (Some f)
    \<and> bloomfilter_add (Some f) (Some [97]) = Some (Some f', 1)
    \<and> bloomfilter_check (Some f') (Some [97]) = Some 0"
  using bloom_unchecked_allocation [of "\<lambda>n. n = 40" "1 / 100" 100 "[]" "\<lambda>_. 7" "[97]"] by auto

section \<open>The mixing of the hash function\<close>

text \<open>Each mixing step is injective: an xor-shift, and a product with the odd constant.\<close>

lemma xorshift_inj:
  assumes "0 < r" and "x XOR drop_bit r x = y XOR drop_bit r (y :: u32)"
  shows "x = y"
proof (rule bit_word_eqI)
  fix n
  assume "n < LENGTH(32)"
  have eq: "(bit x n \<noteq> bit x (r + n)) = (bit y n \<noteq> bit y (r + n))" for n
    using arg_cong [OF assms(2), of "\<lambda>w. bit w n"] by (simp add: bit_xor_iff bit_drop_bit_eq)
  have "bit x n = bit y n" for n
  proof (induction "32 - n" arbitrary: n rule: less_induct)
    case less
    show ?case
    proof (cases "n < 32")
      case True
      then have "bit x (r + n) = bit y (r + n)" using assms(1) by (intro less) auto
      then show ?thesis using eq [of n] by auto
    next
      case False
      then show ?thesis by (auto dest: bit_imp_le_length)
    qed
  qed
  then show "bit x n = bit y n" .
qed

lemma murmur_m_inj: "x * murmur_m = y * murmur_m \<longleftrightarrow> x = y"
proof
  assume "x * murmur_m = y * murmur_m"
  then have "x * murmur_m * 0xe59b19bd = y * murmur_m * 0xe59b19bd" by simp
  moreover have "murmur_m * 0xe59b19bd = 1" by (simp add: murmur_m_def)
  ultimately show "x = y" by (simp only: mult.assoc mult_1_right)
qed simp

lemma xor_left_inj: "h XOR x = h XOR y \<longleftrightarrow> x = (y :: u32)"
  by (metis xor.left_neutral xor_self_eq xor.assoc)

lemma xor_right_inj: "x XOR h = y XOR h \<longleftrightarrow> x = (y :: u32)"
  by (metis xor.commute xor_left_inj)

lemma bit_u8_high: "8 \<le> k \<Longrightarrow> \<not> bit (a :: u8) k"
  by (auto dest: bit_imp_le_length)

lemma bit_load32:
  assumes "k < 8"
  shows "bit (load32 a b c d) k = bit a k" and "bit (load32 a b c d) (8 + k) = bit b k"
    and "bit (load32 a b c d) (16 + k) = bit c k" and "bit (load32 a b c d) (24 + k) = bit d k"
  using assms by (auto simp: load32_def bit_simps bit_u8_high)

lemma load32_inj:
  assumes "load32 a b c d = load32 a' b' c' d'"
  shows "a = a' \<and> b = b' \<and> c = c' \<and> d = d'"
proof -
  have "bit a k = bit a' k \<and> bit b k = bit b' k \<and> bit c k = bit c' k \<and> bit d k = bit d' k"
    if "k < 8" for k
    using bit_load32 [OF that, of a b c d] bit_load32 [OF that, of a' b' c' d'] assms by simp
  then show ?thesis by (auto intro!: bit_word_eqI)
qed

text \<open>The scrambling of one block, which the body folds into the hash.\<close>

definition scramble :: "u32 \<Rightarrow> u32" where
  "scramble k = (let k = k * murmur_m; k = k XOR drop_bit 24 k in k * murmur_m)"

lemma scramble_inj: "scramble x = scramble y \<Longrightarrow> x = y"
  by (auto simp: scramble_def Let_def murmur_m_inj dest!: xorshift_inj [of 24, rotated])

lemma murmur_body_block:
  "murmur_body h (a # b # c # d # data) =
     murmur_body ((h * murmur_m) XOR scramble (load32 a b c d)) data"
  by (simp only: murmur_body.simps scramble_def Let_def)

text \<open>Induction over the blocks of four bytes.\<close>

lemma blocks_induct:
  assumes "\<And>a b c d rest. P rest \<Longrightarrow> P (a # b # c # d # rest)" and "\<And>t. length t < 4 \<Longrightarrow> P t"
  shows "P (xs :: u8 list)"
proof (induction "length xs" arbitrary: xs rule: less_induct)
  case less
  show ?case
  proof (cases "length xs < 4")
    case True
    then show ?thesis by (rule assms(2))
  next
    case False
    then obtain a b c d rest where xs: "xs = a # b # c # d # rest"
      by (auto simp: not_less numeral_eq_Suc Suc_le_length_iff)
    then have "P rest" by (intro less) simp
    then show ?thesis unfolding xs by (rule assms(1))
  qed
qed

lemma murmur_body_short: "length t < 4 \<Longrightarrow> murmur_body h t = (h, t)"
  by (cases "(h, t)" rule: murmur_body.cases) auto

lemma murmur_body_append:
  "length p mod 4 = 0 \<Longrightarrow> murmur_body h (p @ q) = murmur_body (fst (murmur_body h p)) q"
proof (induction p arbitrary: h rule: blocks_induct)
  case (1 a b c d rest)
  then show ?case by (simp only: append_Cons murmur_body_block length_Cons) simp
next
  case (2 t)
  then show ?case by (simp add: murmur_body_short)
qed

lemma murmur_body_rest: "snd (murmur_body h data) = snd (murmur_body h' data)"
proof (induction data arbitrary: h h' rule: blocks_induct)
  case (1 a b c d rest)
  then show ?case by (simp only: murmur_body_block)
next
  case (2 t)
  then show ?case by (simp add: murmur_body_short)
qed

lemma murmur_body_inj: "fst (murmur_body h data) = fst (murmur_body h' data) \<Longrightarrow> h = h'"
proof (induction data arbitrary: h h' rule: blocks_induct)
  case (1 a b c d rest)
  have "(h * murmur_m) XOR scramble (load32 a b c d) = (h' * murmur_m) XOR scramble (load32 a b c d)"
    using 1(2) unfolding murmur_body_block by (rule 1(1))
  then show ?case by (simp only: xor_right_inj murmur_m_inj)
next
  case (2 t)
  then show ?case by (simp add: murmur_body_short)
qed

lemma murmur_tail_inj: "murmur_tail h data = murmur_tail h' data \<Longrightarrow> h = h'"
  by (cases "(h, data)" rule: murmur_tail.cases)
    (auto simp: murmur_m_inj xor_right_inj)

text \<open>The last mixing steps of \<^verbatim>\<open>murmurhash2\<close>.\<close>

definition murmur_finish :: "u32 \<Rightarrow> u32" where
  "murmur_finish h =
     (let h = h XOR drop_bit 13 h; h = h * murmur_m in h XOR drop_bit 15 h)"

lemma murmur_finish_inj: "murmur_finish h = murmur_finish h' \<Longrightarrow> h = h'"
  by (auto simp: murmur_finish_def Let_def murmur_m_inj
      dest!: xorshift_inj [of 15, rotated] xorshift_inj [of 13, rotated])

text \<open>
  Two keys of the same length that differ only in one aligned block of four bytes never have
  the same \<^verbatim>\<open>murmurhash2\<close> value, for any seed: every step of the hash is a bijection of its state.
\<close>

theorem murmurhash2_block_injective:
  assumes "length p mod 4 = 0" and "length b = 4" and "length b' = 4"
    and "murmurhash2 (p @ b @ q) n seed = murmurhash2 (p @ b' @ q) n seed"
    and "n = length (p @ b @ q)"
  shows "b = b'"
proof -
  obtain b1 b2 b3 b4 where b: "b = [b1, b2, b3, b4]"
    using assms(2) by (auto simp: numeral_eq_Suc length_Suc_conv)
  obtain c1 c2 c3 c4 where c: "b' = [c1, c2, c3, c4]"
    using assms(3) by (auto simp: numeral_eq_Suc length_Suc_conv)
  define h where "h = fst (murmur_body (seed XOR word_of_nat n) p)"
  define H where "H k = (h * murmur_m) XOR scramble k" for k
  let ?T = "\<lambda>k. murmur_tail (fst (murmur_body (H k) q)) (snd (murmur_body (H k) q))"
  have hash: "murmurhash2 (p @ [a1, a2, a3, a4] @ q) n seed =
      murmur_finish (?T (load32 a1 a2 a3 a4))" for a1 a2 a3 a4
  proof -
    have "murmur_body (seed XOR word_of_nat n) (p @ [a1, a2, a3, a4] @ q)
        = murmur_body (H (load32 a1 a2 a3 a4)) q"
      unfolding murmur_body_append [OF assms(1)] append_Cons append_Nil murmur_body_block
        h_def H_def by (rule refl)
    moreover have "take n (p @ [a1, a2, a3, a4] @ q) = p @ [a1, a2, a3, a4] @ q"
      using assms(2,5) by simp
    ultimately show ?thesis
      unfolding murmurhash2_def murmur_finish_def by (simp only: Let_def split_beta)
  qed
  have "?T (load32 b1 b2 b3 b4) = ?T (load32 c1 c2 c3 c4)"
    using assms(4) unfolding b c hash by (rule murmur_finish_inj)
  then have "fst (murmur_body (H (load32 b1 b2 b3 b4)) q) = fst (murmur_body (H (load32 c1 c2 c3 c4)) q)"
    unfolding murmur_body_rest [of "H (load32 c1 c2 c3 c4)" q "H (load32 b1 b2 b3 b4)"]
    by (rule murmur_tail_inj)
  then have "H (load32 b1 b2 b3 b4) = H (load32 c1 c2 c3 c4)" by (rule murmur_body_inj)
  then have "load32 b1 b2 b3 b4 = load32 c1 c2 c3 c4"
    by (simp only: H_def xor_left_inj) (rule scramble_inj)
  then show ?thesis unfolding b c by (auto dest: load32_inj)
qed

theorem murmurhash2_block_injective_witness:
  "murmurhash2 ([1, 2, 3, 4] @ [5, 6, 7, 8] @ [9]) 9 0xbc9f1d34
    \<noteq> murmurhash2 ([1, 2, 3, 4] @ [5, 6, 7, 9] @ [9]) 9 0xbc9f1d34"
proof
  let ?b = "[5, 6, 7, 8] :: u8 list" and ?b' = "[5, 6, 7, 9] :: u8 list"
  assume eq: "murmurhash2 ([1, 2, 3, 4] @ ?b @ [9]) 9 0xbc9f1d34
    = murmurhash2 ([1, 2, 3, 4] @ ?b' @ [9]) 9 0xbc9f1d34"
  have len: "length [1, 2, 3, 4 :: u8] mod 4 = 0" "length ?b = 4" "length ?b' = 4"
      "9 = length ([1, 2, 3, 4] @ ?b @ [9])"
    by simp_all
  have "?b = ?b'" by (rule murmurhash2_block_injective [OF len(1-3) eq len(4)])
  then show False by simp
qed

end
