(* ===== verification/Probe.thy ===== *)
theory Probe
  imports Complex_Main Prelude
begin

text \<open>
  The probe sequence of the hash table of \<^verbatim>\<open>hashmap/hashmap.c\<close>: the loops of
  \<^verbatim>\<open>hashmap_put\<close>, \<^verbatim>\<open>hashmap_get\<close> and \<^verbatim>\<open>hashmap_delete\<close> all walk the indices
  \<^verbatim>\<open>index = index & (size - 1)\<close>, \<^verbatim>\<open>perturb >>= 5\<close>, \<^verbatim>\<open>index = (index << 2) + index + perturb + 1\<close>.
  For a size that is a power of two the sequence visits every slot of the table, within the 13
  steps after which the perturbation is 0 plus one round of the full-period generator
  \<open>5 * i + 1\<close> (\<open>probe_covers\<close>).
\<close>

unbundle bit_operations_syntax

section \<open>The generator \<open>5 * x + 1\<close> modulo a power of two\<close>

definition geo5 :: "nat \<Rightarrow> nat" where
  "geo5 n = (\<Sum>i<n. 5 ^ i)"

lemma geo5_pow: "5 ^ n = 4 * geo5 n + 1"
  by (induction n) (auto simp: geo5_def)

lemma geo5_parity: "even (geo5 n) \<longleftrightarrow> even n"
  by (induction n) (auto simp: geo5_def)

lemma geo5_double: "geo5 (2 * n) = 2 * (geo5 n * (2 * geo5 n + 1))"
proof -
  have "4 * geo5 (2 * n) + 1 = (4 * geo5 n + 1) * (4 * geo5 n + 1)"
    by (simp only: geo5_pow [symmetric] power_add [symmetric] mult_2)
  then show ?thesis by (simp add: algebra_simps)
qed

lemma pow2_dvd_odd: "2 ^ k dvd a * b \<Longrightarrow> odd b \<Longrightarrow> 2 ^ k dvd (a :: nat)"
  using coprime_dvd_mult_left_iff [of "2 ^ k" b a] by (simp add: coprime_power_left_iff)

lemma geo5_dvd: "2 ^ k dvd geo5 n \<Longrightarrow> 2 ^ k dvd n"
proof (induction k arbitrary: n)
  case 0
  then show ?case by simp
next
  case (Suc k)
  then have "even (geo5 n)" by (auto elim: dvd_trans [rotated])
  then obtain e where n: "n = 2 * e" by (auto simp: geo5_parity)
  with Suc.prems have "2 * 2 ^ k dvd 2 * (geo5 e * (2 * geo5 e + 1))"
    by (simp only: geo5_double power_Suc)
  then have "2 ^ k dvd geo5 e * (2 * geo5 e + 1)"
    by (subst (asm) dvd_times_left_cancel_iff) simp
  then have "2 ^ k dvd geo5 e" by (rule pow2_dvd_odd) simp
  then have "2 ^ k dvd e" by (rule Suc.IH)
  then show ?case by (simp add: n)
qed

definition lcg :: "nat \<Rightarrow> nat \<Rightarrow> nat" where
  "lcg k x = (5 * x + 1) mod 2 ^ k"

lemma lcg_iterate: "(lcg k ^^ n) x mod 2 ^ k = (5 ^ n * x + geo5 n) mod 2 ^ k"
proof (induction n)
  case 0
  then show ?case by (simp add: geo5_def)
next
  case (Suc n)
  have geo: "geo5 (Suc n) = 5 * geo5 n + 1"
    using geo5_pow [of n] by (simp add: geo5_def)
  have "(lcg k ^^ Suc n) x mod 2 ^ k = (5 * ((lcg k ^^ n) x mod 2 ^ k) + 1) mod 2 ^ k"
    by (simp add: lcg_def) (metis mod_Suc_eq mod_mult_right_eq)
  also have "\<dots> = (5 * (5 ^ n * x + geo5 n) + 1) mod 2 ^ k"
    unfolding Suc.IH by (metis mod_add_left_eq mod_mult_right_eq)
  also have "5 * (5 ^ n * x + geo5 n) + 1 = 5 ^ Suc n * x + geo5 (Suc n)"
    by (simp add: geo algebra_simps)
  finally show ?case .
qed

lemma lcg_no_return:
  assumes "(lcg k ^^ d) x = x" and "d < 2 ^ k"
  shows "d = 0"
proof -
  have "(5 ^ d * x + geo5 d) mod 2 ^ k = x mod 2 ^ k"
    using lcg_iterate [where k = k and n = d and x = x] assms(1) by simp
  moreover have "5 ^ d * x + geo5 d = geo5 d * (4 * x + 1) + x"
    by (simp add: geo5_pow algebra_simps)
  ultimately have "(geo5 d * (4 * x + 1) + x) mod 2 ^ k = x mod 2 ^ k" by simp
  then have "2 ^ k dvd geo5 d * (4 * x + 1)"
    by (metis add_diff_cancel_right' le_add2 mod_eq_dvd_iff_nat)
  then have "2 ^ k dvd geo5 d" by (rule pow2_dvd_odd) simp
  then have "2 ^ k dvd d" by (rule geo5_dvd)
  then show ?thesis using assms(2) by (auto dest: dvd_imp_le)
qed

lemma lcg_less: "x < 2 ^ k \<Longrightarrow> (lcg k ^^ n) x < 2 ^ k"
  by (cases n) (auto simp: lcg_def)

lemma lcg_inj: "inj_on (\<lambda>n. (lcg k ^^ n) x) {..<2 ^ k}"
proof (rule linorder_inj_onI')
  fix a b
  assume "a \<in> {..<2 ^ k}" "b \<in> {..<2 ^ k}" "a < (b :: nat)"
  moreover from this have "(lcg k ^^ b) x = (lcg k ^^ (b - a)) ((lcg k ^^ a) x)"
    by (simp flip: comp_apply [of "lcg k ^^ (b - a)"] funpow_add)
  moreover from calculation have "b - a < 2 ^ k" by (auto intro: le_less_trans [of _ b])
  ultimately show "(lcg k ^^ a) x \<noteq> (lcg k ^^ b) x"
    using lcg_no_return [where k = k and d = "b - a" and x = "(lcg k ^^ a) x"] by auto
qed

text \<open>Full period: within \<open>2 ^ k\<close> steps the generator visits every residue.\<close>

lemma lcg_covers:
  assumes "x < 2 ^ k" and "j < 2 ^ k"
  obtains n where "n < 2 ^ k" and "(lcg k ^^ n) x = j"
proof -
  have "(\<lambda>n. (lcg k ^^ n) x) ` {..<2 ^ k} = {..<2 ^ k}"
    using assms(1) by (intro card_subset_eq) (auto simp: lcg_less card_image [OF lcg_inj])
  then have "j \<in> (\<lambda>n. (lcg k ^^ n) x) ` {..<2 ^ k}" using assms(2) by simp
  then show thesis using that by auto
qed

section \<open>The probe sequence\<close>

text \<open>The masked index and the perturbation at the n-th turn of the loop.\<close>

fun probe :: "u64 \<Rightarrow> u64 \<Rightarrow> nat \<Rightarrow> u64 \<times> u64" where
  "probe sz hash 0 = (hash AND (sz - 1), hash)"
| "probe sz hash (Suc n) =
     (let (index, perturb) = probe sz hash n; perturb = drop_bit 5 perturb
      in ((push_bit 2 index + index + perturb + 1) AND (sz - 1), perturb))"

definition slot :: "u64 \<Rightarrow> u64 \<Rightarrow> nat \<Rightarrow> nat" where
  "slot sz hash n = unat (fst (probe sz hash n))"

definition pow2 :: "u64 \<Rightarrow> bool" where
  "pow2 sz \<longleftrightarrow> (\<exists>k < 64. sz = 2 ^ k)"

lemma unat_pow2:
  assumes "k < 64"
  shows "unat (2 ^ k :: u64) = 2 ^ k"
proof -
  have "(2 :: nat) ^ k < 2 ^ 64" using assms by (rule power_strict_increasing) simp
  then have "unat (word_of_nat (2 ^ k) :: u64) = 2 ^ k"
    unfolding unsigned_of_nat of_nat_id by (intro take_bit_nat_eq_self) simp
  then show ?thesis by simp
qed

lemma unat_and_mask: "unat (x AND (2 ^ k - 1) :: u64) = unat x mod 2 ^ k"
  by (simp only: mask_eq_exp_minus_1 [symmetric] take_bit_eq_mask [symmetric]
      unsigned_take_bit_eq take_bit_nat_def)

lemma pow2_pos: "pow2 sz \<Longrightarrow> 0 < unat sz"
  by (auto simp: pow2_def unat_pow2)

lemma pow2_le: "pow2 sz \<Longrightarrow> unat sz \<le> 2 ^ 63"
proof -
  assume "pow2 sz"
  then obtain k where "k \<le> 63" "unat sz = 2 ^ k" by (auto simp: pow2_def unat_pow2)
  then show ?thesis using power_increasing [of k 63 "2 :: nat"] by simp
qed

lemma unat_masked: "pow2 sz \<Longrightarrow> unat (x AND (sz - 1)) = unat x mod unat sz"
  by (auto simp: pow2_def unat_and_mask unat_pow2)

lemma slot_less: "pow2 sz \<Longrightarrow> slot sz hash n < unat sz"
  using pow2_pos by (cases n) (auto simp: slot_def Let_def split_beta unat_masked)

lemma snd_probe: "snd (probe sz hash n) = drop_bit (5 * n) hash"
  by (induction n) (auto simp: Let_def split_beta drop_bit_drop_bit algebra_simps)

lemma perturb_zero: "13 \<le> n \<Longrightarrow> snd (probe sz hash n) = 0"
  by (rule bit_word_eqI) (auto simp: snd_probe bit_drop_bit_eq dest: bit_imp_le_length)

lemma slot_Suc:
  assumes "k < 64" and "13 \<le> n"
  shows "slot (2 ^ k) hash (Suc n) = lcg k (slot (2 ^ k) hash n)"
proof -
  define i where "i = fst (probe (2 ^ k) hash n)"
  have "snd (probe (2 ^ k) hash n) = 0" using assms(2) by (rule perturb_zero)
  then have "slot (2 ^ k) hash (Suc n) = unat ((push_bit 2 i + i + 1) AND (2 ^ k - 1))"
    by (simp add: slot_def Let_def split_beta i_def)
  also have "push_bit 2 i + i + 1 = 5 * i + 1"
    by (simp add: push_bit_eq_mult)
  also have "unat ((5 * i + 1) AND (2 ^ k - 1)) = (5 * unat i + 1) mod 2 ^ 64 mod 2 ^ k"
    by (simp add: unat_and_mask unat_word_ariths mod_simps)
  also have "\<dots> = lcg k (slot (2 ^ k) hash n)"
  proof -
    have "(2 :: nat) ^ k dvd 2 ^ 64" using assms(1) by (intro le_imp_power_dvd) simp
    then show ?thesis by (simp only: lcg_def slot_def i_def mod_mod_cancel)
  qed
  finally show ?thesis .
qed

lemma slot_tail:
  "k < 64 \<Longrightarrow> slot (2 ^ k) hash (13 + n) = (lcg k ^^ n) (slot (2 ^ k) hash 13)"
proof (induction n)
  case (Suc n)
  then show ?case using slot_Suc [of k "13 + n" hash] by simp
qed simp

lemma probe_reaches:
  assumes "pow2 sz" and "j < unat sz"
  obtains n where "n < 13 + unat sz" and "slot sz hash n = j"
proof -
  obtain k where k: "k < 64" "sz = 2 ^ k" using assms(1) by (auto simp: pow2_def)
  then have "slot sz hash 13 < 2 ^ k" "j < 2 ^ k"
    using slot_less [OF assms(1), of hash 13] assms(2) by (auto simp: unat_pow2)
  then obtain n where "n < 2 ^ k" "(lcg k ^^ n) (slot sz hash 13) = j"
    by (rule lcg_covers)
  then show thesis using that [of "13 + n"] slot_tail [of k hash n] k by (simp add: unat_pow2)
qed

section \<open>Loops along the probe sequence\<close>

text \<open>
  A loop that looks at the masked index, returns where \<open>act\<close> says so and otherwise takes the next
  index returns the result of the first slot of the sequence at which \<open>act\<close> is defined.
\<close>

definition next_index :: "u64 \<Rightarrow> u64 \<Rightarrow> u64 \<Rightarrow> u64" where
  "next_index sz index perturb =
     push_bit 2 (index AND (sz - 1)) + (index AND (sz - 1)) + drop_bit 5 perturb + 1"

lemma probe_loop_state:
  assumes step: "\<And>index perturb. F index perturb = (case act (index AND (sz - 1)) of
      Some r \<Rightarrow> Some r | None \<Rightarrow> F (next_index sz index perturb) (drop_bit 5 perturb))"
    and miss: "\<And>m. m < n \<Longrightarrow> act (fst (probe sz hash m)) = None"
  shows "\<exists>index. F hash hash = F index (snd (probe sz hash n)) \<and> index AND (sz - 1) = fst (probe sz hash n)"
  using miss
proof (induction n)
  case 0
  then show ?case by auto
next
  case (Suc n)
  then obtain index where index: "F hash hash = F index (snd (probe sz hash n))"
      "index AND (sz - 1) = fst (probe sz hash n)"
    by auto
  then have "F hash hash = F (next_index sz index (snd (probe sz hash n))) (snd (probe sz hash (Suc n)))"
    using Suc.prems [of n] step [of index "snd (probe sz hash n)"]
    by (simp add: Let_def split_beta)
  moreover have "next_index sz index (snd (probe sz hash n)) AND (sz - 1) = fst (probe sz hash (Suc n))"
    using index(2) by (simp add: next_index_def Let_def split_beta)
  ultimately show ?case by blast
qed

lemma probe_loop:
  assumes "\<And>index perturb. F index perturb = (case act (index AND (sz - 1)) of
      Some r \<Rightarrow> Some r | None \<Rightarrow> F (next_index sz index perturb) (drop_bit 5 perturb))"
    and "\<And>m. m < n \<Longrightarrow> act (fst (probe sz hash m)) = None"
    and "act (fst (probe sz hash n)) = Some r"
  shows "F hash hash = Some r"
proof -
  obtain index where "F hash hash = F index (snd (probe sz hash n))"
      "index AND (sz - 1) = fst (probe sz hash n)"
    using probe_loop_state [where F = F and act = act and sz = sz and n = n and hash = hash,
      OF assms(1,2)] by blast
  then show ?thesis using assms(1) [where index = index and perturb = "snd (probe sz hash n)"] assms(3)
    by simp
qed

section \<open>Properties\<close>

text \<open>
  C24. For a table size that is a power of two, whatever the hash value, the first 13 + size turns
  of the probe loop look at slots of the table only, and together at every slot.
\<close>

theorem probe_covers:
  assumes "pow2 sz"
  shows "slot sz hash ` {..<13 + unat sz} = {..<unat sz}"
proof (intro set_eqI iffI)
  fix i assume "i \<in> slot sz hash ` {..<13 + unat sz}"
  then show "i \<in> {..<unat sz}" using slot_less [OF assms] by auto
next
  fix i assume "i \<in> {..<unat sz}"
  then obtain n where "n < 13 + unat sz" "slot sz hash n = i"
    using probe_reaches [OF assms, of i hash] by auto
  then show "i \<in> slot sz hash ` {..<13 + unat sz}" by auto
qed

theorem probe_covers_witness:
  "slot 8 0x1234567 ` {..<21} = {..<8} \<and> map (slot 8 0x1234567) [0..<6] = [7, 7, 5, 0, 3, 0]"
proof -
  have "pow2 8" unfolding pow2_def by (rule exI [of _ 3]) simp
  then show ?thesis using probe_covers [of 8 "0x1234567"]
    by (simp add: slot_def Let_def upt_rec)
qed

end
