(* ===== verification/Hashmap.thy ===== *)
theory Hashmap
  imports Probe
begin

text \<open>
  The open-addressing hash table of \<^verbatim>\<open>hashmap/hashmap.c\<close>.

  The records \<open>map_entry\<close> and \<open>hashmap\<close> are the structs of the code; a key is the C string its
  pointer leads to (\<open>None\<close> for the null pointer), a value is the pointer the client stored, and
  \<open>isdel\<close> is the deletion mark. A result \<open>None\<close> says that the call never returns, a result
  \<open>Some (Inl Out_Of_Bounds)\<close> that it leaves the table's block, and \<open>Some (Inr r)\<close> that it returns
  \<open>r\<close>. The parameter \<open>mem\<close> tells which requests the allocator serves (by their size in bytes).
\<close>

unbundle bit_operations_syntax

record map_entry =
  ekey :: "cstr option"
  evalue :: ptr
  isdel :: bool

record hashmap =
  hsize :: u64
  huse :: u64
  compare :: "cstr \<Rightarrow> cstr \<Rightarrow> int"
  entrys :: "map_entry list"

datatype fault = Out_Of_Bounds

type_synonym 'a run = "(fault + 'a) option"

section \<open>Hashing and creation\<close>

fun hash_loop :: "u64 \<Rightarrow> u64 \<Rightarrow> cstr \<Rightarrow> u64" where
  "hash_loop x len [] = x XOR len"
| "hash_loop x len (c # str) =
     (if c = 0 then x XOR len
      else hash_loop ((1000003 * x) XOR scast c) (len + 1) str)"

text \<open>The \<^verbatim>\<open>char\<close> of the target is signed, hence the sign extension \<^const>\<open>scast\<close>.\<close>

definition string_hash :: "cstr \<Rightarrow> u64" where
  "string_hash str =
     (let x = push_bit 7 (scast (case str of [] \<Rightarrow> 0 | c # _ \<Rightarrow> c)) in hash_loop x 0 str)"

definition HASHMAP_INIT_SIZE :: u64 where
  "HASHMAP_INIT_SIZE = push_bit 9 1"

definition empty_entry :: map_entry where
  "empty_entry = \<lparr>ekey = None, evalue = NULL, isdel = False\<rparr>"

definition hashmap_new :: "(u64 \<Rightarrow> bool) \<Rightarrow> u64 \<Rightarrow> (cstr \<Rightarrow> cstr \<Rightarrow> int) \<Rightarrow> hashmap option" where
  "hashmap_new mem sz cmp =
     (if \<not> mem 32 then None
      else let sz = (if sz = 0 then HASHMAP_INIT_SIZE else sz) in
        if \<not> mem (sz * 24) then None
        else Some \<lparr>hsize = sz, huse = 0, compare = cmp,
          entrys = replicate (unat (sz * 24) div 24) empty_entry\<rparr>)"

section \<open>The loops over the probe sequence\<close>

text \<open>\<^verbatim>\<open>(entry->key != NULL) && (!map->compare(entry->key, key))\<close>\<close>

definition holds_key :: "hashmap \<Rightarrow> map_entry \<Rightarrow> cstr \<Rightarrow> bool" where
  "holds_key m e key = (case ekey e of None \<Rightarrow> False | Some k \<Rightarrow> compare m k key = 0)"

partial_function (option) put_loop :: "hashmap \<Rightarrow> cstr \<Rightarrow> ptr \<Rightarrow> u64 \<Rightarrow> u64 \<Rightarrow> hashmap run" where
  "put_loop m key v index perturb =
     (let index = index AND (hsize m - 1) in
      case aload (entrys m) (unat index) of
        None \<Rightarrow> Some (Inl Out_Of_Bounds)
      | Some e \<Rightarrow>
          if holds_key m e key then
            Some (Inr (m\<lparr>entrys := (entrys m)[unat index := e\<lparr>evalue := v, isdel := False\<rparr>]\<rparr>))
          else if ekey e = None then
            Some (Inr (m\<lparr>entrys := (entrys m)[unat index :=
                \<lparr>ekey = Some key, evalue = v, isdel = False\<rparr>], huse := huse m + 1\<rparr>))
          else
            let perturb = drop_bit 5 perturb in
            put_loop m key v (push_bit 2 index + index + perturb + 1) perturb)"

partial_function (option) get_loop :: "hashmap \<Rightarrow> cstr \<Rightarrow> u64 \<Rightarrow> u64 \<Rightarrow> ptr run" where
  "get_loop m key index perturb =
     (let index = index AND (hsize m - 1) in
      case aload (entrys m) (unat index) of
        None \<Rightarrow> Some (Inl Out_Of_Bounds)
      | Some e \<Rightarrow>
          if ekey e = None \<and> \<not> isdel e then Some (Inr NULL)
          else if holds_key m e key then Some (Inr (evalue e))
          else
            let perturb = drop_bit 5 perturb in
            get_loop m key (push_bit 2 index + index + perturb + 1) perturb)"

partial_function (option) delete_loop :: "hashmap \<Rightarrow> cstr \<Rightarrow> u64 \<Rightarrow> u64 \<Rightarrow> (hashmap \<times> ptr) run" where
  "delete_loop m key index perturb =
     (let index = index AND (hsize m - 1) in
      case aload (entrys m) (unat index) of
        None \<Rightarrow> Some (Inl Out_Of_Bounds)
      | Some e \<Rightarrow>
          if ekey e = None \<and> isdel e then Some (Inr (m, NULL))
          else if holds_key m e key then
            Some (Inr (m\<lparr>entrys := (entrys m)[unat index := e\<lparr>ekey := None, isdel := True\<rparr>]\<rparr>,
              evalue e))
          else
            let perturb = drop_bit 5 perturb in
            delete_loop m key (push_bit 2 index + index + perturb + 1) perturb)"

definition hashmap_get :: "hashmap option \<Rightarrow> cstr option \<Rightarrow> ptr run" where
  "hashmap_get mp key = (case (mp, key) of
     (Some m, Some k) \<Rightarrow> let hash = string_hash k in get_loop m k hash hash
   | _ \<Rightarrow> Some (Inr NULL))"

definition hashmap_delete :: "hashmap option \<Rightarrow> cstr option \<Rightarrow> (hashmap option \<times> ptr) run" where
  "hashmap_delete mp key = (case (mp, key) of
     (Some m, Some k) \<Rightarrow>
       let hash = string_hash k in
       map_option (map_sum id (map_prod Some id)) (delete_loop m k hash hash)
   | _ \<Rightarrow> Some (Inr (mp, NULL)))"

section \<open>Resizing and insertion\<close>

text \<open>
  \<^verbatim>\<open>hashmap_put\<close> calls \<^verbatim>\<open>_hashmap_resize\<close>, which calls \<^verbatim>\<open>hashmap_put\<close> on the new table. The
  first argument of \<open>put_at\<close> bounds the depth of this recursion (\<open>put_at_depth\<close> below shows that
  the inner calls never resize, so 2 is enough); \<open>resize_loop\<close> walks the slots \<open>i\<close>, \<open>i + 1\<close>, ...
  of the old table while entries remain to be moved.
\<close>

fun resize_loop :: "(hashmap \<Rightarrow> cstr \<Rightarrow> ptr \<Rightarrow> hashmap run) \<Rightarrow> map_entry list \<Rightarrow> nat \<Rightarrow> nat \<Rightarrow> u64 \<Rightarrow>
    hashmap \<Rightarrow> (hashmap \<times> u64) run" where
  "resize_loop put es 0 i olduse newmap = Some (Inr (newmap, olduse))"
| "resize_loop put es (Suc n) i olduse newmap =
     (if olduse > 0 then
        (case aload es i of
           None \<Rightarrow> Some (Inl Out_Of_Bounds)
         | Some e \<Rightarrow>
             (case ekey e of
                None \<Rightarrow> resize_loop put es n (Suc i) olduse newmap
              | Some k \<Rightarrow>
                  (case put newmap k (evalue e) of
                     None \<Rightarrow> None
                   | Some (Inl f) \<Rightarrow> Some (Inl f)
                   | Some (Inr newmap') \<Rightarrow> resize_loop put es n (Suc i) (olduse - 1) newmap')))
      else Some (Inr (newmap, olduse)))"

definition hashmap_resize ::
    "(hashmap \<Rightarrow> cstr \<Rightarrow> ptr \<Rightarrow> hashmap run) \<Rightarrow> (u64 \<Rightarrow> bool) \<Rightarrow> hashmap \<Rightarrow> hashmap run" where
  "hashmap_resize put mem m =
     (let oldsize = hsize m; olduse = huse m; newsize = push_bit 1 oldsize in
      case hashmap_new mem newsize (compare m) of
        None \<Rightarrow> Some (Inr m)
      | Some newmap \<Rightarrow>
          (case resize_loop put (entrys m) (unat oldsize) 0 olduse newmap of
             None \<Rightarrow> None
           | Some (Inl f) \<Rightarrow> Some (Inl f)
           | Some (Inr (newmap', olduse')) \<Rightarrow>
               if olduse' = 0 then Some (Inr (m\<lparr>entrys := entrys newmap', hsize := newsize\<rparr>))
               else Some (Inr m)))"

fun put_at :: "nat \<Rightarrow> (u64 \<Rightarrow> bool) \<Rightarrow> hashmap \<Rightarrow> cstr \<Rightarrow> ptr \<Rightarrow> hashmap run" where
  "put_at 0 mem m key v = None"
| "put_at (Suc d) mem m key v =
     (case (if huse m * 3 \<ge> hsize m * 2 then hashmap_resize (put_at d mem) mem m else Some (Inr m)) of
        None \<Rightarrow> None
      | Some (Inl f) \<Rightarrow> Some (Inl f)
      | Some (Inr m') \<Rightarrow> let hash = string_hash key in put_loop m' key v hash hash)"

definition hashmap_put ::
    "(u64 \<Rightarrow> bool) \<Rightarrow> hashmap option \<Rightarrow> cstr option \<Rightarrow> ptr \<Rightarrow> (hashmap option \<times> int) run" where
  "hashmap_put mem mp key v = (case (mp, key) of
     (Some m, Some k) \<Rightarrow> map_option (map_sum id (\<lambda>m'. (Some m', 1))) (put_at 2 mem m k v)
   | _ \<Rightarrow> Some (Inr (mp, 0)))"

section \<open>Mapping a function over the entries\<close>

text \<open>
  The client's function gets a key and the value and returns the new value; its other effects are
  a change of a state of any type.
\<close>

fun map_loop :: "(cstr \<Rightarrow> ptr \<Rightarrow> 's \<Rightarrow> ptr \<times> 's) \<Rightarrow> nat \<Rightarrow> nat \<Rightarrow> u64 \<Rightarrow> map_entry list \<Rightarrow> 's \<Rightarrow>
    (map_entry list \<times> 's) run" where
  "map_loop f 0 i use es st = Some (Inr (es, st))"
| "map_loop f (Suc n) i use es st =
     (if use > 0 then
        (case aload es i of
           None \<Rightarrow> Some (Inl Out_Of_Bounds)
         | Some e \<Rightarrow>
             (case ekey e of
                None \<Rightarrow> map_loop f n (Suc i) use es st
              | Some k \<Rightarrow>
                  (let (v, st') = f k (evalue e) st in
                   map_loop f n (Suc i) (use - 1) (es[i := e\<lparr>evalue := v\<rparr>]) st')))
      else Some (Inr (es, st)))"

definition hashmap_map ::
    "hashmap option \<Rightarrow> (cstr \<Rightarrow> ptr \<Rightarrow> 's \<Rightarrow> ptr \<times> 's) option \<Rightarrow> 's \<Rightarrow> (hashmap option \<times> 's \<times> int) run" where
  "hashmap_map mp func st = (case (mp, func) of
     (Some m, Some f) \<Rightarrow>
       map_option (map_sum id (\<lambda>(es, st'). (Some (m\<lparr>entrys := es\<rparr>), st', 1)))
         (map_loop f (unat (hsize m)) 0 (huse m) (entrys m) st)
   | _ \<Rightarrow> Some (Inr (mp, st, 0)))"

section \<open>Abstraction and invariant\<close>

abbreviation table_size :: "hashmap \<Rightarrow> nat" where
  "table_size m \<equiv> unat (hsize m)"

text \<open>The slots a key's probe sequence visits, and the contents of a slot.\<close>

definition key_slot :: "hashmap \<Rightarrow> cstr \<Rightarrow> nat \<Rightarrow> nat" where
  "key_slot m key n = slot (hsize m) (string_hash key) n"

definition key_at :: "hashmap \<Rightarrow> nat \<Rightarrow> cstr option" where
  "key_at m i = ekey (entrys m ! i)"

definition tombstone :: "hashmap \<Rightarrow> nat \<Rightarrow> bool" where
  "tombstone m i \<longleftrightarrow> key_at m i = None \<and> isdel (entrys m ! i)"

definition unused :: "hashmap \<Rightarrow> nat \<Rightarrow> bool" where
  "unused m i \<longleftrightarrow> key_at m i = None \<and> \<not> isdel (entrys m ! i)"

text \<open>
  The map a table stands for: a key is bound to the value in the first slot of its probe sequence
  that holds it.
\<close>

definition keys_of :: "hashmap \<Rightarrow> cstr set" where
  "keys_of m = {k. \<exists>i < table_size m. key_at m i = Some k}"

definition first_hit :: "hashmap \<Rightarrow> cstr \<Rightarrow> nat" where
  "first_hit m key = (LEAST n. key_at m (key_slot m key n) = Some key)"

definition lookup :: "hashmap \<Rightarrow> cstr \<rightharpoonup> ptr" where
  "lookup m key =
     (if key \<in> keys_of m then Some (evalue (entrys m ! key_slot m key (first_hit m key))) else None)"

text \<open>
  \<open>hm_shape\<close>: the block has \<^verbatim>\<open>size\<close> entries, the size is a power of two, and the comparison
  decides equality of keys. \<open>hm_inv\<close>: every stored key is reachable, that is, no unused slot lies
  before it on its probe sequence. \<open>clean\<close>: moreover no entry was ever deleted, and no key is
  stored twice.
\<close>

definition hm_shape :: "hashmap \<Rightarrow> bool" where
  "hm_shape m \<longleftrightarrow> pow2 (hsize m) \<and> length (entrys m) = table_size m
     \<and> (\<forall>a b. compare m a b = 0 \<longleftrightarrow> a = b)"

definition reachable :: "hashmap \<Rightarrow> cstr \<Rightarrow> nat \<Rightarrow> bool" where
  "reachable m k i \<longleftrightarrow> (\<exists>n. key_slot m k n = i \<and> (\<forall>n' < n. \<not> unused m (key_slot m k n')))"

definition hm_inv :: "hashmap \<Rightarrow> bool" where
  "hm_inv m \<longleftrightarrow> hm_shape m \<and> (\<forall>i < table_size m. \<forall>k. key_at m i = Some k \<longrightarrow> reachable m k i)"

definition unique_keys :: "hashmap \<Rightarrow> bool" where
  "unique_keys m \<longleftrightarrow> (\<forall>i < table_size m. \<forall>j < table_size m. \<forall>k.
     key_at m i = Some k \<longrightarrow> key_at m j = Some k \<longrightarrow> i = j)"

definition clean :: "hashmap \<Rightarrow> bool" where
  "clean m \<longleftrightarrow> hm_inv m \<and> unique_keys m \<and> (\<forall>i < table_size m. \<not> isdel (entrys m ! i))"

lemma key_slot_less: "hm_shape m \<Longrightarrow> key_slot m k n < table_size m"
  by (simp add: hm_shape_def key_slot_def slot_less)

lemma key_slot_reaches:
  assumes "hm_shape m" and "i < table_size m"
  obtains n where "n < 13 + table_size m" and "key_slot m k n = i"
  using probe_reaches [of "hsize m" i "string_hash k"] assms
  by (auto simp: hm_shape_def key_slot_def)

lemma keys_of_hit:
  assumes "hm_shape m"
  shows "k \<in> keys_of m \<longleftrightarrow> (\<exists>n. key_at m (key_slot m k n) = Some k)"
proof
  assume "k \<in> keys_of m"
  then obtain i where i: "i < table_size m" "key_at m i = Some k" by (auto simp: keys_of_def)
  obtain n where "key_slot m k n = i" using assms i(1) by (rule key_slot_reaches)
  then show "\<exists>n. key_at m (key_slot m k n) = Some k" using i(2) by auto
next
  assume "\<exists>n. key_at m (key_slot m k n) = Some k"
  then show "k \<in> keys_of m" using key_slot_less [OF assms] by (auto simp: keys_of_def)
qed

lemma first_hit_key:
  "hm_shape m \<Longrightarrow> k \<in> keys_of m \<Longrightarrow> key_at m (key_slot m k (first_hit m k)) = Some k"
  unfolding first_hit_def by (rule LeastI_ex) (simp add: keys_of_hit)

lemma first_hit_least: "n < first_hit m k \<Longrightarrow> key_at m (key_slot m k n) \<noteq> Some k"
  unfolding first_hit_def by (rule not_less_Least)

lemma lookup_eqI:
  assumes "hm_shape m" and "key_at m (key_slot m k n) = Some k"
    and "\<And>n'. n' < n \<Longrightarrow> key_at m (key_slot m k n') \<noteq> Some k"
  shows "lookup m k = Some (evalue (entrys m ! key_slot m k n))"
proof -
  have "first_hit m k = n"
    unfolding first_hit_def using assms(2,3) by (intro Least_equality) (auto simp: not_less [symmetric])
  then show ?thesis using assms by (auto simp: lookup_def keys_of_hit)
qed

lemma lookup_None: "lookup m k = None \<longleftrightarrow> k \<notin> keys_of m"
  by (simp add: lookup_def)

lemma dom_lookup: "dom (lookup m) = keys_of m"
  by (auto simp: lookup_def split: if_splits)

lemma holds_key_iff: "hm_shape m \<Longrightarrow> holds_key m (entrys m ! i) k \<longleftrightarrow> key_at m i = Some k"
  by (auto simp: holds_key_def hm_shape_def key_at_def split: option.splits)

section \<open>What the loops do\<close>

definition get_act :: "hashmap \<Rightarrow> cstr \<Rightarrow> u64 \<Rightarrow> (fault + ptr) option" where
  "get_act m key index = (case aload (entrys m) (unat index) of
     None \<Rightarrow> Some (Inl Out_Of_Bounds)
   | Some e \<Rightarrow>
       if ekey e = None \<and> \<not> isdel e then Some (Inr NULL)
       else if holds_key m e key then Some (Inr (evalue e)) else None)"

lemma get_loop_unfold: "get_loop m key index perturb = (case get_act m key (index AND (hsize m - 1)) of
    Some r \<Rightarrow> Some r | None \<Rightarrow> get_loop m key (next_index (hsize m) index perturb) (drop_bit 5 perturb))"
  by (subst get_loop.simps) (auto simp: get_act_def next_index_def Let_def split: option.splits)

definition put_act :: "hashmap \<Rightarrow> cstr \<Rightarrow> ptr \<Rightarrow> u64 \<Rightarrow> (fault + hashmap) option" where
  "put_act m key v index = (case aload (entrys m) (unat index) of
     None \<Rightarrow> Some (Inl Out_Of_Bounds)
   | Some e \<Rightarrow>
       if holds_key m e key then
         Some (Inr (m\<lparr>entrys := (entrys m)[unat index := e\<lparr>evalue := v, isdel := False\<rparr>]\<rparr>))
       else if ekey e = None then
         Some (Inr (m\<lparr>entrys := (entrys m)[unat index :=
             \<lparr>ekey = Some key, evalue = v, isdel = False\<rparr>], huse := huse m + 1\<rparr>))
       else None)"

lemma put_loop_unfold: "put_loop m key v index perturb = (case put_act m key v (index AND (hsize m - 1)) of
    Some r \<Rightarrow> Some r | None \<Rightarrow> put_loop m key v (next_index (hsize m) index perturb) (drop_bit 5 perturb))"
  by (subst put_loop.simps) (auto simp: put_act_def next_index_def Let_def split: option.splits)

definition delete_act :: "hashmap \<Rightarrow> cstr \<Rightarrow> u64 \<Rightarrow> (fault + hashmap \<times> ptr) option" where
  "delete_act m key index = (case aload (entrys m) (unat index) of
     None \<Rightarrow> Some (Inl Out_Of_Bounds)
   | Some e \<Rightarrow>
       if ekey e = None \<and> isdel e then Some (Inr (m, NULL))
       else if holds_key m e key then
         Some (Inr (m\<lparr>entrys := (entrys m)[unat index := e\<lparr>ekey := None, isdel := True\<rparr>]\<rparr>, evalue e))
       else None)"

lemma delete_loop_unfold: "delete_loop m key index perturb = (case delete_act m key (index AND (hsize m - 1)) of
    Some r \<Rightarrow> Some r | None \<Rightarrow> delete_loop m key (next_index (hsize m) index perturb) (drop_bit 5 perturb))"
  by (subst delete_loop.simps) (auto simp: delete_act_def next_index_def Let_def split: option.splits)

lemma entry_load: "hm_shape m \<Longrightarrow>
    aload (entrys m) (unat (fst (probe (hsize m) (string_hash k) n))) = Some (entrys m ! key_slot m k n)"
  using key_slot_less [of m k n] by (simp add: hm_shape_def key_slot_def slot_def)

lemma get_act_slot: "hm_shape m \<Longrightarrow> get_act m k (fst (probe (hsize m) (string_hash k) n)) =
    (if unused m (key_slot m k n) then Some (Inr NULL)
     else if key_at m (key_slot m k n) = Some k then Some (Inr (evalue (entrys m ! key_slot m k n)))
     else None)"
  by (simp add: get_act_def entry_load holds_key_iff) (auto simp: unused_def key_at_def)

lemma put_act_slot: "hm_shape m \<Longrightarrow> put_act m k v (fst (probe (hsize m) (string_hash k) n)) =
    (let i = key_slot m k n; e = entrys m ! i in
     if key_at m i = Some k then
       Some (Inr (m\<lparr>entrys := (entrys m)[i := e\<lparr>evalue := v, isdel := False\<rparr>]\<rparr>))
     else if key_at m i = None then
       Some (Inr (m\<lparr>entrys := (entrys m)[i := \<lparr>ekey = Some k, evalue = v, isdel = False\<rparr>],
         huse := huse m + 1\<rparr>))
     else None)"
  by (simp add: put_act_def entry_load holds_key_iff Let_def)
    (simp add: key_at_def key_slot_def slot_def)

lemma delete_act_slot: "hm_shape m \<Longrightarrow> delete_act m k (fst (probe (hsize m) (string_hash k) n)) =
    (let i = key_slot m k n; e = entrys m ! i in
     if tombstone m i then Some (Inr (m, NULL))
     else if key_at m i = Some k then
       Some (Inr (m\<lparr>entrys := (entrys m)[i := e\<lparr>ekey := None, isdel := True\<rparr>]\<rparr>, evalue e))
     else None)"
  by (simp add: delete_act_def entry_load holds_key_iff Let_def)
    (simp add: tombstone_def key_at_def key_slot_def slot_def)

lemma get_loop_result:
  assumes "hm_shape m"
    and "\<And>n'. n' < n \<Longrightarrow> \<not> unused m (key_slot m k n') \<and> key_at m (key_slot m k n') \<noteq> Some k"
    and "unused m (key_slot m k n) \<or> key_at m (key_slot m k n) = Some k"
  shows "get_loop m k (string_hash k) (string_hash k) =
    Some (Inr (if unused m (key_slot m k n) then NULL else evalue (entrys m ! key_slot m k n)))"
  by (rule probe_loop [where F = "get_loop m k" and act = "get_act m k" and n = n, OF get_loop_unfold])
    (use assms in \<open>auto simp: get_act_slot\<close>)

lemma put_loop_result:
  assumes "hm_shape m"
    and "\<And>n'. n' < n \<Longrightarrow> key_at m (key_slot m k n') \<noteq> None \<and> key_at m (key_slot m k n') \<noteq> Some k"
    and "key_at m (key_slot m k n) = None \<or> key_at m (key_slot m k n) = Some k"
  defines "i \<equiv> key_slot m k n"
  shows "put_loop m k v (string_hash k) (string_hash k) = Some (Inr
    (if key_at m i = Some k
     then m\<lparr>entrys := (entrys m)[i := (entrys m ! i)\<lparr>evalue := v, isdel := False\<rparr>]\<rparr>
     else m\<lparr>entrys := (entrys m)[i := \<lparr>ekey = Some k, evalue = v, isdel = False\<rparr>],
       huse := huse m + 1\<rparr>))"
  by (rule probe_loop [where F = "put_loop m k v" and act = "put_act m k v" and n = n, OF put_loop_unfold])
    (use assms in \<open>auto simp: put_act_slot Let_def\<close>)

lemma delete_loop_result:
  assumes "hm_shape m"
    and "\<And>n'. n' < n \<Longrightarrow> \<not> tombstone m (key_slot m k n') \<and> key_at m (key_slot m k n') \<noteq> Some k"
    and "tombstone m (key_slot m k n) \<or> key_at m (key_slot m k n) = Some k"
  defines "i \<equiv> key_slot m k n"
  shows "delete_loop m k (string_hash k) (string_hash k) = Some (Inr
    (if tombstone m i then (m, NULL)
     else (m\<lparr>entrys := (entrys m)[i := (entrys m ! i)\<lparr>ekey := None, isdel := True\<rparr>]\<rparr>,
       evalue (entrys m ! i))))"
  by (rule probe_loop [where F = "delete_loop m k" and act = "delete_act m k" and n = n,
        OF delete_loop_unfold])
    (use assms in \<open>auto simp: delete_act_slot Let_def\<close>)

lemma masked_entry:
  assumes "hm_shape m"
  shows "unat (x AND (hsize m - 1)) < table_size m"
    and "aload (entrys m) (unat (x AND (hsize m - 1))) = Some (entrys m ! unat (x AND (hsize m - 1)))"
  using assms pow2_pos by (auto simp: hm_shape_def unat_masked)

text \<open>A loop whose action is undefined at every slot never returns.\<close>

lemma delete_loop_returns:
  assumes ret: "delete_loop m k index perturb = Some r"
  shows "hm_shape m \<longrightarrow> (\<exists>i < table_size m. tombstone m i \<or> key_at m i = Some k)"
proof (rule delete_loop.raw_induct [where P = "\<lambda>m k index perturb r. hm_shape m \<longrightarrow>
      (\<exists>i < table_size m. tombstone m i \<or> key_at m i = Some k)", OF _ ret], rule impI)
  fix f m k index perturb r
  assume IH: "\<And>m k index perturb r. f m k index perturb = Some r \<Longrightarrow> hm_shape m \<longrightarrow>
      (\<exists>i < table_size m. tombstone m i \<or> key_at m i = Some k)"
    and body: "(let index = index AND (hsize m - 1) in case aload (entrys m) (unat index) of
        None \<Rightarrow> Some (Inl Out_Of_Bounds)
      | Some e \<Rightarrow>
          if ekey e = None \<and> isdel e then Some (Inr (m, NULL))
          else if holds_key m e k then
            Some (Inr (m\<lparr>entrys := (entrys m)[unat index := e\<lparr>ekey := None, isdel := True\<rparr>]\<rparr>, evalue e))
          else let perturb = drop_bit 5 perturb in
            f m k (push_bit 2 index + index + perturb + 1) perturb) = Some r"
    and shape: "hm_shape m"
  let ?i = "unat (index AND (hsize m - 1))"
  note i = masked_entry [OF shape, of index]
  then have "tombstone m ?i \<or> key_at m ?i = Some k \<or> (\<exists>j p. f m k j p = Some r)"
    using body i holds_key_iff [OF shape, of ?i k]
    by (auto simp: Let_def tombstone_def key_at_def split: if_splits)
  then show "\<exists>i < table_size m. tombstone m i \<or> key_at m i = Some k" using i IH shape by blast
qed

lemma get_loop_returns:
  assumes ret: "get_loop m k index perturb = Some r"
  shows "hm_shape m \<longrightarrow> (\<exists>i < table_size m. unused m i \<or> key_at m i = Some k)"
proof (rule get_loop.raw_induct [where P = "\<lambda>m k index perturb r. hm_shape m \<longrightarrow>
      (\<exists>i < table_size m. unused m i \<or> key_at m i = Some k)", OF _ ret], rule impI)
  fix f m k index perturb r
  assume IH: "\<And>m k index perturb r. f m k index perturb = Some r \<Longrightarrow> hm_shape m \<longrightarrow>
      (\<exists>i < table_size m. unused m i \<or> key_at m i = Some k)"
    and body: "(let index = index AND (hsize m - 1) in case aload (entrys m) (unat index) of
        None \<Rightarrow> Some (Inl Out_Of_Bounds)
      | Some e \<Rightarrow>
          if ekey e = None \<and> \<not> isdel e then Some (Inr NULL)
          else if holds_key m e k then Some (Inr (evalue e))
          else let perturb = drop_bit 5 perturb in
            f m k (push_bit 2 index + index + perturb + 1) perturb) = Some r"
    and shape: "hm_shape m"
  let ?i = "unat (index AND (hsize m - 1))"
  note i = masked_entry [OF shape, of index]
  then have "unused m ?i \<or> key_at m ?i = Some k \<or> (\<exists>j p. f m k j p = Some r)"
    using body i holds_key_iff [OF shape, of ?i k]
    by (auto simp: Let_def unused_def key_at_def split: if_splits)
  then show "\<exists>i < table_size m. unused m i \<or> key_at m i = Some k" using i IH shape by blast
qed

lemma put_loop_returns:
  assumes ret: "put_loop m k v index perturb = Some r"
  shows "hm_shape m \<longrightarrow> (\<exists>i < table_size m. key_at m i = None \<or> key_at m i = Some k)"
proof (rule put_loop.raw_induct [where P = "\<lambda>m k v index perturb r. hm_shape m \<longrightarrow>
      (\<exists>i < table_size m. key_at m i = None \<or> key_at m i = Some k)", OF _ ret], rule impI)
  fix f m k v index perturb r
  assume IH: "\<And>m k v index perturb r. f m k v index perturb = Some r \<Longrightarrow> hm_shape m \<longrightarrow>
      (\<exists>i < table_size m. key_at m i = None \<or> key_at m i = Some k)"
    and body: "(let index = index AND (hsize m - 1) in case aload (entrys m) (unat index) of
        None \<Rightarrow> Some (Inl Out_Of_Bounds)
      | Some e \<Rightarrow>
          if holds_key m e k then
            Some (Inr (m\<lparr>entrys := (entrys m)[unat index := e\<lparr>evalue := v, isdel := False\<rparr>]\<rparr>))
          else if ekey e = None then
            Some (Inr (m\<lparr>entrys := (entrys m)[unat index :=
                \<lparr>ekey = Some k, evalue = v, isdel = False\<rparr>], huse := huse m + 1\<rparr>))
          else let perturb = drop_bit 5 perturb in
            f m k v (push_bit 2 index + index + perturb + 1) perturb) = Some r"
    and shape: "hm_shape m"
  let ?i = "unat (index AND (hsize m - 1))"
  note i = masked_entry [OF shape, of index]
  then have "key_at m ?i = None \<or> key_at m ?i = Some k \<or> (\<exists>j p. f m k v j p = Some r)"
    using body i holds_key_iff [OF shape, of ?i k]
    by (auto simp: Let_def key_at_def split: if_splits)
  then show "\<exists>i < table_size m. key_at m i = None \<or> key_at m i = Some k" using i IH shape by blast
qed

section \<open>Lookup\<close>

lemma get_loop_lookup:
  assumes inv: "hm_inv m" and ends: "k \<in> keys_of m \<or> (\<exists>i < table_size m. unused m i)"
  shows "get_loop m k (string_hash k) (string_hash k) =
    Some (Inr (case lookup m k of None \<Rightarrow> NULL | Some v \<Rightarrow> v))"
proof (cases "k \<in> keys_of m")
  case True
  have shape: "hm_shape m" using inv by (simp add: hm_inv_def)
  let ?n = "first_hit m k"
  have hit: "key_at m (key_slot m k ?n) = Some k" using first_hit_key [OF shape True] .
  then have "reachable m k (key_slot m k ?n)"
    using inv key_slot_less [OF shape] by (simp add: hm_inv_def)
  then obtain n0 where n0: "key_slot m k n0 = key_slot m k ?n"
      "\<forall>n' < n0. \<not> unused m (key_slot m k n')"
    unfolding reachable_def by blast
  have "\<not> n0 < ?n" using n0(1) hit first_hit_least [of n0 m k] by auto
  then have "\<not> unused m (key_slot m k n') \<and> key_at m (key_slot m k n') \<noteq> Some k" if "n' < ?n" for n'
    using that n0(2) first_hit_least [of n' m k] by auto
  then show ?thesis
    using get_loop_result [OF shape, of ?n k] hit True by (simp add: unused_def lookup_def)
next
  case False
  have shape: "hm_shape m" using inv by (simp add: hm_inv_def)
  obtain i where i: "i < table_size m" "unused m i" using ends False by auto
  obtain n where n: "key_slot m k n = i" using shape i(1) by (rule key_slot_reaches)
  define l where "l = (LEAST n. unused m (key_slot m k n))"
  have "\<exists>n. unused m (key_slot m k n)" using n i(2) by auto
  then have l: "unused m (key_slot m k l)" unfolding l_def by (rule LeastI_ex)
  have "\<not> unused m (key_slot m k n') \<and> key_at m (key_slot m k n') \<noteq> Some k" if "n' < l" for n'
    using that not_less_Least [of n' "\<lambda>n. unused m (key_slot m k n)"] False
    by (auto simp: l_def keys_of_hit [OF shape])
  then show ?thesis using get_loop_result [OF shape, of l k] l False by (simp add: lookup_def)
qed

section \<open>Writing an entry\<close>

definition put_entry :: "hashmap \<Rightarrow> nat \<Rightarrow> map_entry \<Rightarrow> u64 \<Rightarrow> hashmap" where
  "put_entry m i e u = m\<lparr>entrys := (entrys m)[i := e], huse := u\<rparr>"

lemma put_entry_simps [simp]:
  "hsize (put_entry m i e u) = hsize m" "huse (put_entry m i e u) = u"
  "compare (put_entry m i e u) = compare m" "key_slot (put_entry m i e u) k n = key_slot m k n"
  "hm_shape (put_entry m i e u) = hm_shape m"
  by (simp_all add: put_entry_def key_slot_def hm_shape_def)

lemma put_entry_nth:
  "hm_shape m \<Longrightarrow> i < table_size m \<Longrightarrow>
    entrys (put_entry m i e u) ! j = (if j = i then e else entrys m ! j)"
  by (simp add: put_entry_def hm_shape_def)

lemma put_entry_at:
  "hm_shape m \<Longrightarrow> i < table_size m \<Longrightarrow>
    key_at (put_entry m i e u) j = (if j = i then ekey e else key_at m j)"
  "hm_shape m \<Longrightarrow> i < table_size m \<Longrightarrow>
    unused (put_entry m i e u) j = (if j = i then ekey e = None \<and> \<not> isdel e else unused m j)"
  "hm_shape m \<Longrightarrow> i < table_size m \<Longrightarrow>
    tombstone (put_entry m i e u) j = (if j = i then ekey e = None \<and> isdel e else tombstone m j)"
  by (auto simp: key_at_def unused_def tombstone_def put_entry_nth)

text \<open>A key that neither the old nor the new entry holds keeps its binding.\<close>

lemma put_entry_lookup_other:
  assumes "hm_shape m" and "i < table_size m" and "key_at m i \<noteq> Some k" and "ekey e \<noteq> Some k"
  shows "lookup (put_entry m i e u) k = lookup m k"
proof -
  let ?m = "put_entry m i e u"
  have hits: "key_at ?m (key_slot m k n) = Some k \<longleftrightarrow> key_at m (key_slot m k n) = Some k" for n
    using assms by (auto simp: put_entry_at)
  then have keys: "k \<in> keys_of ?m \<longleftrightarrow> k \<in> keys_of m"
    using assms(1) by (simp add: keys_of_hit)
  have first: "first_hit ?m k = first_hit m k" by (simp add: first_hit_def hits)
  have "key_slot m k (first_hit m k) \<noteq> i" if "k \<in> keys_of m"
    using first_hit_key [OF assms(1) that] assms(3) by auto
  then show ?thesis using assms(1,2) keys first by (simp add: lookup_def put_entry_nth)
qed

text \<open>Filling or marking a slot never makes another entry unreachable.\<close>

lemma put_entry_reachable:
  assumes "hm_shape m" and "i < table_size m" and "ekey e \<noteq> None \<or> isdel e" and "reachable m k j"
  shows "reachable (put_entry m i e u) k j"
  using assms unfolding reachable_def by (fastforce simp: put_entry_at)

section \<open>Insertion into a table with room\<close>

lemma put_loop_ok:
  assumes inv: "hm_inv m"
    and room: "\<exists>i < table_size m. key_at m i = None \<or> key_at m i = Some k"
  obtains m' i e n where "put_loop m k v (string_hash k) (string_hash k) = Some (Inr m')"
    and "m' = put_entry m i e (if key_at m i = Some k then huse m else huse m + 1)"
    and "i < table_size m" and "ekey e = Some k" and "evalue e = v" and "\<not> isdel e"
    and "key_at m i = None \<or> key_at m i = Some k" and "i = key_slot m k n"
    and "\<And>n'. n' < n \<Longrightarrow> key_at m (key_slot m k n') \<noteq> None \<and> key_at m (key_slot m k n') \<noteq> Some k"
proof -
  have shape: "hm_shape m" using inv by (simp add: hm_inv_def)
  let ?P = "\<lambda>n. key_at m (key_slot m k n) = None \<or> key_at m (key_slot m k n) = Some k"
  obtain j where "j < table_size m" "key_at m j = None \<or> key_at m j = Some k" using room by auto
  then obtain n0 where "?P n0" using key_slot_reaches [OF shape, of j k] by metis
  define n where "n = (LEAST n. ?P n)"
  have n: "?P n" unfolding n_def using \<open>?P n0\<close> by (rule LeastI)
  have before: "key_at m (key_slot m k n') \<noteq> None \<and> key_at m (key_slot m k n') \<noteq> Some k"
    if "n' < n" for n'
    using not_less_Least [of n' ?P] that by (auto simp: n_def)
  let ?i = "key_slot m k n"
  define e where "e = (if key_at m ?i = Some k then (entrys m ! ?i)\<lparr>evalue := v, isdel := False\<rparr>
    else \<lparr>ekey = Some k, evalue = v, isdel = False\<rparr>)"
  let ?m = "put_entry m ?i e (if key_at m ?i = Some k then huse m else huse m + 1)"
  have "put_loop m k v (string_hash k) (string_hash k) = Some (Inr ?m)"
    using put_loop_result [OF shape before n, of v] by (simp add: put_entry_def e_def)
  moreover have "ekey e = Some k" "evalue e = v" "\<not> isdel e"
    by (auto simp: e_def key_at_def)
  ultimately show thesis using that n before key_slot_less [OF shape] by blast
qed

lemma put_entry_put:
  assumes inv: "hm_inv m" and i: "i < table_size m" "i = key_slot m k n"
    and e: "ekey e = Some k" "evalue e = v" "\<not> isdel e"
    and old: "key_at m i = None \<or> key_at m i = Some k"
    and before: "\<And>n'. n' < n \<Longrightarrow> key_at m (key_slot m k n') \<noteq> None \<and> key_at m (key_slot m k n') \<noteq> Some k"
  shows "hm_inv (put_entry m i e u)" and "lookup (put_entry m i e u) = (lookup m)(k \<mapsto> v)"
proof -
  let ?m = "put_entry m i e u"
  have shape: "hm_shape m" using inv by (simp add: hm_inv_def)
  note at = put_entry_at [OF shape i(1)] put_entry_nth [OF shape i(1)]
  have "reachable ?m k' j" if "j < table_size m" "key_at ?m j = Some k'" for j k'
  proof (cases "j = i")
    case True
    then have "k' = k" using that e(1) by (simp add: at)
    moreover have "\<not> unused ?m (key_slot m k n')" if "n' < n" for n'
      using before [OF that] e(1) by (auto simp: at unused_def)
    ultimately show ?thesis using True i(2) unfolding reachable_def by auto
  next
    case False
    then have "reachable m k' j" using that inv by (simp add: at hm_inv_def)
    then show ?thesis using shape i(1) e(1) by (intro put_entry_reachable) auto
  qed
  then show "hm_inv ?m" using shape by (simp add: hm_inv_def)
  have "lookup ?m k = Some v"
  proof -
    have "key_at ?m (key_slot m k n') \<noteq> Some k" if "n' < n" for n'
      using before [OF that] old by (auto simp: at simp flip: i(2))
    then show ?thesis using lookup_eqI [of ?m k n] shape e by (simp add: at flip: i(2))
  qed
  moreover have "lookup ?m k' = lookup m k'" if "k' \<noteq> k" for k'
    using that old e(1) shape i(1) by (intro put_entry_lookup_other) auto
  ultimately show "lookup ?m = (lookup m)(k \<mapsto> v)" by auto
qed

section \<open>Tables without deletions\<close>

text \<open>\<open>counted\<close>: a clean table whose \<^verbatim>\<open>use\<close> field is the number of its keys.\<close>

definition counted :: "hashmap \<Rightarrow> bool" where
  "counted m \<longleftrightarrow> clean m \<and> unat (huse m) = card (keys_of m)"

lemma clean_shape: "clean m \<Longrightarrow> hm_shape m"
  by (simp add: clean_def hm_inv_def)

lemma clean_unused: "clean m \<Longrightarrow> i < table_size m \<Longrightarrow> unused m i \<longleftrightarrow> key_at m i = None"
  by (auto simp: clean_def unused_def)

lemma clean_tombstone: "clean m \<Longrightarrow> i < table_size m \<Longrightarrow> \<not> tombstone m i"
  by (auto simp: clean_def tombstone_def)

lemma keys_of_image: "keys_of m = (\<lambda>i. the (key_at m i)) ` {i. i < table_size m \<and> key_at m i \<noteq> None}"
  by (force simp: keys_of_def)

lemma finite_keys [simp]: "finite (keys_of m)"
  by (simp add: keys_of_image)

lemma card_keys_occupied:
  "unique_keys m \<Longrightarrow> card (keys_of m) = card {i. i < table_size m \<and> key_at m i \<noteq> None}"
  unfolding keys_of_image by (rule card_image) (fastforce simp: inj_on_def unique_keys_def)

lemma card_keys_le: "card (keys_of m) \<le> table_size m"
proof -
  have "card {i. i < table_size m \<and> key_at m i \<noteq> None} \<le> card {..<table_size m}"
    by (rule card_mono) auto
  moreover have "card (keys_of m) \<le> card {i. i < table_size m \<and> key_at m i \<noteq> None}"
    unfolding keys_of_image by (rule card_image_le) simp
  ultimately show ?thesis by simp
qed

lemma clean_room:
  assumes "clean m" and "card (keys_of m) < table_size m"
  obtains i where "i < table_size m" and "unused m i"
proof -
  let ?O = "{i. i < table_size m \<and> key_at m i \<noteq> None}"
  have "unique_keys m" using assms(1) by (simp add: clean_def)
  then have "card ?O \<noteq> card {..<table_size m}"
    using assms(2) card_keys_occupied [of m] by simp
  then have "?O \<noteq> {..<table_size m}" by metis
  then obtain i where "i < table_size m" "key_at m i = None" by blast
  then show thesis using that clean_unused [OF assms(1)] by metis
qed

lemma unique_keysD:
  assumes "unique_keys m" and "i < table_size m" and "key_at m i = Some k"
    and "j < table_size m" and "key_at m j = Some k"
  shows "i = j"
  using assms unfolding unique_keys_def by blast

lemma lookup_unique:
  assumes "hm_shape m" and "unique_keys m" and "i < table_size m" and "key_at m i = Some k"
  shows "lookup m k = Some (evalue (entrys m ! i))"
proof -
  have k: "k \<in> keys_of m" using assms(3,4) by (auto simp: keys_of_def)
  have "key_slot m k (first_hit m k) = i"
    by (rule unique_keysD [OF assms(2) key_slot_less [OF assms(1)] first_hit_key [OF assms(1) k] assms(3,4)])
  then show ?thesis using k by (simp add: lookup_def)
qed

lemma keys_of_put: "lookup m' = (lookup m)(k \<mapsto> v) \<Longrightarrow> keys_of m' = insert k (keys_of m)"
  by (metis dom_lookup dom_fun_upd option.distinct(1))

lemma put_loop_counted:
  assumes m: "counted m" and room: "k \<in> keys_of m \<or> card (keys_of m) < table_size m"
  obtains m' where "put_loop m k v (string_hash k) (string_hash k) = Some (Inr m')"
    and "counted m'" and "lookup m' = (lookup m)(k \<mapsto> v)"
    and "hsize m' = hsize m" and "compare m' = compare m"
proof -
  have cl: "clean m" and inv: "hm_inv m" and uniq: "unique_keys m"
    and no_del: "\<And>i. i < table_size m \<Longrightarrow> \<not> isdel (entrys m ! i)"
    and use: "unat (huse m) = card (keys_of m)"
    using m by (auto simp: counted_def clean_def)
  note shape = clean_shape [OF cl]
  have "\<exists>i < table_size m. key_at m i = None \<or> key_at m i = Some k"
    using room clean_room [OF cl] by (auto simp: keys_of_def unused_def)
  then obtain m' i e n where put: "put_loop m k v (string_hash k) (string_hash k) = Some (Inr m')"
    and m': "m' = put_entry m i e (if key_at m i = Some k then huse m else huse m + 1)"
    and i: "i < table_size m" and e: "ekey e = Some k" "evalue e = v" "\<not> isdel e"
    and old: "key_at m i = None \<or> key_at m i = Some k" and n: "i = key_slot m k n"
    and before: "\<And>n'. n' < n \<Longrightarrow> key_at m (key_slot m k n') \<noteq> None \<and> key_at m (key_slot m k n') \<noteq> Some k"
    using put_loop_ok [OF inv] by blast
  note put_entry_put [OF inv i n e old before]
  then have inv': "hm_inv m'" and look: "lookup m' = (lookup m)(k \<mapsto> v)" unfolding m' by blast+
  note at = put_entry_at [OF shape i] put_entry_nth [OF shape i]
  \<comment> \<open>A free slot is taken only when the key is nowhere in the table.\<close>
  have taken: "j = i" if "j < table_size m" "key_at m j = Some k" for j
  proof (rule ccontr)
    assume "j \<noteq> i"
    then have free: "key_at m i = None" using old that i uniq by (auto dest: unique_keysD)
    have "reachable m k j" using inv that by (simp add: hm_inv_def)
    then obtain n0 where n0: "key_slot m k n0 = j" "\<forall>n' < n0. \<not> unused m (key_slot m k n')"
      unfolding reachable_def by blast
    have "\<not> n0 < n" using before [of n0] n0(1) that by auto
    moreover have "n0 \<noteq> n" using n0(1) n \<open>j \<noteq> i\<close> by auto
    ultimately have "\<not> unused m i" using n0(2) n by auto
    then show False using free clean_unused [OF cl i] by simp
  qed
  have "i1 = i2" if "i1 < table_size m'" "i2 < table_size m'" "key_at m' i1 = Some k'"
      "key_at m' i2 = Some k'" for i1 i2 k'
  proof (cases "k' = k")
    case True
    then show ?thesis using that taken by (metis at(1) m' put_entry_simps(1))
  next
    case False
    then have "i1 \<noteq> i" "i2 \<noteq> i" using that(3,4) e(1) by (auto simp: m' at)
    then show ?thesis using unique_keysD [OF uniq, of i1 k' i2] that by (simp add: m' at)
  qed
  then have "unique_keys m'" by (simp add: unique_keys_def)
  moreover have "\<not> isdel (entrys m' ! j)" if "j < table_size m'" for j
    using that no_del e(3) by (simp add: m' at)
  ultimately have "clean m'" using inv' by (simp add: clean_def)
  moreover have "unat (huse m') = card (keys_of m')"
  proof (cases "k \<in> keys_of m")
    case True
    then have "key_at m i = Some k" using taken by (auto simp: keys_of_def)
    then show ?thesis using True use keys_of_put [OF look] by (simp add: m' insert_absorb)
  next
    case False
    then have "key_at m i \<noteq> Some k" using i by (auto simp: keys_of_def)
    moreover have "unat (huse m) + 1 < 2 ^ 64"
    proof -
      have "unat (hsize m) \<le> 2 ^ 63" using shape pow2_le [of "hsize m"] by (simp add: hm_shape_def)
      then show ?thesis using use card_keys_le [of m] by simp
    qed
    ultimately show ?thesis using False use keys_of_put [OF look]
      by (simp add: m' unat_add_no_wrap)
  qed
  ultimately have "counted m'" by (simp add: counted_def)
  then show thesis using that [OF put _ look] by (simp add: m')
qed

end
