(* ===== verification/Dict.thy ===== *)
theory Dict
  imports Prelude
begin

text \<open>
  The contract of a dictionary: what the hash table of \<^verbatim>\<open>hashmap/hashmap.c\<close> and the skip list of
  \<^verbatim>\<open>skiplist/skiplist.c\<close> promise to a client that fills them and asks for keys, as their test and
  demo programs do with a word list. \<open>limit\<close> bounds the number of keys up to which the laws hold.
\<close>

fun put_all :: "('s \<Rightarrow> 'k \<Rightarrow> ptr \<Rightarrow> 's option) \<Rightarrow> 's \<Rightarrow> ('k \<times> ptr) list \<Rightarrow> 's option" where
  "put_all put s [] = Some s"
| "put_all put s ((k, v) # kvs) = do { s' \<leftarrow> put s k v; put_all put s' kvs }"

locale dict =
  fixes invar :: "'s \<Rightarrow> bool"
    and binding :: "'s \<Rightarrow> 'k \<rightharpoonup> ptr"
    and put :: "'s \<Rightarrow> 'k \<Rightarrow> ptr \<Rightarrow> 's option"
    and get :: "'s \<Rightarrow> 'k \<Rightarrow> ptr option"
    and limit :: nat
  assumes put_law: "invar s \<Longrightarrow> v \<noteq> NULL \<Longrightarrow> card (dom (binding s)) < limit \<Longrightarrow>
      \<exists>s'. put s k v = Some s' \<and> invar s' \<and> binding s' = (binding s)(k \<mapsto> v)"
    and get_law: "invar s \<Longrightarrow> get s k = Some (case binding s k of None \<Rightarrow> NULL | Some v \<Rightarrow> v)"
    and finite_law: "invar s \<Longrightarrow> finite (dom (binding s))"
begin

text \<open>The last value put under a key is the one found; keys that were not put are as before.\<close>

lemma put_all_binding:
  assumes "invar s" and "card (dom (binding s)) + length kvs \<le> limit"
    and "\<forall>(k, v) \<in> set kvs. v \<noteq> NULL"
  shows "\<exists>s'. put_all put s kvs = Some s' \<and> invar s' \<and> binding s' = binding s ++ map_of (rev kvs)"
  using assms
proof (induction kvs arbitrary: s)
  case Nil
  then show ?case by simp
next
  case (Cons kv kvs)
  obtain k v where kv: "kv = (k, v)" by (cases kv)
  obtain s1 where s1: "put s k v = Some s1" "invar s1" "binding s1 = (binding s)(k \<mapsto> v)"
    using put_law [of s v k] Cons.prems kv by auto
  have "card (dom (binding s1)) \<le> Suc (card (dom (binding s)))"
    using finite_law [OF Cons.prems(1)] by (simp add: s1(3) card_insert_if)
  then obtain s' where "put_all put s1 kvs = Some s'" "invar s'"
      "binding s' = binding s1 ++ map_of (rev kvs)"
    using Cons.IH [OF s1(2)] Cons.prems(2,3) by auto
  then show ?case using s1 by (simp add: kv map_add_upd_left map_add_assoc [symmetric])
qed

lemma get_after_put_all:
  assumes "invar s" and "card (dom (binding s)) + length kvs \<le> limit"
    and "\<forall>(k, v) \<in> set kvs. v \<noteq> NULL"
  shows "\<exists>s'. put_all put s kvs = Some s'
    \<and> (\<forall>k. get s' k = Some (case (binding s ++ map_of (rev kvs)) k of None \<Rightarrow> NULL | Some v \<Rightarrow> v))"
proof -
  obtain s' where "put_all put s kvs = Some s'" "invar s'" "binding s' = binding s ++ map_of (rev kvs)"
    using put_all_binding [OF assms] by blast
  then show ?thesis using get_law [of s'] by simp
qed

end

end
