(* ===== verification/Hashmap_Growth.thy ===== *)
theory Hashmap_Growth
  imports Hashmap Dict
begin

text \<open>
  How the table of \<^verbatim>\<open>hashmap/hashmap.c\<close> behaves over its life: creation, insertion with the
  resize step, deletion and mapping. The theory shows that the table is a dictionary as long as
  nothing is deleted, and what a deletion changes.
\<close>

section \<open>Creation\<close>

text \<open>The sizes whose byte count, and that of the doubled table, do not wrap.\<close>

definition small_table :: "hashmap \<Rightarrow> bool" where
  "small_table m \<longleftrightarrow> table_size m * 48 < 2 ^ 64"

lemma empty_table:
  assumes "pow2 sz" and "\<forall>a b. cmp a b = 0 \<longleftrightarrow> a = b"
  defines "m \<equiv> \<lparr>hsize = sz, huse = 0, compare = cmp, entrys = replicate (unat sz) empty_entry\<rparr>"
  shows "counted m" and "lookup m = Map.empty"
proof -
  have none: "key_at m i = None" "\<not> isdel (entrys m ! i)" if "i < table_size m" for i
    using that by (simp_all add: m_def key_at_def empty_entry_def)
  then have keys: "keys_of m = {}" by (auto simp: keys_of_def)
  then show "lookup m = Map.empty" by (auto simp: lookup_def)
  have "hm_shape m" using assms(1,2) by (simp add: hm_shape_def m_def)
  then show "counted m" using none keys
    by (auto simp: counted_def clean_def hm_inv_def unique_keys_def m_def)
qed

lemma hashmap_new_ok:
  assumes "pow2 sz" and "unat sz * 24 < 2 ^ 64" and "\<forall>a b. cmp a b = 0 \<longleftrightarrow> a = b"
    and "mem 32" and "mem (sz * 24)"
  shows "hashmap_new mem sz cmp =
    Some \<lparr>hsize = sz, huse = 0, compare = cmp, entrys = replicate (unat sz) empty_entry\<rparr>"
proof -
  have "unat (sz * 24) = unat sz * 24" using assms(2) by (simp add: unat_word_ariths)
  moreover have "sz \<noteq> 0" using pow2_pos [OF assms(1)] by auto
  ultimately show ?thesis using assms(4,5) by (simp add: hashmap_new_def)
qed

section \<open>Insertion below the load limit\<close>

lemma small_unat:
  assumes "hm_shape m" and "table_size m * 3 \<le> 2 ^ 64 - 1" and "unat (huse m) \<le> table_size m"
  shows "hsize m * 2 \<le> huse m * 3 \<longleftrightarrow> table_size m * 2 \<le> unat (huse m) * 3"
proof -
  have "unat (hsize m * 2) = table_size m * 2" "unat (huse m * 3) = unat (huse m) * 3"
    using assms(2,3) by (simp_all add: unat_word_ariths)
  then show ?thesis by (simp add: word_le_nat_alt)
qed

text \<open>The entries the resize loop moves: a slot holds a binding when its key is not null.\<close>

definition live :: "map_entry list \<Rightarrow> nat" where
  "live es = length (filter (\<lambda>e. ekey e \<noteq> None) es)"

definition add_entry :: "(cstr \<rightharpoonup> ptr) \<Rightarrow> map_entry \<Rightarrow> (cstr \<rightharpoonup> ptr)" where
  "add_entry f e = (case ekey e of None \<Rightarrow> f | Some k \<Rightarrow> f(k \<mapsto> evalue e))"

lemma add_entry_simps [simp]:
  "ekey e = None \<Longrightarrow> add_entry f e = f" "ekey e = Some k \<Longrightarrow> add_entry f e = f(k \<mapsto> evalue e)"
  by (simp_all add: add_entry_def)

lemma live_simps [simp]:
  "live [] = 0" "live (e # es) = (if ekey e = None then live es else Suc (live es))"
  by (simp_all add: live_def)

lemma live_none: "live es = 0 \<Longrightarrow> foldl add_entry f es = f"
  by (induction es) (auto split: if_splits)

lemma live_le: "live es \<le> length es"
  by (simp add: live_def)

lemma live_update: "i < length es \<Longrightarrow>
    live (es[i := e]) + (if ekey (es ! i) = None then 0 else 1) = live es + (if ekey e = None then 0 else 1)"
proof (induction es arbitrary: i)
  case (Cons a es)
  show ?case
  proof (cases i)
    case 0
    then show ?thesis by simp
  next
    case (Suc j)
    then show ?thesis using Cons.IH [of j] Cons.prems by (simp split: if_splits)
  qed
qed simp

lemma put_at_room:
  assumes m: "counted m" and small: "table_size m * 3 \<le> 2 ^ 64 - 1"
    and load: "card (keys_of m) * 3 < table_size m * 2"
  obtains m' where "put_at (Suc d) mem m k v = Some (Inr m')" and "counted m'"
    and "lookup m' = (lookup m)(k \<mapsto> v)" and "hsize m' = hsize m" and "compare m' = compare m"
proof -
  have shape: "hm_shape m" and use: "unat (huse m) = card (keys_of m)"
    using m by (auto simp: counted_def intro: clean_shape)
  have "\<not> hsize m * 2 \<le> huse m * 3"
    using small_unat [OF shape small] use card_keys_le [of m] load by simp
  then have "put_at (Suc d) mem m k v = put_loop m k v (string_hash k) (string_hash k)"
    by (simp add: Let_def)
  moreover have "card (keys_of m) < table_size m" using load by simp
  ultimately show thesis using put_loop_counted [OF m, of k v] that by metis
qed

lemma resize_loop_moves:
  assumes "counted nm" and "table_size nm * 3 \<le> 2 ^ 64 - 1"
    and "(card (keys_of nm) + n) * 3 \<le> table_size nm * 2" and "i + n = length es"
    and "live (drop i es) \<le> unat u"
  shows "\<exists>nm'. resize_loop (put_at (Suc d) mem) es n i u nm =
      Some (Inr (nm', u - of_nat (live (drop i es)))) \<and> counted nm' \<and> hsize nm' = hsize nm
      \<and> compare nm' = compare nm \<and> lookup nm' = foldl add_entry (lookup nm) (drop i es)"
  using assms
proof (induction n arbitrary: nm i u)
  case 0
  then show ?case by simp
next
  case (Suc n)
  have i: "i < length es" and drop: "drop i es = es ! i # drop (Suc i) es"
    using Suc.prems(4) by (auto simp: Cons_nth_drop_Suc)
  show ?case
  proof (cases "u = 0")
    case True
    then show ?thesis using Suc.prems(1,5) live_none [of "drop i es"] by simp
  next
    case u: False
    then have pos: "0 < u" by (simp add: word_gt_0)
    show ?thesis
    proof (cases "ekey (es ! i)")
      case None
      then show ?thesis using Suc.IH [of nm "Suc i" u] Suc.prems i drop pos by simp
    next
      case (Some k)
      have "card (keys_of nm) * 3 < table_size nm * 2" using Suc.prems(3) by simp
      then obtain nm1 where nm1: "put_at (Suc d) mem nm k (evalue (es ! i)) = Some (Inr nm1)"
          "counted nm1" "lookup nm1 = (lookup nm)(k \<mapsto> evalue (es ! i))" "hsize nm1 = hsize nm"
          "compare nm1 = compare nm"
        using put_at_room [OF Suc.prems(1,2)] by metis
      have "keys_of nm1 = insert k (keys_of nm)" using nm1(3) by (rule keys_of_put)
      then have "card (keys_of nm1) \<le> Suc (card (keys_of nm))" by (simp add: card_insert_if)
      moreover have "unat (u - 1) = unat u - 1" using u by (rule unat_minus_one)
      ultimately have "\<exists>nm'. resize_loop (put_at (Suc d) mem) es n (Suc i) (u - 1) nm1 =
          Some (Inr (nm', u - 1 - of_nat (live (drop (Suc i) es)))) \<and> counted nm'
          \<and> hsize nm' = hsize nm1 \<and> compare nm' = compare nm1
          \<and> lookup nm' = foldl add_entry (lookup nm1) (drop (Suc i) es)"
        using Suc.prems nm1(2,4) drop Some by (intro Suc.IH) auto
      then show ?thesis using i pos Some nm1 drop
        by (auto simp: diff_diff_eq simp del: put_at.simps)
    qed
  qed
qed

section \<open>Resizing\<close>

lemma foldl_add_entry:
  assumes "i < length es" and "ekey (es ! i) = Some k"
    and "\<And>j. i < j \<Longrightarrow> j < length es \<Longrightarrow> ekey (es ! j) \<noteq> Some k"
  shows "foldl add_entry f es k = Some (evalue (es ! i))"
  using assms
proof (induction es rule: rev_induct)
  case (snoc e es)
  show ?case
  proof (cases "i = length es")
    case True
    then show ?thesis using snoc.prems by simp
  next
    case False
    then have i: "i < length es" using snoc.prems(1) by simp
    then have "ekey e \<noteq> Some k" using snoc.prems(3) [of "length es"] by simp
    moreover have "ekey (es ! j) \<noteq> Some k" if "i < j" "j < length es" for j
      using snoc.prems(3) [of j] that by (simp add: nth_append)
    then have "foldl add_entry f es k = Some (evalue (es ! i))"
      using snoc.IH snoc.prems(2) i by (simp add: nth_append)
    ultimately show ?thesis using i by (cases "ekey e") (auto simp: nth_append)
  qed
qed simp

lemma foldl_add_entry_other:
  "(\<And>e. e \<in> set es \<Longrightarrow> ekey e \<noteq> Some k) \<Longrightarrow> foldl add_entry f es k = f k"
proof (induction es arbitrary: f)
  case (Cons e es)
  then show ?case by (cases "ekey e") auto
qed simp

lemma entries_lookup:
  assumes "hm_shape m" and "unique_keys m"
  shows "foldl add_entry Map.empty (entrys m) = lookup m"
proof
  fix k
  have len: "length (entrys m) = table_size m" using assms(1) by (simp add: hm_shape_def)
  show "foldl add_entry Map.empty (entrys m) k = lookup m k"
  proof (cases "k \<in> keys_of m")
    case True
    then obtain i where i: "i < table_size m" "key_at m i = Some k" by (auto simp: keys_of_def)
    have "ekey (entrys m ! j) \<noteq> Some k" if "i < j" "j < length (entrys m)" for j
      using unique_keysD [OF assms(2) i, of j] that len by (auto simp: key_at_def)
    then have "foldl add_entry Map.empty (entrys m) k = Some (evalue (entrys m ! i))"
      using i len by (intro foldl_add_entry) (auto simp: key_at_def)
    then show ?thesis using lookup_unique [OF assms i] by simp
  next
    case False
    then have "ekey e \<noteq> Some k" if "e \<in> set (entrys m)" for e
      using that len by (auto simp: keys_of_def key_at_def in_set_conv_nth)
    then show ?thesis using False by (simp add: foldl_add_entry_other lookup_def)
  qed
qed

lemma live_keys:
  assumes "hm_shape m" and "unique_keys m"
  shows "live (entrys m) = card (keys_of m)"
  using assms card_keys_occupied [of m]
  by (simp add: live_def length_filter_conv_card hm_shape_def key_at_def)

lemma card_keys_live:
  assumes "hm_shape m"
  shows "card (keys_of m) \<le> live (entrys m)"
proof -
  have "live (entrys m) = card {i. i < table_size m \<and> key_at m i \<noteq> None}"
    using assms by (simp add: live_def length_filter_conv_card hm_shape_def key_at_def)
  then show ?thesis unfolding keys_of_image by (simp add: card_image_le)
qed

lemma double_size:
  assumes "hm_shape m" and "small_table m"
  shows "pow2 (push_bit 1 (hsize m))" and "unat (push_bit 1 (hsize m)) = 2 * table_size m"
proof -
  obtain k where k: "k < 64" "hsize m = 2 ^ k" using assms(1) by (auto simp: hm_shape_def pow2_def)
  show u: "unat (push_bit 1 (hsize m)) = 2 * table_size m"
    using assms(2) by (simp add: small_table_def push_bit_eq_mult unat_word_ariths)
  have "push_bit 1 (hsize m) = 2 ^ Suc k" by (simp add: k(2) push_bit_eq_mult)
  moreover have "Suc k < 64"
  proof (rule ccontr)
    assume "\<not> Suc k < 64"
    then have "k = 63" using k(1) by simp
    then show False using assms(2) k unat_pow2 [of 63] by (simp add: small_table_def)
  qed
  ultimately show "pow2 (push_bit 1 (hsize m))" unfolding pow2_def by blast
qed

text \<open>
  The resize step moves every entry, and installs the new table exactly when the \<^verbatim>\<open>use\<close> field
  is the number of entries moved.
\<close>

lemma hashmap_resize_ok:
  assumes shape: "hm_shape m" and small: "small_table m" and use: "live (entrys m) \<le> unat (huse m)"
    and mem: "mem 32" "mem (hsize m * 48)"
  obtains nm where "hashmap_resize (put_at (Suc d) mem) mem m = Some (Inr
      (if unat (huse m) = live (entrys m) then m\<lparr>entrys := entrys nm, hsize := hsize nm\<rparr> else m))"
    and "counted nm" and "table_size nm = 2 * table_size m" and "compare nm = compare m"
    and "lookup nm = foldl add_entry Map.empty (entrys m)"
proof -
  let ?nm = "\<lparr>hsize = push_bit 1 (hsize m), huse = 0, compare = compare m,
    entrys = replicate (unat (push_bit 1 (hsize m))) empty_entry\<rparr>"
  note size = double_size [OF shape small]
  have cmp: "\<forall>a b. compare m a b = 0 \<longleftrightarrow> a = b" and len: "length (entrys m) = table_size m"
    using shape by (auto simp: hm_shape_def)
  note empty = empty_table [OF size(1) cmp]
  have "push_bit 1 (hsize m) * 24 = hsize m * 48" by (simp add: push_bit_eq_mult)
  then have new: "hashmap_new mem (push_bit 1 (hsize m)) (compare m) = Some ?nm"
    using hashmap_new_ok [OF size(1) _ cmp] size(2) small mem by (simp add: small_table_def mult.commute)
  have "keys_of ?nm = {}" using empty(2) dom_lookup [of ?nm] by simp
  then have "\<exists>nm'. resize_loop (put_at (Suc d) mem) (entrys m) (table_size m) 0 (huse m) ?nm =
      Some (Inr (nm', huse m - of_nat (live (drop 0 (entrys m))))) \<and> counted nm'
      \<and> hsize nm' = hsize ?nm \<and> compare nm' = compare ?nm
      \<and> lookup nm' = foldl add_entry (lookup ?nm) (drop 0 (entrys m))"
    using empty size small use len by (intro resize_loop_moves) (auto simp: small_table_def)
  then obtain nm where nm: "resize_loop (put_at (Suc d) mem) (entrys m) (table_size m) 0 (huse m) ?nm =
      Some (Inr (nm, huse m - of_nat (live (entrys m))))" "counted nm"
      "hsize nm = push_bit 1 (hsize m)" "compare nm = compare m"
      "lookup nm = foldl add_entry Map.empty (entrys m)"
    using empty(2) by auto
  have "unat (of_nat (live (entrys m)) :: u64) = live (entrys m)"
    using live_le [of "entrys m"] len small by (simp add: unat_of_nat small_table_def)
  then have "huse m - of_nat (live (entrys m)) = 0 \<longleftrightarrow> unat (huse m) = live (entrys m)"
    by (metis right_minus_eq unat_eq_iff_eq)
  then have "hashmap_resize (put_at (Suc d) mem) mem m = Some (Inr
      (if unat (huse m) = live (entrys m) then m\<lparr>entrys := entrys nm, hsize := hsize nm\<rparr> else m))"
    using new nm(1,3) by (simp add: hashmap_resize_def Let_def del: put_at.simps)
  then show thesis using that nm size(2) by simp
qed

section \<open>Insertion into a table without deletions\<close>

lemma put_at_counted:
  assumes m: "counted m" and small: "small_table m"
    and room: "k \<in> keys_of m \<or> card (keys_of m) < table_size m \<or> (mem 32 \<and> mem (hsize m * 48))"
  obtains m' where "put_at (Suc (Suc d)) mem m k v = Some (Inr m')" and "counted m'"
    and "lookup m' = (lookup m)(k \<mapsto> v)" and "compare m' = compare m"
    and "table_size m' = (if table_size m * 2 \<le> card (keys_of m) * 3 \<and> mem 32 \<and> mem (hsize m * 48)
      then 2 * table_size m else table_size m)"
proof -
  have shape: "hm_shape m" and uniq: "unique_keys m" and use: "unat (huse m) = card (keys_of m)"
    using m by (auto simp: counted_def clean_def hm_inv_def)
  have size: "table_size m * 3 \<le> 2 ^ 64 - 1" using small by (simp add: small_table_def)
  have pos: "0 < table_size m" using shape pow2_pos by (simp add: hm_shape_def)
  show thesis
  proof (cases "table_size m * 2 \<le> card (keys_of m) * 3")
    case False
    then obtain m' where "put_at (Suc (Suc d)) mem m k v = Some (Inr m')" "counted m'"
        "lookup m' = (lookup m)(k \<mapsto> v)" "hsize m' = hsize m" "compare m' = compare m"
      using put_at_room [OF m size, of "Suc d" mem k v] by auto
    then show thesis using that False by simp
  next
    case load: True
    then have full: "hsize m * 2 \<le> huse m * 3"
      using small_unat [OF shape size] use card_keys_le [of m] by simp
    show thesis
    proof (cases "mem 32 \<and> mem (hsize m * 48)")
      case True
      then obtain nm where res: "hashmap_resize (put_at (Suc d) mem) mem m =
            Some (Inr (m\<lparr>entrys := entrys nm, hsize := hsize nm\<rparr>))"
          and nm: "counted nm" "table_size nm = 2 * table_size m" "compare nm = compare m"
          and look: "lookup nm = lookup m"
        using hashmap_resize_ok [OF shape small, of mem d] use live_keys [OF shape uniq]
          entries_lookup [OF shape uniq] by (auto simp: mult.commute)
      have keys: "keys_of nm = keys_of m" using look by (simp flip: dom_lookup)
      then have "huse nm = huse m" using use nm(1) by (simp add: counted_def unat_eq_iff_eq [symmetric])
      then have "m\<lparr>entrys := entrys nm, hsize := hsize nm\<rparr> = nm" using nm(3) by simp
      then have put: "put_at (Suc (Suc d)) mem m k v = put_loop nm k v (string_hash k) (string_hash k)"
        using full res by (simp add: Let_def del: put_at.simps(2) [of d])
      have "card (keys_of nm) < table_size nm"
        using keys nm(2) pos card_keys_le [of m] by simp
      then obtain m' where "put_loop nm k v (string_hash k) (string_hash k) = Some (Inr m')" "counted m'"
          "lookup m' = (lookup nm)(k \<mapsto> v)" "hsize m' = hsize nm" "compare m' = compare nm"
        using put_loop_counted [OF nm(1), of k v] by metis
      then show thesis using that put look nm load True by simp
    next
      case False
      have bytes: "push_bit 1 (hsize m) * 24 = hsize m * 48" by (simp add: push_bit_eq_mult)
      have "push_bit 1 (hsize m) \<noteq> 0" using pow2_pos [OF double_size(1) [OF shape small]] by auto
      then have "hashmap_new mem (push_bit 1 (hsize m)) (compare m) = None"
        using False bytes by (auto simp: hashmap_new_def Let_def mult.commute)
      then have "put_at (Suc (Suc d)) mem m k v = put_loop m k v (string_hash k) (string_hash k)"
        using full by (simp add: Let_def hashmap_resize_def)
      moreover obtain m' where "put_loop m k v (string_hash k) (string_hash k) = Some (Inr m')" "counted m'"
          "lookup m' = (lookup m)(k \<mapsto> v)" "hsize m' = hsize m" "compare m' = compare m"
        using put_loop_counted [OF m, of k v] room False by metis
      ultimately show thesis using that False by auto
    qed
  qed
qed

section \<open>The table as a dictionary\<close>

text \<open>
  A table that was never deleted from, of at least four slots, with an unused slot left. The bound
  on its size keeps the byte counts of the next two resize steps below \<open>2 ^ 64\<close>.
\<close>

definition growing :: "hashmap \<Rightarrow> bool" where
  "growing m \<longleftrightarrow> counted m \<and> 2 < table_size m \<and> card (keys_of m) < table_size m
     \<and> table_size m \<le> 3 * 2 ^ 56"

definition hm_put1 :: "hashmap \<Rightarrow> cstr \<Rightarrow> ptr \<Rightarrow> hashmap option" where
  "hm_put1 m k v = (case hashmap_put (\<lambda>_. True) (Some m) (Some k) v of
     Some (Inr (Some m', r)) \<Rightarrow> if r = 1 then Some m' else None
   | _ \<Rightarrow> None)"

definition hm_get1 :: "hashmap \<Rightarrow> cstr \<Rightarrow> ptr option" where
  "hm_get1 m k = (case hashmap_get (Some m) (Some k) of Some (Inr p) \<Rightarrow> Some p | _ \<Rightarrow> None)"

lemma growing_put:
  assumes m: "growing m" and limit: "card (keys_of m) < 2 ^ 56"
  obtains m' where "put_at 2 (\<lambda>_. True) m k v = Some (Inr m')" and "growing m'"
    and "lookup m' = (lookup m)(k \<mapsto> v)"
proof -
  have small: "small_table m" using m by (simp add: growing_def small_table_def)
  obtain m' where m': "put_at (Suc (Suc 0)) (\<lambda>_. True) m k v = Some (Inr m')" "counted m'"
      "lookup m' = (lookup m)(k \<mapsto> v)"
      "table_size m' = (if table_size m * 2 \<le> card (keys_of m) * 3 then 2 * table_size m else table_size m)"
    using put_at_counted [of m k "\<lambda>_. True" 0 v] m small by (auto simp: growing_def)
  have "keys_of m' = insert k (keys_of m)" using m'(3) by (rule keys_of_put)
  then have "card (keys_of m') \<le> Suc (card (keys_of m))" by (simp add: card_insert_if)
  then have "growing m'" using m m'(2,4) limit by (auto simp: growing_def split: if_splits)
  moreover have "put_at 2 (\<lambda>_. True) m k v = Some (Inr m')" using m'(1) by (simp only: numeral_2_eq_2)
  ultimately show thesis using that m'(3) by metis
qed

interpretation table: dict growing lookup hm_put1 hm_get1 "2 ^ 56"
proof
  fix m k v
  assume "growing m" and "v \<noteq> NULL" and "card (dom (lookup m)) < 2 ^ 56"
  then obtain m' where "put_at 2 (\<lambda>_. True) m k v = Some (Inr m')" "growing m'"
      "lookup m' = (lookup m)(k \<mapsto> v)"
    using growing_put [of m k v] by (metis dom_lookup)
  then show "\<exists>m'. hm_put1 m k v = Some m' \<and> growing m' \<and> lookup m' = (lookup m)(k \<mapsto> v)"
    by (simp add: hm_put1_def hashmap_put_def del: put_at.simps)
next
  fix m k
  assume m: "growing m"
  then have "clean m" "card (keys_of m) < table_size m" by (auto simp: growing_def counted_def)
  then obtain i where "i < table_size m" "unused m i" by (rule clean_room)
  then have "get_loop m k (string_hash k) (string_hash k) =
      Some (Inr (case lookup m k of None \<Rightarrow> NULL | Some v \<Rightarrow> v))"
    using get_loop_lookup [of m k] \<open>clean m\<close> by (auto simp: clean_def)
  then show "hm_get1 m k = Some (case lookup m k of None \<Rightarrow> NULL | Some v \<Rightarrow> v)"
    by (simp add: hm_get1_def hashmap_get_def Let_def)
next
  fix m
  show "finite (dom (lookup m))" by (simp add: dom_lookup)
qed

lemma new_growing:
  assumes "\<forall>a b. cmp a b = 0 \<longleftrightarrow> a = b"
  obtains m where "hashmap_new (\<lambda>_. True) 0 cmp = Some m" and "growing m" and "lookup m = Map.empty"
proof -
  define m where "m = \<lparr>hsize = 512, huse = 0, compare = cmp, entrys = replicate (unat (512 :: u64)) empty_entry\<rparr>"
  have pow: "pow2 512" unfolding pow2_def by (rule exI [of _ 9]) simp
  have new: "hashmap_new (\<lambda>_. True) 0 cmp = Some m"
    by (simp add: hashmap_new_def HASHMAP_INIT_SIZE_def push_bit_eq_mult m_def)
  have empty: "counted m" "lookup m = Map.empty"
    unfolding m_def using empty_table [OF pow assms] by blast+
  then have keys: "keys_of m = {}" using dom_lookup [of m] by simp
  have "growing m" using empty keys by (simp add: growing_def) (simp add: m_def)
  then show thesis using that new empty(2) by blast
qed

section \<open>Deletion\<close>

lemma mark_inv:
  assumes inv: "hm_inv m" and i: "i < table_size m" and e: "ekey e = None" "isdel e"
  shows "hm_inv (put_entry m i e u)"
proof -
  have shape: "hm_shape m" using inv by (simp add: hm_inv_def)
  have "reachable (put_entry m i e u) k' j"
    if "j < table_size m" "key_at (put_entry m i e u) j = Some k'" for j k'
    using that inv e shape i
    by (intro put_entry_reachable) (auto simp: put_entry_at hm_inv_def split: if_splits)
  then show ?thesis using shape by (simp add: hm_inv_def)
qed

lemma delete_entry:
  assumes inv: "hm_inv m" and i: "i < table_size m" and uniq: "unique_keys m" and k: "key_at m i = Some k"
    and e: "ekey e = None" "isdel e"
  shows "hm_inv (put_entry m i e u)" and "unique_keys (put_entry m i e u)"
    and "lookup (put_entry m i e u) = (lookup m)(k := None)"
proof -
  have shape: "hm_shape m" using inv by (simp add: hm_inv_def)
  note at = put_entry_at [OF shape i]
  show "hm_inv (put_entry m i e u)" using inv i e by (rule mark_inv)
  have "i1 = i2" if "i1 < table_size m" "i2 < table_size m" "key_at (put_entry m i e u) i1 = Some k'"
      "key_at (put_entry m i e u) i2 = Some k'" for i1 i2 k'
  proof -
    have "i1 \<noteq> i" "i2 \<noteq> i" using that(3,4) e(1) by (auto simp: at)
    then show ?thesis using unique_keysD [OF uniq that(1) _ that(2)] that(3,4) by (simp add: at)
  qed
  then show "unique_keys (put_entry m i e u)" by (simp add: unique_keys_def)
  have "k \<notin> keys_of (put_entry m i e u)"
  proof
    assume "k \<in> keys_of (put_entry m i e u)"
    then obtain j where j: "j < table_size m" "key_at (put_entry m i e u) j = Some k"
      by (auto simp: keys_of_def)
    then have "j \<noteq> i" using e(1) by (auto simp: at)
    then show False using unique_keysD [OF uniq i k j(1)] j(2) by (simp add: at)
  qed
  then have "lookup (put_entry m i e u) k = None" by (simp add: lookup_None)
  moreover have "lookup (put_entry m i e u) k' = lookup m k'" if "k' \<noteq> k" for k'
    using that k e(1) shape i by (intro put_entry_lookup_other) auto
  ultimately show "lookup (put_entry m i e u) = (lookup m)(k := None)" by auto
qed

lemma delete_loop_hit:
  assumes shape: "hm_shape m" and k: "k \<in> keys_of m"
    and path: "\<And>n. n < first_hit m k \<Longrightarrow> \<not> tombstone m (key_slot m k n)"
  defines "i \<equiv> key_slot m k (first_hit m k)"
  shows "delete_loop m k (string_hash k) (string_hash k) = Some (Inr
    (put_entry m i ((entrys m ! i)\<lparr>ekey := None, isdel := True\<rparr>) (huse m), the (lookup m k)))"
proof -
  have hit: "key_at m i = Some k" unfolding i_def using first_hit_key [OF shape k] .
  have "\<not> tombstone m i" using hit by (simp add: tombstone_def)
  then show ?thesis
    using delete_loop_result [OF shape, of "first_hit m k" k] path first_hit_least [of _ m k] hit k
    by (simp add: put_entry_def lookup_def i_def)
qed

lemma delete_loop_cases:
  assumes shape: "hm_shape m" and ret: "delete_loop m k (string_hash k) (string_hash k) = Some r"
  obtains (stopped) i where "i < table_size m" and "tombstone m i" and "r = Inr (m, NULL)"
  | (deleted) i where "i < table_size m" and "key_at m i = Some k"
      and "r = Inr (put_entry m i ((entrys m ! i)\<lparr>ekey := None, isdel := True\<rparr>) (huse m),
        evalue (entrys m ! i))"
proof -
  let ?P = "\<lambda>n. tombstone m (key_slot m k n) \<or> key_at m (key_slot m k n) = Some k"
  obtain j where j: "j < table_size m" "tombstone m j \<or> key_at m j = Some k"
    using delete_loop_returns [OF ret] shape by auto
  obtain n0 where "key_slot m k n0 = j" using shape j(1) by (rule key_slot_reaches)
  then have "?P n0" using j(2) by simp
  define n where "n = (LEAST n. ?P n)"
  have n: "?P n" unfolding n_def using \<open>?P n0\<close> by (rule LeastI)
  have "\<not> tombstone m (key_slot m k n') \<and> key_at m (key_slot m k n') \<noteq> Some k" if "n' < n" for n'
    using not_less_Least [of n' ?P] that by (auto simp: n_def)
  note res = delete_loop_result [OF shape this n]
  show thesis
  proof (cases "tombstone m (key_slot m k n)")
    case True
    then show thesis using stopped [OF key_slot_less [OF shape] True] res ret by simp
  next
    case False
    then show thesis using deleted [OF key_slot_less [OF shape]] n res ret by (simp add: put_entry_def)
  qed
qed

lemma remove_present:
  assumes "clean m" and "card (keys_of m) < table_size m" and "k \<in> keys_of m"
  shows "\<exists>m'. hashmap_delete (Some m) (Some k) = Some (Inr (Some m', the (lookup m k)))
    \<and> hm_inv m' \<and> unique_keys m' \<and> lookup m' = (lookup m)(k := None)
    \<and> (\<forall>k'. hashmap_get (Some m') (Some k') = Some (Inr (case lookup m' k' of None \<Rightarrow> NULL | Some v \<Rightarrow> v)))"
proof -
  note shape = clean_shape [OF assms(1)]
  have inv: "hm_inv m" and uniq: "unique_keys m" using assms(1) by (auto simp: clean_def)
  define i where "i = key_slot m k (first_hit m k)"
  define m' where "m' = put_entry m i ((entrys m ! i)\<lparr>ekey := None, isdel := True\<rparr>) (huse m)"
  have i: "i < table_size m" "key_at m i = Some k"
    unfolding i_def using key_slot_less [OF shape] first_hit_key [OF shape assms(3)] by auto
  have del: "delete_loop m k (string_hash k) (string_hash k) = Some (Inr (m', the (lookup m k)))"
    using delete_loop_hit [OF shape assms(3)] clean_tombstone [OF assms(1) key_slot_less [OF shape]]
    by (simp add: m'_def i_def)
  have m': "hm_inv m'" "unique_keys m'" "lookup m' = (lookup m)(k := None)"
    unfolding m'_def using delete_entry [OF inv i(1) uniq i(2)] by simp_all
  obtain j where j: "j < table_size m" "unused m j" using assms(1,2) by (rule clean_room)
  then have "j \<noteq> i" using i(2) by (auto simp: unused_def)
  then have "j < table_size m' \<and> unused m' j" using j shape i(1) by (simp add: m'_def put_entry_at)
  then have "get_loop m' k' (string_hash k') (string_hash k') =
      Some (Inr (case lookup m' k' of None \<Rightarrow> NULL | Some v \<Rightarrow> v))" for k'
    using get_loop_lookup [OF m'(1)] by blast
  then show ?thesis using del m' by (simp add: hashmap_delete_def hashmap_get_def Let_def)
qed

lemma remove_absent:
  assumes "hm_shape m" and "k \<notin> keys_of m" and "\<forall>i < table_size m. \<not> tombstone m i"
  shows "hashmap_delete (Some m) (Some k) = None"
proof -
  have "delete_loop m k (string_hash k) (string_hash k) \<noteq> Some r" for r
    using delete_loop_returns [of m k "string_hash k" "string_hash k" r] assms by (auto simp: keys_of_def)
  then have "delete_loop m k (string_hash k) (string_hash k) = None" by (meson not_Some_eq)
  then show ?thesis by (simp add: hashmap_delete_def Let_def)
qed

section \<open>Sequences of calls\<close>

datatype hm_op = Put cstr ptr | Remove cstr

definition run_op :: "(u64 \<Rightarrow> bool) \<Rightarrow> hashmap option \<Rightarrow> hm_op \<Rightarrow> hashmap option run" where
  "run_op mem mp opr = (case opr of
     Put k v \<Rightarrow> map_option (map_sum id fst) (hashmap_put mem mp (Some k) v)
   | Remove k \<Rightarrow> map_option (map_sum id fst) (hashmap_delete mp (Some k)))"

fun run_ops :: "(u64 \<Rightarrow> bool) \<Rightarrow> hashmap option \<Rightarrow> hm_op list \<Rightarrow> hashmap option run" where
  "run_ops mem mp [] = Some (Inr mp)"
| "run_ops mem mp (opr # ops) =
     (case run_op mem mp opr of
        None \<Rightarrow> None
      | Some (Inl f) \<Rightarrow> Some (Inl f)
      | Some (Inr mp') \<Rightarrow> run_ops mem mp' ops)"

text \<open>
  A table from which an entry was deleted: \<^verbatim>\<open>use\<close> counts more slots than hold a key. This
  never changes again, so no resize step installs its new table.
\<close>

definition dirty :: "hashmap \<Rightarrow> bool" where
  "dirty m \<longleftrightarrow> hm_inv m \<and> small_table m \<and> live (entrys m) < unat (huse m)"

lemma dirty_no_resize:
  assumes m: "dirty m"
  shows "put_at 2 mem m k v = put_loop m k v (string_hash k) (string_hash k)"
proof -
  have shape: "hm_shape m" and small: "small_table m" and use: "live (entrys m) < unat (huse m)"
    using m by (auto simp: dirty_def hm_inv_def)
  have "hashmap_resize (put_at (Suc 0) mem) mem m = Some (Inr m)"
  proof (cases "mem 32 \<and> mem (hsize m * 48)")
    case True
    then obtain nm where "hashmap_resize (put_at (Suc 0) mem) mem m = Some (Inr
        (if unat (huse m) = live (entrys m) then m\<lparr>entrys := entrys nm, hsize := hsize nm\<rparr> else m))"
      using hashmap_resize_ok [OF shape small, of mem 0] use by auto
    then show ?thesis using use by simp
  next
    case False
    have bytes: "push_bit 1 (hsize m) * 24 = hsize m * 48" by (simp add: push_bit_eq_mult)
    have "push_bit 1 (hsize m) \<noteq> 0" using pow2_pos [OF double_size(1) [OF shape small]] by auto
    then have "hashmap_new mem (push_bit 1 (hsize m)) (compare m) = None"
      using False bytes by (auto simp: hashmap_new_def Let_def mult.commute)
    then show ?thesis by (simp add: hashmap_resize_def Let_def)
  qed
  moreover have "put_at 2 mem m k v = put_at (Suc (Suc 0)) mem m k v" by (simp only: numeral_2_eq_2)
  ultimately show ?thesis by (simp add: Let_def del: put_at.simps(2) [of 0])
qed

lemma put_entry_live:
  assumes "hm_shape m" and "i < table_size m"
  shows "live (entrys (put_entry m i e u)) + (if key_at m i = None then 0 else 1) =
    live (entrys m) + (if ekey e = None then 0 else 1)"
  using live_update [of i "entrys m" e] assms by (simp add: put_entry_def hm_shape_def key_at_def)

lemma dirty_put:
  assumes m: "dirty m" and use: "unat (huse m) + 1 < 2 ^ 64"
    and ret: "put_at 2 mem m k v = Some r"
  obtains m' where "r = Inr m'" and "dirty m'" and "hsize m' = hsize m"
    and "unat (huse m') \<le> unat (huse m) + 1" and "lookup m' = (lookup m)(k \<mapsto> v)"
proof -
  have inv: "hm_inv m" and shape: "hm_shape m" and live: "live (entrys m) < unat (huse m)"
    and small: "small_table m"
    using m by (auto simp: dirty_def hm_inv_def)
  have ret': "put_loop m k v (string_hash k) (string_hash k) = Some r"
    using ret dirty_no_resize [OF m] by simp
  then have "\<exists>i < table_size m. key_at m i = None \<or> key_at m i = Some k"
    using put_loop_returns [OF ret'] shape by auto
  then obtain m' i e n where put: "put_loop m k v (string_hash k) (string_hash k) = Some (Inr m')"
    and m': "m' = put_entry m i e (if key_at m i = Some k then huse m else huse m + 1)"
    and i: "i < table_size m" and e: "ekey e = Some k" "evalue e = v" "\<not> isdel e"
    and old: "key_at m i = None \<or> key_at m i = Some k" and n: "i = key_slot m k n"
    and before: "\<And>n'. n' < n \<Longrightarrow> key_at m (key_slot m k n') \<noteq> None \<and> key_at m (key_slot m k n') \<noteq> Some k"
    using put_loop_ok [OF inv] by blast
  note put_entry_put [OF inv i n e old before]
  then have inv': "hm_inv m'" and look: "lookup m' = (lookup m)(k \<mapsto> v)" unfolding m' by blast+
  have u: "unat (huse m + 1) = unat (huse m) + 1" using use by (simp add: unat_add_no_wrap)
  have "live (entrys m') < unat (huse m')"
    using put_entry_live [OF shape i, of e] live old e(1) u by (auto simp: m')
  then have "dirty m'" using inv' small by (simp add: dirty_def small_table_def m')
  then show thesis using that [of m'] put ret' look u by (simp add: m')
qed

lemma dirty_remove:
  assumes m: "dirty m" and ret: "delete_loop m k (string_hash k) (string_hash k) = Some r"
  obtains m' v where "r = Inr (m', v)" and "hsize m' = hsize m" and "huse m' = huse m"
    and "hm_inv m'" and "live (entrys m') \<le> live (entrys m)"
proof -
  have inv: "hm_inv m" and shape: "hm_shape m" using m by (auto simp: dirty_def hm_inv_def)
  from shape ret show thesis
  proof (cases rule: delete_loop_cases)
    case stopped
    then show thesis using that inv by blast
  next
    case (deleted i)
    let ?e = "(entrys m ! i)\<lparr>ekey := None, isdel := True\<rparr>"
    have "hm_inv (put_entry m i ?e (huse m))" using inv deleted(1) by (rule mark_inv) simp_all
    moreover have "live (entrys (put_entry m i ?e (huse m))) \<le> live (entrys m)"
      using put_entry_live [OF shape deleted(1), of ?e "huse m"] by simp
    ultimately show thesis using that deleted(3) by simp
  qed
qed

lemma dirty_run_op:
  assumes m: "dirty m" and use: "unat (huse m) + 1 < 2 ^ 64" and ret: "run_op mem (Some m) opr = Some r"
  obtains m' where "r = Inr (Some m')" and "dirty m'" and "hsize m' = hsize m"
    and "unat (huse m') \<le> unat (huse m) + 1"
proof (cases opr)
  case (Put k v)
  then obtain r0 where r0: "put_at 2 mem m k v = Some r0" "r = map_sum id Some r0"
    using ret by (auto simp: run_op_def hashmap_put_def sum.map_comp comp_def id_def simp del: put_at.simps)
  show thesis
    using m use r0(1) by (rule dirty_put) (use that r0(2) in auto)
next
  case (Remove k)
  then obtain r0 where r0: "delete_loop m k (string_hash k) (string_hash k) = Some r0"
      "r = map_sum id (Some \<circ> fst) r0"
    using ret by (auto simp: run_op_def hashmap_delete_def Let_def sum.map_comp comp_def id_def)
  obtain m' v where "r0 = Inr (m', v)" "hsize m' = hsize m" "huse m' = huse m" "hm_inv m'"
      "live (entrys m') \<le> live (entrys m)"
    using m r0(1) by (rule dirty_remove)
  then show thesis using that [of m'] m r0(2) by (simp add: dirty_def small_table_def)
qed

lemma dirty_run_ops:
  assumes "dirty m" and "unat (huse m) + length ops < 2 ^ 64"
    and "run_ops mem (Some m) ops = Some r"
  shows "\<exists>m'. r = Inr (Some m') \<and> dirty m' \<and> hsize m' = hsize m"
  using assms
proof (induction ops arbitrary: m)
  case Nil
  then show ?case by auto
next
  case (Cons opr ops)
  then obtain r0 where "run_op mem (Some m) opr = Some r0" by (cases "run_op mem (Some m) opr") auto
  moreover have "unat (huse m) + 1 < 2 ^ 64" using Cons.prems(2) by simp
  ultimately obtain m1 where "run_op mem (Some m) opr = Some (Inr (Some m1))" "dirty m1"
      "hsize m1 = hsize m" "unat (huse m1) \<le> unat (huse m) + 1"
    using dirty_run_op [OF Cons.prems(1)] by metis
  then show ?case using Cons.IH [of m1] Cons.prems(2,3) by auto
qed

text \<open>No unused slot comes before the first slot that holds a stored key.\<close>

lemma reachable_path:
  assumes "hm_inv m" and "k \<in> keys_of m" and "\<And>n'. n' < n \<Longrightarrow> key_at m (key_slot m k n') \<noteq> Some k"
    and "n' < n"
  shows "\<not> unused m (key_slot m k n')"
proof -
  have shape: "hm_shape m" using assms(1) by (simp add: hm_inv_def)
  obtain i where i: "i < table_size m" "key_at m i = Some k" using assms(2) by (auto simp: keys_of_def)
  then have "reachable m k i" using assms(1) by (simp add: hm_inv_def)
  then obtain n0 where n0: "key_slot m k n0 = i" "\<forall>n' < n0. \<not> unused m (key_slot m k n')"
    unfolding reachable_def by blast
  have "\<not> n0 < n" using assms(3) [of n0] n0(1) i(2) by blast
  then have "n' < n0" using assms(4) by simp
  then show ?thesis using n0(2) by blast
qed

section \<open>Mapping\<close>

text \<open>The bindings in slot order, and the effect of a function on the value of an entry.\<close>

definition bindings :: "map_entry list \<Rightarrow> (cstr \<times> ptr) list" where
  "bindings es = map (\<lambda>e. (the (ekey e), evalue e)) (filter (\<lambda>e. ekey e \<noteq> None) es)"

definition change_value :: "(cstr \<Rightarrow> ptr \<Rightarrow> ptr) \<Rightarrow> map_entry \<Rightarrow> map_entry" where
  "change_value g e = (case ekey e of None \<Rightarrow> e | Some k \<Rightarrow> e\<lparr>evalue := g k (evalue e)\<rparr>)"

lemma bindings_simps [simp]:
  "bindings [] = []"
  "bindings (e # es) = (case ekey e of None \<Rightarrow> bindings es | Some k \<Rightarrow> (k, evalue e) # bindings es)"
  by (auto simp: bindings_def split: option.splits)

lemma change_value_keys [simp]:
  "ekey (change_value g e) = ekey e" "isdel (change_value g e) = isdel e"
  "ekey e = None \<Longrightarrow> change_value g e = e"
  "ekey e = Some k \<Longrightarrow> change_value g e = e\<lparr>evalue := g k (evalue e)\<rparr>"
  by (auto simp: change_value_def split: option.splits)

lemma live_zero_ids: "live es = 0 \<Longrightarrow> map (change_value g) es = es \<and> bindings es = []"
  by (induction es) (auto split: if_splits)

lemma map_loop_visits:
  assumes "live rest \<le> unat use"
  shows "map_loop (\<lambda>k v st. (g k v, h k v st)) (length rest) (length pre) use (pre @ rest) st =
    Some (Inr (pre @ map (change_value g) rest, foldl (\<lambda>st (k, v). h k v st) st (bindings rest)))"
  using assms
proof (induction rest arbitrary: pre use st)
  case Nil
  then show ?case by simp
next
  case (Cons e rest)
  show ?case
  proof (cases "use = 0")
    case True
    then have "live (e # rest) = 0" using Cons.prems by simp
    then show ?thesis using True live_zero_ids [of "e # rest" g] by simp
  next
    case False
    then have pos: "0 < use" "unat (use - 1) = unat use - 1"
      by (simp_all add: word_gt_0 unat_minus_one)
    show ?thesis
    proof (cases "ekey e")
      case None
      then show ?thesis using Cons.IH [of use "pre @ [e]" st] Cons.prems pos(1) by simp
    next
      case (Some k)
      then have "live rest \<le> unat (use - 1)" using Cons.prems pos(2) by simp
      then show ?thesis
        using Cons.IH [of "use - 1" "pre @ [change_value g e]" "h k (evalue e) st"] pos(1) Some by simp
    qed
  qed
qed

lemma map_entries:
  assumes "hm_inv m" and "live (entrys m) \<le> unat (huse m)"
  obtains m' where "hashmap_map (Some m) (Some (\<lambda>k v st. (g k v, h k v st))) st =
      Some (Inr (Some m', foldl (\<lambda>st (k, v). h k v st) st (bindings (entrys m)), 1))"
    and "hm_inv m'" and "lookup m' = (\<lambda>k. map_option (g k) (lookup m k))"
    and "hsize m' = hsize m" and "clean m \<Longrightarrow> clean m'"
proof -
  have shape: "hm_shape m" using assms(1) by (simp add: hm_inv_def)
  then have len: "length (entrys m) = table_size m" by (simp add: hm_shape_def)
  define m' where "m' = m\<lparr>entrys := map (change_value g) (entrys m)\<rparr>"
  have run: "map_loop (\<lambda>k v st. (g k v, h k v st)) (table_size m) 0 (huse m) (entrys m) st = Some (Inr
      (map (change_value g) (entrys m), foldl (\<lambda>st (k, v). h k v st) st (bindings (entrys m))))"
    using map_loop_visits [OF assms(2), of g h "[]" st] len by simp
  have shape': "hm_shape m'" and slots: "key_slot m' k n = key_slot m k n" for k n
    using shape by (simp_all add: m'_def hm_shape_def key_slot_def)
  have at: "key_at m' i = key_at m i" "unused m' i = unused m i"
      "entrys m' ! i = change_value g (entrys m ! i)" if "i < table_size m" for i
    using that len by (simp_all add: m'_def key_at_def unused_def)
  have size: "hsize m' = hsize m" by (simp add: m'_def)
  note slot_less = key_slot_less [OF shape]
  have inv: "hm_inv m'"
    using assms(1) shape' size unfolding hm_inv_def reachable_def by (simp add: at slots slot_less)
  have "lookup m' k = map_option (g k) (lookup m k)" for k
  proof -
    have keys: "k \<in> keys_of m' \<longleftrightarrow> k \<in> keys_of m"
      using shape shape' by (simp add: keys_of_hit slots at slot_less)
    have first: "first_hit m' k = first_hit m k"
      by (simp add: first_hit_def slots at slot_less)
    show ?thesis
    proof (cases "k \<in> keys_of m")
      case True
      then have "ekey (entrys m ! key_slot m k (first_hit m k)) = Some k"
        using first_hit_key [OF shape] by (simp add: key_at_def)
      then show ?thesis using True keys first by (simp add: lookup_def slots at slot_less)
    next
      case False
      then show ?thesis using keys by (simp add: lookup_def)
    qed
  qed
  then have "lookup m' = (\<lambda>k. map_option (g k) (lookup m k))" by auto
  moreover have "clean m'" if "clean m"
    using that inv unfolding clean_def unique_keys_def size by (simp add: at)
  moreover have "hashmap_map (Some m) (Some (\<lambda>k v st. (g k v, h k v st))) st =
      Some (Inr (Some m', foldl (\<lambda>st (k, v). h k v st) st (bindings (entrys m)), 1))"
    using run by (simp add: hashmap_map_def m'_def)
  ultimately show thesis using that inv size by blast
qed

section \<open>Sample tables\<close>

definition key_cmp :: "cstr \<Rightarrow> cstr \<Rightarrow> int" where
  "key_cmp a b = (if a = b then 0 else 1)"

definition sample_table :: "u64 \<Rightarrow> hashmap" where
  "sample_table sz =
     \<lparr>hsize = sz, huse = 0, compare = key_cmp, entrys = replicate (unat sz) empty_entry\<rparr>"

lemma pow2_small: "pow2 1" "pow2 2" "pow2 4"
  using exI [of "\<lambda>k. k < 64 \<and> (1 :: u64) = 2 ^ k" 0] exI [of "\<lambda>k. k < 64 \<and> (2 :: u64) = 2 ^ k" 1]
    exI [of "\<lambda>k. k < 64 \<and> (4 :: u64) = 2 ^ k" 2]
  by (simp_all add: pow2_def)

lemma sample_counted: "pow2 sz \<Longrightarrow> counted (sample_table sz)" "pow2 sz \<Longrightarrow> lookup (sample_table sz) = Map.empty"
  unfolding sample_table_def by (rule empty_table; simp add: key_cmp_def)+

lemma sample_keys: "pow2 sz \<Longrightarrow> keys_of (sample_table sz) = {}"
  using sample_counted(2) [of sz] dom_lookup [of "sample_table sz"] by simp

lemma sample_growing: "growing (sample_table 4)"
  by (simp add: growing_def sample_counted(1) pow2_small sample_keys) (simp add: sample_table_def)

text \<open>A table of four slots in which the keys 1 and 5, with the same first slot, were put and key 1 was
  deleted.\<close>

definition sample_deleted :: hashmap where
  "sample_deleted = \<lparr>hsize = 4, huse = 2, compare = key_cmp, entrys =
     [\<lparr>ekey = None, evalue = 7, isdel = True\<rparr>, \<lparr>ekey = Some [5], evalue = 8, isdel = False\<rparr>,
      empty_entry, empty_entry]\<rparr>"

lemma sample_slots: "key_slot sample_deleted [5] 0 = 0" "key_slot sample_deleted [5] (Suc 0) = 1"
  by (simp_all add: key_slot_def sample_deleted_def slot_def string_hash_def Let_def push_bit_eq_mult
      drop_bit_eq_div scast_eq)

lemma sample_hashes: "string_hash [1] = 128000384" "string_hash [5] = 640001924"
  by (simp_all add: string_hash_def Let_def push_bit_eq_mult scast_eq)

lemma replicate4: "replicate 4 x = [x, x, x, x]"
  by (simp add: numeral_eq_Suc)

lemma put_at_two: "put_at 2 mem m k v = put_at (Suc (Suc 0)) mem m k v"
  by (simp only: numeral_2_eq_2)

lemma sample_deleted_run: "run_ops (\<lambda>_. True) (Some (sample_table 4)) [Put [1] 7, Put [5] 8, Remove [1]] =
    Some (Inr (Some sample_deleted))"
  by (simp add: run_op_def hashmap_put_def hashmap_delete_def put_at_two sample_table_def replicate4
      sample_hashes sample_deleted_def Let_def put_loop.simps delete_loop.simps holds_key_def key_cmp_def
      empty_entry_def)

lemma sample_deleted_inv: "hm_inv sample_deleted"
proof -
  have shape: "hm_shape sample_deleted" using pow2_small(3)
    by (simp add: hm_shape_def sample_deleted_def key_cmp_def)
  have "reachable sample_deleted [5] 1" unfolding reachable_def
    by (rule exI [of _ "Suc 0"])
      (simp add: sample_slots unused_def key_at_def, simp add: sample_deleted_def)
  then have "reachable sample_deleted k i" if "i < 4" "key_at sample_deleted i = Some k" for i k
    using that by (auto simp: key_at_def sample_deleted_def empty_entry_def less_Suc_eq numeral_eq_Suc
        split: if_splits)
  then show ?thesis using shape by (simp add: hm_inv_def) (simp add: sample_deleted_def)
qed

lemma sample_deleted_simps: "key_at sample_deleted 0 = None" "tombstone sample_deleted 0"
  "key_at sample_deleted 1 = Some [5]" "[5] \<in> keys_of sample_deleted" "lookup sample_deleted [5] = Some 8"
  "dirty sample_deleted" "huse sample_deleted = 2"
proof -
  show k: "key_at sample_deleted 0 = None" "key_at sample_deleted 1 = Some [5]"
    by (simp_all add: key_at_def sample_deleted_def)
  then show "[5] \<in> keys_of sample_deleted"
    by (auto simp: keys_of_def sample_deleted_def intro!: exI [of _ 1])
  show "tombstone sample_deleted 0" by (simp add: tombstone_def key_at_def sample_deleted_def)
  have "lookup sample_deleted [5] = Some (evalue (entrys sample_deleted ! key_slot sample_deleted [5] (Suc 0)))"
    using sample_deleted_inv k by (intro lookup_eqI) (auto simp: hm_inv_def sample_slots)
  then show "lookup sample_deleted [5] = Some 8" by (simp add: sample_slots) (simp add: sample_deleted_def)
  show "dirty sample_deleted" using sample_deleted_inv
    by (simp add: dirty_def) (simp add: small_table_def sample_deleted_def live_def empty_entry_def)
  show "huse sample_deleted = 2" by (simp add: sample_deleted_def)
qed

section \<open>Properties\<close>

text \<open>
  \<^verbatim>\<open>hashmap_get\<close> returns, and returns the value bound to the key (null for a key that is not in
  the table), for every table in which all keys are reachable, provided the key is in the table or
  the table has an unused slot.
\<close>

theorem hashmap_get_lookup:
  assumes "hm_inv m" and "k \<in> keys_of m \<or> (\<exists>i < table_size m. unused m i)"
  shows "hashmap_get (Some m) (Some k) = Some (Inr (case lookup m k of None \<Rightarrow> NULL | Some v \<Rightarrow> v))"
  using get_loop_lookup [OF assms] by (simp add: hashmap_get_def Let_def)

theorem hashmap_get_lookup_witness: "hashmap_get (Some (sample_table 4)) (Some [104, 105]) = Some (Inr NULL)"
proof -
  have "counted (sample_table 4)" by (rule sample_counted(1) [OF pow2_small(3)])
  then have cl: "clean (sample_table 4)" by (simp add: counted_def)
  then have inv: "hm_inv (sample_table 4)" by (simp add: clean_def)
  have "\<exists>i < table_size (sample_table 4). unused (sample_table 4) i"
    by (rule exI [of _ 0]) (simp add: unused_def key_at_def sample_table_def empty_entry_def)
  then show ?thesis using hashmap_get_lookup [OF inv, of "[104, 105]"] sample_counted(2) [OF pow2_small(3)]
    by simp
qed

text \<open>
  C6. On a table from which nothing was deleted, \<^verbatim>\<open>hashmap_put\<close> returns 1 and updates the map the
  table stands for at the key only, keeping the invariant; it doubles the table exactly when two
  thirds of the slots are in use and the allocator serves both requests. A free slot is needed only
  when the resize step fails.
\<close>

theorem hashmap_put_update:
  assumes "counted m" and "small_table m"
    and "k \<in> keys_of m \<or> card (keys_of m) < table_size m \<or> (mem 32 \<and> mem (hsize m * 48))"
  shows "\<exists>m'. hashmap_put mem (Some m) (Some k) v = Some (Inr (Some m', 1)) \<and> counted m'
    \<and> lookup m' = (lookup m)(k \<mapsto> v) \<and> compare m' = compare m
    \<and> table_size m' = (if table_size m * 2 \<le> card (keys_of m) * 3 \<and> mem 32 \<and> mem (hsize m * 48)
        then 2 * table_size m else table_size m)"
proof -
  obtain m' where "put_at (Suc (Suc 0)) mem m k v = Some (Inr m')" "counted m'"
    "lookup m' = (lookup m)(k \<mapsto> v)" "compare m' = compare m"
    "table_size m' = (if table_size m * 2 \<le> card (keys_of m) * 3 \<and> mem 32 \<and> mem (hsize m * 48)
      then 2 * table_size m else table_size m)"
    using put_at_counted [OF assms, of 0 v] by metis
  moreover have "put_at (Suc (Suc 0)) mem m k v = put_at 2 mem m k v" by (simp only: numeral_2_eq_2)
  ultimately show ?thesis by (simp add: hashmap_put_def del: put_at.simps)
qed

theorem hashmap_put_update_witness:
  "\<exists>m'. hashmap_put (\<lambda>n. n < 96) (Some (sample_table 4)) (Some [104, 105]) 7 = Some (Inr (Some m', 1))
    \<and> lookup m' = [[104, 105] \<mapsto> 7] \<and> table_size m' = 4"
  using hashmap_put_update [of "sample_table 4" "[104, 105]" "\<lambda>n. n < 96" 7]
    sample_counted [OF pow2_small(3)] sample_keys [OF pow2_small(3)]
  by (simp add: small_table_def sample_table_def) blast

text \<open>
  The resize step on a table from which nothing was deleted installs a table of twice the size
  that stands for the same map, keeping the number of keys.
\<close>

theorem hashmap_resize_same_map:
  assumes "counted m" and "small_table m" and "mem 32" and "mem (hsize m * 48)"
  shows "\<exists>m'. hashmap_resize (put_at 1 mem) mem m = Some (Inr m') \<and> counted m'
    \<and> table_size m' = 2 * table_size m \<and> lookup m' = lookup m \<and> huse m' = huse m"
proof -
  have shape: "hm_shape m" and uniq: "unique_keys m" and use: "unat (huse m) = card (keys_of m)"
    using assms(1) by (auto simp: counted_def clean_def hm_inv_def)
  have live: "live (entrys m) = unat (huse m)" using live_keys [OF shape uniq] use by simp
  obtain nm where nm: "hashmap_resize (put_at (Suc 0) mem) mem m =
        Some (Inr (m\<lparr>entrys := entrys nm, hsize := hsize nm\<rparr>))"
      "counted nm" "table_size nm = 2 * table_size m" "compare nm = compare m" "lookup nm = lookup m"
    by (rule hashmap_resize_ok [OF shape assms(2) eq_refl [OF live] assms(3,4), of 0])
      (simp add: live entries_lookup [OF shape uniq])
  have "keys_of nm = keys_of m" using nm(5) by (simp flip: dom_lookup)
  then have "huse nm = huse m" using use nm(2) by (simp add: counted_def flip: unat_eq_iff_eq)
  then have "m\<lparr>entrys := entrys nm, hsize := hsize nm\<rparr> = nm" using nm(4) by simp
  then have "hashmap_resize (put_at 1 mem) mem m = Some (Inr nm)" using nm(1) by (simp only: One_nat_def)
  then show ?thesis using nm(2,3,5) \<open>huse nm = huse m\<close> by blast
qed

theorem hashmap_resize_same_map_witness:
  "\<exists>m m'. hashmap_put (\<lambda>_. True) (Some (sample_table 4)) (Some [1]) 7 = Some (Inr (Some m, 1))
    \<and> hashmap_resize (put_at 1 (\<lambda>_. True)) (\<lambda>_. True) m = Some (Inr m')
    \<and> table_size m' = 8 \<and> lookup m' = [[1] \<mapsto> 7]"
proof -
  have small: "small_table (sample_table 4)" by (simp add: small_table_def sample_table_def)
  obtain m where m: "put_at (Suc (Suc 0)) (\<lambda>_. True) (sample_table 4) [1] 7 = Some (Inr m)" "counted m"
      "lookup m = [[1] \<mapsto> 7]" "table_size m = 4"
    using put_at_counted [OF sample_counted(1) [OF pow2_small(3)] small, of "[1]" "\<lambda>_. True" 0 7]
      sample_counted(2) [OF pow2_small(3)] sample_keys [OF pow2_small(3)]
    by (auto simp: sample_table_def)
  then have "hashmap_put (\<lambda>_. True) (Some (sample_table 4)) (Some [1]) 7 = Some (Inr (Some m, 1))"
    by (simp add: hashmap_put_def numeral_2_eq_2 del: put_at.simps)
  moreover have "small_table m" using m(4) by (simp add: small_table_def)
  ultimately show ?thesis using hashmap_resize_same_map [OF m(2), of "\<lambda>_. True"] m(3,4) by auto
qed

text \<open>
  C23. A client that creates a table with the default size and puts a list of keys with non-null
  values finds under every key the last value put under it, and null under every other key.
\<close>

theorem hashmap_dictionary:
  assumes "\<forall>a b. cmp a b = 0 \<longleftrightarrow> a = b" and "length kvs \<le> 2 ^ 56" and "\<forall>(k, v) \<in> set kvs. v \<noteq> NULL"
  shows "\<exists>m m'. hashmap_new (\<lambda>_. True) 0 cmp = Some m \<and> put_all hm_put1 m kvs = Some m'
    \<and> (\<forall>k. hm_get1 m' k = Some (case map_of (rev kvs) k of None \<Rightarrow> NULL | Some v \<Rightarrow> v))"
proof -
  obtain m where m: "hashmap_new (\<lambda>_. True) 0 cmp = Some m" "growing m" "lookup m = Map.empty"
    using assms(1) by (rule new_growing)
  then show ?thesis using table.get_after_put_all [of m kvs] assms(2,3) by auto
qed

theorem hashmap_dictionary_witness:
  "\<exists>m m'. hashmap_new (\<lambda>_. True) 0 key_cmp = Some m
    \<and> put_all hm_put1 m [([1], 7), ([5], 8), ([1], 9)] = Some m'
    \<and> hm_get1 m' [1] = Some 9 \<and> hm_get1 m' [5] = Some 8 \<and> hm_get1 m' [2] = Some NULL"
  using hashmap_dictionary [of key_cmp "[([1], 7), ([5], 8), ([1], 9)]"]
  by (force simp: key_cmp_def)

text \<open>
  C25. \<^verbatim>\<open>hashmap_delete\<close> of a key that is in a table from which nothing was deleted yet, and which has a
  free slot, returns its value and removes its binding and no other; lookups of all keys still return.
  (Once something was deleted this may fail: see the stop test below.)
\<close>

theorem hashmap_delete_present:
  assumes "clean m" and "card (keys_of m) < table_size m" and "k \<in> keys_of m"
  shows "\<exists>m'. hashmap_delete (Some m) (Some k) = Some (Inr (Some m', the (lookup m k)))
    \<and> hm_inv m' \<and> unique_keys m' \<and> lookup m' = (lookup m)(k := None)
    \<and> (\<forall>k'. hashmap_get (Some m') (Some k') = Some (Inr (case lookup m' k' of None \<Rightarrow> NULL | Some v \<Rightarrow> v)))"
  using remove_present [OF assms] .

theorem hashmap_delete_present_witness:
  "\<exists>m m'. hm_put1 (sample_table 4) [1] 7 = Some m
    \<and> hashmap_delete (Some m) (Some [1]) = Some (Inr (Some m', 7)) \<and> lookup m' = Map.empty"
proof -
  obtain m where m: "hm_put1 (sample_table 4) [1] 7 = Some m" "growing m" "lookup m = [[1] \<mapsto> 7]"
    using table.put_law [OF sample_growing, of 7 "[1]"] sample_counted(2) [OF pow2_small(3)] by auto
  then have "keys_of m = {[1]}" using dom_lookup [of m] by simp
  then show ?thesis using hashmap_delete_present [of m "[1]"] m by (auto simp: growing_def counted_def)
qed

text \<open>
  C35. \<^verbatim>\<open>hashmap_delete\<close> stops its search at deleted slots and not at unused ones, the reverse of
  \<^verbatim>\<open>hashmap_get\<close>: for a key that is not in a table without deleted slots it never returns, however
  many unused slots there are; and when a deleted slot comes first on the probe sequence of a key, it
  returns null and leaves the table as it is, although \<^verbatim>\<open>hashmap_get\<close> finds the key.
\<close>

theorem hashmap_delete_stop_test:
  assumes "hm_inv m"
  shows "(k \<notin> keys_of m \<and> (\<forall>i < table_size m. \<not> tombstone m i) \<longrightarrow>
      hashmap_delete (Some m) (Some k) = None)
    \<and> (tombstone m (key_slot m k n) \<and> (\<forall>n' < n. key_at m (key_slot m k n') \<noteq> Some k) \<longrightarrow>
      hashmap_delete (Some m) (Some k) = Some (Inr (Some m, NULL))
      \<and> (k \<in> keys_of m \<longrightarrow> hashmap_get (Some m) (Some k) = Some (Inr (the (lookup m k)))))"
proof (intro conjI [of "_ \<longrightarrow> _"] impI)
  have shape: "hm_shape m" using assms by (simp add: hm_inv_def)
  {
    assume "k \<notin> keys_of m \<and> (\<forall>i < table_size m. \<not> tombstone m i)"
    then show "hashmap_delete (Some m) (Some k) = None" using remove_absent [OF shape] by blast
  next
    assume n: "tombstone m (key_slot m k n) \<and> (\<forall>n' < n. key_at m (key_slot m k n') \<noteq> Some k)"
    define l where "l = (LEAST n. tombstone m (key_slot m k n))"
    have l: "tombstone m (key_slot m k l)" unfolding l_def using conjunct1 [OF n] by (rule LeastI)
    have "l \<le> n" unfolding l_def using conjunct1 [OF n] by (rule Least_le)
    then have "\<not> tombstone m (key_slot m k n') \<and> key_at m (key_slot m k n') \<noteq> Some k" if "n' < l" for n'
      using not_less_Least [of n' "\<lambda>n. tombstone m (key_slot m k n)"] that n \<open>l \<le> n\<close> by (simp add: l_def)
    then have "delete_loop m k (string_hash k) (string_hash k) = Some (Inr (m, NULL))"
      using delete_loop_result [OF shape, of l k] l by simp
    moreover have "get_loop m k (string_hash k) (string_hash k) = Some (Inr (the (lookup m k)))"
      if "k \<in> keys_of m"
      using get_loop_lookup [OF assms, of k] that by (auto simp: lookup_def)
    ultimately show "hashmap_delete (Some m) (Some k) = Some (Inr (Some m, NULL))
        \<and> (k \<in> keys_of m \<longrightarrow> hashmap_get (Some m) (Some k) = Some (Inr (the (lookup m k))))"
      by (simp add: hashmap_delete_def hashmap_get_def Let_def)
  }
qed

theorem hashmap_delete_stop_test_witness:
  "hashmap_delete (Some (sample_table 4)) (Some [1]) = None
    \<and> hashmap_delete (Some sample_deleted) (Some [5]) = Some (Inr (Some sample_deleted, NULL))
    \<and> hashmap_get (Some sample_deleted) (Some [5]) = Some (Inr 8)"
proof -
  have "clean (sample_table 4)" using sample_growing by (simp add: growing_def counted_def)
  then have "hm_inv (sample_table 4)" "\<forall>i < table_size (sample_table 4). \<not> tombstone (sample_table 4) i"
    using clean_tombstone by (auto simp: clean_def)
  then show ?thesis
    using hashmap_delete_stop_test [of "sample_table 4" "[1]" 0]
      hashmap_delete_stop_test [OF sample_deleted_inv, of "[5]" 0]
      sample_keys [OF pow2_small(3)] sample_deleted_simps sample_slots
    by simp
qed

text \<open>
  C36. \<^verbatim>\<open>hashmap_put\<close> reuses the first deleted slot on the probe sequence without looking further
  for the key: when the key is stored behind that slot, it is stored twice, and after the new value is
  deleted again \<^verbatim>\<open>hashmap_get\<close> returns the old value of the deleted key.
\<close>

theorem hashmap_stale_value:
  assumes "dirty m" and "unat (huse m) + 1 < 2 ^ 64" and "k \<in> keys_of m"
    and "tombstone m (key_slot m k n)" and "\<forall>n' < n. key_at m (key_slot m k n') \<noteq> Some k"
  shows "\<exists>m1 m2. hashmap_put mem (Some m) (Some k) v = Some (Inr (Some m1, 1))
    \<and> hashmap_delete (Some m1) (Some k) = Some (Inr (Some m2, v))
    \<and> hashmap_get (Some m2) (Some k) = Some (Inr (the (lookup m k)))"
proof -
  have inv: "hm_inv m" and shape: "hm_shape m" using assms(1) by (auto simp: dirty_def hm_inv_def)
  define l where "l = (LEAST n. tombstone m (key_slot m k n))"
  define i where "i = key_slot m k l"
  have ti: "tombstone m i" unfolding i_def l_def using assms(4) by (rule LeastI)
  have "l \<le> n" unfolding l_def using assms(4) by (rule Least_le)
  have before: "\<not> tombstone m (key_slot m k n')" "key_at m (key_slot m k n') \<noteq> Some k" if "n' < l" for n'
    using not_less_Least [of n' "\<lambda>n. tombstone m (key_slot m k n)"] that assms(5) \<open>l \<le> n\<close>
    by (simp_all add: l_def)
  have i: "i < table_size m" "key_at m i = None" "key_at m i \<noteq> Some k"
    using ti key_slot_less [OF shape] by (simp_all add: i_def tombstone_def)
  \<comment> \<open>The stored key is reachable, so no unused slot comes before the deleted one.\<close>
  have used: "key_at m (key_slot m k n') \<noteq> None" if "n' < l" for n'
    using reachable_path [OF inv assms(3), of l] before that by (auto simp: tombstone_def unused_def)
  define e where "e = \<lparr>ekey = Some k, evalue = v, isdel = False\<rparr>"
  define m1 where "m1 = put_entry m i e (huse m + 1)"
  define m2 where "m2 = put_entry m i (e\<lparr>ekey := None, isdel := True\<rparr>) (huse m + 1)"
  have "put_loop m k v (string_hash k) (string_hash k) = Some (Inr m1)"
    using put_loop_result [OF shape, of l k v] used before i
    by (simp add: m1_def e_def put_entry_def flip: i_def)
  then have put: "put_at 2 mem m k v = Some (Inr m1)" using dirty_no_resize [OF assms(1)] by simp
  have "delete_loop m1 k (string_hash k) (string_hash k) = Some (Inr (m2, v))"
  proof -
    have at: "key_at m1 j = (if j = i then Some k else key_at m j)"
      "tombstone m1 j = (j \<noteq> i \<and> tombstone m j)" for j
      using put_entry_at [OF shape i(1)] by (simp_all add: m1_def e_def)
    have shape1: "hm_shape m1" and slot1: "key_slot m1 k = key_slot m k"
      using shape by (simp_all add: m1_def fun_eq_iff)
    have none: "\<not> tombstone m1 (key_slot m1 k n') \<and> key_at m1 (key_slot m1 k n') \<noteq> Some k"
      if "n' < l" for n'
      unfolding slot1 at using before [OF that] used [OF that] i(2) by auto
    have hit: "key_at m1 (key_slot m1 k l) = Some k" "\<not> tombstone m1 (key_slot m1 k l)"
      unfolding slot1 at i_def [symmetric] by simp_all
    have len: "i < length (entrys m)" using i(1) shape by (simp add: hm_shape_def)
    have "delete_loop m1 k (string_hash k) (string_hash k) = Some (Inr
        (m1\<lparr>entrys := (entrys m1)[i := (entrys m1 ! i)\<lparr>ekey := None, isdel := True\<rparr>]\<rparr>, evalue (entrys m1 ! i)))"
      using delete_loop_result [OF shape1 none disjI2 [OF hit(1)]] hit(2) slot1 by (simp add: i_def)
    moreover have "entrys m1 ! i = e" using len by (simp add: m1_def put_entry_def)
    ultimately show ?thesis by (simp add: m1_def m2_def e_def put_entry_def)
  qed
  moreover have "hm_inv m2" unfolding m2_def using inv i(1) by (rule mark_inv) simp_all
  moreover have "lookup m2 k = lookup m k"
    unfolding m2_def using shape i(1,3) by (rule put_entry_lookup_other) simp
  moreover have "k \<in> keys_of m2" using calculation(3) assms(3) by (metis dom_lookup domIff)
  ultimately show ?thesis
    using put get_loop_lookup [of m2 k] assms(3)
    by (simp add: hashmap_put_def hashmap_delete_def hashmap_get_def Let_def lookup_def del: put_at.simps)
qed

theorem hashmap_stale_value_witness:
  "run_ops (\<lambda>_. True) (Some (sample_table 4)) [Put [1] 7, Put [5] 8, Remove [1]] = Some (Inr (Some sample_deleted))
    \<and> (\<exists>m1 m2. hashmap_put (\<lambda>_. True) (Some sample_deleted) (Some [5]) 9 = Some (Inr (Some m1, 1))
      \<and> hashmap_delete (Some m1) (Some [5]) = Some (Inr (Some m2, 9))
      \<and> hashmap_get (Some m2) (Some [5]) = Some (Inr 8))"
  using hashmap_stale_value [of sample_deleted "[5]" 0 "\<lambda>_. True" 9] sample_deleted_run
    sample_deleted_simps sample_slots by simp

text \<open>
  C37. Once an entry was deleted, the size of the table never changes again, whatever calls of
  \<^verbatim>\<open>hashmap_put\<close> and \<^verbatim>\<open>hashmap_delete\<close> follow and whether or not memory is available: every resize
  step throws its new table away, because \<^verbatim>\<open>use\<close> counts deleted slots. So the table can never hold
  more keys than it has slots at the first deletion.
\<close>

theorem hashmap_size_frozen:
  assumes "dirty m" and "unat (huse m) + length ops < 2 ^ 64"
    and "run_ops mem (Some m) ops = Some r"
  shows "\<exists>m'. r = Inr (Some m') \<and> hsize m' = hsize m \<and> dirty m' \<and> card (keys_of m') \<le> table_size m"
proof -
  obtain m' where m': "r = Inr (Some m')" "dirty m'" "hsize m' = hsize m"
    using dirty_run_ops [OF assms] by blast
  moreover have "card (keys_of m') \<le> table_size m" using card_keys_le [of m'] m'(3) by simp
  ultimately show ?thesis by blast
qed

theorem hashmap_size_frozen_witness:
  "\<exists>m'. run_ops (\<lambda>_. False) (Some sample_deleted) [Put [1] 7, Put [9] 3, Remove [1]] = Some (Inr (Some m'))
    \<and> hsize m' = 4"
proof -
  have hash: "string_hash [9] = 1152003464"
    by (simp add: string_hash_def Let_def push_bit_eq_mult scast_eq)
  obtain r where r: "run_ops (\<lambda>_. False) (Some sample_deleted) [Put [1] 7, Put [9] 3, Remove [1]] = Some r"
  proof -
    have "dirty sample_deleted" "unat (huse sample_deleted) + 1 < 2 ^ 64"
      by (simp_all add: sample_deleted_simps)
    have "run_ops (\<lambda>_. False) (Some sample_deleted) [Put [1] 7, Put [9] 3, Remove [1]] \<noteq> None"
      using dirty_no_resize [of sample_deleted "\<lambda>_. False" "[1]" 7] sample_deleted_simps(6)
      by (simp add: run_op_def hashmap_put_def hashmap_delete_def put_at_two sample_deleted_def
          sample_hashes hash Let_def put_loop.simps delete_loop.simps holds_key_def key_cmp_def
          empty_entry_def hashmap_resize_def hashmap_new_def replicate4)
    then show thesis using that by blast
  qed
  then show ?thesis
    using hashmap_size_frozen [OF sample_deleted_simps(6), of "[Put [1] 7, Put [9] 3, Remove [1]]" "\<lambda>_. False" r]
    by (auto simp: sample_deleted_simps) (simp_all add: sample_deleted_def)
qed

text \<open>
  When every slot holds a key, \<^verbatim>\<open>hashmap_get\<close> of any other key never returns, and neither does
  \<^verbatim>\<open>hashmap_put\<close> when the table was deleted from before, whatever memory is available. A table
  created with one or two slots gets full before the load limit is tested.
\<close>

theorem hashmap_full_diverges:
  assumes "hm_shape m" and "\<forall>i < table_size m. key_at m i \<noteq> None" and "k \<notin> keys_of m"
  shows "hashmap_get (Some m) (Some k) = None
    \<and> (dirty m \<longrightarrow> hashmap_put mem (Some m) (Some k) v = None)"
proof -
  have no: "\<not> (\<exists>i < table_size m. key_at m i = None \<or> key_at m i = Some k)"
    using assms(2,3) by (auto simp: keys_of_def)
  then have "get_loop m k (string_hash k) (string_hash k) \<noteq> Some r" for r
    using no get_loop_returns [of m k "string_hash k" "string_hash k" r] assms(1) unfolding unused_def by blast
  then have get: "get_loop m k (string_hash k) (string_hash k) = None" by (meson not_Some_eq)
  have "put_loop m k v (string_hash k) (string_hash k) \<noteq> Some r" for r
    using no put_loop_returns [of m k v "string_hash k" "string_hash k" r] assms(1) by blast
  then have put: "put_loop m k v (string_hash k) (string_hash k) = None" by (meson not_Some_eq)
  show ?thesis using get put dirty_no_resize [of m mem k v]
    by (simp add: hashmap_get_def hashmap_put_def Let_def del: put_at.simps)
qed

theorem hashmap_full_diverges_witness:
  "hashmap_new (\<lambda>_. True) 2 key_cmp = Some (sample_table 2)
    \<and> (\<exists>m. run_ops (\<lambda>_. True) (Some (sample_table 2)) [Put [1] 7, Put [2] 8] = Some (Inr (Some m))
        \<and> hashmap_get (Some m) (Some [3]) = None)"
proof -
  let ?m = "\<lparr>hsize = 2, huse = 2, compare = key_cmp, entrys =
    [\<lparr>ekey = Some [1], evalue = 7, isdel = False\<rparr>, \<lparr>ekey = Some [2], evalue = 8, isdel = False\<rparr>]\<rparr>"
  have new: "hashmap_new (\<lambda>_. True) 2 key_cmp = Some (sample_table 2)"
    by (simp add: hashmap_new_def sample_table_def)
  have two: "replicate 2 x = [x, x]" for x :: map_entry by (simp add: numeral_eq_Suc)
  have hash: "string_hash [2] = 256000771"
    by (simp add: string_hash_def Let_def push_bit_eq_mult scast_eq)
  have run: "run_ops (\<lambda>_. True) (Some (sample_table 2)) [Put [1] 7, Put [2] 8] = Some (Inr (Some ?m))"
    by (simp add: run_op_def hashmap_put_def put_at_two sample_table_def two sample_hashes hash Let_def
        put_loop.simps holds_key_def key_cmp_def empty_entry_def)
  have "hm_shape ?m" using pow2_small(2) by (simp add: hm_shape_def key_cmp_def)
  moreover have "\<forall>i < table_size ?m. key_at ?m i \<noteq> None" "[3] \<notin> keys_of ?m"
    by (auto simp: key_at_def keys_of_def dest!: less_2_cases)
  ultimately have "hashmap_get (Some ?m) (Some [3]) = None"
    using hashmap_full_diverges [of ?m "[3]"] by blast
  then show ?thesis using new run by blast
qed

text \<open>
  \<^verbatim>\<open>hashmap_map\<close> calls the function once for every binding of the table, in the order of the
  slots, and stores the values it returns: the table then binds every key to the new value of the
  old one. (The function given here records its calls.)
\<close>

theorem hashmap_map_visits:
  assumes "hm_inv m" and "live (entrys m) \<le> unat (huse m)"
  shows "\<exists>m'. hashmap_map (Some m) (Some (\<lambda>k v st. (g k v, st @ [(k, v)]))) st =
      Some (Inr (Some m', st @ bindings (entrys m), 1))
    \<and> hm_inv m' \<and> lookup m' = (\<lambda>k. map_option (g k) (lookup m k))"
proof -
  have rec: "foldl (\<lambda>st (k, v). st @ [(k, v)]) st bs = st @ bs" for bs :: "(cstr \<times> ptr) list"
    by (induction bs arbitrary: st) auto
  obtain m' where "hashmap_map (Some m) (Some (\<lambda>k v st. (g k v, st @ [(k, v)]))) st =
      Some (Inr (Some m', st @ bindings (entrys m), 1))" "hm_inv m'"
      "lookup m' = (\<lambda>k. map_option (g k) (lookup m k))"
    by (rule map_entries [OF assms, of g "\<lambda>k v st. st @ [(k, v)]" st]) (simp only: rec)
  then show ?thesis by blast
qed

theorem hashmap_map_visits_witness:
  "\<exists>m'. hashmap_map (Some sample_deleted) (Some (\<lambda>k v st. (v + 1, st @ [(k, v)]))) [] =
      Some (Inr (Some m', [([5], 8)], 1)) \<and> lookup m' [5] = Some 9"
  using hashmap_map_visits [of sample_deleted "\<lambda>k v. v + 1" "[]"] sample_deleted_inv sample_deleted_simps
  by (auto simp: dirty_def) (simp add: sample_deleted_def empty_entry_def)

end
