(* ===== verification/Blocks.thy ===== *)
theory Blocks
  imports Bloomfilter Hashmap_Growth Poller
begin

text \<open>
  The memory of the structures: which blocks creation takes from the allocator and deletion gives
  back, for \<^verbatim>\<open>bitset.c\<close>, \<^verbatim>\<open>bloomfilter.c\<close>, \<^verbatim>\<open>hashmap.c\<close> and the event loop with its timer heap and back end.

  The other theories hold a structure as one value; here it is the addresses of its blocks. A \<open>store\<close> has
  the live blocks with their sizes, the number of requests served so far and the open \<^verbatim>\<open>epoll\<close> instances.
  The allocator answers a request by an address, null when it fails; \<open>free\<close> is undefined for an
  address that is neither null nor a live block, so that a double free would make the results
  \<open>None\<close>. \<open>block_owner\<close> is the contract of a component that owns memory, interpreted on every one of
  them; the event loop proves its own from that of its back end.
\<close>

section \<open>The allocator\<close>

record store =
  lives :: "ptr \<rightharpoonup> u64"
  served_requests :: nat
  instances :: "int set"

type_synonym allocator = "nat \<Rightarrow> (ptr \<rightharpoonup> u64) \<Rightarrow> u64 \<Rightarrow> ptr"

definition malloc :: "allocator \<Rightarrow> u64 \<Rightarrow> store \<Rightarrow> ptr \<times> store" where
  "malloc al sz st =
     (let p = al (served_requests st) (lives st) sz in
      (p, st\<lparr>served_requests := served_requests st + 1,
        lives := (if p = NULL then lives st else (lives st)(p \<mapsto> sz))\<rparr>))"

definition free :: "ptr \<Rightarrow> store \<Rightarrow> store option" where
  "free p st = do { h \<leftarrow> dealloc (lives st) p; Some (st\<lparr>lives := h\<rparr>) }"

text \<open>What is assumed of an allocator: it never answers by a live block.\<close>

definition allocator_ok :: "allocator \<Rightarrow> bool" where
  "allocator_ok al \<longleftrightarrow> (\<forall>k h sz. al k h sz \<noteq> NULL \<longrightarrow> h (al k h sz) = None)"

section \<open>Containers\<close>

type_synonym bitset_blocks = "ptr \<times> ptr"

definition bitset_create :: "allocator \<Rightarrow> u64 \<Rightarrow> store \<Rightarrow> (bitset_blocks option \<times> store) option" where
  "bitset_create al len st =
     (let (s, st) = malloc al 16 st in
      if s = NULL then Some (None, st)
      else let nbyte = (len + 7) div 8; (bs, st) = malloc al nbyte st in
      if bs = NULL then do { st \<leftarrow> free s st; Some (None, st) }
      else Some (Some (s, bs), st))"

definition bitset_free :: "bitset_blocks option \<Rightarrow> store \<Rightarrow> store option" where
  "bitset_free h st = (case h of
     None \<Rightarrow> Some st
   | Some (s, bs) \<Rightarrow> do { st \<leftarrow> free bs st; free s st })"

text \<open>
  \<open>nb\<close> is the number of bits \<^verbatim>\<open>bloomfilter_new\<close> computes, and \<open>bad\<close> its test of the error rate. The result
  of \<^verbatim>\<open>bitset_new\<close> is not checked.
\<close>

type_synonym bloom_blocks = "ptr \<times> bitset_blocks option"

definition bloomfilter_create :: "allocator \<Rightarrow> bool \<Rightarrow> u64 \<Rightarrow> store \<Rightarrow> (bloom_blocks option \<times> store) option" where
  "bloomfilter_create al bad nb st =
     (if bad then Some (None, st)
      else let (flt, st) = malloc al 40 st in
      if flt = NULL then Some (None, st)
      else do {
        (s, st) \<leftarrow> bitset_create al nb st;
        Some (Some (flt, s), st)
      })"

definition bloomfilter_free :: "bloom_blocks option \<Rightarrow> store \<Rightarrow> store option" where
  "bloomfilter_free flt st = (case flt of
     None \<Rightarrow> Some st
   | Some (f, s) \<Rightarrow> do { st \<leftarrow> bitset_free s st; free f st })"

type_synonym hashmap_blocks = "ptr \<times> ptr"

definition hashmap_create :: "allocator \<Rightarrow> u64 \<Rightarrow> store \<Rightarrow> (hashmap_blocks option \<times> store) option" where
  "hashmap_create al sz st =
     (let (m, st) = malloc al 32 st in
      if m = NULL then Some (None, st)
      else let sz = (if sz = 0 then HASHMAP_INIT_SIZE else sz); (es, st) = malloc al (sz * 24) st in
      if es = NULL then do { st \<leftarrow> free m st; Some (None, st) }
      else Some (Some (m, es), st))"

definition hashmap_free :: "hashmap_blocks option \<Rightarrow> store \<Rightarrow> store option" where
  "hashmap_free mp st = (case mp of
     None \<Rightarrow> Some st
   | Some (m, es) \<Rightarrow> do { st \<leftarrow> free es st; free m st })"

text \<open>
  The resize step takes a new table, exchanges the blocks of entries when all entries were moved
  (\<open>moved\<close>), and frees the new table with what it then has. The puts in between take no memory.
\<close>

definition resize_blocks :: "allocator \<Rightarrow> u64 \<Rightarrow> bool \<Rightarrow> hashmap_blocks \<Rightarrow> store \<Rightarrow> (hashmap_blocks \<times> store) option" where
  "resize_blocks al newsize moved mp st = do {
     (newmap, st) \<leftarrow> hashmap_create al newsize st;
     case newmap of
       None \<Rightarrow> Some (mp, st)
     | Some (nm, nes) \<Rightarrow>
         let (mp, newmap) = (if moved then ((fst mp, nes), (nm, snd mp)) else (mp, (nm, nes))) in do {
           st \<leftarrow> hashmap_free (Some newmap) st;
           Some (mp, st)
         }
   }"

fun resizes :: "allocator \<Rightarrow> (u64 \<times> bool) list \<Rightarrow> hashmap_blocks \<Rightarrow> store \<Rightarrow> (hashmap_blocks \<times> store) option" where
  "resizes al [] mp st = Some (mp, st)"
| "resizes al ((newsize, moved) # rs) mp st = do {
     (mp, st) \<leftarrow> resize_blocks al newsize moved mp st;
     resizes al rs mp st
   }"

section \<open>The event loop\<close>

text \<open>The timer heap: its structure, its array and the pooled timers.\<close>

type_synonym heap_blocks = "ptr \<times> ptr \<times> ptr list"

definition timer_heap_take :: "allocator \<Rightarrow> store \<Rightarrow> (heap_blocks option \<times> store) option" where
  "timer_heap_take al st =
     (let (heap, st) = malloc al 80 st in
      if heap = NULL then Some (None, st)
      else let (ts, st) = malloc al (16 * 8) st in
      if ts = NULL then do { st \<leftarrow> free heap st; Some (None, st) }
      else Some (Some (heap, ts, []), st))"

fun free_each :: "ptr list \<Rightarrow> store \<Rightarrow> store option" where
  "free_each [] st = Some st"
| "free_each (p # ps) st = do { st \<leftarrow> free p st; free_each ps st }"

definition timer_heap_release :: "heap_blocks \<Rightarrow> store \<Rightarrow> store option" where
  "timer_heap_release heap st = (case heap of (h, ts, pool) \<Rightarrow> do {
     st \<leftarrow> free ts st;
     st \<leftarrow> free_each pool st;
     free h st
   })"

text \<open>
  The two back ends. \<open>created\<close> gives what \<^verbatim>\<open>epoll_create\<close> returns, by the instances that are open;
  \<^verbatim>\<open>close\<close> of an instance that is not open is not what the code means to do, and undefined here.
\<close>

datatype poller_blocks = Epoll ptr ptr int | Select ptr

definition epoll_take :: "allocator \<Rightarrow> (int set \<Rightarrow> int) \<Rightarrow> int \<Rightarrow> store \<Rightarrow> (poller_blocks option \<times> store) option" where
  "epoll_take al created nset st =
     (let (p, st) = malloc al 16 st in
      if p = NULL then Some (None, st)
      else let (es, st) = malloc al (word_of_int (12 * nset)) st in
      if es = NULL then do { st \<leftarrow> free p st; Some (None, st) }
      else let fd = created (instances st) in
      if fd = -1 then do { st \<leftarrow> free es st; st \<leftarrow> free p st; Some (None, st) }
      else Some (Some (Epoll p es fd), st\<lparr>instances := insert fd (instances st)\<rparr>))"

definition select_take :: "allocator \<Rightarrow> store \<Rightarrow> (poller_blocks option \<times> store) option" where
  "select_take al st =
     (let (p, st) = malloc al 512 st in
      if p = NULL then Some (None, st) else Some (Some (Select p), st))"

fun poller_release :: "poller_blocks \<Rightarrow> store \<Rightarrow> store option" where
  "poller_release (Epoll p es fd) st =
     (if fd \<notin> instances st then None
      else do {
        st \<leftarrow> free es (st\<lparr>instances := instances st - {fd}\<rparr>);
        free p st
      })"
| "poller_release (Select p) st = free p st"

text \<open>The loop: its structure, its timers, the two arrays and the back end.\<close>

type_synonym loop_blocks = "ptr \<times> heap_blocks \<times> ptr \<times> ptr \<times> poller_blocks"

definition loop_error :: "ptr \<Rightarrow> heap_blocks \<Rightarrow> ptr \<Rightarrow> ptr \<Rightarrow> store \<Rightarrow> (loop_blocks option \<times> store) option" where
  "loop_error loop heap evs acts st = do {
     st \<leftarrow> timer_heap_release heap st;
     st \<leftarrow> free evs st;
     st \<leftarrow> free acts st;
     st \<leftarrow> free loop st;
     Some (None, st)
   }"

definition event_loop_take ::
    "allocator \<Rightarrow> (store \<Rightarrow> (poller_blocks option \<times> store) option) \<Rightarrow> int \<Rightarrow> store \<Rightarrow> (loop_blocks option \<times> store) option"
  where
  "event_loop_take al poller_take maxevents st =
     (let (loop, st) = malloc al 48 st in
      if loop = NULL then Some (None, st)
      else do {
        (heap, st) \<leftarrow> timer_heap_take al st;
        case heap of
          None \<Rightarrow> do { st \<leftarrow> free loop st; Some (None, st) }
        | Some heap \<Rightarrow>
            let (evs, st) = malloc al (word_of_int (32 * maxevents)) st;
              (acts, st) = malloc al (word_of_int (8 * maxevents)) st in
            if evs = NULL \<or> acts = NULL then loop_error loop heap evs acts st
            else do {
              (p, st) \<leftarrow> poller_take st;
              case p of
                None \<Rightarrow> loop_error loop heap evs acts st
              | Some p \<Rightarrow> Some (Some (loop, heap, evs, acts, p), st)
            }
      })"

definition event_loop_release :: "loop_blocks \<Rightarrow> store \<Rightarrow> store option" where
  "event_loop_release l st = (case l of (loop, heap, evs, acts, p) \<Rightarrow> do {
     st \<leftarrow> poller_release p st;
     st \<leftarrow> timer_heap_release heap st;
     st \<leftarrow> free evs st;
     st \<leftarrow> free acts st;
     free loop st
   })"

section \<open>Ownership\<close>

text \<open>
  \<open>owns st0 st fs ps\<close>: the store \<open>st\<close> has the live blocks and the instances of \<open>st0\<close> and, apart from them,
  the blocks \<open>ps\<close> and the instances \<open>fs\<close>.
\<close>

definition owns :: "store \<Rightarrow> store \<Rightarrow> int list \<Rightarrow> ptr list \<Rightarrow> bool" where
  "owns st0 st fs ps \<longleftrightarrow> distinct ps \<and> NULL \<notin> set ps \<and> set ps \<subseteq> dom (lives st) \<and> lives st |` (- set ps) = lives st0
     \<and> distinct fs \<and> set fs \<inter> instances st0 = {} \<and> instances st = set fs \<union> instances st0"

definition same_memory :: "store \<Rightarrow> store \<Rightarrow> bool" where
  "same_memory st st' \<longleftrightarrow> lives st' = lives st \<and> instances st' = instances st"

lemma restrict_all: "m |` UNIV = m"
  by (simp add: restrict_map_def)

lemma owns_start: "owns st st [] []"
  by (simp add: owns_def restrict_all)

lemma owns_nothing: "owns st0 st [] [] \<Longrightarrow> same_memory st0 st"
  by (simp add: owns_def same_memory_def restrict_all)

lemma owns_perm: "owns st0 st fs ps \<Longrightarrow> mset qs = mset ps \<Longrightarrow> owns st0 st fs qs"
  unfolding owns_def by (metis mset_eq_imp_distinct_iff mset_eq_setD)

lemma owns_malloc:
  assumes "allocator_ok al" and "owns st0 st fs ps"
  obtains p st' where "malloc al sz st = (p, st')" and "p = NULL" and "owns st0 st' fs ps"
  | p st' where "malloc al sz st = (p, st')" and "p \<noteq> NULL" and "owns st0 st' fs (p # ps)"
proof -
  obtain p st' where m: "malloc al sz st = (p, st')" by fastforce
  show thesis
  proof (cases "p = NULL")
    case True
    then have "owns st0 st' fs ps" using assms(2) m by (auto simp: owns_def malloc_def Let_def)
    then show thesis using that(1) m True by blast
  next
    case p: False
    then have st': "lives st' = (lives st)(p \<mapsto> sz)" "instances st' = instances st" and fresh: "lives st p = None"
      using assms(1) m by (auto simp: malloc_def Let_def allocator_ok_def)
    have "p \<notin> set ps" using assms(2) fresh by (auto simp: owns_def)
    moreover have "((lives st)(p \<mapsto> sz)) |` (- insert p (set ps)) = lives st |` (- set ps)"
      using fresh by (auto simp: restrict_map_def fun_eq_iff)
    ultimately have "owns st0 st' fs (p # ps)" using assms(2) p st' by (auto simp: owns_def)
    then show thesis using that(2) m p by blast
  qed
qed

lemma owns_free:
  assumes "owns st0 st fs (p # ps)"
  obtains st' where "free p st = Some st'" and "owns st0 st' fs ps"
proof -
  obtain v where v: "lives st p = Some v" "p \<noteq> NULL" using assms by (auto simp: owns_def)
  then have "free p st = Some (st\<lparr>lives := (lives st)(p := None)\<rparr>)" by (simp add: free_def)
  moreover have "lives st |` (- insert p (set ps)) = lives st0" using assms by (simp add: owns_def)
  from this [symmetric] have "lives st0 p = None" by simp
  then have "owns st0 (st\<lparr>lives := (lives st)(p := None)\<rparr>) fs ps"
    using assms by (auto simp: owns_def fun_upd_idem Compl_insert)
  ultimately show thesis by (rule that)
qed

lemma free_NULL [simp]: "free NULL st = Some st"
  by (simp add: free_def)

text \<open>
  The contract of a component that owns memory: creating it takes the blocks and instances of the
  result and nothing else, whatever fails, and releasing it gives them back. \<open>ok\<close> is what is assumed of the
  allocator and the kernel.
\<close>

locale block_owner =
  fixes ok :: bool
    and blocks :: "'h \<Rightarrow> ptr list"
    and fds_of :: "'h \<Rightarrow> int list"
    and acquire :: "store \<Rightarrow> ('h option \<times> store) option"
    and release :: "'h \<Rightarrow> store \<Rightarrow> store option"
  assumes acquire_law: "ok \<Longrightarrow> owns st0 st fs ps \<Longrightarrow> \<exists>r st'. acquire st = Some (r, st') \<and> (case r of
        None \<Rightarrow> owns st0 st' fs ps | Some h \<Rightarrow> owns st0 st' (fds_of h @ fs) (blocks h @ ps))"
    and release_law: "owns st0 st (fds_of h @ fs) (blocks h @ ps) \<Longrightarrow>
      \<exists>st'. release h st = Some st' \<and> owns st0 st' fs ps"
begin

lemma acquire_release:
  assumes ok
  shows "\<exists>r st'. acquire st = Some (r, st') \<and> (case r of None \<Rightarrow> same_memory st st'
    | Some h \<Rightarrow> \<exists>st''. release h st' = Some st'' \<and> same_memory st st'')"
proof -
  obtain r st' where t: "acquire st = Some (r, st')"
      "case r of None \<Rightarrow> owns st st' [] [] | Some h \<Rightarrow> owns st st' (fds_of h @ []) (blocks h @ [])"
    using acquire_law [OF assms owns_start] by blast
  show ?thesis
  proof (cases r)
    case None
    then show ?thesis using t owns_nothing by auto
  next
    case (Some h)
    then have "owns st st' (fds_of h @ []) (blocks h @ [])" using t(2) by simp
    then obtain st'' where "release h st' = Some st''" "owns st st'' [] []" using release_law by blast
    then show ?thesis using t(1) Some owns_nothing by auto
  qed
qed

end

text \<open>The blocks of each component, in the order they are freed.\<close>

definition bitset_list :: "bitset_blocks \<Rightarrow> ptr list" where
  "bitset_list h = [snd h, fst h]"

definition bloom_list :: "bloom_blocks \<Rightarrow> ptr list" where
  "bloom_list h = (case snd h of None \<Rightarrow> [] | Some s \<Rightarrow> bitset_list s) @ [fst h]"

definition heap_list :: "heap_blocks \<Rightarrow> ptr list" where
  "heap_list h = (case h of (hp, ts, pool) \<Rightarrow> ts # pool @ [hp])"

fun poller_list :: "poller_blocks \<Rightarrow> ptr list" where
  "poller_list (Epoll p es fd) = [es, p]"
| "poller_list (Select p) = [p]"

fun poller_fds :: "poller_blocks \<Rightarrow> int list" where
  "poller_fds (Epoll p es fd) = [fd]"
| "poller_fds (Select p) = []"

definition loop_list :: "loop_blocks \<Rightarrow> ptr list" where
  "loop_list l = (case l of (loop, heap, evs, acts, p) \<Rightarrow> poller_list p @ heap_list heap @ [evs, acts, loop])"

section \<open>The components keep the contract\<close>

lemma pair_release:
  assumes "owns st0 st fs (bitset_list h @ ps)"
  shows "\<exists>st'. do { st \<leftarrow> free (snd h) st; free (fst h) st } = Some st' \<and> owns st0 st' fs ps"
proof -
  obtain st1 where 1: "free (snd h) st = Some st1" "owns st0 st1 fs (fst h # ps)"
    using assms owns_free [of st0 st fs "snd h" "fst h # ps"] by (auto simp: bitset_list_def)
  obtain st2 where "free (fst h) st1 = Some st2" "owns st0 st2 fs ps" using owns_free [OF 1(2)] .
  then show ?thesis using 1(1) by simp
qed

text \<open>The pattern of most creations: a second block after the first, which is freed when the second fails.\<close>

definition two_blocks :: "allocator \<Rightarrow> u64 \<Rightarrow> u64 \<Rightarrow> store \<Rightarrow> ((ptr \<times> ptr) option \<times> store) option" where
  "two_blocks al a c st =
     (let (s, st) = malloc al a st in
      if s = NULL then Some (None, st)
      else let (b, st) = malloc al c st in
      if b = NULL then do { st \<leftarrow> free s st; Some (None, st) }
      else Some (Some (s, b), st))"

lemma bitset_create_two: "bitset_create al len st = two_blocks al 16 ((len + 7) div 8) st"
  by (simp only: bitset_create_def two_blocks_def Let_def)

lemma hashmap_create_two:
  "hashmap_create al sz st = two_blocks al 32 ((if sz = 0 then HASHMAP_INIT_SIZE else sz) * 24) st"
  by (simp only: hashmap_create_def two_blocks_def Let_def)

lemma timer_heap_take_two: "timer_heap_take al st = do {
    (r, st) \<leftarrow> two_blocks al 80 (16 * 8) st;
    Some (map_option (\<lambda>(hp, ts). (hp, ts, [])) r, st)
  }"
  unfolding timer_heap_take_def two_blocks_def by (auto simp: Let_def split: prod.splits)

lemma epoll_take_two: "epoll_take al created nset st = do {
    (r, st) \<leftarrow> two_blocks al 16 (word_of_int (12 * nset)) st;
    case r of None \<Rightarrow> Some (None, st)
    | Some (p, es) \<Rightarrow> if created (instances st) = -1 then do { st \<leftarrow> free es st; st \<leftarrow> free p st; Some (None, st) }
      else Some (Some (Epoll p es (created (instances st))), st\<lparr>instances := insert (created (instances st)) (instances st)\<rparr>)
  }"
  unfolding epoll_take_def two_blocks_def by (auto simp: Let_def split: prod.splits)

lemma pair_take:
  assumes al: "allocator_ok al" and o: "owns st0 st fs ps"
  shows "\<exists>r st'. two_blocks al a c st = Some (r, st')
    \<and> (case r of None \<Rightarrow> owns st0 st' fs ps | Some h \<Rightarrow> owns st0 st' fs (bitset_list h @ ps))"
proof (rule owns_malloc [OF al o, of a])
  fix s st1 assume "malloc al a st = (s, st1)" "s = NULL" "owns st0 st1 fs ps"
  then show ?thesis by (simp add: two_blocks_def)
next
  fix s st1 assume s: "malloc al a st = (s, st1)" "s \<noteq> NULL" and o1: "owns st0 st1 fs (s # ps)"
  show ?thesis
  proof (rule owns_malloc [OF al o1, of c])
    fix b st2 assume b: "malloc al c st1 = (b, st2)" "b = NULL" and o2: "owns st0 st2 fs (s # ps)"
    obtain st3 where "free s st2 = Some st3" "owns st0 st3 fs ps" using o2 by (rule owns_free)
    then show ?thesis using s b by (simp add: two_blocks_def)
  next
    fix b st2 assume "malloc al c st1 = (b, st2)" "b \<noteq> NULL" "owns st0 st2 fs (b # s # ps)"
    then show ?thesis using s by (simp add: bitset_list_def two_blocks_def)
  qed
qed

interpretation bitset_owner: block_owner "allocator_ok al" bitset_list "\<lambda>_. []" "bitset_create al len"
    "\<lambda>h. bitset_free (Some h)"
  for al len
proof
  fix st0 st fs ps
  assume "allocator_ok al" "owns st0 st fs ps"
  from pair_take [OF this, of 16 "(len + 7) div 8"]
  show "\<exists>r st'. bitset_create al len st = Some (r, st') \<and> (case r of None \<Rightarrow> owns st0 st' fs ps
      | Some h \<Rightarrow> owns st0 st' ([] @ fs) (bitset_list h @ ps))"
    by (simp only: bitset_create_two append_Nil)
next
  fix st0 st fs ps h
  assume "owns st0 st ([] @ fs) (bitset_list h @ ps)"
  then show "\<exists>st'. bitset_free (Some h) st = Some st' \<and> owns st0 st' fs ps"
    using pair_release [of st0 st fs h ps] by (cases h) (simp add: bitset_free_def)
qed

interpretation table_owner: block_owner "allocator_ok al" bitset_list "\<lambda>_. []" "hashmap_create al sz"
    "\<lambda>h. hashmap_free (Some h)"
  for al sz
proof
  fix st0 st fs ps
  assume "allocator_ok al" "owns st0 st fs ps"
  from pair_take [OF this, of 32 "(if sz = 0 then HASHMAP_INIT_SIZE else sz) * 24"]
  show "\<exists>r st'. hashmap_create al sz st = Some (r, st') \<and> (case r of None \<Rightarrow> owns st0 st' fs ps
      | Some h \<Rightarrow> owns st0 st' ([] @ fs) (bitset_list h @ ps))"
    by (simp only: hashmap_create_two append_Nil)
next
  fix st0 st fs ps h
  assume "owns st0 st ([] @ fs) (bitset_list h @ ps)"
  then show "\<exists>st'. hashmap_free (Some h) st = Some st' \<and> owns st0 st' fs ps"
    using pair_release [of st0 st fs h ps] by (cases h) (simp add: hashmap_free_def)
qed

text \<open>A filter whose bit set could not be allocated owns its structure only.\<close>

interpretation bloom_owner: block_owner "allocator_ok al" bloom_list "\<lambda>_. []" "bloomfilter_create al bad nb"
    "\<lambda>h. bloomfilter_free (Some h)"
  for al bad nb
proof
  fix st0 st fs ps
  assume al: "allocator_ok al" and o: "owns st0 st fs ps"
  show "\<exists>r st'. bloomfilter_create al bad nb st = Some (r, st') \<and> (case r of None \<Rightarrow> owns st0 st' fs ps
      | Some h \<Rightarrow> owns st0 st' ([] @ fs) (bloom_list h @ ps))"
  proof (cases bad)
    case True
    then show ?thesis using o by (simp add: bloomfilter_create_def)
  next
    case False
    show ?thesis
    proof (rule owns_malloc [OF al o, of 40])
      fix f st1 assume "malloc al 40 st = (f, st1)" "f = NULL" "owns st0 st1 fs ps"
      then show ?thesis using False by (simp add: bloomfilter_create_def)
    next
      fix f st1 assume f: "malloc al 40 st = (f, st1)" "f \<noteq> NULL" and o1: "owns st0 st1 fs (f # ps)"
      obtain r st2 where "bitset_create al nb st1 = Some (r, st2)" "case r of None \<Rightarrow> owns st0 st2 fs (f # ps)
          | Some h \<Rightarrow> owns st0 st2 ([] @ fs) (bitset_list h @ f # ps)"
        using bitset_owner.acquire_law [OF al o1] by blast
      then show ?thesis using f False
        by (intro exI [of _ "Some (f, r)"] exI [of _ st2]) (auto simp: bloomfilter_create_def bloom_list_def split: option.splits)
    qed
  qed
next
  fix st0 st fs ps h
  assume o: "owns st0 st ([] @ fs) (bloom_list h @ ps)"
  obtain f b where h: "h = (f, b)" by (cases h)
  have "\<exists>st1. bitset_free b st = Some st1 \<and> owns st0 st1 fs (f # ps)"
    using o bitset_owner.release_law [of st0 st fs _ "f # ps"]
    by (cases b) (auto simp: h bloom_list_def bitset_free_def)
  then obtain st1 where b: "bitset_free b st = Some st1" "owns st0 st1 fs (f # ps)" by blast
  obtain st2 where "free f st1 = Some st2" "owns st0 st2 fs ps" using b(2) by (rule owns_free)
  then show "\<exists>st'. bloomfilter_free (Some h) st = Some st' \<and> owns st0 st' fs ps"
    using b(1) by (simp add: h bloomfilter_free_def)
qed

lemma owns_free_each:
  "owns st0 st fs (qs @ ps) \<Longrightarrow> \<exists>st'. free_each qs st = Some st' \<and> owns st0 st' fs ps"
proof (induction qs arbitrary: st)
  case (Cons q qs)
  obtain st1 where "free q st = Some st1" "owns st0 st1 fs (qs @ ps)"
    using Cons.prems owns_free [of st0 st fs q "qs @ ps"] by auto
  then show ?case using Cons.IH by simp
qed simp

interpretation heap_owner: block_owner "allocator_ok al" heap_list "\<lambda>_. []" "timer_heap_take al" timer_heap_release
  for al
proof
  fix st0 st fs ps
  assume "allocator_ok al" "owns st0 st fs ps"
  from pair_take [OF this] obtain r st' where t: "two_blocks al 80 (16 * 8) st = Some (r, st')"
    and o: "case r of None \<Rightarrow> owns st0 st' fs ps | Some h \<Rightarrow> owns st0 st' fs (bitset_list h @ ps)" by blast
  show "\<exists>r st'. timer_heap_take al st = Some (r, st') \<and> (case r of None \<Rightarrow> owns st0 st' fs ps
      | Some h \<Rightarrow> owns st0 st' ([] @ fs) (heap_list h @ ps))"
    unfolding timer_heap_take_two t using o by (cases r) (auto simp: heap_list_def bitset_list_def)
next
  fix st0 st fs ps h
  assume o: "owns st0 st ([] @ fs) (heap_list h @ ps)"
  obtain hp ts pool where h: "h = (hp, ts, pool)" by (cases h)
  obtain st1 where 1: "free ts st = Some st1" "owns st0 st1 fs (pool @ hp # ps)"
    using o owns_free [of st0 st fs ts "pool @ hp # ps"] by (auto simp: h heap_list_def)
  obtain st2 where 2: "free_each pool st1 = Some st2" "owns st0 st2 fs (hp # ps)"
    using owns_free_each [OF 1(2)] by blast
  obtain st3 where "free hp st2 = Some st3" "owns st0 st3 fs ps" using 2(2) by (rule owns_free)
  then show "\<exists>st'. timer_heap_release h st = Some st' \<and> owns st0 st' fs ps"
    using 1(1) 2(1) by (simp add: h timer_heap_release_def)
qed

text \<open>What is assumed of \<^verbatim>\<open>epoll_create\<close>: it fails, or opens an instance that was not open.\<close>

definition opens_fresh :: "(int set \<Rightarrow> int) \<Rightarrow> bool" where
  "opens_fresh created \<longleftrightarrow> (\<forall>I. created I = -1 \<or> created I \<notin> I)"

lemma owns_instance:
  assumes "owns st0 st fs ps" and "fd \<notin> instances st"
  shows "owns st0 (st\<lparr>instances := insert fd (instances st)\<rparr>) (fd # fs) ps"
  using assms by (auto simp: owns_def)

lemma owns_close:
  assumes "owns st0 st (fd # fs) ps"
  shows "fd \<in> instances st \<and> owns st0 (st\<lparr>instances := instances st - {fd}\<rparr>) fs ps"
  using assms by (auto simp: owns_def)

lemma poller_release_law:
  assumes o: "owns st0 st (poller_fds h @ fs) (poller_list h @ ps)"
  shows "\<exists>st'. poller_release h st = Some st' \<and> owns st0 st' fs ps"
proof (cases h)
  case (Epoll p es fd)
  define st1 where "st1 = st\<lparr>instances := instances st - {fd}\<rparr>"
  have c: "fd \<in> instances st" "owns st0 st1 fs (es # p # ps)"
    using owns_close [of st0 st fd fs "es # p # ps"] o by (simp_all add: Epoll st1_def)
  obtain st2 where 2: "free es st1 = Some st2" "owns st0 st2 fs (p # ps)" using c(2) by (rule owns_free)
  obtain st3 where "free p st2 = Some st3" "owns st0 st3 fs ps" using 2(2) by (rule owns_free)
  then show ?thesis using c(1) 2(1) by (simp add: Epoll st1_def)
next
  case (Select p)
  obtain st1 where "free p st = Some st1" "owns st0 st1 fs ps" using o owns_free [of st0 st fs p ps] by (auto simp: Select)
  then show ?thesis by (simp add: Select)
qed

interpretation epoll_owner: block_owner "allocator_ok al \<and> opens_fresh created" poller_list poller_fds
    "epoll_take al created nset" poller_release
  for al created nset
proof
  fix st0 st fs ps
  assume ok: "allocator_ok al \<and> opens_fresh created" and o: "owns st0 st fs ps"
  obtain r st1 where t: "two_blocks al 16 (word_of_int (12 * nset)) st = Some (r, st1)"
    and o1: "case r of None \<Rightarrow> owns st0 st1 fs ps | Some h \<Rightarrow> owns st0 st1 fs (bitset_list h @ ps)"
    using pair_take [OF conjunct1 [OF ok] o] by blast
  note e = epoll_take_two [of al created nset st, unfolded t]
  show "\<exists>r st'. epoll_take al created nset st = Some (r, st') \<and> (case r of None \<Rightarrow> owns st0 st' fs ps
      | Some h \<Rightarrow> owns st0 st' (poller_fds h @ fs) (poller_list h @ ps))"
  proof (cases r)
    case None
    then show ?thesis using e o1 by simp
  next
    case (Some h)
    obtain p es where h: "h = (p, es)" by (cases h)
    have o2: "owns st0 st1 fs (bitset_list h @ ps)" using o1 Some by simp
    show ?thesis
    proof (cases "created (instances st1) = -1")
      case True
      then show ?thesis using e Some h pair_release [OF o2] by (auto simp: bind_eq_Some_conv)
    next
      case False
      then have "created (instances st1) \<notin> instances st1" using ok by (auto simp: opens_fresh_def)
      from owns_instance [OF o2 this] show ?thesis using e Some h False by (simp add: bitset_list_def)
    qed
  qed
qed (rule poller_release_law)

interpretation select_owner: block_owner "allocator_ok al" poller_list poller_fds "select_take al" poller_release
  for al
proof
  fix st0 st fs ps
  assume al: "allocator_ok al" and o: "owns st0 st fs ps"
  show "\<exists>r st'. select_take al st = Some (r, st') \<and> (case r of None \<Rightarrow> owns st0 st' fs ps
      | Some h \<Rightarrow> owns st0 st' (poller_fds h @ fs) (poller_list h @ ps))"
    by (rule owns_malloc [OF al o, of 512]) (simp_all add: select_take_def)
qed (rule poller_release_law)

text \<open>
  The event loop owns the blocks of its timers and of its back end, whichever that is. Its creation may
  fail at six requests and in the kernel.
\<close>

definition actual :: "ptr \<Rightarrow> ptr list" where
  "actual p = (if p = NULL then [] else [p])"

lemma owns_malloc_actual:
  assumes "allocator_ok al" and "owns st0 st fs ps"
  shows "\<exists>p st'. malloc al a st = (p, st') \<and> owns st0 st' fs (actual p @ ps)"
  by (rule owns_malloc [OF assms, of a]) (auto simp: actual_def)

lemma owns_free_actual:
  assumes "owns st0 st fs (actual p @ ps)"
  shows "\<exists>st'. free p st = Some st' \<and> owns st0 st' fs ps"
  using assms owns_free [of st0 st fs p ps] by (cases "p = NULL") (auto simp: actual_def)

lemma actual_id [simp]: "p \<noteq> NULL \<Longrightarrow> actual p = [p]"
  by (simp add: actual_def)

lemma owned_not_null: "owns st0 st fs (qs @ ps) \<Longrightarrow> p \<in> set qs \<Longrightarrow> p \<noteq> NULL"
  by (auto simp: owns_def)

lemma loop_error_frees:
  assumes "owns st0 st fs (heap_list heap @ actual evs @ actual acts @ loop # ps)" and "loop \<noteq> NULL"
  shows "\<exists>st'. loop_error loop heap evs acts st = Some (None, st') \<and> owns st0 st' fs ps"
proof -
  obtain st1 where 1: "timer_heap_release heap st = Some st1" "owns st0 st1 fs (actual evs @ actual acts @ loop # ps)"
    using heap_owner.release_law [of st0 st fs heap "actual evs @ actual acts @ loop # ps"] assms(1) by auto
  obtain st2 where 2: "free evs st1 = Some st2" "owns st0 st2 fs (actual acts @ loop # ps)"
    using owns_free_actual [OF 1(2)] by blast
  obtain st3 where 3: "free acts st2 = Some st3" "owns st0 st3 fs (loop # ps)" using owns_free_actual [OF 2(2)] by blast
  obtain st4 where "free loop st3 = Some st4" "owns st0 st4 fs ps" using 3(2) by (rule owns_free)
  then show ?thesis using 1(1) 2(1) 3(1) by (simp add: loop_error_def)
qed

definition loop_fds :: "loop_blocks \<Rightarrow> int list" where
  "loop_fds l = (case l of (loop, heap, evs, acts, p) \<Rightarrow> poller_fds p)"

locale loop_memory = block_owner ok poller_list poller_fds poller_take poller_release
  for ok :: bool and poller_take :: "store \<Rightarrow> (poller_blocks option \<times> store) option" +
  fixes al :: allocator
  assumes allocator: "ok \<Longrightarrow> allocator_ok al"
begin

lemma loop_take:
  assumes ok: ok and o: "owns st0 st fs ps"
  shows "\<exists>r st'. event_loop_take al poller_take maxevents st = Some (r, st') \<and> (case r of
      None \<Rightarrow> owns st0 st' fs ps | Some l \<Rightarrow> owns st0 st' (loop_fds l @ fs) (loop_list l @ ps))"
proof (rule owns_malloc [OF allocator [OF ok] o, of 48])
  fix loop st1 assume "malloc al 48 st = (loop, st1)" "loop = NULL" "owns st0 st1 fs ps"
  then show ?thesis by (simp add: event_loop_take_def)
next
  fix loop st1 assume l: "malloc al 48 st = (loop, st1)" "loop \<noteq> NULL" and o1: "owns st0 st1 fs (loop # ps)"
  obtain hr st2 where h: "timer_heap_take al st1 = Some (hr, st2)"
    and o2: "case hr of None \<Rightarrow> owns st0 st2 fs (loop # ps)
      | Some hp \<Rightarrow> owns st0 st2 ([] @ fs) (heap_list hp @ loop # ps)"
    using heap_owner.acquire_law [OF allocator [OF ok] o1] by blast
  show ?thesis
  proof (cases hr)
    case None
    then obtain st3 where "free loop st2 = Some st3" "owns st0 st3 fs ps"
      using o2 owns_free [of st0 st2 fs loop ps] by auto
    then show ?thesis using l h None by (simp add: event_loop_take_def)
  next
    case (Some heap)
    then have o2': "owns st0 st2 fs (heap_list heap @ loop # ps)" using o2 by simp
    obtain evs st3 where e: "malloc al (word_of_int (32 * maxevents)) st2 = (evs, st3)"
        "owns st0 st3 fs (actual evs @ heap_list heap @ loop # ps)"
      using owns_malloc_actual [OF allocator [OF ok] o2'] by blast
    obtain acts st4 where a: "malloc al (word_of_int (8 * maxevents)) st3 = (acts, st4)"
        "owns st0 st4 fs (actual acts @ actual evs @ heap_list heap @ loop # ps)"
      using owns_malloc_actual [OF allocator [OF ok] e(2)] by blast
    then have o4: "owns st0 st4 fs (heap_list heap @ actual evs @ actual acts @ loop # ps)"
      by (elim owns_perm) simp
    show ?thesis
    proof (cases "evs = NULL \<or> acts = NULL")
      case True
      then have "event_loop_take al poller_take maxevents st = loop_error loop heap evs acts st4"
        using l h Some e(1) a(1) by (simp add: event_loop_take_def)
      then show ?thesis using loop_error_frees [OF o4 l(2)] by auto
    next
      case False
      obtain pr st5 where p: "poller_take st4 = Some (pr, st5)" "case pr of
          None \<Rightarrow> owns st0 st5 fs (heap_list heap @ actual evs @ actual acts @ loop # ps)
        | Some p \<Rightarrow> owns st0 st5 (poller_fds p @ fs) (poller_list p @ heap_list heap @ actual evs @ actual acts @ loop # ps)"
        using acquire_law [OF ok o4] by blast
      have t: "event_loop_take al poller_take maxevents st = (case pr of None \<Rightarrow> loop_error loop heap evs acts st5
          | Some p \<Rightarrow> Some (Some (loop, heap, evs, acts, p), st5))"
        using l h Some e(1) a(1) p(1) False by (simp add: event_loop_take_def)
      show ?thesis
      proof (cases pr)
        case None
        then show ?thesis using t p(2) loop_error_frees [OF _ l(2)] by fastforce
      next
        case (Some p')
        then show ?thesis using t p(2) False by (simp add: loop_list_def loop_fds_def)
      qed
    qed
  qed
qed

lemma loop_release:
  assumes o: "owns st0 st (loop_fds l @ fs) (loop_list l @ ps)"
  shows "\<exists>st'. event_loop_release l st = Some st' \<and> owns st0 st' fs ps"
proof -
  obtain loop heap evs acts p where l: "l = (loop, heap, evs, acts, p)" by (cases l)
  have nn: "evs \<noteq> NULL" "acts \<noteq> NULL" "loop \<noteq> NULL" using owned_not_null [OF o] by (auto simp: l loop_list_def)
  obtain st1 where 1: "poller_release p st = Some st1"
      "owns st0 st1 fs (heap_list heap @ actual evs @ actual acts @ loop # ps)"
    using release_law [of st0 st p fs "heap_list heap @ [evs, acts, loop] @ ps"] o nn
    by (auto simp: l loop_list_def loop_fds_def)
  obtain st2 where "loop_error loop heap evs acts st1 = Some (None, st2)" "owns st0 st2 fs ps"
    using loop_error_frees [OF 1(2) nn(3)] by blast
  then show ?thesis using 1(1) by (auto simp: l event_loop_release_def loop_error_def bind_eq_Some_conv)
qed

end

sublocale loop_memory \<subseteq> loop: block_owner ok loop_list loop_fds "event_loop_take al poller_take maxevents"
    event_loop_release
  for maxevents
  by unfold_locales (fact loop_take, fact loop_release)

interpretation epoll_memory: loop_memory "allocator_ok al \<and> opens_fresh created" "epoll_take al created nset" al
  for al created nset
  by unfold_locales simp

interpretation select_memory: loop_memory "allocator_ok al" "select_take al" al
  for al
  by unfold_locales simp

section \<open>Growing\<close>

text \<open>A resize step leaves the table with two blocks, whether or not it gets a new table and moves everything.\<close>

lemma resize_blocks_owns:
  assumes al: "allocator_ok al" and o: "owns st0 st fs (bitset_list mp @ ps)"
  shows "\<exists>mp' st'. resize_blocks al newsize moved mp st = Some (mp', st') \<and> owns st0 st' fs (bitset_list mp' @ ps)"
proof -
  obtain r st1 where c: "hashmap_create al newsize st = Some (r, st1)" and o1: "case r of
      None \<Rightarrow> owns st0 st1 fs (bitset_list mp @ ps)
    | Some nm \<Rightarrow> owns st0 st1 ([] @ fs) (bitset_list nm @ bitset_list mp @ ps)"
    using table_owner.acquire_law [OF al o] by blast
  show ?thesis
  proof (cases r)
    case None
    then show ?thesis using c o1 by (simp add: resize_blocks_def)
  next
    case (Some newmap)
    obtain nm nes m es where p: "newmap = (nm, nes)" "mp = (m, es)" by (cases newmap, cases mp)
    define kept where "kept = (if moved then (m, nes) else (m, es))"
    define old where "old = (if moved then (nm, es) else (nm, nes))"
    have "owns st0 st1 ([] @ fs) (bitset_list old @ bitset_list kept @ ps)"
      using o1 Some by (auto simp: p kept_def old_def bitset_list_def elim!: owns_perm)
    then obtain st2 where "hashmap_free (Some old) st1 = Some st2" "owns st0 st2 fs (bitset_list kept @ ps)"
      using table_owner.release_law by blast
    then show ?thesis using c Some by (auto simp: resize_blocks_def p kept_def old_def)
  qed
qed

lemma resizes_owns:
  assumes "allocator_ok al"
  shows "owns st0 st fs (bitset_list mp @ ps) \<Longrightarrow>
    \<exists>mp' st'. resizes al rs mp st = Some (mp', st') \<and> owns st0 st' fs (bitset_list mp' @ ps)"
proof (induction rs arbitrary: mp st)
  case (Cons r rs)
  obtain newsize moved where r: "r = (newsize, moved)" by (cases r)
  obtain mp1 st1 where "resize_blocks al newsize moved mp st = Some (mp1, st1)" "owns st0 st1 fs (bitset_list mp1 @ ps)"
    using resize_blocks_owns [OF assms Cons.prems] by blast
  then show ?case using Cons.IH by (simp add: r)
qed simp

section \<open>Properties\<close>

text \<open>An allocator that meets the assumption: it answers by the number of the request, while that is free.\<close>

definition numbering :: "(nat \<Rightarrow> bool) \<Rightarrow> allocator" where
  "numbering fails k h sz = (if fails k \<or> h (k + 1) \<noteq> None then NULL else k + 1)"

lemma numbering_ok: "allocator_ok (numbering fails)"
  by (simp add: allocator_ok_def numbering_def)

definition blank :: store where
  "blank = \<lparr>lives = Map.empty, served_requests = 0, instances = {}\<rparr>"

definition third :: "int set \<Rightarrow> int" where
  "third I = (if 3 \<in> I then -1 else 3)"

lemma third_fresh: "opens_fresh third"
  by (simp add: opens_fresh_def third_def)

text \<open>
  C26. A hash table that is created, resized any number of times, with or without success, and freed, and
  a Bloom filter that is created and freed, leave the memory as it was before; a creation that fails
  leaves nothing, and no block is freed that is not live.
\<close>

theorem container_memory:
  assumes al: "allocator_ok al"
  shows "(\<exists>r st1. hashmap_create al sz st = Some (r, st1) \<and> (case r of None \<Rightarrow> same_memory st st1
      | Some mp \<Rightarrow> \<exists>mp' st2 st3. resizes al rs mp st1 = Some (mp', st2) \<and> hashmap_free (Some mp') st2 = Some st3
          \<and> same_memory st st3))
    \<and> (\<exists>r st1. bloomfilter_create al bad nb st = Some (r, st1) \<and> (case r of None \<Rightarrow> same_memory st st1
      | Some flt \<Rightarrow> \<exists>st2. bloomfilter_free (Some flt) st1 = Some st2 \<and> same_memory st st2))"
proof
  obtain r st1 where c: "hashmap_create al sz st = Some (r, st1)"
    and o: "case r of None \<Rightarrow> owns st st1 [] [] | Some h \<Rightarrow> owns st st1 ([] @ []) (bitset_list h @ [])"
    using table_owner.acquire_law [OF al owns_start] by blast
  show "\<exists>r st1. hashmap_create al sz st = Some (r, st1) \<and> (case r of None \<Rightarrow> same_memory st st1
      | Some mp \<Rightarrow> \<exists>mp' st2 st3. resizes al rs mp st1 = Some (mp', st2) \<and> hashmap_free (Some mp') st2 = Some st3
          \<and> same_memory st st3)"
  proof (cases r)
    case None
    then show ?thesis using c o owns_nothing by auto
  next
    case (Some mp)
    obtain mp' st2 where r: "resizes al rs mp st1 = Some (mp', st2)" "owns st st2 ([] @ []) (bitset_list mp' @ [])"
      using resizes_owns [OF al, of st st1 "[]" mp "[]" rs] o Some by auto
    obtain st3 where "hashmap_free (Some mp') st2 = Some st3" "owns st st3 [] []"
      using table_owner.release_law [OF r(2)] by blast
    then show ?thesis using c Some r(1) owns_nothing by auto
  qed
qed (rule bloom_owner.acquire_release [OF al])

theorem container_memory_witness:
  "\<exists>mp st1 mp' st2 st3. hashmap_create (numbering (\<lambda>_. False)) 4 blank = Some (Some mp, st1)
    \<and> resizes (numbering (\<lambda>_. False)) [(8, True), (16, False)] mp st1 = Some (mp', st2)
    \<and> hashmap_free (Some mp') st2 = Some st3 \<and> same_memory blank st3"
  using container_memory [OF numbering_ok, of "\<lambda>_. False" 4 blank "[(8, True), (16, False)]" False 8]
  by (auto simp: hashmap_create_def malloc_def numbering_def blank_def split: option.splits)

lemma loop_sixth_fails:
  "map_option fst (event_loop_take (numbering (\<lambda>k. k = 6)) (epoll_take (numbering (\<lambda>k. k = 6)) third 100) 100 blank)
    = Some None"
  by code_simp

lemma loop_created:
  "\<exists>l. map_option fst (event_loop_take (numbering (\<lambda>_. False)) (epoll_take (numbering (\<lambda>_. False)) third 100) 100 blank)
    = Some (Some l)"
proof -
  have "(case event_loop_take (numbering (\<lambda>_. False)) (epoll_take (numbering (\<lambda>_. False)) third 100) 100 blank of
      Some (Some l, st) \<Rightarrow> loop_fds l = [3] | _ \<Rightarrow> False)" by code_simp
  then show ?thesis by (auto split: option.splits)
qed

text \<open>
  C12. On both back ends a failing creation of the event loop leaves nothing, whichever request fails and
  whatever \<^verbatim>\<open>epoll_create\<close> returns, and a loop that was created and is deleted leaves the memory and the
  open instances as they were. A loop that is deleted with any timers in its pool leaves the timers that are
  still in the heap (\<open>pend\<close>), and only these.
\<close>

theorem event_loop_memory:
  assumes al: "allocator_ok al" and fresh: "opens_fresh created"
    and take: "poller_take = epoll_take al created maxevents \<or> poller_take = select_take al"
  shows "(\<exists>r st1. event_loop_take al poller_take maxevents st = Some (r, st1) \<and> (case r of None \<Rightarrow> same_memory st st1
      | Some l \<Rightarrow> \<exists>st2. event_loop_release l st1 = Some st2 \<and> same_memory st st2))
    \<and> (\<forall>l st1 pend. owns st st1 (loop_fds l) (loop_list l @ pend) \<longrightarrow>
      (\<exists>st2. event_loop_release l st1 = Some st2 \<and> owns st st2 [] pend))"
proof
  show "\<exists>r st1. event_loop_take al poller_take maxevents st = Some (r, st1) \<and> (case r of None \<Rightarrow> same_memory st st1
      | Some l \<Rightarrow> \<exists>st2. event_loop_release l st1 = Some st2 \<and> same_memory st st2)"
    using take epoll_memory.loop.acquire_release [OF conjI [OF al fresh]] select_memory.loop.acquire_release [OF al]
    by blast
  show "\<forall>l st1 pend. owns st st1 (loop_fds l) (loop_list l @ pend) \<longrightarrow>
      (\<exists>st2. event_loop_release l st1 = Some st2 \<and> owns st st2 [] pend)"
    using select_memory.loop.release_law [of st _ _ "[]"] by simp
qed

text \<open>The sixth request fails, and the five blocks taken before are freed.\<close>

theorem event_loop_memory_witness:
  "(\<exists>st1. event_loop_take (numbering (\<lambda>k. k = 6)) (epoll_take (numbering (\<lambda>k. k = 6)) third 100) 100 blank = Some (None, st1)
      \<and> same_memory blank st1)
    \<and> (\<exists>l st1 st2. event_loop_take (numbering (\<lambda>_. False)) (epoll_take (numbering (\<lambda>_. False)) third 100) 100 blank = Some (Some l, st1)
      \<and> event_loop_release l st1 = Some st2 \<and> same_memory blank st2)"
  using event_loop_memory [OF numbering_ok third_fresh disjI1 [OF refl], of "\<lambda>k. k = 6" 100 blank, THEN conjunct1]
    event_loop_memory [OF numbering_ok third_fresh disjI1 [OF refl], of "\<lambda>_. False" 100 blank, THEN conjunct1]
    loop_sixth_fails loop_created
  by (elim exE conjE) (auto split: option.splits)

end
