(* ===== verification/Skiplist.thy ===== *)
theory Skiplist
  imports Dict
begin

text \<open>
  The skip list of \<^verbatim>\<open>skiplist/skiplist.c\<close>.

  The record \<open>skip_node\<close> is a node: \<open>forward\<close> are the pointer slots of the block \<^verbatim>\<open>_create_node\<close>
  requests, with the contents \<open>junk\<close> that \<^verbatim>\<open>malloc\<close> leaves in them. The record \<open>skiplist\<close> is
  \<^verbatim>\<open>struct skiplist\<close> with the heap \<open>snodes\<close> of its nodes (no other code sees them); \<open>draws\<close> counts
  the calls of the library function \<^verbatim>\<open>random\<close> so far, whose results are the parameter \<open>rnd\<close>. An
  operation that allocates a node has the result of \<^verbatim>\<open>malloc\<close> as an argument.

  \<open>None\<close> says that the call never returns or has undefined behaviour (a null pointer followed, an
  access outside the forward slots of a node); \<open>Some r\<close> that it returns \<open>r\<close>.
\<close>

unbundle bit_operations_syntax

record skip_node =
  skey :: "cstr option"
  svalue :: ptr
  forward :: "ptr list"

record skiplist =
  slevel :: nat
  slength :: u64
  scompare :: "cstr \<Rightarrow> cstr \<Rightarrow> int"
  header :: ptr
  stail :: ptr
  snodes :: "ptr \<rightharpoonup> skip_node"
  draws :: nat

type_synonym skip_heap = "ptr \<rightharpoonup> skip_node"

definition SKIPLIST_MAXLEVEL :: nat where
  [simp]: "SKIPLIST_MAXLEVEL = 32"

section \<open>Nodes\<close>

text \<open>\<^verbatim>\<open>x->forward[i]\<close> read and written.\<close>

definition get_forward :: "skip_heap \<Rightarrow> ptr \<Rightarrow> nat \<Rightarrow> ptr option" where
  [mem_defs]: "get_forward h x i = do { nd \<leftarrow> load h x; aload (forward nd) i }"

definition set_forward :: "skip_heap \<Rightarrow> ptr \<Rightarrow> nat \<Rightarrow> ptr \<Rightarrow> skip_heap option" where
  [mem_defs]: "set_forward h x i p = do {
     nd \<leftarrow> load h x;
     fw \<leftarrow> astore (forward nd) i p;
     store h x (nd\<lparr>forward := fw\<rparr>)
   }"

text \<open>
  The request is \<^verbatim>\<open>sizeof(*node) + level*sizeof(struct skiplist_node)\<close> bytes, that is
  \<open>24 + 24 * level\<close>, of which the slots behind the first two fields take all but 16: room for
  \<open>3 * level + 1\<close> pointers.
\<close>

definition create_node :: "(nat \<Rightarrow> ptr) \<Rightarrow> ptr \<Rightarrow> nat \<Rightarrow> cstr option \<Rightarrow> ptr \<Rightarrow> skip_heap \<Rightarrow> skip_heap" where
  "create_node junk node level key v h =
     (if node = NULL then h
      else h(node \<mapsto> \<lparr>skey = key, svalue = v, forward = map junk [0..<((24 + 24 * level) - 16) div 8]\<rparr>))"

fun null_loop :: "nat \<Rightarrow> nat \<Rightarrow> ptr \<Rightarrow> skip_heap \<Rightarrow> skip_heap option" where
  "null_loop 0 i p h = Some h"
| "null_loop (Suc n) i p h = do { h \<leftarrow> set_forward h p i NULL; null_loop n (Suc i) p h }"

text \<open>
  The argument \<open>ok\<close> says whether the request for the structure is served, \<open>node\<close> is the pointer
  obtained for the header node. The result \<open>Some None\<close> is the null pointer.
\<close>

definition skiplist_new ::
    "(nat \<Rightarrow> ptr) \<Rightarrow> bool \<Rightarrow> ptr \<Rightarrow> nat \<Rightarrow> (cstr \<Rightarrow> cstr \<Rightarrow> int) \<Rightarrow> skiplist option option" where
  "skiplist_new junk ok node calls cmp =
     (if \<not> ok then Some None
      else do {
        let h = create_node junk node SKIPLIST_MAXLEVEL None NULL (\<lambda>_. None);
        h \<leftarrow> null_loop SKIPLIST_MAXLEVEL 0 node h;
        Some (Some \<lparr>slevel = 1, slength = 0, scompare = cmp, header = node, stail = NULL,
          snodes = h, draws = calls\<rparr>)
      })"

partial_function (option) free_nodes :: "ptr \<Rightarrow> skip_heap \<Rightarrow> skip_heap option" where
  "free_nodes node h =
     (if node = NULL then Some h
      else do {
        nxt \<leftarrow> get_forward h node 0;
        h \<leftarrow> dealloc h node;
        free_nodes nxt h
      })"

definition skiplist_free :: "skiplist option \<Rightarrow> skip_heap option" where
  "skiplist_free lst = (case lst of
     None \<Rightarrow> Some (\<lambda>_. None)
   | Some s \<Rightarrow> do {
       node \<leftarrow> get_forward (snodes s) (header s) 0;
       h \<leftarrow> dealloc (snodes s) (header s);
       free_nodes node h
     })"

definition skiplist_length :: "skiplist option \<Rightarrow> u64" where
  "skiplist_length lst = (case lst of None \<Rightarrow> 0 | Some s \<Rightarrow> slength s)"

section \<open>Random levels\<close>

text \<open>
  \<^verbatim>\<open>SKIPLIST_P * 0xFFFF\<close> is the \<^verbatim>\<open>double\<close> 16383.75, hence the comparison of the fourfold values.
  The loop has no bound: it returns once a value of \<^verbatim>\<open>random\<close> is large enough.
\<close>

definition low_draw :: "u64 \<Rightarrow> bool" where
  "low_draw r \<longleftrightarrow> 4 * uint (r AND 0xFFFF) < 0xFFFF"

partial_function (option) random_loop :: "(nat \<Rightarrow> u64) \<Rightarrow> nat \<Rightarrow> nat \<Rightarrow> (nat \<times> nat) option" where
  "random_loop rnd n level =
     (if low_draw (rnd n) then random_loop rnd (Suc n) (level + 1) else Some (level, Suc n))"

definition random_level :: "(nat \<Rightarrow> u64) \<Rightarrow> nat \<Rightarrow> (nat \<times> nat) option" where
  "random_level rnd n = do {
     (level, n) \<leftarrow> random_loop rnd n 1;
     Some (if level < SKIPLIST_MAXLEVEL then level else SKIPLIST_MAXLEVEL, n)
   }"

section \<open>Descending the levels\<close>

text \<open>\<^verbatim>\<open>list->compare(y->key, key)\<close>; the header's null key is no argument of the comparison.\<close>

definition compare_at :: "skiplist \<Rightarrow> ptr \<Rightarrow> cstr \<Rightarrow> int option" where
  [mem_defs]: "compare_at s y key = do { nd \<leftarrow> load (snodes s) y; k \<leftarrow> skey nd; Some (scompare s k key) }"

text \<open>The inner \<^verbatim>\<open>while\<close> loop on level \<open>i\<close>.\<close>

partial_function (option) advance :: "skiplist \<Rightarrow> cstr \<Rightarrow> nat \<Rightarrow> ptr \<Rightarrow> ptr option" where
  "advance s key i x = do {
     y \<leftarrow> get_forward (snodes s) x i;
     if y = NULL then Some x
     else do {
       c \<leftarrow> compare_at s y key;
       if c < 0 then advance s key i y else Some x
     }
   }"

text \<open>
  The loop over the levels \<open>n - 1\<close>, ..., 0 that insertion, search and deletion begin with. The
  second result is the array \<open>update\<close> from index 0 on (the search does not keep it).
\<close>

fun descend :: "skiplist \<Rightarrow> cstr \<Rightarrow> nat \<Rightarrow> ptr \<Rightarrow> ptr list \<Rightarrow> (ptr \<times> ptr list) option" where
  "descend s key 0 x update = Some (x, update)"
| "descend s key (Suc i) x update = do {
     x \<leftarrow> advance s key i x;
     descend s key i x (x # update)
   }"

text \<open>\<^verbatim>\<open>y && list->compare(y->key, key) == 0\<close>\<close>

definition has_key :: "skiplist \<Rightarrow> ptr \<Rightarrow> cstr \<Rightarrow> bool option" where
  "has_key s y key =
     (if y = NULL then Some False else do { c \<leftarrow> compare_at s y key; Some (c = 0) })"

section \<open>Insertion, search and deletion\<close>

fun link_loop :: "nat \<Rightarrow> nat \<Rightarrow> ptr \<Rightarrow> ptr list \<Rightarrow> skip_heap \<Rightarrow> skip_heap option" where
  "link_loop 0 i x update h = Some h"
| "link_loop (Suc n) i x update h = do {
     u \<leftarrow> aload update i;
     f \<leftarrow> get_forward h u i;
     h \<leftarrow> set_forward h x i f;
     h \<leftarrow> set_forward h u i x;
     link_loop n (Suc i) x update h
   }"

definition skiplist_insert ::
    "(nat \<Rightarrow> u64) \<Rightarrow> (nat \<Rightarrow> ptr) \<Rightarrow> ptr \<Rightarrow> skiplist option \<Rightarrow> cstr option \<Rightarrow> ptr \<Rightarrow>
     (skiplist option \<times> bool) option" where
  "skiplist_insert rnd junk node lst key v = (case (lst, key) of
     (Some s, Some k) \<Rightarrow>
       if v = NULL then Some (Some s, False)
       else do {
         (x, update) \<leftarrow> descend s k (slevel s) (header s) [];
         y \<leftarrow> get_forward (snodes s) x 0;
         same \<leftarrow> has_key s y k;
         if same then do {
           h \<leftarrow> modify (snodes s) y (svalue_update (\<lambda>_. v));
           Some (Some (s\<lparr>snodes := h\<rparr>), True)
         } else do {
           (level, n) \<leftarrow> random_level rnd (draws s);
           let (update, l) = (if slevel s < level
             then (update @ replicate (level - slevel s) (header s), level)
             else (update, slevel s));
           let h = create_node junk node level (Some k) v (snodes s);
           h \<leftarrow> link_loop level 0 node update h;
           Some (Some (s\<lparr>slevel := l, slength := slength s + 1, snodes := h, draws := n\<rparr>), True)
         }
       }
   | _ \<Rightarrow> Some (lst, False))"

definition skiplist_search :: "skiplist option \<Rightarrow> cstr option \<Rightarrow> ptr option" where
  "skiplist_search lst key = (case (lst, key) of
     (Some s, Some k) \<Rightarrow> do {
       (x, _) \<leftarrow> descend s k (slevel s) (header s) [];
       x \<leftarrow> get_forward (snodes s) x 0;
       found \<leftarrow> has_key s x k;
       if found then do { nd \<leftarrow> load (snodes s) x; Some (svalue nd) } else Some NULL
     }
   | _ \<Rightarrow> Some NULL)"

fun unlink_loop :: "nat \<Rightarrow> nat \<Rightarrow> ptr \<Rightarrow> ptr list \<Rightarrow> skip_heap \<Rightarrow> skip_heap option" where
  "unlink_loop 0 i x update h = Some h"
| "unlink_loop (Suc n) i x update h = do {
     u \<leftarrow> aload update i;
     y \<leftarrow> get_forward h u i;
     if y \<noteq> x then Some h
     else do {
       f \<leftarrow> get_forward h x i;
       h \<leftarrow> set_forward h u i f;
       unlink_loop n (Suc i) x update h
     }
   }"

fun shrink_level :: "skip_heap \<Rightarrow> ptr \<Rightarrow> nat \<Rightarrow> nat option" where
  "shrink_level h top_node 0 = Some 0"
| "shrink_level h top_node (Suc l) =
     (if Suc l > 1 then do {
        y \<leftarrow> get_forward h top_node l;
        if y = NULL then shrink_level h top_node l else Some (Suc l)
      } else Some (Suc l))"

definition skiplist_delete ::
    "skiplist option \<Rightarrow> cstr option \<Rightarrow> (skiplist option \<times> ptr) option" where
  "skiplist_delete lst key = (case (lst, key) of
     (Some s, Some k) \<Rightarrow> do {
       (x, update) \<leftarrow> descend s k (slevel s) (header s) [];
       x \<leftarrow> get_forward (snodes s) x 0;
       found \<leftarrow> has_key s x k;
       if found then do {
         h \<leftarrow> unlink_loop (slevel s) 0 x update (snodes s);
         nd \<leftarrow> load h x;
         h \<leftarrow> dealloc h x;
         l \<leftarrow> shrink_level h (header s) (slevel s);
         Some (Some (s\<lparr>slevel := l, slength := slength s - 1, snodes := h\<rparr>), svalue nd)
       } else Some (Some s, NULL)
     }
   | _ \<Rightarrow> Some (lst, NULL))"

section \<open>Chains of forward pointers\<close>

text \<open>
  \<open>nxt h i p\<close> is the pointer of node \<open>p\<close> on level \<open>i\<close>.
\<close>

definition node_key :: "skip_heap \<Rightarrow> ptr \<Rightarrow> cstr" where
  "node_key h p = the (skey (the (h p)))"

definition node_value :: "skip_heap \<Rightarrow> ptr \<Rightarrow> ptr" where
  "node_value h p = svalue (the (h p))"

definition node_height :: "skip_heap \<Rightarrow> ptr \<Rightarrow> nat" where
  "node_height h p = (length (forward (the (h p))) - 1) div 3"

definition nxt :: "skip_heap \<Rightarrow> nat \<Rightarrow> ptr \<Rightarrow> ptr" where
  "nxt h i p = forward (the (h p)) ! i"

section \<open>The invariant\<close>

text \<open>
  What the code relies on of the client's comparison: it orders the keys, as \<^verbatim>\<open>strcmp\<close> does.
\<close>

definition key_order :: "(cstr \<Rightarrow> cstr \<Rightarrow> int) \<Rightarrow> bool" where
  "key_order cmp \<longleftrightarrow> (\<forall>a b. cmp a b = 0 \<longleftrightarrow> a = b) \<and> (\<forall>a b. 0 < cmp a b \<longleftrightarrow> cmp b a < 0)
     \<and> (\<forall>a b c. cmp a b < 0 \<longrightarrow> cmp b c < 0 \<longrightarrow> cmp a c < 0)"

lemma key_irrefl: "key_order cmp \<Longrightarrow> \<not> cmp a a < 0"
  by (metis key_order_def less_irrefl)

text \<open>
  \<open>skip_rep s ps\<close>: the list \<open>s\<close> consists of the nodes \<open>ps\<close> behind its header, in the order of their
  keys. On each level the forward pointers lead through those nodes that are high enough.
\<close>

definition nodes_ok :: "skiplist \<Rightarrow> ptr list \<Rightarrow> bool" where
  "nodes_ok s ps \<longleftrightarrow> distinct (NULL # header s # ps) \<and> dom (snodes s) = insert (header s) (set ps)
     \<and> length (forward (the (snodes s (header s)))) = 97
     \<and> (\<forall>p \<in> set ps. skey (the (snodes s p)) \<noteq> None
          \<and> length (forward (the (snodes s p))) = 3 * node_height (snodes s) p + 1
          \<and> 1 \<le> node_height (snodes s) p \<and> node_height (snodes s) p \<le> slevel s)"

definition level_ok :: "skiplist \<Rightarrow> ptr list \<Rightarrow> bool" where
  "level_ok s ps \<longleftrightarrow> 1 \<le> slevel s \<and> slevel s \<le> SKIPLIST_MAXLEVEL
     \<and> (1 < slevel s \<longrightarrow> (\<exists>p \<in> set ps. node_height (snodes s) p = slevel s))"

definition keys_ok :: "skiplist \<Rightarrow> ptr list \<Rightarrow> bool" where
  "keys_ok s ps \<longleftrightarrow>
     sorted_wrt (\<lambda>p q. scompare s (node_key (snodes s) p) (node_key (snodes s) q) < 0) ps"

definition tower :: "skip_heap \<Rightarrow> nat \<Rightarrow> ptr list \<Rightarrow> ptr list" where
  "tower h i ps = filter (\<lambda>p. i < node_height h p) ps"

definition links_ok :: "skiplist \<Rightarrow> ptr list \<Rightarrow> bool" where
  "links_ok s ps \<longleftrightarrow>
     (\<forall>i < SKIPLIST_MAXLEVEL. linked (nxt (snodes s) i) (header s # tower (snodes s) i ps) NULL)"

definition skip_rep :: "skiplist \<Rightarrow> ptr list \<Rightarrow> bool" where
  "skip_rep s ps \<longleftrightarrow> nodes_ok s ps \<and> level_ok s ps \<and> keys_ok s ps \<and> links_ok s ps
     \<and> unat (slength s) = length ps"

lemma get_forward_nxt:
  "p \<noteq> NULL \<Longrightarrow> p \<in> dom h \<Longrightarrow> i < length (forward (the (h p))) \<Longrightarrow> get_forward h p i = Some (nxt h i p)"
  by (auto simp: get_forward_def nxt_def)

definition at_level :: "skip_heap \<Rightarrow> nat \<Rightarrow> ptr \<Rightarrow> bool" where
  "at_level h i p \<longleftrightarrow> p \<noteq> NULL \<and> p \<in> dom h \<and> i < length (forward (the (h p)))"

lemma at_level_forward: "at_level h i p \<Longrightarrow> get_forward h p i = Some (nxt h i p)"
  by (simp add: at_level_def get_forward_nxt)

lemma rep_node:
  assumes "skip_rep s ps" and "p \<in> set ps"
  shows "p \<noteq> NULL" "p \<noteq> header s" "p \<in> dom (snodes s)" "skey (the (snodes s p)) \<noteq> None"
    "length (forward (the (snodes s p))) = 3 * node_height (snodes s) p + 1"
    "1 \<le> node_height (snodes s) p" "node_height (snodes s) p \<le> slevel s"
    "node_height (snodes s) p \<le> SKIPLIST_MAXLEVEL"
proof -
  have ok: "nodes_ok s ps" and lv: "slevel s \<le> SKIPLIST_MAXLEVEL"
    using assms(1) by (simp_all add: skip_rep_def level_ok_def)
  have "NULL \<notin> set ps" "header s \<notin> set ps" using ok by (simp_all add: nodes_ok_def)
  then show "p \<noteq> NULL" "p \<noteq> header s" using assms(2) by metis+
  show "p \<in> dom (snodes s)" using ok assms(2) by (simp add: nodes_ok_def)
  have n: "skey (the (snodes s p)) \<noteq> None
      \<and> length (forward (the (snodes s p))) = 3 * node_height (snodes s) p + 1
      \<and> 1 \<le> node_height (snodes s) p \<and> node_height (snodes s) p \<le> slevel s"
    using ok assms(2) unfolding nodes_ok_def by blast
  then show "skey (the (snodes s p)) \<noteq> None"
      "length (forward (the (snodes s p))) = 3 * node_height (snodes s) p + 1"
      "1 \<le> node_height (snodes s) p" "node_height (snodes s) p \<le> slevel s" by blast+
  show "node_height (snodes s) p \<le> SKIPLIST_MAXLEVEL" using n lv by linarith
qed

lemma reaches_header: "skip_rep s ps \<Longrightarrow> i < SKIPLIST_MAXLEVEL \<Longrightarrow> at_level (snodes s) i (header s)"
  by (auto simp: skip_rep_def nodes_ok_def at_level_def)

lemma reaches_tower:
  assumes "skip_rep s ps" and "p \<in> set (tower (snodes s) i ps)"
  shows "at_level (snodes s) i p"
proof -
  have "p \<in> set ps" "i < node_height (snodes s) p" using assms(2) by (auto simp: tower_def)
  then show ?thesis using rep_node [OF assms(1), of p] unfolding at_level_def by linarith
qed

lemma compare_at_node:
  assumes "skip_rep s ps" and "p \<in> set ps"
  shows "compare_at s p k = Some (scompare s (node_key (snodes s) p) k)"
proof -
  note rep_node(1,3,4) [OF assms]
  then show ?thesis by (auto simp: compare_at_def node_key_def)
qed

section \<open>The descent\<close>

text \<open>The nodes in front of a key, and the node the descent leaves level \<open>i\<close> at.\<close>

definition lower :: "skiplist \<Rightarrow> cstr \<Rightarrow> ptr list \<Rightarrow> ptr list" where
  "lower s k ps = filter (\<lambda>p. scompare s (node_key (snodes s) p) k < 0) ps"

definition upper :: "skiplist \<Rightarrow> cstr \<Rightarrow> ptr list \<Rightarrow> ptr list" where
  "upper s k ps = filter (\<lambda>p. \<not> scompare s (node_key (snodes s) p) k < 0) ps"

definition stop_at :: "skiplist \<Rightarrow> cstr \<Rightarrow> ptr list \<Rightarrow> nat \<Rightarrow> ptr" where
  "stop_at s k ps i = last (header s # tower (snodes s) i (lower s k ps))"

lemma sorted_split:
  assumes "sorted_wrt R ps" and "\<And>x y. R x y \<Longrightarrow> Q y \<Longrightarrow> Q x"
  shows "ps = filter Q ps @ filter (\<lambda>p. \<not> Q p) ps"
  using assms(1)
proof (induction ps)
  case (Cons p ps)
  show ?case
  proof (cases "Q p")
    case True
    then show ?thesis using Cons by simp
  next
    case False
    then have "\<forall>q \<in> set ps. \<not> Q q" using Cons.prems assms(2) by auto
    then have "filter Q ps = []" "filter (\<lambda>p. \<not> Q p) ps = ps" by (simp_all add: filter_empty_conv)
    then show ?thesis using False by simp
  qed
qed simp

lemma lower_upper:
  assumes "skip_rep s ps" and "key_order (scompare s)"
  shows "ps = lower s k ps @ upper s k ps"
  unfolding lower_def upper_def
proof (rule sorted_split)
  show "sorted_wrt (\<lambda>p q. scompare s (node_key (snodes s) p) (node_key (snodes s) q) < 0) ps"
    using assms(1) by (simp add: skip_rep_def keys_ok_def)
qed (use assms(2) in \<open>simp add: key_order_def\<close>)

lemma tower_append [simp]: "tower h i (ps @ qs) = tower h i ps @ tower h i qs"
  by (simp add: tower_def)

lemma rep_links:
  "skip_rep s ps \<Longrightarrow> i < SKIPLIST_MAXLEVEL \<Longrightarrow>
     linked (nxt (snodes s) i) (header s # tower (snodes s) i ps) NULL"
  unfolding skip_rep_def links_ok_def by blast

lemma tower_subset: "i \<le> j \<Longrightarrow> set (tower h j ps) \<subseteq> set (tower h i ps)"
  by (auto simp: tower_def)

lemma upper_all:
  assumes "sorted_wrt (\<lambda>p q. scompare s (node_key (snodes s) p) (node_key (snodes s) q) < 0) (y # bs)"
    and "key_order (scompare s)" and "\<not> scompare s (node_key (snodes s) y) k < 0"
  shows "lower s k (y # bs) = []"
proof -
  have "\<not> scompare s (node_key (snodes s) q) k < 0" if "q \<in> set bs" for q
    using assms that unfolding key_order_def by auto
  then show ?thesis using assms(3) by (simp add: lower_def filter_empty_conv)
qed

lemma advance_along:
  assumes rep: "skip_rep s ps" and ord: "key_order (scompare s)" and i: "i < SKIPLIST_MAXLEVEL"
    and "header s # tower (snodes s) i ps = as @ x # bs"
  shows "advance s k i x = Some (last (x # lower s k bs))"
  using assms(4)
proof (induction bs arbitrary: as x)
  case Nil
  have "linked (nxt (snodes s) i) (as @ [x]) NULL"
    using rep_links [OF rep i] by (simp only: Nil)
  then have "nxt (snodes s) i x = NULL" by simp
  moreover have "x \<in> set (header s # tower (snodes s) i ps)" using Nil by simp
  then have "at_level (snodes s) i x" using reaches_header [OF rep i] reaches_tower [OF rep] by auto
  ultimately show ?case by (simp add: advance.simps at_level_forward lower_def)
next
  case (Cons y bs)
  have "linked (nxt (snodes s) i) (as @ x # y # bs) NULL"
    using rep_links [OF rep i] by (simp only: Cons.prems)
  then have next_x: "nxt (snodes s) i x = y" by simp
  have "x \<in> set (header s # tower (snodes s) i ps)" using Cons.prems by simp
  then have x: "at_level (snodes s) i x" using reaches_header [OF rep i] reaches_tower [OF rep] by auto
  have tail: "tower (snodes s) i ps = tl (as @ [x]) @ y # bs"
    using Cons.prems by (cases as) auto
  then have y: "y \<in> set ps" by (metis filter_is_subset in_set_conv_decomp subsetD tower_def)
  note cmp = compare_at_node [OF rep y, of k] and y0 = rep_node(1) [OF rep y]
  show ?case
  proof (cases "scompare s (node_key (snodes s) y) k < 0")
    case True
    have "advance s k i y = Some (last (y # lower s k bs))"
      by (rule Cons.IH [of "as @ [x]"]) (simp add: Cons.prems)
    then show ?thesis
      using True by (subst advance.simps) (simp add: at_level_forward [OF x] next_x y0 cmp lower_def)
  next
    case False
    have "keys_ok s ps" using rep by (simp add: skip_rep_def)
    then have "keys_ok s (tower (snodes s) i ps)"
      by (simp add: keys_ok_def tower_def sorted_wrt_filter)
    then have "keys_ok s (y # bs)" by (simp add: keys_ok_def tail sorted_wrt_append)
    then have "lower s k (y # bs) = []" by (intro upper_all ord False) (simp only: keys_ok_def)
    then show ?thesis
      using False by (subst advance.simps) (simp add: at_level_forward [OF x] next_x y0 cmp)
  qed
qed

lemma tower_lower: "p \<in> set (tower h i (lower s k ps)) \<Longrightarrow> scompare s (node_key (snodes s) p) k < 0"
  by (simp add: tower_def lower_def)

lemma advance_stop:
  assumes rep: "skip_rep s ps" and ord: "key_order (scompare s)" and i: "i < SKIPLIST_MAXLEVEL"
    and x: "x \<in> set (header s # tower (snodes s) i (lower s k ps))"
  shows "advance s k i x = Some (stop_at s k ps i)"
proof -
  let ?L = "tower (snodes s) i (lower s k ps)" and ?U = "tower (snodes s) i (upper s k ps)"
  obtain as cs where split: "header s # ?L = as @ x # cs" using x by (meson split_list)
  have all: "tower (snodes s) i ps = ?L @ ?U" by (metis lower_upper [OF rep ord] tower_append)
  have sub: "set cs \<subseteq> set ?L" using split by (cases as) auto
  have "lower s k cs = cs" using sub tower_lower unfolding lower_def by (metis filter_True subsetD)
  moreover have "lower s k ?U = []" by (auto simp: lower_def upper_def tower_def filter_empty_conv)
  ultimately have "lower s k (cs @ ?U) = cs" by (simp add: lower_def)
  moreover have "header s # tower (snodes s) i ps = as @ x # (cs @ ?U)" using split all by simp
  ultimately have "advance s k i x = Some (last (x # cs))"
    using advance_along [OF rep ord i, of as x "cs @ ?U" k] by simp
  moreover have "stop_at s k ps i = last (x # cs)" using split by (simp only: stop_at_def last_append) simp
  ultimately show ?thesis by simp
qed

lemma stop_at_mem: "stop_at s k ps i \<in> set (header s # tower (snodes s) i (lower s k ps))"
  unfolding stop_at_def by (rule last_in_set) simp

lemma descend_stop:
  assumes rep: "skip_rep s ps" and ord: "key_order (scompare s)" and n: "n \<le> SKIPLIST_MAXLEVEL"
    and x: "x \<in> set (header s # tower (snodes s) n (lower s k ps))"
  shows "descend s k n x update =
    Some (if n = 0 then x else stop_at s k ps 0, map (stop_at s k ps) [0..<n] @ update)"
  using n x
proof (induction n arbitrary: x update)
  case (Suc n)
  have "x \<in> set (header s # tower (snodes s) n (lower s k ps))"
    using Suc.prems(2) tower_subset [of n "Suc n" "snodes s" "lower s k ps"] by auto
  then have step: "advance s k n x = Some (stop_at s k ps n)"
    using Suc.prems(1) by (intro advance_stop [OF rep ord]) simp_all
  have "descend s k n (stop_at s k ps n) (stop_at s k ps n # update) =
      Some (if n = 0 then stop_at s k ps n else stop_at s k ps 0,
        map (stop_at s k ps) [0..<n] @ stop_at s k ps n # update)"
    using Suc.prems(1) by (intro Suc.IH stop_at_mem) simp
  then show ?case by (auto simp: step)
qed simp

lemma descend_all:
  assumes rep: "skip_rep s ps" and "key_order (scompare s)"
  shows "descend s k (slevel s) (header s) [] =
    Some (stop_at s k ps 0, map (stop_at s k ps) [0..<slevel s])"
proof -
  have "1 \<le> slevel s" "slevel s \<le> SKIPLIST_MAXLEVEL" using rep by (simp_all add: skip_rep_def level_ok_def)
  then show ?thesis using descend_stop [OF assms, of "slevel s" "header s" k "[]"] by simp
qed

section \<open>The bindings of a list\<close>

text \<open>The nodes in order, found from the header on level 0, and the map they stand for.\<close>

fun collect :: "skip_heap \<Rightarrow> nat \<Rightarrow> ptr \<Rightarrow> ptr list" where
  "collect h 0 p = []"
| "collect h (Suc n) p = p # collect h n (nxt h 0 p)"

definition skip_ptrs :: "skiplist \<Rightarrow> ptr list" where
  "skip_ptrs s = collect (snodes s) (unat (slength s)) (nxt (snodes s) 0 (header s))"

definition items :: "skip_heap \<Rightarrow> ptr list \<Rightarrow> (cstr \<times> ptr) list" where
  "items h ps = map (\<lambda>p. (node_key h p, node_value h p)) ps"

definition skip_binding :: "skiplist \<Rightarrow> cstr \<rightharpoonup> ptr" where
  "skip_binding s = map_of (items (snodes s) (skip_ptrs s))"

definition skip_inv :: "skiplist \<Rightarrow> bool" where
  "skip_inv s \<longleftrightarrow> key_order (scompare s) \<and> skip_rep s (skip_ptrs s)"

lemma collect_linked: "linked (nxt h 0) ps b \<Longrightarrow> collect h (length ps) (hd (ps @ [b])) = ps"
  by (induction ps) simp_all

lemma tower_0: "skip_rep s ps \<Longrightarrow> set qs \<subseteq> set ps \<Longrightarrow> tower (snodes s) 0 qs = qs"
  unfolding tower_def using rep_node(6) by (fastforce intro: filter_True)

lemma rep_ptrs: "skip_rep s ps \<Longrightarrow> skip_ptrs s = ps"
  using rep_links [of s ps 0] collect_linked [of "snodes s" ps NULL] tower_0 [of s ps ps]
  by (simp add: skip_ptrs_def) (simp add: skip_rep_def)

lemma rep_inv: "skip_rep s ps \<Longrightarrow> key_order (scompare s) \<Longrightarrow> skip_inv s"
  by (simp add: skip_inv_def rep_ptrs)

lemma rep_keys_distinct:
  assumes "skip_rep s ps" and "key_order (scompare s)"
  shows "distinct (map (node_key (snodes s)) ps)"
proof -
  have "sorted_wrt (\<lambda>p q. scompare s (node_key (snodes s) p) (node_key (snodes s) q) < 0) ps"
    using assms(1) by (simp add: skip_rep_def keys_ok_def)
  moreover note key_irrefl [OF assms(2)]
  ultimately show ?thesis
    by (induction ps) (auto dest!: bspec)
qed

lemma binding_node:
  assumes "skip_rep s ps" and "key_order (scompare s)" and "p \<in> set ps"
  shows "skip_binding s (node_key (snodes s) p) = Some (node_value (snodes s) p)"
proof -
  have "distinct (map fst (items (snodes s) ps))"
    using rep_keys_distinct [OF assms(1,2)] by (simp add: items_def comp_def)
  then show ?thesis
    using assms(3) unfolding skip_binding_def rep_ptrs [OF assms(1)]
    by (intro map_of_is_SomeI) (auto simp: items_def)
qed

lemma binding_none:
  "skip_rep s ps \<Longrightarrow> k \<notin> node_key (snodes s) ` set ps \<Longrightarrow> skip_binding s k = None"
  by (auto simp: skip_binding_def rep_ptrs items_def map_of_eq_None_iff)

lemma dom_binding: "skip_rep s ps \<Longrightarrow> dom (skip_binding s) = node_key (snodes s) ` set ps"
  by (force simp: skip_binding_def rep_ptrs items_def dom_map_of_conv_image_fst)

lemma card_binding:
  assumes "skip_rep s ps" and "key_order (scompare s)"
  shows "card (dom (skip_binding s)) = unat (slength s)"
proof -
  have "card (dom (skip_binding s)) = length (map (node_key (snodes s)) ps)"
    using distinct_card [OF rep_keys_distinct [OF assms]] by (simp add: dom_binding [OF assms(1)])
  then show ?thesis using assms(1) by (simp add: skip_rep_def)
qed

section \<open>Where a key is found\<close>

lemma stop_at_next:
  assumes rep: "skip_rep s ps" and ord: "key_order (scompare s)" and i: "i < SKIPLIST_MAXLEVEL"
  shows "nxt (snodes s) i (stop_at s k ps i) = hd (tower (snodes s) i (upper s k ps) @ [NULL])"
proof -
  have all: "tower (snodes s) i ps = tower (snodes s) i (lower s k ps) @ tower (snodes s) i (upper s k ps)"
    by (metis lower_upper [OF rep ord] tower_append)
  have "linked (nxt (snodes s) i) ((header s # tower (snodes s) i (lower s k ps))
      @ tower (snodes s) i (upper s k ps)) NULL"
    using rep_links [OF rep i] by (simp add: all)
  then have "linked (nxt (snodes s) i) (header s # tower (snodes s) i (lower s k ps))
      (hd (tower (snodes s) i (upper s k ps) @ [NULL]))"
    by (simp only: linked_append)
  then have "linked (nxt (snodes s) i) (butlast (header s # tower (snodes s) i (lower s k ps))
      @ [stop_at s k ps i]) (hd (tower (snodes s) i (upper s k ps) @ [NULL]))"
    by (simp only: stop_at_def append_butlast_last_id list.distinct not_False_eq_True)
  then show ?thesis by simp
qed

lemma stop_at_reaches:
  assumes "skip_rep s ps" and "key_order (scompare s)" and "i < SKIPLIST_MAXLEVEL"
  shows "at_level (snodes s) i (stop_at s k ps i)"
proof -
  have "stop_at s k ps i \<in> set (header s # tower (snodes s) i ps)"
    using stop_at_mem [of s k ps i] by (auto simp: tower_def lower_def)
  then show ?thesis using reaches_header [OF assms(1,3)] reaches_tower [OF assms(1)] by auto
qed

definition candidate :: "skiplist \<Rightarrow> cstr \<Rightarrow> ptr list \<Rightarrow> ptr" where
  "candidate s k ps = hd (upper s k ps @ [NULL])"

lemma upper_subset: "set (upper s k ps) \<subseteq> set ps"
  by (auto simp: upper_def)

lemma candidate_forward:
  assumes "skip_rep s ps" and "key_order (scompare s)"
  shows "get_forward (snodes s) (stop_at s k ps 0) 0 = Some (candidate s k ps)"
  using stop_at_next [OF assms, of 0 k] at_level_forward [OF stop_at_reaches [OF assms, of 0 k]]
    tower_0 [OF assms(1) upper_subset [of s k]]
  by (simp add: candidate_def)

lemma upper_found:
  assumes rep: "skip_rep s ps" and ord: "key_order (scompare s)" and p: "p \<in> set ps" "node_key (snodes s) p = k"
  obtains qs where "upper s k ps = p # qs" and "\<forall>q \<in> set qs. 0 < scompare s (node_key (snodes s) q) k"
proof -
  have eq: "scompare s a b = 0 \<longleftrightarrow> a = b" "0 < scompare s a b \<longleftrightarrow> scompare s b a < 0" for a b
    using ord by (simp_all add: key_order_def)
  have "\<not> scompare s (node_key (snodes s) p) k < 0" using eq(1) [of k k] p(2) by simp
  then have "p \<in> set (upper s k ps)" using p(1) by (simp add: upper_def)
  then obtain y qs where y: "upper s k ps = y # qs" by (cases "upper s k ps") auto
  have "keys_ok s (upper s k ps)"
    using rep by (simp add: skip_rep_def keys_ok_def upper_def sorted_wrt_filter)
  then have srt: "\<forall>q \<in> set qs. scompare s (node_key (snodes s) y) (node_key (snodes s) q) < 0"
    by (simp add: keys_ok_def y)
  have ny: "\<not> scompare s (node_key (snodes s) y) k < 0" using y by (metis Cons_eq_filterD upper_def)
  have "p = y" using \<open>p \<in> set (upper s k ps)\<close> srt ny p(2) y by auto
  moreover have "\<forall>q \<in> set qs. 0 < scompare s (node_key (snodes s) q) k"
    using srt eq(2) p(2) \<open>p = y\<close> by simp
  ultimately show thesis using that y by simp
qed

lemma candidate_found:
  assumes "skip_rep s ps" and "key_order (scompare s)" and "p \<in> set ps" "node_key (snodes s) p = k"
  shows "candidate s k ps = p" and "has_key s p k = Some True"
proof -
  show "candidate s k ps = p" using upper_found [OF assms] by (metis append_Cons candidate_def list.sel(1))
  have "scompare s k k = 0" using assms(2) by (simp add: key_order_def)
  then show "has_key s p k = Some True"
    using compare_at_node [OF assms(1,3), of k] rep_node(1) [OF assms(1,3)] assms(4) by (simp add: has_key_def)
qed

lemma candidate_absent:
  assumes "skip_rep s ps" and "key_order (scompare s)" and "k \<notin> node_key (snodes s) ` set ps"
  shows "has_key s (candidate s k ps) k = Some False"
proof (cases "upper s k ps")
  case Nil
  then show ?thesis by (simp add: candidate_def has_key_def)
next
  case (Cons y qs)
  then have y: "y \<in> set ps" using upper_subset [of s k ps] by auto
  then have "node_key (snodes s) y \<noteq> k" using assms(3) by auto
  then have "scompare s (node_key (snodes s) y) k \<noteq> 0" using assms(2) by (simp add: key_order_def)
  then show ?thesis
    using compare_at_node [OF assms(1) y, of k] rep_node(1) [OF assms(1) y]
    by (simp add: candidate_def has_key_def Cons)
qed

lemma search_binding:
  assumes inv: "skip_inv s"
  shows "skiplist_search (Some s) (Some k) =
    Some (case skip_binding s k of None \<Rightarrow> NULL | Some v \<Rightarrow> v)"
proof -
  let ?ps = "skip_ptrs s"
  have rep: "skip_rep s ?ps" and ord: "key_order (scompare s)" using inv by (simp_all add: skip_inv_def)
  note here = descend_all [OF rep ord] candidate_forward [OF rep ord, of k]
  show ?thesis
  proof (cases "k \<in> node_key (snodes s) ` set ?ps")
    case True
    then obtain p where p: "p \<in> set ?ps" "node_key (snodes s) p = k" by auto
    have "load (snodes s) p = Some (the (snodes s p))"
      using rep_node(1,3) [OF rep p(1)] by (auto simp: load_def)
    moreover have "skip_binding s k = Some (svalue (the (snodes s p)))"
      using binding_node [OF rep ord p(1)] p(2) by (simp add: node_value_def)
    ultimately show ?thesis
      by (simp add: skiplist_search_def here candidate_found [OF rep ord p])
  next
    case False
    then show ?thesis
      using binding_none [OF rep False]
      by (simp add: skiplist_search_def here candidate_absent [OF rep ord False])
  qed
qed

section \<open>Changes of the heap\<close>

text \<open>Only forward pointers differ: \<open>same_shape\<close>. Nothing but values differs: \<open>rep_value\<close>.\<close>

definition same_shape :: "skip_heap \<Rightarrow> skip_heap \<Rightarrow> bool" where
  "same_shape h h' \<longleftrightarrow> dom h' = dom h \<and> (\<forall>p \<in> dom h. skey (the (h' p)) = skey (the (h p))
     \<and> svalue (the (h' p)) = svalue (the (h p))
     \<and> length (forward (the (h' p))) = length (forward (the (h p))))"

lemma same_shape_trans: "same_shape h h' \<Longrightarrow> same_shape h' h'' \<Longrightarrow> same_shape h h''"
  by (simp add: same_shape_def)

lemma same_shape_node:
  assumes "same_shape h h'" and "p \<in> dom h"
  shows "node_key h' p = node_key h p" "node_value h' p = node_value h p"
    "node_height h' p = node_height h p"
  using assms by (simp_all add: same_shape_def node_key_def node_value_def node_height_def)

lemma set_forward_ok:
  assumes "p \<noteq> NULL" and "p \<in> dom h" and "i < length (forward (the (h p)))"
  obtains h' where "set_forward h p i v = Some h'" and "same_shape h h'"
    and "\<And>j q. nxt h' j q = (if q = p \<and> j = i then v else nxt h j q)"
proof -
  obtain nd where nd: "h p = Some nd" using assms(2) by auto
  let ?h = "h(p \<mapsto> nd\<lparr>forward := (forward nd)[i := v]\<rparr>)"
  have "set_forward h p i v = Some ?h" using assms nd by (simp add: set_forward_def)
  moreover have "same_shape h ?h" using nd by (auto simp: same_shape_def)
  moreover have "nxt ?h j q = (if q = p \<and> j = i then v else nxt h j q)" for j q
    using assms(3) nd by (auto simp: nxt_def nth_list_update)
  ultimately show thesis using that by blast
qed

lemma at_level_same:
  assumes "same_shape h h'"
  shows "at_level h' i p = at_level h i p"
proof (cases "p \<in> dom h")
  case True
  then have "p \<in> dom h'" "length (forward (the (h' p))) = length (forward (the (h p)))"
    using assms unfolding same_shape_def by auto
  then show ?thesis using True by (simp add: at_level_def)
next
  case False
  then have "p \<notin> dom h'" using assms by (simp add: same_shape_def)
  then show ?thesis using False by (simp add: at_level_def)
qed

lemma at_level_set:
  assumes "at_level h i p"
  obtains h' where "set_forward h p i v = Some h'" and "same_shape h h'"
    and "\<And>j q. nxt h' j q = (if q = p \<and> j = i then v else nxt h j q)"
  using assms set_forward_ok [of p h i v] by (metis at_level_def)

lemma link_loop_ok:
  assumes "\<And>j. i \<le> j \<Longrightarrow> j < i + n \<Longrightarrow> at_level h j (update ! j) \<and> at_level h j x \<and> update ! j \<noteq> x"
    and "i + n \<le> length update"
  shows "\<exists>h'. link_loop n i x update h = Some h' \<and> same_shape h h' \<and>
    (\<forall>j q. nxt h' j q = (if i \<le> j \<and> j < i + n then
        if q = x then nxt h j (update ! j) else if q = update ! j then x else nxt h j q
      else nxt h j q))"
  using assms
proof (induction n arbitrary: i h)
  case 0
  then show ?case by (simp add: same_shape_def)
next
  case (Suc n)
  let ?u = "update ! i"
  have u: "at_level h i ?u" "at_level h i x" "?u \<noteq> x" using Suc.prems(1) [of i] by simp_all
  obtain h1 where h1: "set_forward h x i (nxt h i ?u) = Some h1" "same_shape h h1"
      "\<And>j q. nxt h1 j q = (if q = x \<and> j = i then nxt h i ?u else nxt h j q)"
    by (rule at_level_set [OF u(2), of "nxt h i ?u"]) (rule that)
  have u1: "at_level h1 i ?u" using u(1) by (simp add: at_level_same [OF h1(2)])
  obtain h2 where h2: "set_forward h1 ?u i x = Some h2" "same_shape h1 h2"
      "\<And>j q. nxt h2 j q = (if q = ?u \<and> j = i then x else nxt h1 j q)"
    by (rule at_level_set [OF u1, of x]) (rule that)
  have shape: "same_shape h h2" using h1(2) h2(2) by (rule same_shape_trans)
  have lv: "at_level h2 j (update ! j) \<and> at_level h2 j x \<and> update ! j \<noteq> x"
    if "Suc i \<le> j" "j < Suc i + n" for j
    using Suc.prems(1) [of j] that by (simp add: at_level_same [OF shape])
  have "Suc i + n \<le> length update" using Suc.prems(2) by simp
  then obtain h' where h': "link_loop n (Suc i) x update h2 = Some h'" "same_shape h2 h'"
      "\<And>j q. nxt h' j q = (if Suc i \<le> j \<and> j < Suc i + n then
        if q = x then nxt h2 j (update ! j) else if q = update ! j then x else nxt h2 j q
      else nxt h2 j q)"
    using Suc.IH [of "Suc i" h2] lv by blast
  have "link_loop (Suc n) i x update h = Some h'"
    using Suc.prems(2) u h1(1) h2(1) h'(1) by (simp add: at_level_forward)
  moreover have "nxt h' j q = (if i \<le> j \<and> j < i + Suc n then
        if q = x then nxt h j (update ! j) else if q = update ! j then x else nxt h j q
      else nxt h j q)" for j q
  proof (cases "j = i")
    case True
    then show ?thesis using u(3) by (simp add: h'(3) h2(3) h1(3))
  next
    case False
    then have "nxt h2 j = nxt h j" by (auto simp: h2(3) h1(3) fun_eq_iff)
    moreover have "Suc i \<le> j \<and> j < Suc i + n \<longleftrightarrow> i \<le> j \<and> j < i + Suc n" using False by auto
    ultimately show ?thesis by (simp only: h'(3))
  qed
  ultimately show ?case using same_shape_trans [OF shape h'(2)] by blast
qed

lemma binding_eqI:
  assumes rep: "skip_rep s ps" and ord: "key_order (scompare s)"
    and "\<And>p. p \<in> set ps \<Longrightarrow> m (node_key (snodes s) p) = Some (node_value (snodes s) p)"
    and "\<And>k. k \<notin> node_key (snodes s) ` set ps \<Longrightarrow> m k = None"
  shows "skip_binding s = m"
proof
  fix k
  show "skip_binding s k = m k"
  proof (cases "k \<in> node_key (snodes s) ` set ps")
    case True
    then show ?thesis using binding_node [OF rep ord] assms(3) by auto
  next
    case False
    then show ?thesis using binding_none [OF rep False] assms(4) by simp
  qed
qed

definition set_value :: "skiplist \<Rightarrow> ptr \<Rightarrow> ptr \<Rightarrow> skiplist" where
  "set_value s p v = s\<lparr>snodes := (snodes s)(p \<mapsto> (the (snodes s p))\<lparr>svalue := v\<rparr>)\<rparr>"

lemma set_value_node:
  assumes "p \<in> dom (snodes s)"
  shows "node_key (snodes (set_value s p v)) = node_key (snodes s)"
    "node_height (snodes (set_value s p v)) = node_height (snodes s)"
    "nxt (snodes (set_value s p v)) = nxt (snodes s)"
    "node_value (snodes (set_value s p v)) = (node_value (snodes s))(p := v)"
  by (auto simp: set_value_def node_key_def node_height_def nxt_def node_value_def fun_eq_iff)

lemma rep_value:
  assumes rep: "skip_rep s ps" and p: "p \<in> set ps"
  shows "skip_rep (set_value s p v) ps"
proof -
  let ?h = "snodes (set_value s p v)"
  have d: "p \<in> dom (snodes s)" using rep_node(3) [OF rep p] .
  have "dom ?h = dom (snodes s)" using d by (auto simp: set_value_def)
  moreover have "skey (the (?h q)) = skey (the (snodes s q))"
      "forward (the (?h q)) = forward (the (snodes s q))" for q
    by (simp_all add: set_value_def)
  moreover have "slevel (set_value s p v) = slevel s" "header (set_value s p v) = header s"
      "scompare (set_value s p v) = scompare s" "slength (set_value s p v) = slength s"
    by (simp_all add: set_value_def)
  ultimately show ?thesis
    using rep unfolding skip_rep_def nodes_ok_def level_ok_def keys_ok_def links_ok_def tower_def
    by (simp only: set_value_node [OF d] simp_thms) blast
qed

lemma binding_value:
  assumes rep: "skip_rep s ps" and ord: "key_order (scompare s)" and p: "p \<in> set ps"
  shows "skip_binding (set_value s p v) = (skip_binding s)(node_key (snodes s) p \<mapsto> v)"
proof (rule binding_eqI)
  let ?h = "snodes (set_value s p v)"
  have d: "p \<in> dom (snodes s)" using rep_node(3) [OF rep p] .
  show "skip_rep (set_value s p v) ps" using rep_value [OF rep p] .
  show "key_order (scompare (set_value s p v))" using ord by (simp add: set_value_def)
  have inj: "node_key (snodes s) q = node_key (snodes s) p \<Longrightarrow> q = p" if "q \<in> set ps" for q
    using rep_keys_distinct [OF rep ord] that p by (auto simp: distinct_map dest: inj_onD)
  show "((skip_binding s)(node_key (snodes s) p \<mapsto> v)) (node_key ?h q) = Some (node_value ?h q)"
    if "q \<in> set ps" for q
    using inj [OF that] binding_node [OF rep ord that] by (auto simp: set_value_node [OF d])
  show "((skip_binding s)(node_key (snodes s) p \<mapsto> v)) k = None" if "k \<notin> node_key ?h ` set ps" for k
    using binding_none [OF rep, of k] that p by (auto simp: set_value_node [OF d])
qed

section \<open>Insertion\<close>

text \<open>The array \<^verbatim>\<open>update\<close> after the levels above the list's own were filled up with the header.\<close>

lemma stop_at_header:
  assumes "skip_rep s ps" and "slevel s \<le> i"
  shows "stop_at s k ps i = header s"
proof -
  have "node_height (snodes s) p \<le> i" if "p \<in> set ps" for p
    using rep_node(7) [OF assms(1) that] assms(2) by simp
  then have "tower (snodes s) i (lower s k ps) = []" by (fastforce simp: tower_def lower_def filter_empty_conv)
  then show ?thesis by (simp add: stop_at_def)
qed

lemma update_stop:
  assumes "skip_rep s ps" and "i < length (map (stop_at s k ps) [0..<slevel s] @ replicate n (header s))"
  shows "(map (stop_at s k ps) [0..<slevel s] @ replicate n (header s)) ! i = stop_at s k ps i"
  using assms stop_at_header [OF assms(1)] by (auto simp: nth_append)

text \<open>
  The heap after the insertion of the node \<open>a\<close> of height \<open>l\<close>: its slots and those of the nodes in front
  of it on the levels below \<open>l\<close> are written.
\<close>

definition spliced :: "skiplist \<Rightarrow> cstr \<Rightarrow> ptr list \<Rightarrow> nat \<Rightarrow> ptr \<Rightarrow> skip_heap \<Rightarrow> skip_heap \<Rightarrow> bool" where
  "spliced s k ps l a h h' \<longleftrightarrow> same_shape h h' \<and> (\<forall>j q. nxt h' j q = (if j < l then
       if q = a then nxt h j (stop_at s k ps j) else if q = stop_at s k ps j then a else nxt h j q
     else nxt h j q))"

lemma created_node:
  fixes h :: skip_heap
  assumes "fresh h a" and "h' = create_node junk a l (Some k) v h"
  shows "node_key h' = (node_key h)(a := k)" "node_value h' = (node_value h)(a := v)"
    "node_height h' = (node_height h)(a := l)" "dom h' = insert a (dom h)"
    "p \<noteq> a \<Longrightarrow> h' p = h p" "skey (the (h' a)) = Some k" "length (forward (the (h' a))) = 3 * l + 1"
proof -
  have len: "(8 + 24 * l) div 8 = 3 * l + 1" by simp
  have h': "h' = h(a \<mapsto> \<lparr>skey = Some k, svalue = v, forward = map junk [0..<3 * l + 1]\<rparr>)"
    using assms by (simp add: create_node_def fresh_def len)
  show "node_key h' = (node_key h)(a := k)" "node_value h' = (node_value h)(a := v)"
    "node_height h' = (node_height h)(a := l)" "dom h' = insert a (dom h)"
    "p \<noteq> a \<Longrightarrow> h' p = h p" "skey (the (h' a)) = Some k" "length (forward (the (h' a))) = 3 * l + 1"
    by (auto simp: h' node_key_def node_value_def node_height_def fun_eq_iff simp del: upt_Suc)
qed

lemma link_new_node:
  assumes rep: "skip_rep s ps" and ord: "key_order (scompare s)" and a: "fresh (snodes s) a"
    and l: "1 \<le> l" "l \<le> SKIPLIST_MAXLEVEL"
    and upd: "update = map (stop_at s k ps) [0..<slevel s] @ replicate (l - slevel s) (header s)"
    and h: "h = create_node junk a l (Some k) v (snodes s)"
  shows "\<exists>h'. link_loop l 0 a update h = Some h' \<and> spliced s k ps l a h h'"
proof -
  have stop: "update ! j = stop_at s k ps j" "at_level (snodes s) j (stop_at s k ps j)" if "j < l" for j
  proof -
    show "update ! j = stop_at s k ps j" unfolding upd using that by (intro update_stop [OF rep]) simp
    show "at_level (snodes s) j (stop_at s k ps j)"
      using that l(2) by (intro stop_at_reaches [OF rep ord]) simp
  qed
  have lv: "at_level h j (update ! j) \<and> at_level h j a \<and> update ! j \<noteq> a" if "j < l" for j
  proof -
    let ?u = "stop_at s k ps j"
    have u: "?u \<noteq> a" using stop(2) [OF that] a by (auto simp: at_level_def fresh_def)
    have "at_level h j ?u"
      using stop(2) [OF that] created_node(4) [OF a h] created_node(5) [OF a h u] by (simp add: at_level_def)
    moreover have "at_level h j a"
      using a that created_node(4,7) [OF a h] by (simp add: at_level_def fresh_def)
    ultimately show ?thesis using u stop(1) [OF that] by simp
  qed
  have len: "0 + l \<le> length update" by (simp add: upd)
  have "at_level h j (update ! j) \<and> at_level h j a \<and> update ! j \<noteq> a" if "0 \<le> j" "j < 0 + l" for j
    using lv [of j] that by simp
  note link_loop_ok [OF this len]
  then obtain h' where h': "link_loop l 0 a update h = Some h'" "same_shape h h'"
      "\<And>j q. nxt h' j q = (if 0 \<le> j \<and> j < 0 + l then
        if q = a then nxt h j (update ! j) else if q = update ! j then a else nxt h j q
      else nxt h j q)"
    by blast
  have "spliced s k ps l a h h'"
    unfolding spliced_def using h'(2,3) stop(1) by (auto simp del: One_nat_def)
  then show ?thesis using h'(1) by blast
qed

definition inserted_list :: "skiplist \<Rightarrow> nat \<Rightarrow> nat \<Rightarrow> skip_heap \<Rightarrow> skiplist" where
  "inserted_list s l n h = s\<lparr>slevel := max l (slevel s), slength := slength s + 1, snodes := h, draws := n\<rparr>"

lemma tower_new:
  "node_height h' = (node_height h)(a := l) \<Longrightarrow> a \<notin> set ps \<Longrightarrow> tower h' i ps = tower h i ps"
  unfolding tower_def by (intro filter_cong) auto

text \<open>The node \<open>a\<close> with key \<open>k\<close>, value \<open>v\<close> and height \<open>l\<close> comes between \<open>lower s k ps\<close> and \<open>upper s k ps\<close>.\<close>

definition splice_ok ::
    "skiplist \<Rightarrow> ptr list \<Rightarrow> cstr \<Rightarrow> ptr \<Rightarrow> ptr \<Rightarrow> nat \<Rightarrow> (nat \<Rightarrow> ptr) \<Rightarrow> skip_heap \<Rightarrow> bool" where
  "splice_ok s ps k v a l junk h' \<longleftrightarrow> skip_rep s ps \<and> key_order (scompare s) \<and> fresh (snodes s) a
     \<and> 1 \<le> l \<and> l \<le> SKIPLIST_MAXLEVEL \<and> k \<notin> node_key (snodes s) ` set ps
     \<and> spliced s k ps l a (create_node junk a l (Some k) v (snodes s)) h'"

lemma fresh_not_node:
  assumes "skip_rep s ps" and "fresh (snodes s) a"
  shows "a \<noteq> NULL" "a \<notin> set ps" "a \<noteq> header s" "a \<notin> dom (snodes s)"
proof -
  show "a \<noteq> NULL" "a \<notin> dom (snodes s)" using assms(2) by (auto simp: fresh_def)
  then show "a \<notin> set ps" "a \<noteq> header s" using assms(1) by (auto simp: skip_rep_def nodes_ok_def)
qed

lemma splice_nodes:
  assumes ok: "splice_ok s ps k v a l junk h'" and p: "p \<in> insert a (dom (snodes s))"
  shows "node_key h' p = (if p = a then k else node_key (snodes s) p)"
    "node_value h' p = (if p = a then v else node_value (snodes s) p)"
    "node_height h' p = (if p = a then l else node_height (snodes s) p)"
    "dom h' = insert a (dom (snodes s))"
    "skey (the (h' p)) = (if p = a then Some k else skey (the (snodes s p)))"
    "length (forward (the (h' p))) =
      (if p = a then 3 * l + 1 else length (forward (the (snodes s p))))"
proof -
  let ?h = "create_node junk a l (Some k) v (snodes s)"
  have a: "fresh (snodes s) a" and same: "same_shape ?h h'"
    using ok by (simp_all add: splice_ok_def spliced_def)
  note new = created_node [OF a refl, where junk = junk and l = l and k = k and v = v]
  have d: "p \<in> dom ?h" using p new(4) by simp
  show "node_key h' p = (if p = a then k else node_key (snodes s) p)"
    "node_value h' p = (if p = a then v else node_value (snodes s) p)"
    "node_height h' p = (if p = a then l else node_height (snodes s) p)"
    using same_shape_node [OF same d] new(1-3) by simp_all
  show "dom h' = insert a (dom (snodes s))" using same new(4) by (simp add: same_shape_def)
  have "skey (the (h' p)) = skey (the (?h p))"
      "length (forward (the (h' p))) = length (forward (the (?h p)))"
    using same d unfolding same_shape_def by auto
  then show "skey (the (h' p)) = (if p = a then Some k else skey (the (snodes s p)))"
    "length (forward (the (h' p))) =
      (if p = a then 3 * l + 1 else length (forward (the (snodes s p))))"
    using new(5-7) by auto
qed

lemma splice_tower:
  assumes ok: "splice_ok s ps k v a l junk h'" and "set qs \<subseteq> set ps"
  shows "tower h' i qs = tower (snodes s) i qs"
proof -
  have rep: "skip_rep s ps" and a: "fresh (snodes s) a" using ok by (simp_all add: splice_ok_def)
  have "node_height h' p = node_height (snodes s) p" if "p \<in> set qs" for p
  proof -
    have "p \<in> set ps" using that assms(2) by auto
    then have "p \<noteq> a" "p \<in> dom (snodes s)" using fresh_not_node(2) [OF rep a] rep_node(3) [OF rep] by auto
    then show ?thesis using splice_nodes(3) [OF ok, of p] by simp
  qed
  then show ?thesis unfolding tower_def by (intro filter_cong refl) simp
qed

lemma lower_subset: "set (lower s k ps) \<subseteq> set ps"
  by (auto simp: lower_def)

lemma splice_links:
  assumes ok: "splice_ok s ps k v a l junk h'" and i: "i < SKIPLIST_MAXLEVEL"
  shows "linked (nxt h' i) (header s # tower h' i (lower s k ps @ a # upper s k ps)) NULL"
proof -
  let ?h = "create_node junk a l (Some k) v (snodes s)" and ?u = "stop_at s k ps i"
  let ?L = "tower (snodes s) i (lower s k ps)" and ?U = "tower (snodes s) i (upper s k ps)"
  have rep: "skip_rep s ps" and ord: "key_order (scompare s)" and a: "fresh (snodes s) a"
    and spl: "spliced s k ps l a ?h h'"
    using ok by (simp_all add: splice_ok_def)
  note new = created_node [OF a refl, where junk = junk and l = l and k = k and v = v] and na = fresh_not_node [OF rep a]
  have all: "tower (snodes s) i ps = ?L @ ?U" by (metis lower_upper [OF rep ord] tower_append)
  have old: "linked (nxt (snodes s) i) (header s # ?L @ ?U) NULL"
    using rep_links [OF rep i] by (simp only: all)
  have sub: "set (?L @ ?U) \<subseteq> set ps" by (auto simp: tower_def lower_def upper_def)
  have keep: "nxt ?h i q = nxt (snodes s) i q" if "q \<noteq> a" for q
    using new(5) [OF that] by (simp add: nxt_def)
  have t: "tower h' i (lower s k ps) = ?L" "tower h' i (upper s k ps) = ?U"
    by (rule splice_tower [OF ok]; rule lower_subset upper_subset)+
  have "tower h' i (a # upper s k ps) = (if i < l then [a] else []) @ ?U"
    using splice_nodes(3) [OF ok, of a] t(2) by (simp add: tower_def)
  then have ta: "tower h' i (lower s k ps @ a # upper s k ps) = ?L @ (if i < l then [a] else []) @ ?U"
    by (simp only: tower_append t(1))
  have split: "header s # ?L = butlast (header s # ?L) @ [?u]"
    by (simp only: stop_at_def append_butlast_last_id list.distinct not_False_eq_True)
  have "distinct ps" "header s \<notin> set ps" using rep by (simp_all add: skip_rep_def nodes_ok_def)
  then have "distinct (tower (snodes s) i ps)" "header s \<notin> set (?L @ ?U)"
    using sub by (auto simp: tower_def)
  then have dist: "distinct ((header s # ?L) @ ?U)" by (simp add: all)
  have notin: "a \<notin> set ((header s # ?L) @ ?U)" using sub na(2,3) by auto
  have u: "?u \<noteq> a" using notin split by (metis UnCI in_set_conv_decomp set_append)
  show ?thesis
  proof (cases "i < l")
    case True
    have n: "nxt h' i q = (if q = a then nxt (snodes s) i ?u else if q = ?u then a else nxt (snodes s) i q)" for q
      using spl True keep [OF u] keep [of q] by (simp add: spliced_def)
    have "linked (nxt h' i) (butlast (header s # ?L) @ [?u] @ a # ?U) NULL"
    proof (rule linked_insert)
      show "linked (nxt (snodes s) i) (butlast (header s # ?L) @ [?u] @ ?U) NULL"
        using old split by (metis append.assoc append_Cons)
      show "distinct (butlast (header s # ?L) @ [?u] @ ?U)"
        "a \<notin> set (butlast (header s # ?L) @ [?u] @ ?U)"
        using dist notin split by (metis append.assoc)+
    qed (use u n in simp_all)
    then have "linked (nxt h' i) ((header s # ?L) @ a # ?U) NULL"
      using split by (metis append.assoc)
    then show ?thesis using True by (simp only: ta if_True) simp
  next
    case False
    have same: "nxt h' i q = nxt (snodes s) i q" if "q \<noteq> a" for q
      using spl False keep [OF that] by (simp add: spliced_def)
    have "nxt h' i q = nxt (snodes s) i q" if "q \<in> set (header s # ?L @ ?U)" for q
      by (rule same) (use that notin in auto)
    then have "linked (nxt h' i) (header s # ?L @ ?U) NULL"
      using old by (subst linked_cong [where g = "nxt (snodes s) i"])
    then show ?thesis using False by (simp only: ta if_False append_Nil)
  qed
qed

lemma splice_rep:
  assumes ok: "splice_ok s ps k v a l junk h'" and wrap: "unat (slength s) + 1 < 2 ^ 64"
  shows "skip_rep (inserted_list s l n h') (lower s k ps @ a # upper s k ps)"
proof -
  let ?s = "inserted_list s l n h'" and ?ps = "lower s k ps @ a # upper s k ps"
  have rep: "skip_rep s ps" and ord: "key_order (scompare s)" and a: "fresh (snodes s) a"
    and l: "1 \<le> l" "l \<le> SKIPLIST_MAXLEVEL" and k: "k \<notin> node_key (snodes s) ` set ps"
    using ok by (simp_all add: splice_ok_def)
  note na = fresh_not_node [OF rep a]
  have ps: "lower s k ps @ upper s k ps = ps" using lower_upper [OF rep ord] by simp
  then have set_ps: "set ps = set (lower s k ps) \<union> set (upper s k ps)" by (metis set_append)
  have flds: "snodes ?s = h'" "header ?s = header s" "scompare ?s = scompare s"
      "slevel ?s = max l (slevel s)" "slength ?s = slength s + 1"
    by (simp_all add: inserted_list_def)
  have nok: "nodes_ok s ps" and lok: "level_ok s ps" and kok: "keys_ok s ps"
    and len: "unat (slength s) = length ps"
    using rep by (simp_all add: skip_rep_def)
  have node: "node_key h' p = node_key (snodes s) p" "node_height h' p = node_height (snodes s) p"
      "skey (the (h' p)) = skey (the (snodes s p))"
      "length (forward (the (h' p))) = length (forward (the (snodes s p)))" if "p \<in> set ps" for p
    using splice_nodes [OF ok, of p] rep_node(3) [OF rep that] na(2) that by auto
  have "nodes_ok ?s ?ps"
  proof -
    have "distinct (NULL # header s # ps)" using nok by (simp only: nodes_ok_def)
    then have "distinct (NULL # header s # (lower s k ps @ upper s k ps))" by (simp only: ps)
    then have "distinct (NULL # header s # ?ps)" using na(1-3) set_ps by auto
    moreover have "dom h' = insert (header s) (set ?ps)"
      using splice_nodes(4) [OF ok insertI1] nok set_ps by (auto simp: nodes_ok_def)
    moreover have "length (forward (the (h' (header s)))) = 97"
      using splice_nodes(6) [OF ok, of "header s"] nok na(3) by (simp add: nodes_ok_def)
    moreover have "skey (the (h' p)) \<noteq> None \<and> length (forward (the (h' p))) = 3 * node_height h' p + 1
        \<and> 1 \<le> node_height h' p \<and> node_height h' p \<le> max l (slevel s)" if "p \<in> set ?ps" for p
    proof (cases "p = a")
      case True
      then show ?thesis using splice_nodes(3,5,6) [OF ok insertI1] l(1) by simp
    next
      case False
      then have "p \<in> set ps" using that set_ps by auto
      then show ?thesis using node rep_node(4-7) [OF rep, of p] by simp
    qed
    ultimately show ?thesis unfolding nodes_ok_def flds by blast
  qed
  moreover have "level_ok ?s ?ps"
  proof -
    have top: "\<exists>p \<in> set ?ps. node_height h' p = max l (slevel s)" if "1 < max l (slevel s)"
    proof (cases "slevel s \<le> l")
      case True
      then show ?thesis using splice_nodes(3) [OF ok insertI1] by simp
    next
      case False
      then obtain p where "p \<in> set ps" "node_height (snodes s) p = slevel s"
        using lok l(1) by (auto simp: level_ok_def)
      then show ?thesis using node(2) False set_ps by auto
    qed
    then show ?thesis using lok l unfolding level_ok_def flds by auto
  qed
  moreover have "keys_ok ?s ?ps"
  proof -
    let ?R = "\<lambda>p q. scompare s (node_key (snodes s) p) (node_key (snodes s) q) < 0"
    have "sorted_wrt ?R (lower s k ps @ upper s k ps)" using kok by (simp add: keys_ok_def ps)
    then have "sorted_wrt (\<lambda>p q. scompare s (node_key h' p) (node_key h' q) < 0)
        (lower s k ps @ upper s k ps)"
      by (rule sorted_wrt_mono_rel [rotated]) (simp add: node set_ps)
    moreover have "scompare s (node_key h' p) k < 0" if "p \<in> set (lower s k ps)" for p
    proof -
      have p: "p \<in> set ps" "scompare s (node_key (snodes s) p) k < 0"
        using that by (simp_all add: lower_def)
      then show ?thesis using node(1) [OF p(1)] by simp
    qed
    moreover have "scompare s k (node_key h' p) < 0" if "p \<in> set (upper s k ps)" for p
    proof -
      have p: "p \<in> set ps" "\<not> scompare s (node_key (snodes s) p) k < 0"
        using that by (simp_all add: upper_def)
      then have "scompare s (node_key (snodes s) p) k \<noteq> 0" using k ord by (auto simp: key_order_def)
      then have "0 < scompare s (node_key (snodes s) p) k" using p(2) by simp
      then show ?thesis using ord node(1) [OF p(1)] by (simp add: key_order_def)
    qed
    moreover have "node_key h' a = k" using splice_nodes(1) [OF ok insertI1] by simp
    ultimately show ?thesis unfolding keys_ok_def flds by (simp add: sorted_wrt_append)
  qed
  moreover have "links_ok ?s ?ps" unfolding links_ok_def flds using splice_links [OF ok] by blast
  moreover have "unat (slength s + 1) = length ?ps"
    using wrap len arg_cong [OF ps, of length] by (simp add: word_simps)
  ultimately show ?thesis unfolding skip_rep_def flds by blast
qed

lemma splice_binding:
  assumes ok: "splice_ok s ps k v a l junk h'" and wrap: "unat (slength s) + 1 < 2 ^ 64"
  shows "skip_binding (inserted_list s l n h') = (skip_binding s)(k \<mapsto> v)"
proof (rule binding_eqI [OF splice_rep [OF ok wrap]])
  have rep: "skip_rep s ps" and ord: "key_order (scompare s)" and a: "fresh (snodes s) a"
    and k: "k \<notin> node_key (snodes s) ` set ps"
    using ok by (simp_all add: splice_ok_def)
  have flds: "snodes (inserted_list s l n h') = h'" "scompare (inserted_list s l n h') = scompare s"
    by (simp_all add: inserted_list_def)
  show "key_order (scompare (inserted_list s l n h'))" using ord by (simp add: flds)
  have set_ps: "set (lower s k ps @ a # upper s k ps) = insert a (set ps)"
    by (auto simp: lower_def upper_def)
  have node: "p \<noteq> a" "node_key h' p = node_key (snodes s) p" "node_value h' p = node_value (snodes s) p"
    if "p \<in> set ps" for p
    using splice_nodes [OF ok, of p] rep_node(3) [OF rep that] fresh_not_node(2) [OF rep a] that by auto
  show "((skip_binding s)(k \<mapsto> v)) (node_key (snodes (inserted_list s l n h')) p) =
      Some (node_value (snodes (inserted_list s l n h')) p)" if "p \<in> set (lower s k ps @ a # upper s k ps)" for p
  proof (cases "p = a")
    case True
    then show ?thesis using splice_nodes(1,2) [OF ok insertI1] by (simp add: flds)
  next
    case False
    then have p: "p \<in> set ps" using that set_ps by auto
    then have "node_key (snodes s) p \<noteq> k" using k by auto
    then show ?thesis using binding_node [OF rep ord p] node [OF p] by (simp add: flds)
  qed
  show "((skip_binding s)(k \<mapsto> v)) k' = None"
    if "k' \<notin> node_key (snodes (inserted_list s l n h')) ` set (lower s k ps @ a # upper s k ps)" for k'
  proof -
    have "k' \<noteq> k" using that splice_nodes(1) [OF ok insertI1] by (auto simp: flds)
    moreover have "k' \<notin> node_key (snodes s) ` set ps" using that node(2) set_ps by (force simp: flds)
    ultimately show ?thesis using binding_none [OF rep] by simp
  qed
qed

section \<open>The insertion as a whole\<close>

lemma max_if: "(if n < l then l else n) = max l (n :: nat)"
  by simp

lemma insert_present:
  assumes inv: "skip_inv s" and k: "k \<in> dom (skip_binding s)" and v: "v \<noteq> NULL"
  shows "\<exists>s'. skiplist_insert rnd junk a (Some s) (Some k) v = Some (Some s', True) \<and> skip_inv s'
    \<and> skip_binding s' = (skip_binding s)(k \<mapsto> v) \<and> slength s' = slength s \<and> draws s' = draws s
    \<and> slevel s' = slevel s \<and> dom (snodes s') = dom (snodes s)"
proof -
  let ?ps = "skip_ptrs s"
  have rep: "skip_rep s ?ps" and ord: "key_order (scompare s)" using inv by (simp_all add: skip_inv_def)
  obtain p where p: "p \<in> set ?ps" "node_key (snodes s) p = k" using k dom_binding [OF rep] by auto
  have node: "p \<noteq> NULL" "snodes s p = Some (the (snodes s p))" using rep_node(1,3) [OF rep p(1)] by auto
  note here = descend_all [OF rep ord] candidate_forward [OF rep ord, of k] candidate_found [OF rep ord p]
  let ?s = "set_value s p v"
  have "skiplist_insert rnd junk a (Some s) (Some k) v = Some (Some ?s, True)"
    using v here modify_Some [of p "snodes s", OF node] by (simp add: skiplist_insert_def set_value_def)
  moreover have "skip_inv ?s"
    using rep_inv [OF rep_value [OF rep p(1)]] ord by (simp add: set_value_def)
  moreover have "skip_binding ?s = (skip_binding s)(k \<mapsto> v)" using binding_value [OF rep ord p(1)] p(2) by simp
  moreover have "slength ?s = slength s" "draws ?s = draws s" "slevel ?s = slevel s"
      "dom (snodes ?s) = dom (snodes s)"
    using rep_node(3) [OF rep p(1)] by (auto simp: set_value_def)
  ultimately show ?thesis by blast
qed

lemma insert_absent:
  assumes inv: "skip_inv s" and k: "k \<notin> dom (skip_binding s)" and v: "v \<noteq> NULL"
    and a: "fresh (snodes s) a" and lev: "random_level rnd (draws s) = Some (l, n)"
    and l: "1 \<le> l" "l \<le> SKIPLIST_MAXLEVEL" and wrap: "unat (slength s) + 1 < 2 ^ 64"
  shows "\<exists>s'. skiplist_insert rnd junk a (Some s) (Some k) v = Some (Some s', True) \<and> skip_inv s'
    \<and> skip_binding s' = (skip_binding s)(k \<mapsto> v) \<and> slength s' = slength s + 1 \<and> draws s' = n
    \<and> slevel s' = max l (slevel s) \<and> dom (snodes s') = insert a (dom (snodes s))"
proof -
  let ?ps = "skip_ptrs s"
  have rep: "skip_rep s ?ps" and ord: "key_order (scompare s)" using inv by (simp_all add: skip_inv_def)
  have k': "k \<notin> node_key (snodes s) ` set ?ps" using k dom_binding [OF rep] by simp
  note here = descend_all [OF rep ord] candidate_forward [OF rep ord, of k] candidate_absent [OF rep ord k']
  let ?upd = "map (stop_at s k ?ps) [0..<slevel s] @ replicate (l - slevel s) (header s)"
  let ?h = "create_node junk a l (Some k) v (snodes s)"
  obtain h' where h': "link_loop l 0 a ?upd ?h = Some h'" "spliced s k ?ps l a ?h h'"
    using link_new_node [OF rep ord a l refl refl] by blast
  have upd: "(if slevel s < l then (map (stop_at s k ?ps) [0..<slevel s] @ replicate (l - slevel s) (header s), l)
      else (map (stop_at s k ?ps) [0..<slevel s], slevel s)) = (?upd, max l (slevel s))"
    by simp
  have ok: "splice_ok s ?ps k v a l junk h'"
    using rep ord a l k' h'(2) by (simp add: splice_ok_def)
  let ?s = "inserted_list s l n h'"
  have "skiplist_insert rnd junk a (Some s) (Some k) v = Some (Some ?s, True)"
    using v here lev h'(1) by (simp add: skiplist_insert_def upd inserted_list_def)
  moreover have "skip_inv ?s"
    using rep_inv [OF splice_rep [OF ok wrap, of n]] ord by (simp add: inserted_list_def)
  moreover have "skip_binding ?s = (skip_binding s)(k \<mapsto> v)" using splice_binding [OF ok wrap] .
  moreover have "slength ?s = slength s + 1" "draws ?s = n" "slevel ?s = max l (slevel s)"
      "dom (snodes ?s) = insert a (dom (snodes s))"
    using splice_nodes(4) [OF ok insertI1] by (simp_all add: inserted_list_def)
  ultimately show ?thesis by blast
qed

text \<open>The result of \<^verbatim>\<open>_create_node\<close> is not checked: a null pointer is followed.\<close>

lemma insert_unchecked:
  assumes inv: "skip_inv s" and k: "k \<notin> dom (skip_binding s)" and v: "v \<noteq> NULL"
    and lev: "random_level rnd (draws s) = Some (l, n)" and l: "1 \<le> l"
  shows "skiplist_insert rnd junk NULL (Some s) (Some k) v = None"
proof -
  let ?ps = "skip_ptrs s"
  have rep: "skip_rep s ?ps" and ord: "key_order (scompare s)" using inv by (simp_all add: skip_inv_def)
  have k': "k \<notin> node_key (snodes s) ` set ?ps" using k dom_binding [OF rep] by simp
  note here = descend_all [OF rep ord] candidate_forward [OF rep ord, of k] candidate_absent [OF rep ord k']
  have "link_loop l 0 NULL update h = None" for update h
  proof -
    obtain m where m: "l = Suc m" using l by (cases l) auto
    have "set_forward h' NULL 0 f = None" for h' :: skip_heap and f by (simp add: set_forward_def)
    then show ?thesis by (auto simp: m Option.bind_eq_None_conv split: Option.bind_split)
  qed
  then show ?thesis using v here lev by (simp add: skiplist_insert_def)
qed

section \<open>Random levels\<close>

lemma low_draw_quarter: "low_draw r \<longleftrightarrow> unat (r AND 0xFFFF) < 0x4000"
proof -
  have "4 * n < 0xFFFF \<longleftrightarrow> n < 0x4000" for n :: nat by arith
  then have "4 * int (unat (r AND 0xFFFF)) < 0xFFFF \<longleftrightarrow> unat (r AND 0xFFFF) < 0x4000" by presburger
  then show ?thesis by (simp add: low_draw_def)
qed

lemma random_loop_run:
  assumes "\<forall>i < j. low_draw (rnd (n + i))" and "\<not> low_draw (rnd (n + j))"
  shows "random_loop rnd n level = Some (level + j, n + j + 1)"
  using assms
proof (induction j arbitrary: n level)
  case 0
  then show ?case by (simp add: random_loop.simps)
next
  case (Suc j)
  have "\<forall>i < j. low_draw (rnd (Suc n + i))"
  proof (intro allI impI)
    fix i
    assume "i < j"
    then show "low_draw (rnd (Suc n + i))" using Suc.prems(1) [rule_format, of "Suc i"] by simp
  qed
  moreover have "\<not> low_draw (rnd (Suc n + j))" using Suc.prems(2) by simp
  ultimately have "random_loop rnd (Suc n) (level + 1) = Some (level + 1 + j, Suc n + j + 1)"
    by (rule Suc.IH)
  moreover have "low_draw (rnd n)" using Suc.prems(1) [rule_format, of 0] by simp
  ultimately show ?case by (subst random_loop.simps) simp
qed

lemma random_level_run:
  assumes "\<forall>i < j. low_draw (rnd (n + i))" and "\<not> low_draw (rnd (n + j))"
  shows "random_level rnd n = Some (min (j + 1) SKIPLIST_MAXLEVEL, n + j + 1)"
  by (simp add: random_level_def random_loop_run [OF assms] min_def)

definition fair :: "(nat \<Rightarrow> u64) \<Rightarrow> nat \<Rightarrow> bool" where
  "fair rnd n \<longleftrightarrow> (\<exists>j. \<not> low_draw (rnd (n + j)))"

lemma random_level_fair:
  assumes "fair rnd n"
  obtains l m where "random_level rnd n = Some (l, m)" and "1 \<le> l" and "l \<le> SKIPLIST_MAXLEVEL"
proof -
  let ?P = "\<lambda>j. \<not> low_draw (rnd (n + j))"
  have "?P (LEAST j. ?P j)" using assms unfolding fair_def by (rule LeastI_ex)
  moreover have "\<forall>i < (LEAST j. ?P j). low_draw (rnd (n + i))" using not_less_Least by blast
  ultimately have "random_level rnd n =
      Some (min ((LEAST j. ?P j) + 1) SKIPLIST_MAXLEVEL, n + (LEAST j. ?P j) + 1)"
    by (intro random_level_run)
  then show thesis using that by simp
qed

section \<open>Deletion\<close>

lemma unlink_loop_ok:
  assumes "\<And>j. i \<le> j \<Longrightarrow> j < i + n \<Longrightarrow> at_level h j (update ! j) \<and> update ! j \<noteq> x
      \<and> (nxt h j (update ! j) = x \<longleftrightarrow> j < m) \<and> (j < m \<longrightarrow> at_level h j x)"
    and "i + n \<le> length update"
  shows "\<exists>h'. unlink_loop n i x update h = Some h' \<and> same_shape h h' \<and>
    (\<forall>j q. nxt h' j q = (if i \<le> j \<and> j < i + n \<and> j < m \<and> q = update ! j then nxt h j x else nxt h j q))"
  using assms
proof (induction n arbitrary: i h)
  case 0
  then show ?case by (simp add: same_shape_def)
next
  case (Suc n)
  let ?u = "update ! i"
  have u: "at_level h i ?u" "?u \<noteq> x" "nxt h i ?u = x \<longleftrightarrow> i < m" "i < m \<longrightarrow> at_level h i x"
    using Suc.prems(1) [of i] by simp_all
  show ?case
  proof (cases "i < m")
    case False
    then have "unlink_loop (Suc n) i x update h = Some h"
      using Suc.prems(2) u(1,3) by (simp add: at_level_forward)
    moreover have "nxt h j q = (if i \<le> j \<and> j < i + Suc n \<and> j < m \<and> q = update ! j
        then nxt h j x else nxt h j q)" for j q
      using False by auto
    ultimately show ?thesis by (auto simp: same_shape_def)
  next
    case True
    obtain h1 where h1: "set_forward h ?u i (nxt h i x) = Some h1" "same_shape h h1"
        "\<And>j q. nxt h1 j q = (if q = ?u \<and> j = i then nxt h i x else nxt h j q)"
      by (rule at_level_set [OF u(1), of "nxt h i x"]) (rule that)
    have keep: "nxt h1 j = nxt h j" if "Suc i \<le> j" for j using that by (auto simp: h1(3) fun_eq_iff)
    have lv: "at_level h1 j (update ! j) \<and> update ! j \<noteq> x \<and> (nxt h1 j (update ! j) = x \<longleftrightarrow> j < m)
        \<and> (j < m \<longrightarrow> at_level h1 j x)" if "Suc i \<le> j" "j < Suc i + n" for j
      using Suc.prems(1) [of j] that keep [OF that(1)] by (simp add: at_level_same [OF h1(2)])
    have "Suc i + n \<le> length update" using Suc.prems(2) by simp
    note Suc.IH [OF lv this]
    then obtain h' where h': "unlink_loop n (Suc i) x update h1 = Some h'" "same_shape h1 h'"
        "\<And>j q. nxt h' j q = (if Suc i \<le> j \<and> j < Suc i + n \<and> j < m \<and> q = update ! j
          then nxt h1 j x else nxt h1 j q)"
      by blast
    have "unlink_loop (Suc n) i x update h = Some h'"
      using Suc.prems(2) u True h1(1) h'(1) by (simp add: at_level_forward)
    moreover have "nxt h' j q = (if i \<le> j \<and> j < i + Suc n \<and> j < m \<and> q = update ! j
        then nxt h j x else nxt h j q)" for j q
    proof (cases "Suc i \<le> j")
      case True
      then have "i \<le> j \<and> j < i + Suc n \<longleftrightarrow> Suc i \<le> j \<and> j < Suc i + n" by auto
      then show ?thesis by (simp only: h'(3) keep [OF True] simp_thms(20) conj_assoc [symmetric])
    next
      case False
      then show ?thesis using \<open>i < m\<close> by (cases "j = i") (auto simp: h'(3) h1(3))
    qed
    ultimately show ?thesis using same_shape_trans [OF h1(2) h'(2)] by blast
  qed
qed

text \<open>The heap \<open>h'\<close> after the node \<open>x\<close> of key \<open>k\<close> was unlinked on its levels and freed.\<close>

definition cut_ok :: "skiplist \<Rightarrow> ptr list \<Rightarrow> cstr \<Rightarrow> ptr \<Rightarrow> ptr list \<Rightarrow> skip_heap \<Rightarrow> bool" where
  "cut_ok s ps k x qs h' \<longleftrightarrow> skip_rep s ps \<and> key_order (scompare s) \<and> upper s k ps = x # qs
     \<and> node_key (snodes s) x = k \<and> dom h' = dom (snodes s) - {x}
     \<and> (\<forall>p \<in> dom (snodes s) - {x}. skey (the (h' p)) = skey (the (snodes s p))
          \<and> svalue (the (h' p)) = svalue (the (snodes s p))
          \<and> length (forward (the (h' p))) = length (forward (the (snodes s p))))
     \<and> (\<forall>i q. q \<noteq> x \<longrightarrow> nxt h' i q = (if i < node_height (snodes s) x \<and> q = stop_at s k ps i
          then nxt (snodes s) i x else nxt (snodes s) i q))"

lemma unlink_node:
  assumes rep: "skip_rep s ps" and ord: "key_order (scompare s)" and up: "upper s k ps = x # qs"
    and k: "node_key (snodes s) x = k"
  shows "\<exists>h. unlink_loop (slevel s) 0 x (map (stop_at s k ps) [0..<slevel s]) (snodes s) = Some h
    \<and> dealloc h x = Some (h(x := None)) \<and> load h x = Some (the (h x))
    \<and> svalue (the (h x)) = node_value (snodes s) x \<and> cut_ok s ps k x qs (h(x := None))"
proof -
  let ?upd = "map (stop_at s k ps) [0..<slevel s]" and ?m = "node_height (snodes s) x"
  have x: "x \<in> set ps" using upper_subset [of s k ps] up by auto
  note xn = rep_node [OF rep x]
  have top: "slevel s \<le> SKIPLIST_MAXLEVEL" using rep by (simp add: skip_rep_def level_ok_def)
  have dist: "distinct (x # qs)" "NULL \<notin> set ps" "x \<noteq> NULL"
  proof -
    have "distinct ps" "NULL \<notin> set ps" using rep by (simp_all add: skip_rep_def nodes_ok_def)
    then show "distinct (x # qs)" "NULL \<notin> set ps" "x \<noteq> NULL"
      using x distinct_filter up unfolding upper_def by metis+
  qed
  have lv: "at_level (snodes s) j (?upd ! j) \<and> ?upd ! j \<noteq> x \<and> (nxt (snodes s) j (?upd ! j) = x \<longleftrightarrow> j < ?m)
      \<and> (j < ?m \<longrightarrow> at_level (snodes s) j x)" if "0 \<le> j" "j < 0 + slevel s" for j
  proof -
    have j: "j < slevel s" "j < SKIPLIST_MAXLEVEL" using that top by simp_all
    have u: "?upd ! j = stop_at s k ps j" using j(1) by simp
    have "stop_at s k ps j \<noteq> x"
    proof -
      have "x \<notin> set (lower s k ps)" using k key_irrefl [OF ord] by (simp add: lower_def)
      then show ?thesis using stop_at_mem [of s k ps j] xn(2) by (auto simp: tower_def)
    qed
    moreover have "nxt (snodes s) j (stop_at s k ps j) = x \<longleftrightarrow> j < ?m"
    proof -
      have n: "nxt (snodes s) j (stop_at s k ps j) = hd (tower (snodes s) j (x # qs) @ [NULL])"
        using stop_at_next [OF rep ord j(2), of k] by (simp add: up)
      have "x \<notin> set (tower (snodes s) j qs @ [NULL])" using dist by (auto simp: tower_def)
      moreover have "hd (tower (snodes s) j qs @ [NULL]) \<in> set (tower (snodes s) j qs @ [NULL])"
        by (rule hd_in_set) simp
      ultimately have "hd (tower (snodes s) j qs @ [NULL]) \<noteq> x" by metis
      then show ?thesis unfolding n by (auto simp: tower_def)
    qed
    moreover have "j < ?m \<longrightarrow> at_level (snodes s) j x" using xn(1,3,5) unfolding at_level_def by linarith
    ultimately show ?thesis using u stop_at_reaches [OF rep ord j(2)] by simp
  qed
  have "0 + slevel s \<le> length ?upd" by simp
  note unlink_loop_ok [OF lv this]
  then obtain h where h: "unlink_loop (slevel s) 0 x ?upd (snodes s) = Some h" "same_shape (snodes s) h"
      "\<And>j q. nxt h j q = (if 0 \<le> j \<and> j < 0 + slevel s \<and> j < ?m \<and> q = ?upd ! j
        then nxt (snodes s) j x else nxt (snodes s) j q)"
    by blast
  have dom: "dom h = dom (snodes s)" and same: "\<And>p. p \<in> dom (snodes s) \<Longrightarrow>
      skey (the (h p)) = skey (the (snodes s p)) \<and> svalue (the (h p)) = svalue (the (snodes s p))
      \<and> length (forward (the (h p))) = length (forward (the (snodes s p)))"
    using h(2) by (simp_all add: same_shape_def)
  have "x \<in> dom h" using xn(3) dom by simp
  then have hx: "h x = Some (the (h x))" by auto
  have n': "nxt h j q = (if j < ?m \<and> q = stop_at s k ps j then nxt (snodes s) j x else nxt (snodes s) j q)" for j q
    using xn(7) by (auto simp: h(3))
  have "cut_ok s ps k x qs (h(x := None))"
    unfolding cut_ok_def using rep ord up k dom same n' by (auto simp: nxt_def)
  moreover have "dealloc h x = Some (h(x := None))" "load h x = Some (the (h x))"
    by (rule dealloc_Some [of x h, OF xn(1) hx], rule load_Some [of x h, OF xn(1) hx])
  moreover have "svalue (the (h x)) = node_value (snodes s) x"
    using same [OF xn(3)] by (simp add: node_value_def)
  ultimately show ?thesis using h(1) by blast
qed

lemma shrink_level_ok:
  assumes "\<forall>i < n. at_level h i t" and "1 \<le> n"
  shows "\<exists>l. shrink_level h t n = Some l \<and> 1 \<le> l \<and> l \<le> n
    \<and> (\<forall>i. l \<le> i \<and> i < n \<longrightarrow> nxt h i t = NULL) \<and> (1 < l \<longrightarrow> nxt h (l - 1) t \<noteq> NULL)"
  using assms
proof (induction n)
  case (Suc n)
  show ?case
  proof (cases "1 \<le> n \<and> nxt h n t = NULL")
    case True
    then obtain l where l: "shrink_level h t n = Some l" "1 \<le> l" "l \<le> n"
        "\<forall>i. l \<le> i \<and> i < n \<longrightarrow> nxt h i t = NULL" "1 < l \<longrightarrow> nxt h (l - 1) t \<noteq> NULL"
      using Suc by auto
    then have "shrink_level h t (Suc n) = Some l"
      using True Suc.prems(1) by (simp add: at_level_forward)
    moreover have "\<forall>i. l \<le> i \<and> i < Suc n \<longrightarrow> nxt h i t = NULL"
      using l(4) True by (auto simp: less_Suc_eq)
    ultimately show ?thesis using l by auto
  next
    case False
    then have "shrink_level h t (Suc n) = Some (Suc n)"
      using Suc.prems(1) by (auto simp: at_level_forward)
    then show ?thesis using False by auto
  qed
qed simp

definition removed_list :: "skiplist \<Rightarrow> nat \<Rightarrow> skip_heap \<Rightarrow> skiplist" where
  "removed_list s l h = s\<lparr>slevel := l, slength := slength s - 1, snodes := h\<rparr>"

lemma cut_nodes:
  assumes cut: "cut_ok s ps k x qs h'" and p: "p \<in> set ps" "p \<noteq> x"
  shows "node_key h' p = node_key (snodes s) p" "node_value h' p = node_value (snodes s) p"
    "node_height h' p = node_height (snodes s) p" "skey (the (h' p)) = skey (the (snodes s p))"
    "length (forward (the (h' p))) = length (forward (the (snodes s p)))"
proof -
  have rep: "skip_rep s ps" using cut by (simp add: cut_ok_def)
  have same: "\<forall>p \<in> dom (snodes s) - {x}. skey (the (h' p)) = skey (the (snodes s p))
      \<and> svalue (the (h' p)) = svalue (the (snodes s p))
      \<and> length (forward (the (h' p))) = length (forward (the (snodes s p)))"
    using cut unfolding cut_ok_def by (elim conjE)
  have "p \<in> dom (snodes s) - {x}" using p rep_node(3) [OF rep p(1)] by simp
  then have "skey (the (h' p)) = skey (the (snodes s p)) \<and> svalue (the (h' p)) = svalue (the (snodes s p))
      \<and> length (forward (the (h' p))) = length (forward (the (snodes s p)))"
    by (rule same [rule_format])
  then show "node_key h' p = node_key (snodes s) p" "node_value h' p = node_value (snodes s) p"
    "node_height h' p = node_height (snodes s) p" "skey (the (h' p)) = skey (the (snodes s p))"
    "length (forward (the (h' p))) = length (forward (the (snodes s p)))"
    by (simp_all add: node_key_def node_value_def node_height_def)
qed

lemma cut_split:
  assumes cut: "cut_ok s ps k x qs h'"
  shows "ps = lower s k ps @ x # qs" "distinct (NULL # header s # lower s k ps @ x # qs)"
    "set ps = insert x (set (lower s k ps @ qs))" "x \<notin> set (lower s k ps @ qs)"
proof -
  have rep: "skip_rep s ps" and ord: "key_order (scompare s)" and up: "upper s k ps = x # qs"
    using cut by (simp_all add: cut_ok_def)
  show ps: "ps = lower s k ps @ x # qs" using lower_upper [OF rep ord, of k] by (simp add: up)
  have "distinct (NULL # header s # ps)" using rep by (simp only: skip_rep_def nodes_ok_def)
  then show dist: "distinct (NULL # header s # lower s k ps @ x # qs)" using ps by metis
  have "set ps = set (lower s k ps @ x # qs)" using ps by (rule arg_cong)
  then show "set ps = insert x (set (lower s k ps @ qs))" by auto
  show "x \<notin> set (lower s k ps @ qs)" using dist by auto
qed

lemma cut_links:
  assumes cut: "cut_ok s ps k x qs h'" and i: "i < SKIPLIST_MAXLEVEL"
  shows "linked (nxt h' i) (header s # tower h' i (lower s k ps @ qs)) NULL"
proof -
  let ?u = "stop_at s k ps i" and ?m = "node_height (snodes s) x"
  let ?L = "tower (snodes s) i (lower s k ps)" and ?Q = "tower (snodes s) i qs"
  have rep: "skip_rep s ps" using cut by (simp add: cut_ok_def)
  note sp = cut_split [OF cut]
  have n: "nxt h' i q = (if i < ?m \<and> q = ?u then nxt (snodes s) i x else nxt (snodes s) i q)" if "q \<noteq> x" for q
    using cut that by (simp add: cut_ok_def)
  have "node_height h' q = node_height (snodes s) q" if "q \<in> set (lower s k ps @ qs)" for q
    using cut_nodes(3) [OF cut, of q] that sp(3,4) by auto
  then have "tower h' i (lower s k ps @ qs) = tower (snodes s) i (lower s k ps @ qs)"
    unfolding tower_def by (intro filter_cong refl) simp
  then have t: "tower h' i (lower s k ps @ qs) = ?L @ ?Q" by simp
  have split: "butlast (header s # ?L) @ [?u] = header s # ?L"
    by (simp only: stop_at_def append_butlast_last_id list.distinct not_False_eq_True)
  have join: "butlast (header s # ?L) @ [?u] @ zs = (header s # ?L) @ zs" for zs
    by (simp only: append.assoc [symmetric] split)
  have all: "tower (snodes s) i ps = ?L @ (if i < ?m then [x] else []) @ ?Q"
    by (subst sp(1)) (simp add: tower_def)
  have old: "linked (nxt (snodes s) i) (header s # ?L @ (if i < ?m then [x] else []) @ ?Q) NULL"
    using rep_links [OF rep i] by (simp only: all)
  have dist: "distinct ((header s # ?L) @ x # ?Q)" using sp(2) by (auto simp: tower_def)
  have notin: "x \<notin> set (header s # ?L @ ?Q)" using dist by auto
  have "linked (nxt h' i) (header s # ?L @ ?Q) NULL"
  proof (cases "i < ?m")
    case True
    have old': "linked (nxt (snodes s) i) ((header s # ?L) @ x # ?Q) NULL"
      using old True by (simp only: if_True append_Cons append_Nil)
    let ?g = "\<lambda>q. if q = ?u then nxt (snodes s) i x else nxt (snodes s) i q"
    have "linked ?g (butlast (header s # ?L) @ [?u] @ ?Q) NULL"
    proof (rule linked_remove)
      show "linked (nxt (snodes s) i) (butlast (header s # ?L) @ [?u] @ x # ?Q) NULL"
        using old' by (simp only: join)
      show "distinct (butlast (header s # ?L) @ [?u] @ x # ?Q)"
        using dist by (simp only: join)
    qed simp_all
    then have "linked ?g ((header s # ?L) @ ?Q) NULL" by (simp only: join)
    moreover have "nxt h' i q = ?g q" if "q \<in> set (header s # ?L @ ?Q)" for q
    proof -
      have "q \<noteq> x" using that notin by auto
      then show ?thesis using n True by simp
    qed
    ultimately show ?thesis by (subst linked_cong [where g = ?g]) simp_all
  next
    case False
    have "nxt h' i q = nxt (snodes s) i q" if "q \<in> set (header s # ?L @ ?Q)" for q
    proof -
      have "q \<noteq> x" using that notin by auto
      then show ?thesis using n False by simp
    qed
    then show ?thesis using old False by (subst linked_cong [where g = "nxt (snodes s) i"]) simp_all
  qed
  then show ?thesis by (simp only: t)
qed

lemma cut_level:
  assumes cut: "cut_ok s ps k x qs h'"
  obtains l where "shrink_level h' (header s) (slevel s) = Some l" and "1 \<le> l" and "l \<le> slevel s"
    and "\<And>p. p \<in> set (lower s k ps @ qs) \<Longrightarrow> node_height h' p \<le> l"
    and "1 < l \<Longrightarrow> \<exists>p \<in> set (lower s k ps @ qs). node_height h' p = l"
proof -
  let ?ps = "lower s k ps @ qs"
  have rep: "skip_rep s ps" using cut by (simp add: cut_ok_def)
  note sp = cut_split [OF cut]
  have lv: "1 \<le> slevel s" "slevel s \<le> SKIPLIST_MAXLEVEL" using rep by (simp_all add: skip_rep_def level_ok_def)
  have hx: "header s \<noteq> x" using sp(2) by auto
  have "header s \<in> dom (snodes s)" "length (forward (the (snodes s (header s)))) = 97" "header s \<noteq> NULL"
    using rep sp(2) by (simp_all add: skip_rep_def nodes_ok_def)
  then have "header s \<in> dom h'" "length (forward (the (h' (header s)))) = 97" "header s \<noteq> NULL"
    using cut hx unfolding cut_ok_def by auto
  then have "\<forall>i < slevel s. at_level h' i (header s)" using lv(2) by (simp add: at_level_def)
  from shrink_level_ok [OF this lv(1)]
  obtain l where l: "shrink_level h' (header s) (slevel s) = Some l" "1 \<le> l" "l \<le> slevel s"
      "\<And>i. l \<le> i \<Longrightarrow> i < slevel s \<Longrightarrow> nxt h' i (header s) = NULL"
      "1 < l \<Longrightarrow> nxt h' (l - 1) (header s) \<noteq> NULL"
    by blast
  have first: "nxt h' i (header s) = hd (tower h' i ?ps @ [NULL])" if "i < slevel s" for i
    using cut_links [OF cut, of i] that lv(2) by simp
  have old: "node_height h' p \<le> slevel s" "p \<noteq> NULL" if "p \<in> set ?ps" for p
  proof -
    have "p \<in> set ps" "p \<noteq> x" using that sp(3,4) by auto
    then show "node_height h' p \<le> slevel s" "p \<noteq> NULL"
      using cut_nodes(3) [OF cut] rep_node(1,7) [OF rep] by auto
  qed
  have below: "node_height h' p \<le> l" if p: "p \<in> set ?ps" for p
  proof (rule ccontr)
    assume "\<not> node_height h' p \<le> l"
    then have "l < slevel s" and "p \<in> set (tower h' l ?ps)" using old(1) [OF p] p by (auto simp: tower_def)
    then obtain y ys where y: "tower h' l ?ps = y # ys" by (cases "tower h' l ?ps") auto
    then have "y \<in> set ?ps" by (metis filter_is_subset list.set_intros(1) subsetD tower_def)
    from old(2) [OF this] have "nxt h' l (header s) \<noteq> NULL"
      unfolding first [OF \<open>l < slevel s\<close>] y append_Cons list.sel .
    then show False using l(4) [of l] \<open>l < slevel s\<close> by simp
  qed
  moreover have "\<exists>p \<in> set ?ps. node_height h' p = l" if "1 < l"
  proof -
    have "l - 1 < slevel s" using l(3) that by simp
    then have "tower h' (l - 1) ?ps \<noteq> []" using l(5) [OF that] first by auto
    then obtain y where "y \<in> set (tower h' (l - 1) ?ps)" by (meson list.set_sel(1))
    then have "y \<in> set ?ps" "l \<le> node_height h' y" by (auto simp: tower_def)
    then show ?thesis using below le_antisym by blast
  qed
  ultimately show thesis using that l(1-3) by blast
qed

lemma cut_rep:
  assumes cut: "cut_ok s ps k x qs h'" and l: "1 \<le> l" "l \<le> slevel s"
    and low: "\<And>p. p \<in> set (lower s k ps @ qs) \<Longrightarrow> node_height h' p \<le> l"
    and top: "1 < l \<Longrightarrow> \<exists>p \<in> set (lower s k ps @ qs). node_height h' p = l"
  shows "skip_rep (removed_list s l h') (lower s k ps @ qs)"
proof -
  let ?s = "removed_list s l h'" and ?ps = "lower s k ps @ qs"
  have rep: "skip_rep s ps" using cut by (simp add: cut_ok_def)
  note sp = cut_split [OF cut]
  have flds: "snodes ?s = h'" "header ?s = header s" "scompare ?s = scompare s"
      "slevel ?s = l" "slength ?s = slength s - 1"
    by (simp_all add: removed_list_def)
  have old: "p \<in> set ps" "p \<noteq> x" if "p \<in> set ?ps" for p using that sp(3,4) by auto
  have dom: "dom h' = dom (snodes s) - {x}" using cut unfolding cut_ok_def by (elim conjE)
  have ds: "dom (snodes s) = insert (header s) (set ps)"
    and hl: "length (forward (the (snodes s (header s)))) = 97"
    using rep unfolding skip_rep_def nodes_ok_def by blast+
  have hx: "header s \<noteq> x" using sp(2) by auto
  have "nodes_ok ?s ?ps"
  proof -
    have "distinct (NULL # header s # ?ps)" using sp(2) by auto
    moreover have "dom h' = insert (header s) (set ?ps)" using dom ds sp(3,4) hx by auto
    moreover have "length (forward (the (h' (header s)))) = 97"
    proof -
      have "header s \<in> dom (snodes s) - {x}" using ds hx by simp
      then have "length (forward (the (h' (header s)))) = length (forward (the (snodes s (header s))))"
        using cut unfolding cut_ok_def by (elim conjE) blast
      then show ?thesis using hl by simp
    qed
    moreover have "skey (the (h' p)) \<noteq> None \<and> length (forward (the (h' p))) = 3 * node_height h' p + 1
        \<and> 1 \<le> node_height h' p \<and> node_height h' p \<le> l" if "p \<in> set ?ps" for p
      using cut_nodes(3-5) [OF cut old [OF that]] rep_node(4-6) [OF rep old(1) [OF that]] low [OF that] by simp
    ultimately show ?thesis unfolding nodes_ok_def flds by blast
  qed
  moreover have "level_ok ?s ?ps"
  proof -
    have "slevel s \<le> SKIPLIST_MAXLEVEL" using rep unfolding skip_rep_def level_ok_def by blast
    then show ?thesis using l top unfolding level_ok_def flds by auto
  qed
  moreover have "keys_ok ?s ?ps"
  proof -
    let ?R = "\<lambda>h p q. scompare s (node_key h p) (node_key h q) < 0"
    have "sorted_wrt (?R (snodes s)) ps" using rep unfolding skip_rep_def keys_ok_def by blast
    then have "sorted_wrt (?R (snodes s)) (lower s k ps @ x # qs)" using sp(1) by metis
    then have "sorted_wrt (?R (snodes s)) ?ps" by (simp add: sorted_wrt_append)
    then have "sorted_wrt (?R h') ?ps"
      by (rule sorted_wrt_mono_rel [rotated]) (simp add: cut_nodes(1) [OF cut old])
    then show ?thesis unfolding keys_ok_def flds .
  qed
  moreover have "links_ok ?s ?ps" unfolding links_ok_def flds using cut_links [OF cut] by blast
  moreover have "unat (slength s - 1) = length ?ps"
  proof -
    have "unat (slength s) = length ps" using rep by (simp add: skip_rep_def)
    moreover have "length ps = Suc (length ?ps)" using arg_cong [OF sp(1), of length] by simp
    ultimately have u: "unat (slength s) = Suc (length ?ps)" by simp
    then have "1 \<le> slength s" by (simp add: word_le_nat_alt)
    then show ?thesis using u by (simp add: unat_sub)
  qed
  ultimately show ?thesis unfolding skip_rep_def flds by blast
qed

lemma cut_binding:
  assumes cut: "cut_ok s ps k x qs h'" and "skip_rep (removed_list s l h') (lower s k ps @ qs)"
  shows "skip_binding (removed_list s l h') = (skip_binding s)(k := None)"
proof (rule binding_eqI [OF assms(2)])
  have rep: "skip_rep s ps" and ord: "key_order (scompare s)" and kx: "node_key (snodes s) x = k"
    using cut by (simp_all add: cut_ok_def)
  note sp = cut_split [OF cut]
  have flds: "snodes (removed_list s l h') = h'" "scompare (removed_list s l h') = scompare s"
    by (simp_all add: removed_list_def)
  show "key_order (scompare (removed_list s l h'))" using ord by (simp add: flds)
  have old: "p \<in> set ps" "p \<noteq> x" if "p \<in> set (lower s k ps @ qs)" for p using that sp(3,4) by auto
  have x: "x \<in> set ps" using sp(3) by simp
  show "((skip_binding s)(k := None)) (node_key (snodes (removed_list s l h')) p) =
      Some (node_value (snodes (removed_list s l h')) p)" if "p \<in> set (lower s k ps @ qs)" for p
  proof -
    have "node_key (snodes s) p \<noteq> k"
      using rep_keys_distinct [OF rep ord] old [OF that] x kx by (auto simp: distinct_map dest: inj_onD)
    then show ?thesis
      using binding_node [OF rep ord old(1) [OF that]] cut_nodes(1,2) [OF cut old [OF that]] by (simp add: flds)
  qed
  show "((skip_binding s)(k := None)) k' = None"
    if k': "k' \<notin> node_key (snodes (removed_list s l h')) ` set (lower s k ps @ qs)" for k'
  proof (cases "k' = k")
    case False
    have "k' \<notin> node_key (snodes s) ` set ps"
    proof
      assume "k' \<in> node_key (snodes s) ` set ps"
      then obtain p where p: "p \<in> set ps" "k' = node_key (snodes s) p" by auto
      then have "p \<noteq> x" using False kx by auto
      then have "p \<in> set (lower s k ps @ qs)" using p(1) sp(3) by auto
      then have "k' \<in> node_key h' ` set (lower s k ps @ qs)"
        using cut_nodes(1) [OF cut p(1) \<open>p \<noteq> x\<close>] p(2) by (intro image_eqI [of _ _ p]) simp_all
      then show False using k' by (simp add: flds)
    qed
    then show ?thesis using binding_none [OF rep] by simp
  qed simp
qed

lemma delete_present:
  assumes inv: "skip_inv s" and k: "skip_binding s k = Some v"
  shows "\<exists>s'. skiplist_delete (Some s) (Some k) = Some (Some s', v) \<and> skip_inv s'
    \<and> skip_binding s' = (skip_binding s)(k := None) \<and> slength s' = slength s - 1
    \<and> slevel s' \<le> slevel s \<and> (\<exists>x. x \<in> dom (snodes s) \<and> dom (snodes s') = dom (snodes s) - {x})"
proof -
  let ?ps = "skip_ptrs s"
  have rep: "skip_rep s ?ps" and ord: "key_order (scompare s)" using inv by (simp_all add: skip_inv_def)
  have "k \<in> node_key (snodes s) ` set ?ps" using k dom_binding [OF rep] by auto
  then obtain x where x: "x \<in> set ?ps" "node_key (snodes s) x = k" by auto
  obtain qs where up: "upper s k ?ps = x # qs" by (rule upper_found [OF rep ord x])
  note here = descend_all [OF rep ord] candidate_forward [OF rep ord, of k] candidate_found [OF rep ord x]
  obtain h where h: "unlink_loop (slevel s) 0 x (map (stop_at s k ?ps) [0..<slevel s]) (snodes s) = Some h"
      "dealloc h x = Some (h(x := None))" "load h x = Some (the (h x))"
      "svalue (the (h x)) = node_value (snodes s) x" "cut_ok s ?ps k x qs (h(x := None))"
    using unlink_node [OF rep ord up x(2)] by blast
  obtain l where l: "shrink_level (h(x := None)) (header s) (slevel s) = Some l" "1 \<le> l" "l \<le> slevel s"
      "\<And>p. p \<in> set (lower s k ?ps @ qs) \<Longrightarrow> node_height (h(x := None)) p \<le> l"
      "1 < l \<Longrightarrow> \<exists>p \<in> set (lower s k ?ps @ qs). node_height (h(x := None)) p = l"
    by (rule cut_level [OF h(5)]) (rule that)
  note new = cut_rep [OF h(5) l(2-5)]
  let ?s = "removed_list s l (h(x := None))"
  have "node_value (snodes s) x = v" using binding_node [OF rep ord x(1)] x(2) k by simp
  then have "skiplist_delete (Some s) (Some k) = Some (Some ?s, v)"
    using here h(1-4) l(1) by (simp add: skiplist_delete_def removed_list_def)
  moreover have "skip_inv ?s" using rep_inv [OF new] ord by (simp add: removed_list_def)
  moreover have "skip_binding ?s = (skip_binding s)(k := None)" by (rule cut_binding [OF h(5) new])
  moreover have "dom (snodes ?s) = dom (snodes s) - {x}"
    using h(5) unfolding cut_ok_def by (elim conjE) (simp add: removed_list_def)
  moreover have "slength ?s = slength s - 1" "slevel ?s \<le> slevel s" using l(3) by (simp_all add: removed_list_def)
  ultimately show ?thesis using rep_node(3) [OF rep x(1)] by blast
qed

lemma delete_absent:
  assumes inv: "skip_inv s" and k: "k \<notin> dom (skip_binding s)"
  shows "skiplist_delete (Some s) (Some k) = Some (Some s, NULL)"
proof -
  let ?ps = "skip_ptrs s"
  have rep: "skip_rep s ?ps" and ord: "key_order (scompare s)" using inv by (simp_all add: skip_inv_def)
  have "k \<notin> node_key (snodes s) ` set ?ps" using k dom_binding [OF rep] by simp
  then show ?thesis
    using descend_all [OF rep ord] candidate_forward [OF rep ord, of k] candidate_absent [OF rep ord]
    by (simp add: skiplist_delete_def)
qed

end
