(* ===== verification/Skiplist_Dict.thy ===== *)
theory Skiplist_Dict
  imports Skiplist
begin

text \<open>
  The skip list as a dictionary: creation and destruction, the interpretation of the contract
  \<open>dict\<close> on the model of \<^verbatim>\<open>skiplist/skiplist.c\<close>, and the properties of its operations.
\<close>

section \<open>Creation and destruction\<close>

lemma null_loop_ok:
  assumes "\<And>j. i \<le> j \<Longrightarrow> j < i + n \<Longrightarrow> at_level h j p"
  shows "\<exists>h'. null_loop n i p h = Some h' \<and> same_shape h h'
    \<and> (\<forall>j q. nxt h' j q = (if q = p \<and> i \<le> j \<and> j < i + n then NULL else nxt h j q))"
  using assms
proof (induction n arbitrary: i h)
  case 0
  then show ?case by (simp add: same_shape_def)
next
  case (Suc n)
  have p: "at_level h i p" using Suc.prems [of i] by simp
  obtain h1 where h1: "set_forward h p i NULL = Some h1" "same_shape h h1"
      "\<And>j q. nxt h1 j q = (if q = p \<and> j = i then NULL else nxt h j q)"
    by (rule at_level_set [OF p, of NULL]) (rule that)
  have "at_level h1 j p" if "Suc i \<le> j" "j < Suc i + n" for j
    using Suc.prems [of j] that by (simp add: at_level_same [OF h1(2)])
  from Suc.IH [OF this]
  obtain h' where h': "null_loop n (Suc i) p h1 = Some h'" "same_shape h1 h'"
      "\<And>j q. nxt h' j q = (if q = p \<and> Suc i \<le> j \<and> j < Suc i + n then NULL else nxt h1 j q)"
    by blast
  have "null_loop (Suc n) i p h = Some h'" using h1(1) h'(1) by simp
  moreover have "nxt h' j q = (if q = p \<and> i \<le> j \<and> j < i + Suc n then NULL else nxt h j q)" for j q
    by (auto simp: h'(3) h1(3))
  ultimately show ?case using same_shape_trans [OF h1(2) h'(2)] by blast
qed

lemma new_rep:
  assumes "a \<noteq> NULL"
  obtains s where "skiplist_new junk True a calls cmp = Some (Some s)" and "skip_rep s []"
    and "scompare s = cmp" and "draws s = calls" and "slength s = 0" and "slevel s = 1"
proof -
  let ?h = "create_node junk a SKIPLIST_MAXLEVEL None NULL (\<lambda>_. None)"
  have h: "?h = [a \<mapsto> \<lparr>skey = None, svalue = NULL, forward = map junk [0..<97]\<rparr>]"
    using assms by (simp add: create_node_def del: upt_Suc)
  then have a: "dom ?h = {a}" "length (forward (the (?h a))) = 97" by simp_all
  have lv: "at_level ?h j a" if "0 \<le> j" "j < 0 + SKIPLIST_MAXLEVEL" for j
    using that assms a by (simp add: at_level_def)
  obtain h' where h': "null_loop SKIPLIST_MAXLEVEL 0 a ?h = Some h'" "same_shape ?h h'"
      "\<And>j q. nxt h' j q = (if q = a \<and> 0 \<le> j \<and> j < 0 + SKIPLIST_MAXLEVEL then NULL else nxt ?h j q)"
    using null_loop_ok [OF lv] by blast
  let ?s = "\<lparr>slevel = 1, slength = 0, scompare = cmp, header = a, stail = NULL, snodes = h', draws = calls\<rparr>"
  have "dom h' = {a}" "length (forward (the (h' a))) = 97" using h'(2) a unfolding same_shape_def by simp_all
  moreover have "nxt h' j a = NULL" if "j < SKIPLIST_MAXLEVEL" for j using that by (simp add: h'(3))
  ultimately have "skip_rep ?s []"
    using assms by (simp add: skip_rep_def nodes_ok_def level_ok_def keys_ok_def links_ok_def tower_def)
  moreover have "skiplist_new junk True a calls cmp = Some (Some ?s)"
    using h'(1) by (simp add: skiplist_new_def del: null_loop.simps)
  ultimately show thesis using that [of ?s] by simp
qed

lemma free_nodes_ok:
  assumes "linked (nxt h 0) ps NULL" and "distinct ps" and "\<forall>p \<in> set ps. at_level h 0 p"
  shows "free_nodes (hd (ps @ [NULL])) h = Some (\<lambda>p. if p \<in> set ps then None else h p)"
  using assms
proof (induction ps arbitrary: h)
  case Nil
  then show ?case by (simp add: free_nodes.simps)
next
  case (Cons p ps)
  have p: "at_level h 0 p" using Cons.prems(3) by simp
  then have hp: "p \<noteq> NULL" "h p = Some (the (h p))" by (auto simp: at_level_def)
  let ?h = "h(p := None)"
  have same: "nxt ?h 0 q = nxt h 0 q" "at_level ?h 0 q = at_level h 0 q" if "q \<in> set ps" for q
    using that Cons.prems(2) by (auto simp: nxt_def at_level_def)
  have "linked (nxt ?h 0) ps NULL"
    using Cons.prems(1) by (subst linked_cong [where g = "nxt h 0"]) (simp_all add: same)
  moreover have "distinct ps" "\<forall>p \<in> set ps. at_level ?h 0 p" using Cons.prems(2,3) by (auto simp: same)
  ultimately have "free_nodes (hd (ps @ [NULL])) ?h = Some (\<lambda>q. if q \<in> set ps then None else ?h q)"
    by (rule Cons.IH)
  moreover have "get_forward h p 0 = Some (hd (ps @ [NULL]))"
    using at_level_forward [OF p] Cons.prems(1) by simp
  moreover have "dealloc h p = Some ?h" by (rule dealloc_Some [of p h, OF hp])
  ultimately show ?case
    using hp(1) by (subst free_nodes.simps) (auto simp: fun_eq_iff)
qed

lemma free_rep:
  assumes rep: "skip_rep s ps"
  shows "skiplist_free (Some s) = Some (\<lambda>_. None)"
proof -
  let ?h = "(snodes s)(header s := None)"
  have hd0: "at_level (snodes s) 0 (header s)" using reaches_header [OF rep, of 0] by simp
  then have hp: "header s \<noteq> NULL" "snodes s (header s) = Some (the (snodes s (header s)))"
    by (auto simp: at_level_def)
  have dist: "distinct (header s # ps)" and dom: "dom (snodes s) = insert (header s) (set ps)"
    using rep unfolding skip_rep_def nodes_ok_def by auto
  have links: "linked (nxt (snodes s) 0) (header s # ps) NULL"
    using rep_links [OF rep, of 0] tower_0 [OF rep subset_refl] by simp
  have lv: "at_level (snodes s) 0 p" if "p \<in> set ps" for p
    using reaches_tower [OF rep, of p 0] tower_0 [OF rep subset_refl] that by simp
  have same: "nxt ?h 0 q = nxt (snodes s) 0 q" "at_level ?h 0 q = at_level (snodes s) 0 q" if "q \<in> set ps" for q
    using that dist by (auto simp: nxt_def at_level_def)
  have "linked (nxt ?h 0) ps NULL"
    using links by (subst linked_cong [where g = "nxt (snodes s) 0"]) (simp_all add: same)
  moreover have "distinct ps" "\<forall>p \<in> set ps. at_level ?h 0 p" using dist lv by (auto simp: same)
  ultimately have "free_nodes (hd (ps @ [NULL])) ?h = Some (\<lambda>p. if p \<in> set ps then None else ?h p)"
    by (rule free_nodes_ok)
  moreover have "(\<lambda>p. if p \<in> set ps then None else ?h p) = (\<lambda>_. None)"
    using dom by (auto simp: fun_eq_iff)
  moreover have "get_forward (snodes s) (header s) 0 = Some (hd (ps @ [NULL]))"
    using at_level_forward [OF hd0] links by simp
  moreover have "dealloc (snodes s) (header s) = Some ?h" by (rule dealloc_Some [of "header s" "snodes s", OF hp])
  ultimately show ?thesis by (simp add: skiplist_free_def)
qed

section \<open>A comparison\<close>

text \<open>The library function the tests and demos pass as the comparison, on strings without zero bytes.\<close>

fun strcmp :: "cstr \<Rightarrow> cstr \<Rightarrow> int" where
  "strcmp [] [] = 0"
| "strcmp [] (b # bs) = - 1"
| "strcmp (a # as) [] = 1"
| "strcmp (a # as) (b # bs) = (if a = b then strcmp as bs else if a < b then - 1 else 1)"

lemma strcmp_zero: "strcmp a b = 0 \<longleftrightarrow> a = b"
  by (induction a b rule: strcmp.induct) auto

lemma strcmp_flip: "strcmp b a = - strcmp a b"
  by (induction a b rule: strcmp.induct) auto

lemma strcmp_trans: "strcmp a b < 0 \<Longrightarrow> strcmp b c < 0 \<Longrightarrow> strcmp a c < 0"
proof (induction a arbitrary: b c)
  case Nil
  then show ?case by (cases b; cases c) auto
next
  case (Cons x xs)
  then show ?case by (cases b; cases c) (auto split: if_splits)
qed

lemma strcmp_order: "key_order strcmp"
  unfolding key_order_def using strcmp_zero strcmp_trans strcmp_flip by (metis neg_0_less_iff_less neg_less_0_iff_less)

section \<open>The contract of a dictionary\<close>

text \<open>
  The environment: a generator of random numbers that never ceases to deliver large values, and an
  allocator whose result is no live node.
\<close>

definition always_fair :: "(nat \<Rightarrow> u64) \<Rightarrow> bool" where
  "always_fair rnd \<longleftrightarrow> (\<forall>n. fair rnd n)"

definition good_alloc :: "(skip_heap \<Rightarrow> ptr) \<Rightarrow> bool" where
  "good_alloc alloc \<longleftrightarrow> (\<forall>h. finite (dom h) \<longrightarrow> fresh h (alloc h))"

definition sk_ok :: "(nat \<Rightarrow> u64) \<Rightarrow> (skip_heap \<Rightarrow> ptr) \<Rightarrow> skiplist \<Rightarrow> bool" where
  "sk_ok rnd alloc s \<longleftrightarrow> skip_inv s \<and> always_fair rnd \<and> good_alloc alloc"

definition sk_put :: "(nat \<Rightarrow> u64) \<Rightarrow> (nat \<Rightarrow> ptr) \<Rightarrow> (skip_heap \<Rightarrow> ptr) \<Rightarrow> skiplist \<Rightarrow> cstr \<Rightarrow> ptr \<Rightarrow> skiplist option" where
  "sk_put rnd junk alloc s k v = (case skiplist_insert rnd junk (alloc (snodes s)) (Some s) (Some k) v of
     Some (Some s', True) \<Rightarrow> Some s' | _ \<Rightarrow> None)"

definition sk_get :: "skiplist \<Rightarrow> cstr \<Rightarrow> ptr option" where
  "sk_get s k = skiplist_search (Some s) (Some k)"

lemma finite_nodes: "skip_inv s \<Longrightarrow> finite (dom (snodes s))"
  by (simp add: skip_inv_def skip_rep_def nodes_ok_def)

lemma card_inv: "skip_inv s \<Longrightarrow> card (dom (skip_binding s)) = unat (slength s)"
  using card_binding [of s "skip_ptrs s"] by (simp add: skip_inv_def)

lemma insert_update:
  assumes inv: "skip_inv s" and v: "v \<noteq> NULL" and a: "fresh (snodes s) a" and f: "fair rnd (draws s)"
    and wrap: "card (dom (skip_binding s)) + 1 < 2 ^ 64"
  shows "\<exists>s'. skiplist_insert rnd junk a (Some s) (Some k) v = Some (Some s', True) \<and> skip_inv s'
    \<and> skip_binding s' = (skip_binding s)(k \<mapsto> v)
    \<and> dom (snodes s') = (if k \<in> dom (skip_binding s) then {} else {a}) \<union> dom (snodes s)"
proof (cases "k \<in> dom (skip_binding s)")
  case True
  then show ?thesis using insert_present [OF inv True v, of rnd junk a] by auto
next
  case False
  obtain l n where l: "random_level rnd (draws s) = Some (l, n)" "1 \<le> l" "l \<le> SKIPLIST_MAXLEVEL"
    using f by (rule random_level_fair)
  have "unat (slength s) + 1 < 2 ^ 64" using wrap card_inv [OF inv] by simp
  then show ?thesis using insert_absent [OF inv False v a l, of junk] False by auto
qed

interpretation skip_dict: dict "sk_ok rnd alloc" skip_binding "sk_put rnd junk alloc" sk_get "2 ^ 64 - 1"
  for rnd junk alloc
proof
  fix s k v
  assume s: "sk_ok rnd alloc s" and v: "v \<noteq> NULL" and c: "card (dom (skip_binding s)) < 2 ^ 64 - 1"
  have inv: "skip_inv s" and env: "always_fair rnd" "good_alloc alloc" using s by (simp_all add: sk_ok_def)
  have a: "fresh (snodes s) (alloc (snodes s))" using env(2) finite_nodes [OF inv] by (simp add: good_alloc_def)
  have f: "fair rnd (draws s)" using env(1) by (simp add: always_fair_def)
  have "card (dom (skip_binding s)) + 1 < 2 ^ 64" using c by simp
  from insert_update [OF inv v a f this, of junk k]
  obtain s' where s': "skiplist_insert rnd junk (alloc (snodes s)) (Some s) (Some k) v = Some (Some s', True)"
      "skip_inv s'" "skip_binding s' = (skip_binding s)(k \<mapsto> v)"
    by blast
  then show "\<exists>s'. sk_put rnd junk alloc s k v = Some s' \<and> sk_ok rnd alloc s'
      \<and> skip_binding s' = (skip_binding s)(k \<mapsto> v)"
    using env by (simp add: sk_put_def sk_ok_def)
next
  fix s k
  assume "sk_ok rnd alloc s"
  then show "sk_get s k = Some (case skip_binding s k of None \<Rightarrow> NULL | Some v \<Rightarrow> v)"
    by (simp add: sk_ok_def sk_get_def search_binding)
next
  fix s
  assume s: "sk_ok rnd alloc s"
  then have rep: "skip_rep s (skip_ptrs s)" by (simp add: sk_ok_def skip_inv_def)
  show "finite (dom (skip_binding s))" unfolding dom_binding [OF rep] by simp
qed

lemma new_inv:
  assumes "a \<noteq> NULL" and "key_order cmp"
  obtains s where "skiplist_new junk True a calls cmp = Some (Some s)" and "skip_inv s"
    and "skip_binding s = Map.empty" and "slength s = 0" and "draws s = calls"
proof -
  obtain s where s: "skiplist_new junk True a calls cmp = Some (Some s)" "skip_rep s []"
      "scompare s = cmp" "draws s = calls" "slength s = 0" "slevel s = 1"
    by (rule new_rep [OF assms(1)]) (rule that)
  have "skip_inv s" using rep_inv [OF s(2)] s(3) assms(2) by simp
  moreover have "skip_binding s = Map.empty" using rep_ptrs [OF s(2)] by (simp add: skip_binding_def items_def)
  ultimately show thesis using that s by blast
qed

section \<open>A sample environment\<close>

definition sample_rnd :: "nat \<Rightarrow> u64" where
  "sample_rnd n = (if even n then 0x10001 else 0x7FFFFFFF)"

definition sample_alloc :: "skip_heap \<Rightarrow> ptr" where
  "sample_alloc h = Suc (Max (insert 0 (dom h)))"

lemma sample_fair: "always_fair sample_rnd"
proof -
  have "\<not> low_draw (sample_rnd (n + (if even n then 1 else 0)))" for n
    by (simp add: sample_rnd_def low_draw_def)
  then show ?thesis unfolding always_fair_def fair_def by blast
qed

lemma sample_alloc_good: "good_alloc sample_alloc"
proof -
  have "Suc (Max (insert 0 (dom h))) \<notin> dom h" if "finite (dom h)" for h :: skip_heap
  proof
    assume "Suc (Max (insert 0 (dom h))) \<in> dom h"
    then have "Suc (Max (insert 0 (dom h))) \<le> Max (insert 0 (dom h))" using that by (intro Max_ge) auto
    then show False by simp
  qed
  then show ?thesis by (auto simp: good_alloc_def fresh_def sample_alloc_def domIff)
qed

definition sample_bindings :: "(cstr \<times> ptr) list" where
  "sample_bindings = [([98], 7), ([97], 8), ([99, 98], 9), ([97], 10)]"

definition is_sample :: "skiplist \<Rightarrow> bool" where
  "is_sample s \<longleftrightarrow> (\<exists>s0. skiplist_new (\<lambda>_. 3) True 1 0 strcmp = Some (Some s0)
     \<and> put_all (sk_put sample_rnd (\<lambda>_. 3) sample_alloc) s0 sample_bindings = Some s)"

lemma sample_list:
  obtains s where "is_sample s" and "sk_ok sample_rnd sample_alloc s"
    and "skip_binding s = [[98] \<mapsto> 7, [97] \<mapsto> 10, [99, 98] \<mapsto> 9]" and "slength s = 3"
proof -
  obtain s0 where s0: "skiplist_new (\<lambda>_. 3) True 1 0 strcmp = Some (Some s0)" "skip_inv s0"
      "skip_binding s0 = Map.empty"
    using new_inv [of 1 strcmp] strcmp_order by (metis zero_neq_one)
  have "sk_ok sample_rnd sample_alloc s0" using s0(2) sample_fair sample_alloc_good by (simp add: sk_ok_def)
  then obtain s where s: "put_all (sk_put sample_rnd (\<lambda>_. 3) sample_alloc) s0 sample_bindings = Some s"
      "sk_ok sample_rnd sample_alloc s" "skip_binding s = skip_binding s0 ++ map_of (rev sample_bindings)"
    using skip_dict.put_all_binding [of sample_rnd sample_alloc s0 sample_bindings "\<lambda>_. 3"] s0(3)
    by (auto simp: sample_bindings_def)
  have b: "skip_binding s = [[98] \<mapsto> 7, [97] \<mapsto> 10, [99, 98] \<mapsto> 9]"
    using s(3) s0(3) by (auto simp: sample_bindings_def fun_eq_iff)
  have "unat (slength s) = card (dom (skip_binding s))" using card_inv [of s] s(2) by (simp add: sk_ok_def)
  also have "dom (skip_binding s) = {[98], [97], [99, 98]}" by (auto simp: b)
  finally have "unat (slength s) = unat (3 :: u64)" by simp
  then have "slength s = 3" by (simp only: unat_eq_iff_eq)
  moreover have "is_sample s" unfolding is_sample_def using s0(1) s(1) by blast
  ultimately show thesis using that s(2) b by blast
qed

section \<open>Properties\<close>

text \<open>
  C20. \<^verbatim>\<open>skiplist_insert\<close> into a well-formed list, with memory and a generator that does not deliver
  small numbers for ever, returns 1; the list stays well-formed (sorted, every level a chain through
  the nodes that are high enough, the level no higher than the highest node), binds the key to the
  value and every other key as before, and has one node more exactly for a new key.
\<close>

theorem skiplist_insert_spec:
  assumes "skip_inv s" and "v \<noteq> NULL" and "fresh (snodes s) a" and "fair rnd (draws s)"
    and "card (dom (skip_binding s)) + 1 < 2 ^ 64"
  shows "\<exists>s'. skiplist_insert rnd junk a (Some s) (Some k) v = Some (Some s', True)
    \<and> skip_inv s' \<and> skip_binding s' = (skip_binding s)(k \<mapsto> v)
    \<and> unat (skiplist_length (Some s')) = card (dom (skip_binding s'))
    \<and> dom (snodes s') = (if k \<in> dom (skip_binding s) then {} else {a}) \<union> dom (snodes s)"
proof -
  obtain s' where s': "skiplist_insert rnd junk a (Some s) (Some k) v = Some (Some s', True)" "skip_inv s'"
      "skip_binding s' = (skip_binding s)(k \<mapsto> v)"
      "dom (snodes s') = (if k \<in> dom (skip_binding s) then {} else {a}) \<union> dom (snodes s)"
    using insert_update [OF assms, of junk k] by blast
  then show ?thesis using card_inv [OF s'(2)] by (simp add: skiplist_length_def)
qed

theorem skiplist_insert_spec_witness:
  "\<exists>s. is_sample s \<and> (\<exists>s'. skiplist_insert sample_rnd (\<lambda>_. 5) (sample_alloc (snodes s)) (Some s) (Some [100]) 11
      = Some (Some s', True) \<and> skip_binding s' = (skip_binding s)([100] \<mapsto> 11))"
proof -
  obtain s where s: "is_sample s" "sk_ok sample_rnd sample_alloc s"
      "skip_binding s = [[98] \<mapsto> 7, [97] \<mapsto> 10, [99, 98] \<mapsto> 9]" "slength s = 3"
    by (rule sample_list)
  have inv: "skip_inv s" using s(2) by (simp add: sk_ok_def)
  have a: "fresh (snodes s) (sample_alloc (snodes s))"
    using sample_alloc_good finite_nodes [OF inv] by (simp add: good_alloc_def)
  have f: "fair sample_rnd (draws s)" using sample_fair by (simp add: always_fair_def)
  have "card (dom (skip_binding s)) + 1 < 2 ^ 64" using card_inv [OF inv] s(4) by simp
  from skiplist_insert_spec [OF inv _ a f this, of 11 "\<lambda>_. 5" "[100]"] s(1) show ?thesis by auto
qed

text \<open>
  \<^verbatim>\<open>skiplist_search\<close> of any key in a well-formed list returns (its loops end and no null pointer
  is followed), with the value bound to the key or null.
\<close>

theorem skiplist_search_spec:
  assumes "skip_inv s"
  shows "skiplist_search (Some s) (Some k) = Some (case skip_binding s k of None \<Rightarrow> NULL | Some v \<Rightarrow> v)"
  using assms by (rule search_binding)

theorem skiplist_search_spec_witness:
  "\<exists>s. is_sample s \<and> skiplist_search (Some s) (Some [97]) = Some 10
    \<and> skiplist_search (Some s) (Some [98, 98]) = Some NULL"
proof -
  obtain s where s: "is_sample s" "sk_ok sample_rnd sample_alloc s"
      "skip_binding s = [[98] \<mapsto> 7, [97] \<mapsto> 10, [99, 98] \<mapsto> 9]" "slength s = 3"
    by (rule sample_list)
  have "skip_inv s" using s(2) by (simp add: sk_ok_def)
  then show ?thesis using skiplist_search_spec [of s] s(1) by (auto simp: s(3))
qed

text \<open>
  C21. \<^verbatim>\<open>skiplist_delete\<close> of a key in a well-formed list returns its value, unlinks and frees exactly
  one node and removes exactly this binding; the list stays well-formed. The deletion of an absent
  key returns null and changes nothing.
\<close>

theorem skiplist_delete_spec:
  assumes "skip_inv s"
  shows "case skip_binding s k of
      None \<Rightarrow> skiplist_delete (Some s) (Some k) = Some (Some s, NULL)
    | Some v \<Rightarrow> (\<exists>s' x. skiplist_delete (Some s) (Some k) = Some (Some s', v) \<and> skip_inv s'
        \<and> skip_binding s' = (skip_binding s)(k := None)
        \<and> unat (skiplist_length (Some s')) = card (dom (skip_binding s'))
        \<and> x \<in> dom (snodes s) \<and> dom (snodes s') = dom (snodes s) - {x})"
proof (cases "skip_binding s k")
  case None
  then show ?thesis using delete_absent [OF assms] by auto
next
  case (Some v)
  obtain s' x where s': "skiplist_delete (Some s) (Some k) = Some (Some s', v)" "skip_inv s'"
      "skip_binding s' = (skip_binding s)(k := None)" "x \<in> dom (snodes s)"
      "dom (snodes s') = dom (snodes s) - {x}"
    using delete_present [OF assms Some] by blast
  moreover have "unat (skiplist_length (Some s')) = card (dom (skip_binding s'))"
    using card_inv [OF s'(2)] by (simp add: skiplist_length_def)
  ultimately show ?thesis using Some by auto
qed

theorem skiplist_delete_spec_witness:
  "\<exists>s. is_sample s \<and> (\<exists>s'. skiplist_delete (Some s) (Some [98]) = Some (Some s', 7)
      \<and> skip_binding s' = (skip_binding s)([98] := None))
    \<and> skiplist_delete (Some s) (Some [1]) = Some (Some s, NULL)"
proof -
  obtain s where s: "is_sample s" "sk_ok sample_rnd sample_alloc s"
      "skip_binding s = [[98] \<mapsto> 7, [97] \<mapsto> 10, [99, 98] \<mapsto> 9]" "slength s = 3"
    by (rule sample_list)
  have "skip_inv s" using s(2) by (simp add: sk_ok_def)
  then show ?thesis
    using skiplist_delete_spec [of s "[98]"] skiplist_delete_spec [of s "[1]"] s(1) by (auto simp: s(3))
qed

text \<open>
  A new list is well-formed and empty, and \<^verbatim>\<open>skiplist_free\<close> of a well-formed list frees every node
  once and leaves none.
\<close>

theorem skiplist_new_free_spec:
  assumes "a \<noteq> NULL" and "key_order cmp"
  shows "(\<exists>s. skiplist_new junk True a calls cmp = Some (Some s) \<and> skip_inv s
      \<and> skip_binding s = Map.empty \<and> skiplist_length (Some s) = 0)
    \<and> (\<forall>s. skip_inv s \<longrightarrow> skiplist_free (Some s) = Some (\<lambda>_. None))"
proof -
  have "\<exists>s. skiplist_new junk True a calls cmp = Some (Some s) \<and> skip_inv s
      \<and> skip_binding s = Map.empty \<and> skiplist_length (Some s) = 0"
    by (rule new_inv [OF assms, of junk calls]) (auto simp: skiplist_length_def)
  moreover have "skiplist_free (Some s) = Some (\<lambda>_. None)" if "skip_inv s" for s
    using free_rep [of s "skip_ptrs s"] that by (simp add: skip_inv_def)
  ultimately show ?thesis by blast
qed

theorem skiplist_new_free_spec_witness:
  "(\<exists>s. skiplist_new (\<lambda>_. 5) True 1 0 strcmp = Some (Some s) \<and> skiplist_length (Some s) = 0)
    \<and> (\<exists>s. is_sample s \<and> skiplist_free (Some s) = Some (\<lambda>_. None))"
proof -
  note spec = skiplist_new_free_spec [of 1 strcmp "\<lambda>_. 5" 0, OF _ strcmp_order]
  obtain s where s: "is_sample s" "sk_ok sample_rnd sample_alloc s" by (rule sample_list)
  have "skip_inv s" using s(2) by (simp add: sk_ok_def)
  then show ?thesis using spec s(1) by auto
qed

text \<open>
  C22. A client that creates a list and inserts any sequence of keys with non-null values finds
  under every key the last value inserted under it, and null under every other key, whatever levels
  the random numbers give the nodes.
\<close>

theorem skiplist_dictionary:
  assumes "a \<noteq> NULL" and "key_order cmp" and "always_fair rnd" and "good_alloc alloc"
    and "length kvs < 2 ^ 64" and "\<forall>(k, v) \<in> set kvs. v \<noteq> NULL"
  shows "\<exists>s s'. skiplist_new junk True a calls cmp = Some (Some s)
    \<and> put_all (sk_put rnd junk alloc) s kvs = Some s'
    \<and> (\<forall>k. skiplist_search (Some s') (Some k) =
        Some (case map_of (rev kvs) k of None \<Rightarrow> NULL | Some v \<Rightarrow> v))"
proof -
  obtain s where s: "skiplist_new junk True a calls cmp = Some (Some s)" "skip_inv s"
      "skip_binding s = Map.empty"
    by (rule new_inv [OF assms(1,2), of junk calls]) (rule that)
  have "sk_ok rnd alloc s" using s(2) assms(3,4) by (simp add: sk_ok_def)
  then have "\<exists>s'. put_all (sk_put rnd junk alloc) s kvs = Some s'
      \<and> (\<forall>k. sk_get s' k = Some (case map_of (rev kvs) k of None \<Rightarrow> NULL | Some v \<Rightarrow> v))"
    using skip_dict.get_after_put_all [of rnd alloc s kvs junk] assms(5,6) s(3) by simp
  then show ?thesis using s(1) by (auto simp: sk_get_def)
qed

theorem skiplist_dictionary_witness:
  "\<exists>s s'. skiplist_new (\<lambda>_. 5) True 1 0 strcmp = Some (Some s)
    \<and> put_all (sk_put sample_rnd (\<lambda>_. 5) sample_alloc) s sample_bindings = Some s'
    \<and> skiplist_search (Some s') (Some [97]) = Some 10"
  using skiplist_dictionary [of 1 strcmp sample_rnd sample_alloc sample_bindings "\<lambda>_. 5" 0,
      OF _ strcmp_order sample_fair sample_alloc_good]
  by (force simp: sample_bindings_def)

lemma random_loop_returns:
  assumes "random_loop rnd n level = Some r"
  shows "fair rnd n"
proof (rule random_loop.raw_induct [where P = "\<lambda>rnd n level r. fair rnd n", OF _ assms])
  fix f :: "(nat \<Rightarrow> u64) \<Rightarrow> nat \<Rightarrow> nat \<Rightarrow> (nat \<times> nat) option" and rnd n level r
  assume IH: "\<And>rnd n level r. f rnd n level = Some r \<Longrightarrow> fair rnd n"
    and body: "(if low_draw (rnd n) then f rnd (Suc n) (level + 1) else Some (level, Suc n)) = Some r"
  show "fair rnd n"
  proof (cases "low_draw (rnd n)")
    case True
    then have "fair rnd (Suc n)" using body IH by auto
    then obtain j where "\<not> low_draw (rnd (Suc n + j))" by (auto simp: fair_def)
    then have "\<not> low_draw (rnd (n + Suc j))" by simp
    then show ?thesis unfolding fair_def by blast
  next
    case False
    then have "\<not> low_draw (rnd (n + 0))" by simp
    then show ?thesis unfolding fair_def by blast
  qed
qed

lemma random_level_unfair: "\<not> fair rnd n \<Longrightarrow> random_level rnd n = None"
  by (cases "random_loop rnd n 1") (auto simp: random_level_def dest: random_loop_returns)

text \<open>
  The level of a new node: \<^verbatim>\<open>_random_level\<close> returns one more than the number of values of
  \<^verbatim>\<open>random\<close> in a row whose low 16 bits lie in the lowest quarter, at most 32. It never returns when
  all values lie there.
\<close>

theorem skiplist_random_level_spec:
  "if fair rnd n
   then \<exists>j. (\<forall>i < j. unat (rnd (n + i) AND 0xFFFF) < 0x4000) \<and> 0x4000 \<le> unat (rnd (n + j) AND 0xFFFF)
     \<and> random_level rnd n = Some (min (j + 1) 32, n + j + 1)
   else random_level rnd n = None"
proof (cases "fair rnd n")
  case True
  let ?P = "\<lambda>j. \<not> low_draw (rnd (n + j))"
  let ?j = "LEAST j. ?P j"
  have j: "?P ?j" using True unfolding fair_def by (rule LeastI_ex)
  have less: "\<forall>i < ?j. low_draw (rnd (n + i))" using not_less_Least by blast
  have "random_level rnd n = Some (min (?j + 1) 32, n + ?j + 1)"
    using random_level_run [OF less j] by (simp only: SKIPLIST_MAXLEVEL_def)
  then have "(\<forall>i < ?j. unat (rnd (n + i) AND 0xFFFF) < 0x4000) \<and> 0x4000 \<le> unat (rnd (n + ?j) AND 0xFFFF)
     \<and> random_level rnd n = Some (min (?j + 1) 32, n + ?j + 1)"
    using j less by (simp only: low_draw_quarter not_less)
  then show ?thesis using True by auto
next
  case False
  then show ?thesis using random_level_unfair by simp
qed

theorem skiplist_random_level_spec_witness:
  "(\<exists>m. random_level sample_rnd 0 = Some (2, m)) \<and> random_level (\<lambda>_. 0) 0 = None"
proof
  have "fair sample_rnd 0" using sample_fair by (simp add: always_fair_def)
  then obtain j where j: "\<forall>i < j. unat (sample_rnd i AND 0xFFFF) < 0x4000"
      "0x4000 \<le> unat (sample_rnd j AND 0xFFFF)" "random_level sample_rnd 0 = Some (min (j + 1) 32, j + 1)"
    using skiplist_random_level_spec [of sample_rnd 0] by auto
  have "j \<noteq> 0" using j(2) by (rule contrapos_pn) (simp add: sample_rnd_def)
  moreover have "\<not> 1 < j" using j(1) by (auto simp: sample_rnd_def)
  ultimately have "j = 1" by simp
  then show "\<exists>m. random_level sample_rnd 0 = Some (2, m)" using j(3) by simp
  have "\<not> fair (\<lambda>_. 0) 0" by (simp add: fair_def low_draw_def)
  then show "random_level (\<lambda>_. 0) 0 = None" using skiplist_random_level_spec [of "\<lambda>_. 0" 0] by simp
qed

text \<open>
  The result of \<^verbatim>\<open>_create_node\<close> is checked nowhere: when memory runs out, \<^verbatim>\<open>skiplist_new\<close> and
  the insertion of a new key follow a null pointer.
\<close>

theorem skiplist_unchecked_allocation:
  "skiplist_new junk True NULL calls cmp = None
    \<and> (skip_inv s \<and> k \<notin> dom (skip_binding s) \<and> v \<noteq> NULL
        \<longrightarrow> skiplist_insert rnd junk NULL (Some s) (Some k) v = None)"
proof -
  have "skiplist_new junk True NULL calls cmp = None"
    by (simp add: skiplist_new_def numeral_eq_Suc set_forward_def)
  moreover have "skiplist_insert rnd junk NULL (Some s) (Some k) v = None"
    if "skip_inv s" "k \<notin> dom (skip_binding s)" "v \<noteq> NULL"
  proof (cases "fair rnd (draws s)")
    case True
    then obtain l n where "random_level rnd (draws s) = Some (l, n)" "1 \<le> l" by (rule random_level_fair)
    then show ?thesis using insert_unchecked [OF that] by blast
  next
    case False
    then have lev: "random_level rnd (draws s) = None" by (rule random_level_unfair)
    have rep: "skip_rep s (skip_ptrs s)" and ord: "key_order (scompare s)"
      using that(1) by (simp_all add: skip_inv_def)
    have "k \<notin> node_key (snodes s) ` set (skip_ptrs s)" using that(2) dom_binding [OF rep] by simp
    then show ?thesis
      using that(3) lev descend_all [OF rep ord] candidate_forward [OF rep ord, of k] candidate_absent [OF rep ord]
      by (simp add: skiplist_insert_def)
  qed
  ultimately show ?thesis by blast
qed

theorem skiplist_unchecked_allocation_witness:
  "\<exists>s. is_sample s \<and> skiplist_insert sample_rnd (\<lambda>_. 5) NULL (Some s) (Some [1]) 7 = None"
proof -
  obtain s where s: "is_sample s" "sk_ok sample_rnd sample_alloc s"
      "skip_binding s = [[98] \<mapsto> 7, [97] \<mapsto> 10, [99, 98] \<mapsto> 9]"
    by (rule sample_list)
  then have "skip_inv s \<and> [1] \<notin> dom (skip_binding s)" by (simp add: sk_ok_def)
  then show ?thesis using skiplist_unchecked_allocation [of "\<lambda>_. 5" 0 strcmp s "[1]" 7 sample_rnd] s(1) by auto
qed

end
