(* ===== verification/Demo_Words.thy ===== *)
theory Demo_Words
  imports Prelude
begin

text \<open>
  What the demo programs \<^verbatim>\<open>bloomfilter_demo.c\<close>, \<^verbatim>\<open>hashmap_demo.c\<close> and \<^verbatim>\<open>skiplist_demo.c\<close> share: they
  read a file word by word into a container and measure the time this takes.

  A run of a program is a \<open>prog\<close>: \<open>None\<close> when it never returns, \<open>Some (Inl c)\<close> when it crashes, by an
  operation without a meaning or by a failed assertion, and \<open>Some (Inr r)\<close> when it returns. The record
  \<open>cfile\<close> is an open file: the bytes not read yet and the end-of-file indicator \<^verbatim>\<open>feof\<close> tests.
\<close>

section \<open>Programs\<close>

datatype crash = Undefined | Assertion_Failed

type_synonym 'a prog = "(crash + 'a) option"

definition then_do :: "'a prog \<Rightarrow> ('a \<Rightarrow> 'b prog) \<Rightarrow> 'b prog" where
  "then_do p f = (case p of None \<Rightarrow> None | Some (Inl c) \<Rightarrow> Some (Inl c) | Some (Inr x) \<Rightarrow> f x)"

lemma then_do_simps [simp]:
  "then_do None f = None" "then_do (Some (Inl c)) f = Some (Inl c)" "then_do (Some (Inr x)) f = f x"
  by (simp_all add: then_do_def)

lemma then_do_cong [fundef_cong]:
  "p = p' \<Longrightarrow> (\<And>x. p' = Some (Inr x) \<Longrightarrow> f x = f' x) \<Longrightarrow> then_do p f = then_do p' f'"
  by (auto simp: then_do_def split: option.splits sum.splits)

lemma then_do_assoc: "then_do (then_do p f) g = then_do p (\<lambda>x. then_do (f x) g)"
  by (simp add: then_do_def split: option.split sum.split)

text \<open>The calls of the components: \<open>None\<close>, or their own fault, is an undefined operation.\<close>

definition defined :: "'a option \<Rightarrow> 'a prog" where
  "defined r = Some (case r of None \<Rightarrow> Inl Undefined | Some x \<Rightarrow> Inr x)"

definition returned :: "('e + 'a) option \<Rightarrow> 'a prog" where
  "returned r = map_option (map_sum (\<lambda>_. Undefined) id) r"

definition assert_that :: "bool \<Rightarrow> unit prog" where
  "assert_that c = Some (if c then Inr () else Inl Assertion_Failed)"

lemma prog_simps [simp]:
  "defined None = Some (Inl Undefined)" "defined (Some x) = Some (Inr x)"
  "returned None = None" "returned (Some (Inl e)) = Some (Inl Undefined)"
  "returned (Some (Inr x)) = Some (Inr x)"
  "assert_that True = Some (Inr ())" "assert_that False = Some (Inl Assertion_Failed)"
  by (simp_all add: defined_def returned_def assert_that_def)

text \<open>The word all of them ask for, and the lines they print.\<close>

definition comically :: cstr where
  "comically = [99, 111, 109, 105, 99, 97, 108, 108, 121]"

datatype line = Added int int | Found cstr int | Present cstr | Missing cstr

section \<open>The clock\<close>

text \<open>
  \<^verbatim>\<open>get_ustime_sec\<close> (the same function in three programs) on what \<^verbatim>\<open>gettimeofday\<close> gives: seconds and
  microseconds. A \<^verbatim>\<open>long long\<close> has 64 bits.
\<close>

definition llong :: "int \<Rightarrow> int prog" where
  "llong x = (if - (2 ^ 63) \<le> x \<and> x < 2 ^ 63 then Some (Inr x) else Some (Inl Undefined))"

definition get_ustime_sec :: "int \<times> int \<Rightarrow> int prog" where
  "get_ustime_sec tv =
     then_do (llong (fst tv * 1000000)) (\<lambda>ust. llong (ust + snd tv))"

definition sane_time :: "int \<times> int \<Rightarrow> bool" where
  "sane_time tv \<longleftrightarrow> 0 \<le> fst tv \<and> fst tv < 2 ^ 42 \<and> 0 \<le> snd tv \<and> snd tv < 1000000"

definition ustime :: "int \<times> int \<Rightarrow> int" where
  "ustime tv = fst tv * 1000000 + snd tv"

lemma get_ustime_sec_sane:
  assumes "sane_time tv"
  shows "get_ustime_sec tv = Some (Inr (ustime tv))" and "0 \<le> ustime tv" and "ustime tv < 2 ^ 63"
  using assms by (auto simp: get_ustime_sec_def llong_def sane_time_def ustime_def)

lemma llong_elapsed:
  assumes "sane_time start" and "sane_time stop"
  shows "llong (ustime stop - ustime start) = Some (Inr (ustime stop - ustime start))"
  using get_ustime_sec_sane(2,3) [OF assms(1)] get_ustime_sec_sane(2,3) [OF assms(2)]
  by (simp add: llong_def)

section \<open>Reading a word\<close>

record cfile =
  unread :: "u8 list"
  feof :: bool

definition open_file :: "u8 list \<Rightarrow> cfile" where
  "open_file text = \<lparr>unread = text, feof = False\<rparr>"

definition isspace :: "u8 \<Rightarrow> bool" where
  "isspace c \<longleftrightarrow> c = 32 \<or> (9 \<le> c \<and> c \<le> 13)"

text \<open>
  The library call \<^verbatim>\<open>fscanf(f, "%s\n", word)\<close>: \<^verbatim>\<open>%s\<close> skips white space and takes the bytes up to the
  next white space, and stores nothing when there are none; \<^verbatim>\<open>\n\<close> skips white space again. Coming to
  the end of the file sets its indicator.
\<close>

definition fscanf_word :: "cfile \<Rightarrow> u8 list option \<times> cfile" where
  "fscanf_word f =
     (let s = dropWhile isspace (unread f) in
      if s = [] then (None, \<lparr>unread = [], feof = True\<rparr>)
      else
        let w = takeWhile (\<lambda>c. \<not> isspace c) s;
            r = dropWhile isspace (dropWhile (\<lambda>c. \<not> isspace c) s)
        in (Some w, \<lparr>unread = r, feof = (r = [])\<rparr>))"

text \<open>
  The buffers have 30 bytes, one of them for the terminating zero: a longer word is written outside.
  What the buffer then holds, as a string, ends before the first zero byte.
\<close>

definition c_string :: "u8 list \<Rightarrow> cstr" where
  "c_string w = takeWhile (\<lambda>c. c \<noteq> 0) w"

definition read_word :: "cfile \<Rightarrow> crash + (cstr option \<times> cfile)" where
  "read_word f = (case fscanf_word f of
     (None, f') \<Rightarrow> Inr (None, f')
   | (Some w, f') \<Rightarrow> if length w < 30 then Inr (Some (c_string w), f') else Inl Undefined)"

lemma scan_shorter:
  assumes "fscanf_word f = (w, f')"
  shows "feof f' \<or> length (unread f') < length (unread f)"
proof -
  define s where "s = dropWhile isspace (unread f)"
  define t where "t = dropWhile (\<lambda>c. \<not> isspace c) s"
  have "length (dropWhile isspace t) < length (unread f)" if "s \<noteq> []"
  proof -
    have "\<not> isspace (hd s)" using that hd_dropWhile unfolding s_def by blast
    then have "t = dropWhile (\<lambda>c. \<not> isspace c) (tl s)" using that by (cases s) (auto simp: t_def)
    then have "length t \<le> length (tl s)" by (simp only: length_dropWhile_le)
    moreover have "length (dropWhile isspace t) \<le> length t" "length s \<le> length (unread f)"
      by (simp_all add: s_def length_dropWhile_le)
    ultimately show ?thesis using that by (cases s) auto
  qed
  then show ?thesis
    using assms unfolding fscanf_word_def Let_def s_def t_def by (auto split: if_splits)
qed

section \<open>The reading loop\<close>

text \<open>
  The loop \<^verbatim>\<open>while (!feof(f))\<close> of the three programs. In two of them it allocates the buffer of each
  word and asserts that this succeeded (\<open>ready\<close>). The loop body goes on with what the call stored in
  the buffer, if anything.
\<close>

function fill_loop ::
    "bool \<Rightarrow> (cstr option \<Rightarrow> 's \<Rightarrow> 's prog) \<Rightarrow> cfile \<Rightarrow> int \<Rightarrow> 's \<Rightarrow> (int \<times> 's) prog" where
  "fill_loop ready body f i st =
     (if feof f then Some (Inr (i, st))
      else if i = 2 ^ 31 - 1 then Some (Inl Undefined)
      else then_do (assert_that ready) (\<lambda>_.
        case read_word f of
          Inl c \<Rightarrow> Some (Inl c)
        | Inr (w, f') \<Rightarrow> then_do (body w st) (\<lambda>st'. fill_loop ready body f' (i + 1) st')))"
  by pat_completeness auto
termination
proof (relation "measure (\<lambda>(ready, body, f, i, st). if feof f then 0 else Suc (length (unread f)))")
  fix ready body f i st x r w f' st'
  assume "\<not> feof f" "read_word f = Inr r" "(w, f') = r"
  then have "feof f' \<or> length (unread f') < length (unread f)"
    using scan_shorter [of f] by (auto simp: read_word_def split: prod.splits option.splits if_splits)
  then show "((ready, body, f', i + 1, st'), ready, body, f, i, st)
      \<in> measure (\<lambda>(ready, body, f, i, st). if feof f then 0 else Suc (length (unread f)))"
    using \<open>\<not> feof f\<close> by auto
qed simp_all

declare fill_loop.simps [simp del]

lemma then_do_returns: "then_do p f = Some (Inr y) \<longleftrightarrow> (\<exists>x. p = Some (Inr x) \<and> f x = Some (Inr y))"
  by (auto simp: then_do_def split: option.splits sum.splits)

section \<open>The words of a text\<close>

text \<open>The reference: cutting a text at white space, byte by byte.\<close>

fun tokens :: "u8 list \<Rightarrow> u8 list \<Rightarrow> u8 list list" where
  "tokens acc [] = (if acc = [] then [] else [acc])"
| "tokens acc (c # cs) =
     (if isspace c then (if acc = [] then tokens [] cs else acc # tokens [] cs)
      else tokens (acc @ [c]) cs)"

definition words :: "u8 list \<Rightarrow> cstr list" where
  "words text = map c_string (tokens [] text)"

text \<open>Files the programs can read: at least one word, none too long for the buffer.\<close>

definition readable :: "u8 list \<Rightarrow> bool" where
  "readable text \<longleftrightarrow> tokens [] text \<noteq> [] \<and> (\<forall>w \<in> set (tokens [] text). length w < 30)
     \<and> int (length (tokens [] text)) < 2 ^ 31"

lemma tokens_skip: "tokens [] (dropWhile isspace s) = tokens [] s"
  by (induction s) auto

lemma tokens_word:
  "acc \<noteq> [] \<Longrightarrow> tokens acc s =
     (acc @ takeWhile (\<lambda>c. \<not> isspace c) s) # tokens [] (dropWhile (\<lambda>c. \<not> isspace c) s)"
  by (induction s arbitrary: acc) auto

lemma tokens_scan:
  "tokens [] (unread f) = (case fscanf_word f of
     (None, _) \<Rightarrow> [] | (Some w, f') \<Rightarrow> w # tokens [] (unread f'))"
proof (cases "dropWhile isspace (unread f)")
  case Nil
  then have "tokens [] (unread f) = tokens [] []" using tokens_skip [of "unread f"] by (simp only:)
  then show ?thesis using Nil
    by (simp only: fscanf_word_def Let_def refl if_True prod.case option.case tokens.simps)
next
  case (Cons c cs)
  then have c: "\<not> isspace c" using hd_dropWhile [of isspace "unread f"] by simp
  have "tokens [] (unread f) = tokens [] (c # cs)" using tokens_skip [of "unread f"] Cons by simp
  also have "\<dots> = (c # takeWhile (\<lambda>c. \<not> isspace c) cs) # tokens [] (dropWhile (\<lambda>c. \<not> isspace c) cs)"
    using c tokens_word [of "[c]" cs] by simp
  finally show ?thesis
    using Cons c tokens_skip [of "dropWhile (\<lambda>c. \<not> isspace c) cs"] by (simp add: fscanf_word_def)
qed

text \<open>Adding the words in turn.\<close>

fun each :: "('a \<Rightarrow> 's \<Rightarrow> 's prog) \<Rightarrow> 'a list \<Rightarrow> 's \<Rightarrow> 's prog" where
  "each body [] st = Some (Inr st)"
| "each body (x # xs) st = then_do (body x st) (\<lambda>st'. each body xs st')"

lemma fscanf_eof: "fscanf_word f = (Some w, f') \<Longrightarrow> feof f' \<longleftrightarrow> tokens [] (unread f') = []"
proof -
  define r where
    "r = dropWhile isspace (dropWhile (\<lambda>c. \<not> isspace c) (dropWhile isspace (unread f)))"
  assume "fscanf_word f = (Some w, f')"
  then have f': "f' = \<lparr>unread = r, feof = (r = [])\<rparr>"
    by (cases "dropWhile isspace (unread f) = []")
      (simp_all only: fscanf_word_def Let_def if_True if_False prod.inject r_def simp_thms option.distinct)
  have "r \<noteq> [] \<Longrightarrow> \<not> isspace (hd r)" unfolding r_def by (rule hd_dropWhile)
  then show ?thesis
    using tokens_word [of "[hd r]" "tl r"] by (cases r) (auto simp: f')
qed

lemma fill_loop_each:
  assumes "\<not> feof f" and "tokens [] (unread f) \<noteq> []" and "\<forall>w \<in> set (tokens [] (unread f)). length w < 30"
    and "i + int (length (tokens [] (unread f))) < 2 ^ 31"
  shows "fill_loop True body f i st =
    then_do (each (\<lambda>w. body (Some w)) (map c_string (tokens [] (unread f))) st)
      (\<lambda>st'. Some (Inr (i + int (length (tokens [] (unread f))), st')))"
  using assms
proof (induction "length (tokens [] (unread f))" arbitrary: f i st)
  case 0
  then show ?case by simp
next
  case (Suc n)
  obtain w f' where scan: "fscanf_word f = (Some w, f')"
    using tokens_scan [of f] Suc.prems(2) by (auto split: prod.splits option.splits)
  then have tok: "tokens [] (unread f) = w # tokens [] (unread f')" using tokens_scan [of f] by simp
  then have read: "read_word f = Inr (Some (c_string w), f')"
    using Suc.prems(3) scan by (simp add: read_word_def)
  have step: "fill_loop True body f i st =
      then_do (body (Some (c_string w)) st) (\<lambda>st'. fill_loop True body f' (i + 1) st')"
    using Suc.prems(1,4) tok by (subst fill_loop.simps) (simp add: read)
  show ?case
  proof (cases "feof f'")
    case True
    then have "tokens [] (unread f') = []" using fscanf_eof [OF scan] by simp
    then show ?thesis using step True tok by (simp add: fill_loop.simps [of _ _ f'] then_do_assoc)
  next
    case False
    then have "tokens [] (unread f') \<noteq> []" using fscanf_eof [OF scan] by simp
    then have IH: "fill_loop True body f' (i + 1) st' =
      then_do (each (\<lambda>w. body (Some w)) (map c_string (tokens [] (unread f'))) st')
        (\<lambda>st'. Some (Inr (i + 1 + int (length (tokens [] (unread f'))), st')))" for st'
      using Suc.hyps(2) Suc.prems(3,4) tok False by (intro Suc.hyps(1)) auto
    show ?thesis unfolding step IH tok by (simp add: then_do_assoc add.assoc)
  qed
qed

text \<open>
  The converse: a loop that cannot begin without a word in the buffer returns on readable files only. A longer
  word overflows the buffer, and a file without words leaves it uninitialised.
\<close>

lemma fill_loop_reads:
  "fill_loop ready body f i st = Some (Inr r) \<Longrightarrow> \<not> feof f \<Longrightarrow> i < 2 ^ 31 \<Longrightarrow> tokens [] (unread f) \<noteq> [] \<Longrightarrow>
    (\<forall>w \<in> set (tokens [] (unread f)). length w < 30)
    \<and> i + int (length (tokens [] (unread f))) < 2 ^ 31"
proof (induction "length (unread f)" arbitrary: f i st rule: less_induct)
  case less
  have i: "i \<noteq> 2 ^ 31 - 1" using less.prems(1,2) by (auto simp: fill_loop.simps [of _ _ f])
  obtain w f' where read: "read_word f = Inr (w, f')"
    using less.prems(1,2) i
    by (subst (asm) fill_loop.simps) (auto simp: then_do_returns split: sum.splits)
  obtain st' where step: "body w st = Some (Inr st')" "fill_loop ready body f' (i + 1) st' = Some (Inr r)"
    using less.prems(1,2) i read
    by (subst (asm) fill_loop.simps) (auto simp: then_do_returns)
  obtain v where scan: "fscanf_word f = (Some v, f')" and v: "length v < 30"
    using read tokens_scan [of f] less.prems(4)
    by (auto simp: read_word_def split: prod.splits option.splits if_splits)
  have tok: "tokens [] (unread f) = v # tokens [] (unread f')" using tokens_scan [of f] scan by simp
  show ?case
  proof (cases "feof f'")
    case True
    then show ?thesis using fscanf_eof [OF scan] tok v less.prems(3) i by simp
  next
    case False
    then have "length (unread f') < length (unread f)" using scan_shorter [OF scan] by simp
    then show ?thesis using less.hyps [OF _ step(2) False] less.prems(3) i tok v fscanf_eof [OF scan] by auto
  qed
qed

lemma fill_loop_readable:
  assumes "body None st = Some (Inl Undefined)"
    and "fill_loop ready body (open_file text) 0 st = Some (Inr r)"
  shows "readable text"
proof (cases "tokens [] text")
  case Nil
  then have "read_word (open_file text) = Inr (None, \<lparr>unread = [], feof = True\<rparr>)"
    using tokens_scan [of "open_file text"]
    by (auto simp: read_word_def open_file_def fscanf_word_def Let_def split: if_splits)
  then show ?thesis
    using assms fill_loop.simps [of ready body "open_file text" 0 st]
    by (cases ready) (simp_all add: open_file_def)
next
  case Cons
  then show ?thesis using fill_loop_reads [OF assms(2)] by (simp add: open_file_def readable_def)
qed

lemma fill_loop_words:
  assumes "readable text"
  shows "fill_loop True body (open_file text) 0 st =
    then_do (each (\<lambda>w. body (Some w)) (words text) st)
      (\<lambda>st'. Some (Inr (int (length (words text)), st')))"
  using assms fill_loop_each [of "open_file text" 0 body st]
  by (simp add: readable_def words_def open_file_def)

end
