(* ===== verification/Demo_Maps.thy ===== *)
theory Demo_Maps
  imports Hashmap_Growth Skiplist_Dict Demo_Words
begin

text \<open>
  The demo programs \<^verbatim>\<open>hashmap/hashmap_demo.c\<close> and \<^verbatim>\<open>skiplist/skiplist_demo.c\<close>: they put the words of a
  file in a dictionary, every word with a pointer to the static variable \<^verbatim>\<open>value\<close>, and look a word up
  before and after they change and delete it. \<^verbatim>\<open>hashmap_free\<close> at the end changes nothing that is modelled
  and is left out, and so are the headings of the output. \<open>value\<close> and \<open>newvalue\<close> are the addresses of the static
  variables.
\<close>

section \<open>The programs\<close>

text \<open>\<^verbatim>\<open>compare_word\<close> is the same in both programs.\<close>

definition compare_word :: "cstr \<Rightarrow> cstr \<Rightarrow> int" where
  "compare_word desc src = strcmp desc src"

definition map_func :: "ptr \<Rightarrow> cstr \<Rightarrow> ptr \<Rightarrow> unit \<Rightarrow> ptr \<times> unit" where
  "map_func newvalue key v other = (newvalue, other)"

definition statics :: "ptr \<Rightarrow> ptr \<Rightarrow> ptr \<rightharpoonup> int" where
  "statics value newvalue = [newvalue \<mapsto> 2, value \<mapsto> 1]"

text \<open>What is printed about the result \<open>t\<close> of a lookup, with and without the value it points to.\<close>

definition tell_value :: "(ptr \<rightharpoonup> int) \<Rightarrow> cstr \<Rightarrow> ptr \<Rightarrow> line prog" where
  "tell_value vars w t =
     (if t \<noteq> NULL then then_do (defined (load vars t)) (\<lambda>v. Some (Inr (Found w v)))
      else Some (Inr (Missing w)))"

definition tell :: "cstr \<Rightarrow> ptr \<Rightarrow> line" where
  "tell w t = (if t \<noteq> NULL then Present w else Missing w)"

text \<open>The bodies of the reading loops: a buffer nothing was read into is uninitialised memory.\<close>

definition put_word ::
    "(u64 \<Rightarrow> bool) \<Rightarrow> ptr \<Rightarrow> cstr option \<Rightarrow> hashmap option \<Rightarrow> hashmap option prog" where
  "put_word mem v got mp =
     then_do (defined got) (\<lambda>key.
     then_do (returned (hashmap_put mem mp (Some key) v)) (\<lambda>(mp, _). Some (Inr mp)))"

definition insert_word ::
    "(nat \<Rightarrow> u64) \<Rightarrow> (nat \<Rightarrow> ptr) \<Rightarrow> (skip_heap \<Rightarrow> ptr) \<Rightarrow> ptr \<Rightarrow> cstr option \<Rightarrow> skiplist option \<Rightarrow>
     skiplist option prog" where
  "insert_word rnd junk alloc v got lst =
     then_do (defined got) (\<lambda>key.
     let node = (case lst of None \<Rightarrow> NULL | Some s \<Rightarrow> alloc (snodes s)) in
     then_do (defined (skiplist_insert rnd junk node lst (Some key) v)) (\<lambda>(lst, _). Some (Inr lst)))"

definition hashmap_demo ::
    "(u64 \<Rightarrow> bool) \<Rightarrow> ptr \<Rightarrow> ptr \<Rightarrow> cfile option \<Rightarrow> int \<times> int \<Rightarrow> int \<times> int \<Rightarrow> line list prog" where
  "hashmap_demo mem value newvalue file t0 t1 =
     (let mp = hashmap_new mem 0 compare_word; vars = statics value newvalue in
     then_do (assert_that (mp \<noteq> None)) (\<lambda>_.
     then_do (assert_that (file \<noteq> None)) (\<lambda>_.
     then_do (get_ustime_sec t0) (\<lambda>start.
     then_do (fill_loop (mem 30) (put_word mem value) (the file) 0 mp) (\<lambda>(i, mp).
     then_do (get_ustime_sec t1) (\<lambda>stop.
     then_do (llong (stop - start)) (\<lambda>time.
     then_do (returned (hashmap_get mp (Some comically))) (\<lambda>t.
     then_do (tell_value vars comically t) (\<lambda>l1.
     then_do (returned (hashmap_map mp (Some (map_func newvalue)) ())) (\<lambda>(mp, _, _).
     then_do (returned (hashmap_get mp (Some comically))) (\<lambda>t.
     then_do (tell_value vars comically t) (\<lambda>l2.
     then_do (returned (hashmap_delete mp (Some comically))) (\<lambda>(mp, _).
     then_do (returned (hashmap_get mp (Some comically))) (\<lambda>t.
     Some (Inr [Added i time, l1, l2, tell comically t])))))))))))))))"

text \<open>
  Here \<open>Undefined\<close> also stands for a call of \<^verbatim>\<open>skiplist_insert\<close> that never ends drawing a level.
\<close>

definition skiplist_demo ::
    "(nat \<Rightarrow> u64) \<Rightarrow> (nat \<Rightarrow> ptr) \<Rightarrow> (skip_heap \<Rightarrow> ptr) \<Rightarrow> bool \<Rightarrow> ptr \<Rightarrow> bool \<Rightarrow> ptr \<Rightarrow>
     cfile option \<Rightarrow> int \<times> int \<Rightarrow> int \<times> int \<Rightarrow> line list prog" where
  "skiplist_demo rnd junk alloc ok node keys value file t0 t1 =
     then_do (defined (skiplist_new junk ok node 0 compare_word)) (\<lambda>lst.
     then_do (assert_that (lst \<noteq> None)) (\<lambda>_.
     then_do (assert_that (file \<noteq> None)) (\<lambda>_.
     then_do (get_ustime_sec t0) (\<lambda>start.
     then_do (fill_loop keys (insert_word rnd junk alloc value) (the file) 0 lst) (\<lambda>(i, lst).
     then_do (get_ustime_sec t1) (\<lambda>stop.
     then_do (llong (stop - start)) (\<lambda>time.
     then_do (defined (skiplist_search lst (Some comically))) (\<lambda>t.
     then_do (tell_value [value \<mapsto> 1] comically t) (\<lambda>l1.
     then_do (defined (skiplist_delete lst (Some comically))) (\<lambda>(lst, _).
     then_do (defined (skiplist_search lst (Some comically))) (\<lambda>t.
     then_do (defined (skiplist_free lst)) (\<lambda>_.
     Some (Inr [Added i time, l1, tell comically t])))))))))))))"

section \<open>Filling the dictionaries\<close>

lemma compare_word_zero: "\<forall>a b. compare_word a b = 0 \<longleftrightarrow> a = b"
  by (simp add: compare_word_def strcmp_zero)

lemma compare_word_order: "key_order compare_word"
  using strcmp_order by (simp add: compare_word_def [abs_def])

text \<open>All words have the same value.\<close>

abbreviation same_value :: "ptr \<Rightarrow> cstr list \<Rightarrow> (cstr \<times> ptr) list" where
  "same_value v ws \<equiv> map (\<lambda>w. (w, v)) ws"

lemma map_of_same_value: "map_of (rev (same_value v ws)) = (\<lambda>k. if k \<in> set ws then Some v else None)"
  by (induction ws rule: rev_induct) auto

lemma each_put_word:
  "put_all hm_put1 m (same_value v ws) = Some m' \<Longrightarrow>
    each (\<lambda>w. put_word (\<lambda>_. True) v (Some w)) ws (Some m) = Some (Inr (Some m'))"
proof (induction ws arbitrary: m)
  case (Cons w ws)
  obtain m1 where m1: "hm_put1 m w v = Some m1" "put_all hm_put1 m1 (same_value v ws) = Some m'"
    using Cons.prems by (auto split: bind_splits)
  have "hashmap_put (\<lambda>_. True) (Some m) (Some w) v = Some (Inr (Some m1, 1))"
    using m1(1) by (auto simp: hm_put1_def split: option.splits sum.splits prod.splits if_splits)
  then show ?case using Cons.IH [OF m1(2)] by (simp add: put_word_def)
qed simp

lemma each_insert_word:
  "put_all (sk_put rnd junk alloc) s (same_value v ws) = Some s' \<Longrightarrow>
    each (\<lambda>w. insert_word rnd junk alloc v (Some w)) ws (Some s) = Some (Inr (Some s'))"
proof (induction ws arbitrary: s)
  case (Cons w ws)
  obtain s1 where s1: "sk_put rnd junk alloc s w v = Some s1"
      "put_all (sk_put rnd junk alloc) s1 (same_value v ws) = Some s'"
    using Cons.prems by (auto split: bind_splits)
  have "skiplist_insert rnd junk (alloc (snodes s)) (Some s) (Some w) v = Some (Some s1, True)"
    using s1(1) by (auto simp: sk_put_def split: option.splits prod.splits bool.splits)
  then show ?case using Cons.IH [OF s1(2)] by (simp add: insert_word_def)
qed simp

lemma readable_length: "readable text \<Longrightarrow> length (words text) < 2 ^ 31"
  by (simp add: readable_def words_def)

lemma fill_table:
  assumes "readable text" and "v \<noteq> NULL"
  obtains m m' where "hashmap_new (\<lambda>_. True) 0 compare_word = Some m"
    and "fill_loop True (put_word (\<lambda>_. True) v) (open_file text) 0 (Some m) =
      Some (Inr (int (length (words text)), Some m'))"
    and "growing m'" and "lookup m' = (\<lambda>k. if k \<in> set (words text) then Some v else None)"
proof -
  obtain m where m: "hashmap_new (\<lambda>_. True) 0 compare_word = Some m" "growing m" "lookup m = Map.empty"
    using compare_word_zero by (rule new_growing)
  obtain m' where m': "put_all hm_put1 m (same_value v (words text)) = Some m'" "growing m'"
      "lookup m' = lookup m ++ map_of (rev (same_value v (words text)))"
    using table.put_all_binding [OF m(2), of "same_value v (words text)"] readable_length [OF assms(1)]
      assms(2) m(3) by auto
  have "fill_loop True (put_word (\<lambda>_. True) v) (open_file text) 0 (Some m) =
      Some (Inr (int (length (words text)), Some m'))"
    using each_put_word [OF m'(1)] fill_loop_words [OF assms(1), of "put_word (\<lambda>_. True) v" "Some m"] by simp
  then show thesis using that m m'(2,3) by (simp add: map_of_same_value)
qed

lemma clean_get:
  assumes "clean m" and "card (keys_of m) < table_size m"
  shows "hashmap_get (Some m) (Some k) = Some (Inr (case lookup m k of None \<Rightarrow> NULL | Some v \<Rightarrow> v))"
proof -
  obtain i where "i < table_size m" "unused m i" using assms by (rule clean_room)
  then show ?thesis
    using get_loop_lookup [of m k] assms(1) by (auto simp: clean_def hashmap_get_def Let_def)
qed

lemma map_newvalue:
  assumes "growing m"
  obtains m' where "hashmap_map (Some m) (Some (map_func nv)) () = Some (Inr (Some m', (), 1))"
    and "clean m'" and "lookup m' = (\<lambda>k. map_option (\<lambda>_. nv) (lookup m k))"
    and "card (keys_of m') < table_size m'"
proof -
  have m: "clean m" "unat (huse m) = card (keys_of m)" "card (keys_of m) < table_size m"
    using assms by (auto simp: growing_def counted_def)
  then have inv: "hm_inv m" "live (entrys m) \<le> unat (huse m)"
    using live_keys [of m] by (auto simp: clean_def hm_inv_def)
  obtain m' where m': "hashmap_map (Some m) (Some (\<lambda>k v st. (nv, ()))) () =
        Some (Inr (Some m', foldl (\<lambda>st (k, v). ()) () (bindings (entrys m)), 1))"
      "lookup m' = (\<lambda>k. map_option (\<lambda>_. nv) (lookup m k))" "hsize m' = hsize m" "clean m'"
    by (rule map_entries [OF inv, of "\<lambda>_ _. nv" "\<lambda>_ _ _. ()" "()"]) (use m(1) in blast)
  have "keys_of m' = keys_of m" unfolding dom_lookup [symmetric] m'(2) by (simp add: dom_def)
  moreover have "map_func nv = (\<lambda>k v st. (nv, ()))" by (simp add: map_func_def fun_eq_iff)
  ultimately show thesis using that m' m(3) by simp
qed

section \<open>Properties\<close>

text \<open>
  C31. On every readable file, with memory, the hash map demo finds the word with its first value,
  changes the value, deletes the word and does not find it any more, when the word is in the file; and
  otherwise it never ends, because it deletes an absent key. It returns on no other file.
\<close>

theorem hashmap_demo_ends:
  assumes "value \<noteq> NULL" and "newvalue \<noteq> NULL" and "value \<noteq> newvalue"
    and "sane_time t0" and "sane_time t1"
  shows "if readable text then hashmap_demo (\<lambda>_. True) value newvalue (Some (open_file text)) t0 t1 =
    (if comically \<in> set (words text) then
       Some (Inr [Added (int (length (words text))) (ustime t1 - ustime t0),
         Found comically 1, Found comically 2, Missing comically])
     else None)
    else hashmap_demo (\<lambda>_. True) value newvalue (Some (open_file text)) t0 t1 \<noteq> Some (Inr out)"
proof (cases "readable text")
  case False
  have "put_word (\<lambda>_. True) value None mp = Some (Inl Undefined)" for mp by (simp add: put_word_def)
  then have "fill_loop True (put_word (\<lambda>_. True) value) (open_file text) 0 mp \<noteq> Some (Inr r)" for mp r
    using False fill_loop_readable [of "put_word (\<lambda>_. True) value" mp True "text" r] by blast
  then show ?thesis using False by (auto simp: hashmap_demo_def then_do_returns Let_def)
next
  case readable: True
  obtain m m1 where m: "hashmap_new (\<lambda>_. True) 0 compare_word = Some m"
      "fill_loop True (put_word (\<lambda>_. True) value) (open_file text) 0 (Some m) =
        Some (Inr (int (length (words text)), Some m1))"
    and m1: "growing m1" "lookup m1 = (\<lambda>k. if k \<in> set (words text) then Some value else None)"
    using readable assms(1) by (rule fill_table)
  obtain m2 where m2: "hashmap_map (Some m1) (Some (map_func newvalue)) () = Some (Inr (Some m2, (), 1))"
      "clean m2" "lookup m2 = (\<lambda>k. map_option (\<lambda>_. newvalue) (lookup m1 k))"
      "card (keys_of m2) < table_size m2"
    using m1(1) by (rule map_newvalue)
  have keys: "comically \<in> keys_of m2 \<longleftrightarrow> comically \<in> set (words text)"
    unfolding dom_lookup [symmetric] m2(3) m1(2) by (simp add: dom_def)
  have m1': "clean m1" "card (keys_of m1) < table_size m1" using m1(1) by (auto simp: growing_def counted_def)
  note run = m m2(1) clean_get [OF m1'] clean_get [OF m2(2,4)] get_ustime_sec_sane(1) [OF assms(4)]
    get_ustime_sec_sane(1) [OF assms(5)] llong_elapsed [OF assms(4,5)]
  show ?thesis
  proof (cases "comically \<in> set (words text)")
    case True
    then obtain m3 where "hashmap_delete (Some m2) (Some comically) =
          Some (Inr (Some m3, the (lookup m2 comically)))"
        "hashmap_get (Some m3) (Some comically) = Some (Inr NULL)"
      using remove_present [OF m2(2,4), of comically] keys by fastforce
    then show ?thesis
      using True readable run assms(1-3) m1(2) m2(3)
      by (simp add: hashmap_demo_def tell_value_def tell_def statics_def load_def)
  next
    case False
    then have "hashmap_delete (Some m2) (Some comically) = None"
      using remove_absent [OF clean_shape [OF m2(2)]] clean_tombstone [OF m2(2)] keys by blast
    then show ?thesis
      using False readable run m1(2) m2(3) by (simp add: hashmap_demo_def tell_value_def)
  qed
qed

theorem hashmap_demo_ends_witness:
  "hashmap_demo (\<lambda>_. True) 8 16 (Some (open_file (comically @ [10]))) (1, 5) (1, 9) =
      Some (Inr [Added 1 4, Found comically 1, Found comically 2, Missing comically])
    \<and> hashmap_demo (\<lambda>_. True) 8 16 (Some (open_file [32, 97, 10, 98])) (1, 5) (1, 9) = None"
proof -
  have words: "words (comically @ [10]) = [comically]" "words [32, 97, 10, 98] = [[97], [98]]"
      "readable (comically @ [10])" "readable [32, 97, 10, 98]" "comically \<notin> {[97], [98]}"
    by code_simp+
  then show ?thesis
    using hashmap_demo_ends [of 8 16 "(1, 5)" "(1, 9)" "comically @ [10]"]
      hashmap_demo_ends [of 8 16 "(1, 5)" "(1, 9)" "[32, 97, 10, 98]"]
    by (simp add: sane_time_def ustime_def)
qed

text \<open>
  C32. On every readable file, with memory and a fair generator, the skip list demo ends: it finds the
  word with its value exactly when the word is in the file, and does not find it after deleting it. It
  returns on no other file.
\<close>

theorem skiplist_demo_answers:
  assumes "value \<noteq> NULL" and "node \<noteq> NULL" and "always_fair rnd" and "good_alloc alloc"
    and "sane_time t0" and "sane_time t1"
  shows "if readable text then skiplist_demo rnd junk alloc True node True value (Some (open_file text)) t0 t1 =
    Some (Inr [Added (int (length (words text))) (ustime t1 - ustime t0),
      if comically \<in> set (words text) then Found comically 1 else Missing comically, Missing comically])
    else skiplist_demo rnd junk alloc True node True value (Some (open_file text)) t0 t1 \<noteq> Some (Inr out)"
proof (cases "readable text")
  case False
  have "insert_word rnd junk alloc value None lst = Some (Inl Undefined)" for lst
    by (simp add: insert_word_def)
  then have "fill_loop True (insert_word rnd junk alloc value) (open_file text) 0 lst \<noteq> Some (Inr r)" for lst r
    using False fill_loop_readable [of "insert_word rnd junk alloc value" lst True "text" r] by blast
  then show ?thesis using False by (auto simp: skiplist_demo_def then_do_returns)
next
  case readable: True
  let ?ws = "words text"
  obtain s0 where s0: "skiplist_new junk True node 0 compare_word = Some (Some s0)" "skip_inv s0"
      "skip_binding s0 = Map.empty"
    by (rule new_inv [OF assms(2) compare_word_order, of junk 0]) (rule that)
  have "sk_ok rnd alloc s0" using s0(2) assms(3,4) by (simp add: sk_ok_def)
  then obtain s where s: "put_all (sk_put rnd junk alloc) s0 (same_value value ?ws) = Some s" "sk_ok rnd alloc s"
      "skip_binding s = skip_binding s0 ++ map_of (rev (same_value value ?ws))"
    using skip_dict.put_all_binding [of rnd alloc s0 "same_value value ?ws" junk] s0(3) assms(1)
      readable_length [OF readable] by auto
  have inv: "skip_inv s" using s(2) by (simp add: sk_ok_def)
  have bind: "skip_binding s = (\<lambda>k. if k \<in> set ?ws then Some value else None)"
    using s(3) s0(3) by (simp add: map_of_same_value)
  have fill: "fill_loop True (insert_word rnd junk alloc value) (open_file text) 0 (Some s0) =
      Some (Inr (int (length ?ws), Some s))"
    using each_insert_word [OF s(1)] fill_loop_words [OF readable, of "insert_word rnd junk alloc value" "Some s0"]
    by simp
  obtain s' p where s': "skiplist_delete (Some s) (Some comically) = Some (Some s', p)" "skip_inv s'"
      "skip_binding s' comically = None"
  proof (cases "skip_binding s comically")
    case None
    then have "comically \<notin> dom (skip_binding s)" by (simp add: domIff)
    then show thesis using that delete_absent [OF inv] inv None by blast
  next
    case (Some v)
    then show thesis using that delete_present [OF inv Some] by fastforce
  qed
  have search: "skiplist_search (Some s) (Some comically) = Some (if comically \<in> set ?ws then value else NULL)"
      "skiplist_search (Some s') (Some comically) = Some NULL"
    using search_binding [OF inv, of comically] search_binding [OF s'(2), of comically] s'(3) bind by simp_all
  have "skiplist_free (Some s') = Some (\<lambda>_. None)"
    using free_rep [of s' "skip_ptrs s'"] s'(2) by (simp add: skip_inv_def)
  then show ?thesis
    using readable s0(1) fill s'(1) search assms(1) get_ustime_sec_sane(1) [OF assms(5)]
      get_ustime_sec_sane(1) [OF assms(6)] llong_elapsed [OF assms(5,6)]
    by (simp add: skiplist_demo_def tell_value_def tell_def load_def)
qed

theorem skiplist_demo_answers_witness:
  "skiplist_demo sample_rnd (\<lambda>_. 5) sample_alloc True 1 True 8 (Some (open_file (comically @ [10]))) (1, 5) (1, 9) =
      Some (Inr [Added 1 4, Found comically 1, Missing comically])"
proof -
  have words: "words (comically @ [10]) = [comically]" "readable (comically @ [10])" by code_simp+
  then show ?thesis
    using skiplist_demo_answers [OF _ _ sample_fair sample_alloc_good, of 8 1 "(1, 5)" "(1, 9)" "comically @ [10]" "\<lambda>_. 5"]
    by (simp add: sane_time_def ustime_def)
qed

end
