(* ===== verification/Demo_Sets.thy ===== *)
theory Demo_Sets
  imports Bloomfilter Demo_Words
begin

text \<open>
  The demo programs \<^verbatim>\<open>bitset/bitset_demo.c\<close>, which intersects two arrays of random numbers by a bit
  set, and \<^verbatim>\<open>bloomfilter/bloomfilter_demo.c\<close>, which puts the words of a file in a Bloom filter and asks
  for two words. \<^verbatim>\<open>bitset_free\<close> and \<^verbatim>\<open>bloomfilter_free\<close> at the end change nothing that is modelled and are
  left out, and so are the headings of the output. \<open>rnd\<close> gives the values of \<^verbatim>\<open>rand\<close> in turn, \<open>junk\<close> is what the local array holds at first.
\<close>

section \<open>The intersection of two arrays\<close>

fun init_array :: "(nat \<Rightarrow> nat) \<Rightarrow> nat \<Rightarrow> nat \<Rightarrow> int list \<Rightarrow> int list \<Rightarrow> (int list \<times> int list) option" where
  "init_array rnd 0 i A B = Some (A, B)"
| "init_array rnd (Suc n) i A B = do {
     A \<leftarrow> astore A i (int (rnd (2 * i)) mod 30 + 1);
     B \<leftarrow> astore B i (int (rnd (2 * i + 1)) mod 40 + 1);
     init_array rnd n (Suc i) A B
   }"

text \<open>The numbers \<^verbatim>\<open>print_array\<close> writes, from the position \<open>i\<close> on.\<close>

fun print_array :: "int list \<Rightarrow> nat \<Rightarrow> nat \<Rightarrow> int list option" where
  "print_array array 0 i = Some []"
| "print_array array (Suc n) i = do {
     v \<leftarrow> aload array i;
     vs \<leftarrow> print_array array n (Suc i);
     Some (v # vs)
   }"

fun mark_loop :: "int list \<Rightarrow> nat \<Rightarrow> nat \<Rightarrow> bitset option \<Rightarrow> bitset option option" where
  "mark_loop A 0 i st = Some st"
| "mark_loop A (Suc n) i st = do {
     a \<leftarrow> aload A i;
     (st, _) \<leftarrow> bitset_set st (word_of_int a) 1;
     mark_loop A n (Suc i) st
   }"

fun common_loop ::
    "int list \<Rightarrow> bitset option \<Rightarrow> nat \<Rightarrow> nat \<Rightarrow> int list \<Rightarrow> nat \<Rightarrow> (int list \<times> nat) option" where
  "common_loop B st 0 i common j = Some (common, j)"
| "common_loop B st (Suc n) i common j = do {
     b \<leftarrow> aload B i;
     v \<leftarrow> bitset_get st (word_of_int b);
     if v \<noteq> 0 then do {
       common \<leftarrow> astore common j b;
       common_loop B st n (Suc i) common (Suc j)
     } else common_loop B st n (Suc i) common j
   }"

definition bitset_demo ::
    "(u64 \<Rightarrow> bool) \<Rightarrow> u8 list \<Rightarrow> (nat \<Rightarrow> nat) \<Rightarrow> int list \<Rightarrow> int list list option" where
  "bitset_demo mem slack rnd junk = (case bitset_new mem slack 50 of
     None \<Rightarrow> Some []
   | Some s \<Rightarrow> do {
       (A, B) \<leftarrow> init_array rnd 20 0 (replicate 20 0) (replicate 20 0);
       as \<leftarrow> print_array A 20 0;
       bs \<leftarrow> print_array B 20 0;
       st \<leftarrow> mark_loop A 20 0 (Some s);
       (common, j) \<leftarrow> common_loop B st 20 0 junk 0;
       cs \<leftarrow> print_array common j 0;
       Some [as, bs, cs]
     })"

text \<open>The numbers the arrays hold.\<close>

definition demo_A :: "(nat \<Rightarrow> nat) \<Rightarrow> int list" where
  "demo_A rnd = map (\<lambda>i. int (rnd (2 * i)) mod 30 + 1) [0..<20]"

definition demo_B :: "(nat \<Rightarrow> nat) \<Rightarrow> int list" where
  "demo_B rnd = map (\<lambda>i. int (rnd (2 * i + 1)) mod 40 + 1) [0..<20]"

subsection \<open>The loops\<close>

lemma unat_of_index:
  assumes "0 \<le> a" and "a < int (unat (l :: u64))"
  shows "unat (word_of_int a :: u64) = nat a"
proof -
  have "a < uint l" using assms(2) by simp
  also have "\<dots> < 2 ^ 64" using uint_lt2p [of l] by simp
  finally show ?thesis using assms(1) by (simp add: unat_eq_nat_uint uint_word_of_int)
qed

lemma init_array_ok:
  "length A = i + n \<Longrightarrow> length B = i + n \<Longrightarrow> init_array rnd n i A B =
    Some (take i A @ map (\<lambda>i. int (rnd (2 * i)) mod 30 + 1) [i..<i + n],
      take i B @ map (\<lambda>i. int (rnd (2 * i + 1)) mod 40 + 1) [i..<i + n])"
proof (induction n arbitrary: i A B)
  case (Suc n)
  have "[i..<i + Suc n] = i # [Suc i..<Suc i + n]" by (simp add: upt_conv_Cons)
  then show ?case using Suc by (simp add: take_Suc_conv_app_nth del: upt_Suc)
qed simp

lemma print_array_ok: "i + n \<le> length xs \<Longrightarrow> print_array xs n i = Some (take n (drop i xs))"
  by (induction n arbitrary: i) (auto simp: take_Suc_conv_app_nth Cons_nth_drop_Suc [symmetric])

lemma mark_loop_ok:
  assumes "bs_inv s" and "i + n = length A" and "\<forall>a \<in> set A. 0 \<le> a \<and> a < int (unat (blen s))"
  shows "\<exists>s'. mark_loop A n i (Some s) = Some (Some s') \<and> bs_inv s' \<and> blen s' = blen s
    \<and> bits_of s' = bits_of s \<union> nat ` set (drop i A)"
  using assms
proof (induction n arbitrary: i s)
  case 0
  then show ?case by simp
next
  case (Suc n)
  let ?a = "A ! i"
  have a: "0 \<le> ?a" "?a < int (unat (blen s))" using Suc.prems(2,3) by simp_all
  have pos: "unat (word_of_int ?a :: u64) = nat ?a" using a by (rule unat_of_index)
  then have "(word_of_int ?a :: u64) < blen s" unfolding word_less_nat_alt using a by linarith
  then obtain s1 where s1: "bitset_set (Some s) (word_of_int ?a) 1
        = Some (Some s1, of_bool (unat (word_of_int ?a :: u64) \<in> bits_of s))"
      "bs_inv s1" "blen s1 = blen s" "bits_of s1 = insert (nat ?a) (bits_of s)"
    using bitset_set_in [OF Suc.prems(1), of "word_of_int ?a" 1] by (auto simp: pos)
  obtain s' where "mark_loop A n (Suc i) (Some s1) = Some (Some s')" "bs_inv s'" "blen s' = blen s1"
      "bits_of s' = bits_of s1 \<union> nat ` set (drop (Suc i) A)"
    using Suc.IH [of s1 "Suc i"] Suc.prems s1 by auto
  moreover have "drop i A = ?a # drop (Suc i) A" using Suc.prems(2) by (simp add: Cons_nth_drop_Suc)
  ultimately show ?case using s1 Suc.prems(2) by auto
qed

lemma common_loop_ok:
  assumes "bs_shape s" and "i + n = length B" and "\<forall>b \<in> set B. 0 \<le> b \<and> b < int (unat (blen s))"
    and "j + n \<le> length common"
  defines "hits \<equiv> filter (\<lambda>b. nat b \<in> bits_of s) (drop i B)"
  shows "\<exists>common'. common_loop B (Some s) n i common j = Some (common', j + length hits)
    \<and> length common' = length common \<and> take (j + length hits) common' = take j common @ hits"
  using assms(2,4) unfolding hits_def
proof (induction n arbitrary: i common j)
  case 0
  then show ?case by simp
next
  case (Suc n)
  let ?b = "B ! i"
  have b: "0 \<le> ?b" "?b < int (unat (blen s))" using Suc.prems(1) assms(3) by simp_all
  have pos: "unat (word_of_int ?b :: u64) = nat ?b" using b by (rule unat_of_index)
  then have "(word_of_int ?b :: u64) < blen s" unfolding word_less_nat_alt using b by linarith
  then have get: "bitset_get (Some s) (word_of_int ?b) = Some (of_bool (nat ?b \<in> bits_of s))"
    using bitset_get_in [OF assms(1)] by (simp add: pos)
  have drop: "drop i B = ?b # drop (Suc i) B" using Suc.prems(1) by (simp add: Cons_nth_drop_Suc)
  show ?case
  proof (cases "nat ?b \<in> bits_of s")
    case True
    have "take (Suc j) (common[j := ?b]) = take j common @ [?b]"
      using Suc.prems(2) by (simp add: take_Suc_conv_app_nth)
    then show ?thesis
      using Suc.IH [of "Suc i" "Suc j" "common[j := ?b]"] Suc.prems get drop True by auto
  next
    case False
    then show ?thesis using Suc.IH [of "Suc i" j common] Suc.prems get drop by auto
  qed
qed

section \<open>The words of a file in a Bloom filter\<close>

definition serholiu :: cstr where
  "serholiu = [115, 101, 114, 104, 111, 108, 105, 117]"

text \<open>The value of the \<^verbatim>\<open>float\<close> argument \<open>0.00001\<close>, \<open>2748779 / 2 ^ 38\<close>.\<close>

definition demo_rate :: rat where
  "demo_rate = 2748779 / 274877906944"

text \<open>
  One buffer holds the words in turn. The state of the loop is the buffer, \<open>None\<close> before the first
  word, and the filter.
\<close>

definition add_word ::
    "cstr option \<Rightarrow> cstr option \<times> bloomfilter option \<Rightarrow> (cstr option \<times> bloomfilter option) prog" where
  "add_word got st =
     (let word = (case got of None \<Rightarrow> fst st | Some w \<Rightarrow> Some w) in
      then_do (defined word) (\<lambda>w.
      then_do (defined (bloomfilter_add (snd st) (Some w))) (\<lambda>(flt, _).
      Some (Inr (word, flt)))))"

definition answer :: "cstr \<Rightarrow> int \<Rightarrow> line" where
  "answer w r = (if r \<noteq> 0 then Present w else Missing w)"

definition bloomfilter_demo ::
    "(u64 \<Rightarrow> bool) \<Rightarrow> u8 list \<Rightarrow> (rat \<Rightarrow> int) \<Rightarrow> cfile option \<Rightarrow> int \<times> int \<Rightarrow> int \<times> int \<Rightarrow> line list prog"
  where
  "bloomfilter_demo mem slack ceil_log2f file t0 t1 =
     then_do (defined (bloomfilter_new mem slack ceil_log2f 11000 demo_rate)) (\<lambda>flt.
     then_do (assert_that (flt \<noteq> None)) (\<lambda>_.
     then_do (assert_that (file \<noteq> None)) (\<lambda>_.
     then_do (get_ustime_sec t0) (\<lambda>start.
     then_do (fill_loop True add_word (the file) 0 (None, flt)) (\<lambda>(i, (_, flt)).
     then_do (get_ustime_sec t1) (\<lambda>stop.
     then_do (llong (stop - start)) (\<lambda>time.
     then_do (defined (bloomfilter_check flt (Some comically))) (\<lambda>r1.
     then_do (defined (bloomfilter_check flt (Some serholiu))) (\<lambda>r2.
     Some (Inr [Added i time, answer comically r1, answer serholiu r2]))))))))))"

lemma each_add_word:
  "bloom_adds (Some f) ws = Some (flt, rs) \<Longrightarrow>
    \<exists>word. each (\<lambda>w. add_word (Some w)) ws (b, Some f) = Some (Inr (word, flt))"
proof (induction ws arbitrary: f b rs)
  case (Cons w ws)
  obtain f1 r rs1 where step: "bloomfilter_add (Some f) (Some w) = Some (f1, r)"
      "bloom_adds f1 ws = Some (flt, rs1)"
    using Cons.prems by (auto split: bind_splits)
  obtain g where "f1 = Some g" using step(1) by (auto simp: bloomfilter_add_def Let_def split: if_splits bind_splits)
  then show ?case using Cons.IH [of g rs1 "Some w"] step by (simp add: add_word_def)
qed simp

section \<open>Properties\<close>

text \<open>
  C30. The program prints the two arrays and then exactly those numbers of the second array that are
  in the first, in order and as often as they occur; all its accesses are inside its arrays.
\<close>

theorem bitset_demo_common:
  assumes "mem 16" and "mem 7" and "length junk = 20"
  shows "bitset_demo mem slack rnd junk =
    Some [demo_A rnd, demo_B rnd, filter (\<lambda>b. b \<in> set (demo_A rnd)) (demo_B rnd)]"
proof -
  let ?A = "demo_A rnd" and ?B = "demo_B rnd"
  have len: "length ?A = 20" "length ?B = 20" by (simp_all add: demo_A_def demo_B_def)
  have init: "init_array rnd 20 0 (replicate 20 0) (replicate 20 0) = Some (?A, ?B)"
    using init_array_ok [of "replicate 20 0" 0 20 "replicate 20 0" rnd] by (simp add: demo_A_def demo_B_def)
  have range: "\<forall>a \<in> set ?A. 0 \<le> a \<and> a < 50" "\<forall>b \<in> set ?B. 0 \<le> b \<and> b < 50"
  proof -
    have "x mod 30 + 1 < 50" "x mod 40 + 1 < 50" "0 \<le> x mod 30 + 1" "0 \<le> x mod 40 + 1" for x :: int
      by presburger+
    then show "\<forall>a \<in> set ?A. 0 \<le> a \<and> a < 50" "\<forall>b \<in> set ?B. 0 \<le> b \<and> b < 50"
      by (simp_all add: demo_A_def demo_B_def)
  qed
  obtain s where s: "bitset_new mem slack 50 = Some s" "bs_inv s" "blen s = 50" "bits_of s = {}"
    by (rule bitset_new_ok [of mem 50 slack]) (use assms(1,2) in \<open>simp_all add: nbytes_def\<close>)
  obtain s' where s': "mark_loop ?A 20 0 (Some s) = Some (Some s')" "bs_inv s'" "blen s' = 50"
      "bits_of s' = nat ` set ?A"
    using mark_loop_ok [OF s(2), of 0 20 ?A] len range(1) s(3,4) by auto
  have hits: "filter (\<lambda>b. nat b \<in> bits_of s') ?B = filter (\<lambda>b. b \<in> set ?A) ?B"
    using range unfolding s'(4) by (intro filter_cong refl) (auto simp: image_iff eq_nat_nat_iff)
  let ?h = "filter (\<lambda>b. b \<in> set ?A) ?B"
  obtain common where "common_loop ?B (Some s') 20 0 junk 0 = Some (common, length ?h)"
      "length common = 20" "take (length ?h) common = ?h"
    using common_loop_ok [of s' 0 20 ?B 0 junk] len range(2) s'(2,3) assms(3) hits
    by (auto simp: bs_inv_def)
  moreover have "length ?h \<le> 20" using length_filter_le [of _ ?B] len(2) by simp
  ultimately show ?thesis
    using init s(1) s'(1) len by (simp add: bitset_demo_def print_array_ok)
qed

theorem bitset_demo_common_witness:
  "\<exists>common. bitset_demo (\<lambda>_. True) [] (\<lambda>n. n div 2 * 3) (replicate 20 7) =
      Some [demo_A (\<lambda>n. n div 2 * 3), demo_B (\<lambda>n. n div 2 * 3), common] \<and> hd common = 1"
proof -
  have "hd (filter (\<lambda>b. b \<in> set (demo_A (\<lambda>n. n div 2 * 3))) (demo_B (\<lambda>n. n div 2 * 3))) = 1" by code_simp
  then show ?thesis using bitset_demo_common [of "\<lambda>_. True" "replicate 20 7" "[]" "\<lambda>n. n div 2 * 3"] by simp
qed

text \<open>
  For every readable file of at most 11001 words the program ends and prints the number of its
  words, and reports each of its two words by a test that every word of the file passes. It returns on
  no other file.
\<close>

theorem bloomfilter_demo_answers:
  assumes "\<And>n. mem n" and "length (words text) \<le> 11001" and "sane_time t0" and "sane_time t1"
  shows "if readable text then (\<exists>found. bloomfilter_demo mem slack ceil_log2f (Some (open_file text)) t0 t1 = Some (Inr
      [Added (int (length (words text))) (ustime t1 - ustime t0),
       answer comically (of_bool (found comically)), answer serholiu (of_bool (found serholiu))])
    \<and> (\<forall>w \<in> set (words text). found w))
    else bloomfilter_demo mem slack ceil_log2f (Some (open_file text)) t0 t1 \<noteq> Some (Inr out)"
proof (cases "readable text")
  case False
  have "add_word None (None, flt) = Some (Inl Undefined)" for flt by (simp add: add_word_def)
  then have "fill_loop True add_word (open_file text) 0 (None, flt) \<noteq> Some (Inr r)" for flt r
    using False fill_loop_readable [of add_word "(None, flt)" True "text" r] by blast
  then show ?thesis using False by (auto simp: bloomfilter_demo_def then_do_returns)
next
  case readable: True
  let ?ws = "words text"
  obtain f where f: "bloomfilter_new mem slack ceil_log2f 11000 demo_rate = Some (Some f)" "bf_inv f"
      "marked f = {}" "count f = 0" "capacity f = 11000"
    using bloomfilter_new_spec [of mem 11000 demo_rate slack ceil_log2f] assms(1) by (auto simp: demo_rate_def)
  obtain f' where f': "bloom_adds (Some f) ?ws = Some (Some f', replicate (length ?ws) 1)" "bf_inv f'"
      "nbits f' = nbits f" "bk f' = bk f"
      "marked f' = marked f \<union> (\<Union>k \<in> set ?ws. unat ` set (key_positions f k))"
    using bloom_adds_marked [OF f(2), of ?ws] assms(2) f(4,5) by auto
  obtain word where "each (\<lambda>w. add_word (Some w)) ?ws (None, Some f) = Some (Inr (word, Some f'))"
    using each_add_word [OF f'(1)] by blast
  then have fill: "fill_loop True add_word (open_file text) 0 (None, Some f)
      = Some (Inr (int (length ?ws), word, Some f'))"
    by (simp add: fill_loop_words [OF readable, of add_word])
  define found where "found w = (unat ` set (key_positions f' w) \<subseteq> marked f')" for w
  have check: "bloomfilter_check (Some f') (Some w) = Some (of_bool (found w))" for w
    using bloomfilter_check_ok [OF f'(2)] by (simp add: found_def)
  have "found w" if "w \<in> set ?ws" for w
    using that f'(5) key_positions_cong [OF f'(3,4)] by (auto simp: found_def)
  moreover have "bloomfilter_demo mem slack ceil_log2f (Some (open_file text)) t0 t1 = Some (Inr
      [Added (int (length ?ws)) (ustime t1 - ustime t0),
       answer comically (of_bool (found comically)), answer serholiu (of_bool (found serholiu))])"
    using f(1) fill check get_ustime_sec_sane(1) [OF assms(3)] get_ustime_sec_sane(1) [OF assms(4)]
      llong_elapsed [OF assms(3,4)]
    by (simp add: bloomfilter_demo_def)
  ultimately show ?thesis using readable by auto
qed

theorem bloomfilter_demo_answers_witness:
  "\<exists>found. bloomfilter_demo (\<lambda>_. True) [] (\<lambda>_. 17) (Some (open_file (comically @ [10, 97, 10]))) (1, 5) (1, 9)
      = Some (Inr [Added 2 4, Present comically, answer serholiu found])"
proof -
  let ?text = "comically @ [10, 97, 10]"
  have words: "words ?text = [comically, [97]]" by code_simp
  have "readable ?text" by code_simp
  then obtain found where "bloomfilter_demo (\<lambda>_. True) [] (\<lambda>_. 17) (Some (open_file ?text)) (1, 5) (1, 9) =
      Some (Inr [Added (int (length (words ?text))) (ustime (1, 9) - ustime (1, 5)),
        answer comically (of_bool (found comically)), answer serholiu (of_bool (found serholiu))])"
      "\<forall>w \<in> set (words ?text). found w"
    using bloomfilter_demo_answers [of "\<lambda>_. True" ?text "(1, 5)" "(1, 9)" "[]" "\<lambda>_. 17"]
    by (auto simp: words sane_time_def)
  then have "bloomfilter_demo (\<lambda>_. True) [] (\<lambda>_. 17) (Some (open_file ?text)) (1, 5) (1, 9) =
      Some (Inr [Added 2 4, Present comically, answer serholiu (of_bool (found serholiu))])"
    by (simp add: words answer_def [of comically] ustime_def)
  then show ?thesis by (rule exI)
qed

end
