(* ===== verification/Deque.thy ===== *)
theory Deque
  imports Prelude
begin

text \<open>
  The contract of a list with two ends, as clients of \<^verbatim>\<open>linklist/linklist.c\<close> use it: values are put
  at either end, each in a node at the address the allocator returns (\<open>usable\<close> says that the
  allocator may return it), and taken from the front. \<open>limit\<close> bounds the length.
\<close>

fun push_all :: "(ptr \<Rightarrow> 'v \<Rightarrow> 's \<Rightarrow> 's option) \<Rightarrow> (ptr \<times> 'v) list \<Rightarrow> 's \<Rightarrow> 's option" where
  "push_all push [] s = Some s"
| "push_all push ((a, v) # avs) s = do { s' \<leftarrow> push a v s; push_all push avs s' }"

fun pop_n :: "('s \<Rightarrow> 's option) \<Rightarrow> nat \<Rightarrow> 's \<Rightarrow> 's option" where
  "pop_n pop 0 s = Some s"
| "pop_n pop (Suc n) s = do { s' \<leftarrow> pop s; pop_n pop n s' }"

locale deque =
  fixes invar :: "'s \<Rightarrow> bool"
    and contents :: "'s \<Rightarrow> 'v list"
    and usable :: "'s \<Rightarrow> ptr \<Rightarrow> bool"
    and push_front :: "ptr \<Rightarrow> 'v \<Rightarrow> 's \<Rightarrow> 's option"
    and push_back :: "ptr \<Rightarrow> 'v \<Rightarrow> 's \<Rightarrow> 's option"
    and pop_front :: "'s \<Rightarrow> 's option"
    and limit :: nat
  assumes push_front_law: "invar s \<Longrightarrow> usable s a \<Longrightarrow> length (contents s) < limit \<Longrightarrow>
      \<exists>s'. push_front a v s = Some s' \<and> invar s' \<and> contents s' = v # contents s
        \<and> (\<forall>b. usable s b \<and> b \<noteq> a \<longrightarrow> usable s' b)"
    and push_back_law: "invar s \<Longrightarrow> usable s a \<Longrightarrow> length (contents s) < limit \<Longrightarrow>
      \<exists>s'. push_back a v s = Some s' \<and> invar s' \<and> contents s' = contents s @ [v]
        \<and> (\<forall>b. usable s b \<and> b \<noteq> a \<longrightarrow> usable s' b)"
    and pop_front_law: "invar s \<Longrightarrow> contents s \<noteq> [] \<Longrightarrow>
      \<exists>s'. pop_front s = Some s' \<and> invar s' \<and> contents s' = tl (contents s)"
begin

lemma push_back_all:
  assumes "invar s" and "distinct (map fst avs)" and "\<forall>a \<in> fst ` set avs. usable s a"
    and "length (contents s) + length avs \<le> limit"
  shows "\<exists>s'. push_all push_back avs s = Some s' \<and> invar s' \<and> contents s' = contents s @ map snd avs"
  using assms
proof (induction avs arbitrary: s)
  case Nil
  then show ?case by simp
next
  case (Cons av avs)
  obtain a v where av: "av = (a, v)" by (cases av)
  obtain s1 where s1: "push_back a v s = Some s1" "invar s1" "contents s1 = contents s @ [v]"
      "\<forall>b. usable s b \<and> b \<noteq> a \<longrightarrow> usable s1 b"
    using push_back_law [of s a v] Cons.prems by (auto simp: av)
  have "\<forall>b \<in> fst ` set avs. usable s1 b"
    using s1(4) Cons.prems(2,3) by (auto simp: av image_iff)
  then obtain s' where "push_all push_back avs s1 = Some s'" "invar s'"
      "contents s' = contents s1 @ map snd avs"
    using Cons.IH [OF s1(2)] Cons.prems(2,4) s1(3) by auto
  then show ?case using s1 by (simp add: av)
qed

lemma push_front_all:
  assumes "invar s" and "distinct (map fst avs)" and "\<forall>a \<in> fst ` set avs. usable s a"
    and "length (contents s) + length avs \<le> limit"
  shows "\<exists>s'. push_all push_front avs s = Some s' \<and> invar s' \<and> contents s' = rev (map snd avs) @ contents s"
  using assms
proof (induction avs arbitrary: s)
  case Nil
  then show ?case by simp
next
  case (Cons av avs)
  obtain a v where av: "av = (a, v)" by (cases av)
  obtain s1 where s1: "push_front a v s = Some s1" "invar s1" "contents s1 = v # contents s"
      "\<forall>b. usable s b \<and> b \<noteq> a \<longrightarrow> usable s1 b"
    using push_front_law [of s a v] Cons.prems by (auto simp: av)
  have "\<forall>b \<in> fst ` set avs. usable s1 b"
    using s1(4) Cons.prems(2,3) by (auto simp: av image_iff)
  then obtain s' where "push_all push_front avs s1 = Some s'" "invar s'"
      "contents s' = rev (map snd avs) @ contents s1"
    using Cons.IH [OF s1(2)] Cons.prems(2,4) s1(3) by auto
  then show ?case using s1 by (simp add: av)
qed

lemma pop_n_drop:
  assumes "invar s" and "n \<le> length (contents s)"
  shows "\<exists>s'. pop_n pop_front n s = Some s' \<and> invar s' \<and> contents s' = drop n (contents s)"
  using assms
proof (induction n arbitrary: s)
  case 0
  then show ?case by simp
next
  case (Suc n)
  then have "contents s \<noteq> []" by auto
  then obtain s1 where s1: "pop_front s = Some s1" "invar s1" "contents s1 = tl (contents s)"
    using pop_front_law Suc.prems(1) by blast
  then have "n \<le> length (contents s1)" using Suc.prems(2) by (simp add: le_diff_conv)
  then obtain s' where "pop_n pop_front n s1 = Some s'" "invar s'" "contents s' = drop n (contents s1)"
    using Suc.IH [OF s1(2)] by blast
  then show ?case using s1 by (simp add: drop_Suc)
qed

text \<open>First in, first out.\<close>

lemma fifo:
  assumes "invar s" and "distinct (map fst avs)" and "\<forall>a \<in> fst ` set avs. usable s a"
    and "length (contents s) + length avs \<le> limit" and "n \<le> length (contents s) + length avs"
  shows "\<exists>s1 s'. push_all push_back avs s = Some s1 \<and> pop_n pop_front n s1 = Some s'
    \<and> invar s' \<and> contents s' = drop n (contents s @ map snd avs)"
  using push_back_all [OF assms(1-4)] pop_n_drop assms(5) by fastforce

end

end
