(* ===== verification/Linklist.thy ===== *)
theory Linklist
  imports Deque
begin

text \<open>
  The doubly linked list of \<^verbatim>\<open>linklist/linklist.c\<close>.

  The nodes live in a heap of records \<open>list_node\<close>; the list structure is the record \<open>linklist\<close>
  (\<open>None\<close> for the null pointer), of which \<open>has_free\<close> says that \<^verbatim>\<open>free_func\<close> is not null. Calls
  of \<^verbatim>\<open>free_func\<close> are recorded in order in \<open>freed\<close>. An operation that allocates gets the result of
  \<^verbatim>\<open>malloc\<close> as its first argument. \<open>None\<close> is undefined behaviour: a null or dangling pointer was
  followed, or freed. A pointer result is \<open>True\<close> for the list and \<open>False\<close> for null.
\<close>

record list_node =
  nprev :: ptr
  nnext :: ptr
  nvalue :: ptr

record linklist =
  lhead :: ptr
  ltail :: ptr
  llen :: u64
  has_free :: bool

record world =
  heap :: "ptr \<rightharpoonup> list_node"
  freed :: "ptr list"

type_synonym list_result = "(linklist option \<times> world \<times> bool) option"

section \<open>The operations\<close>

text \<open>\<^verbatim>\<open>p->prev = v\<close> and \<^verbatim>\<open>p->next = v\<close>.\<close>

definition set_prev :: "world \<Rightarrow> ptr \<Rightarrow> ptr \<Rightarrow> world option" where
  [mem_defs]: "set_prev w p v = do { h \<leftarrow> modify (heap w) p (nprev_update (\<lambda>_. v)); Some (w\<lparr>heap := h\<rparr>) }"

definition set_next :: "world \<Rightarrow> ptr \<Rightarrow> ptr \<Rightarrow> world option" where
  [mem_defs]: "set_next w p v = do { h \<leftarrow> modify (heap w) p (nnext_update (\<lambda>_. v)); Some (w\<lparr>heap := h\<rparr>) }"

text \<open>
  The node just allocated, with its value stored. The code writes the other two fields before it
  reads them.
\<close>

definition new_node :: "world \<Rightarrow> ptr \<Rightarrow> ptr \<Rightarrow> world" where
  [mem_defs]: "new_node w p v = w\<lparr>heap := (heap w)(p \<mapsto> \<lparr>nprev = NULL, nnext = NULL, nvalue = v\<rparr>)\<rparr>"

definition linklist_new :: "(u64 \<Rightarrow> bool) \<Rightarrow> bool \<Rightarrow> linklist option" where
  "linklist_new mem func =
     (if \<not> mem 32 then None
      else Some \<lparr>lhead = NULL, ltail = NULL, llen = 0, has_free = func\<rparr>)"

fun free_loop :: "bool \<Rightarrow> nat \<Rightarrow> ptr \<Rightarrow> world \<Rightarrow> world option" where
  "free_loop func 0 current w = Some w"
| "free_loop func (Suc len) current w = do {
     node \<leftarrow> load (heap w) current;
     let w = (if func then w\<lparr>freed := freed w @ [nvalue node]\<rparr> else w);
     h \<leftarrow> dealloc (heap w) current;
     free_loop func len (nnext node) (w\<lparr>heap := h\<rparr>)
   }"

definition linklist_free :: "linklist option \<Rightarrow> world \<Rightarrow> world option" where
  "linklist_free lst w = (case lst of
     None \<Rightarrow> Some w
   | Some l \<Rightarrow> free_loop (has_free l) (unat (llen l)) (lhead l) w)"

definition linklist_add_head :: "ptr \<Rightarrow> linklist option \<Rightarrow> ptr \<Rightarrow> world \<Rightarrow> list_result" where
  "linklist_add_head node lst v w = (case lst of
     None \<Rightarrow> Some (None, w, False)
   | Some l \<Rightarrow>
       if node = NULL then Some (Some l, w, False)
       else let w = new_node w node v in
         if llen l = 0 then do {
           w \<leftarrow> set_next w node NULL;
           w \<leftarrow> set_prev w node NULL;
           Some (Some (l\<lparr>lhead := node, ltail := node, llen := llen l + 1\<rparr>), w, True)
         } else do {
           w \<leftarrow> set_prev w node NULL;
           w \<leftarrow> set_next w node (lhead l);
           w \<leftarrow> set_prev w (lhead l) node;
           Some (Some (l\<lparr>lhead := node, llen := llen l + 1\<rparr>), w, True)
         })"

definition linklist_add_tail :: "ptr \<Rightarrow> linklist option \<Rightarrow> ptr \<Rightarrow> world \<Rightarrow> list_result" where
  "linklist_add_tail node lst v w = (case lst of
     None \<Rightarrow> Some (None, w, False)
   | Some l \<Rightarrow>
       if node = NULL then Some (Some l, w, False)
       else let w = new_node w node v in
         if llen l = 0 then do {
           w \<leftarrow> set_next w node NULL;
           w \<leftarrow> set_prev w node NULL;
           Some (Some (l\<lparr>lhead := node, ltail := node, llen := llen l + 1\<rparr>), w, True)
         } else do {
           w \<leftarrow> set_prev w node (ltail l);
           w \<leftarrow> set_next w node NULL;
           w \<leftarrow> set_next w (ltail l) node;
           Some (Some (l\<lparr>ltail := node, llen := llen l + 1\<rparr>), w, True)
         })"

definition linklist_insert_node ::
    "ptr \<Rightarrow> linklist option \<Rightarrow> ptr \<Rightarrow> ptr \<Rightarrow> bool \<Rightarrow> world \<Rightarrow> list_result" where
  "linklist_insert_node new lst node v after w = (case lst of
     None \<Rightarrow> Some (None, w, False)
   | Some l \<Rightarrow>
       if node = NULL then Some (Some l, w, False)
       else if new = NULL then Some (Some l, w, False)
       else do {
         let w = new_node w new v;
         (l, w) \<leftarrow>
           (if after then do {
              w \<leftarrow> set_prev w new node;
              nd \<leftarrow> load (heap w) node;
              w \<leftarrow> set_next w new (nnext nd);
              Some (if ltail l = node then l\<lparr>ltail := new\<rparr> else l, w)
            } else do {
              w \<leftarrow> set_next w new node;
              nd \<leftarrow> load (heap w) node;
              w \<leftarrow> set_prev w new (nprev nd);
              Some (if lhead l = node then l\<lparr>lhead := new\<rparr> else l, w)
            });
         nn \<leftarrow> load (heap w) new;
         w \<leftarrow> (if nprev nn \<noteq> NULL then set_next w (nprev nn) new else Some w);
         nn \<leftarrow> load (heap w) new;
         w \<leftarrow> (if nnext nn \<noteq> NULL then set_prev w (nnext nn) new else Some w);
         Some (Some (l\<lparr>llen := llen l + 1\<rparr>), w, True)
       })"

text \<open>
  The two conditionals that \<^verbatim>\<open>linklist_move_node\<close> and \<^verbatim>\<open>linklist_delete_node\<close> begin with: the
  neighbours of a node are linked to each other.
\<close>

definition unlink :: "linklist \<Rightarrow> ptr \<Rightarrow> world \<Rightarrow> (linklist \<times> world) option" where
  "unlink l src w = do {
     s \<leftarrow> load (heap w) src;
     (l, w) \<leftarrow> (if nprev s \<noteq> NULL then do { w \<leftarrow> set_next w (nprev s) (nnext s); Some (l, w) }
       else Some (l\<lparr>lhead := nnext s\<rparr>, w));
     s \<leftarrow> load (heap w) src;
     if nnext s \<noteq> NULL then do { w \<leftarrow> set_prev w (nnext s) (nprev s); Some (l, w) }
     else Some (l\<lparr>ltail := nprev s\<rparr>, w)
   }"

definition linklist_move_node ::
    "linklist option \<Rightarrow> ptr \<Rightarrow> ptr \<Rightarrow> bool \<Rightarrow> world \<Rightarrow> list_result" where
  "linklist_move_node lst src dst after w = (case lst of
     None \<Rightarrow> Some (None, w, False)
   | Some l \<Rightarrow>
       if src = NULL \<or> dst = NULL \<or> src = dst then Some (Some l, w, False)
       else do {
         (l, w) \<leftarrow> unlink l src w;
         if after then do {
           w \<leftarrow> set_prev w src dst;
           d \<leftarrow> load (heap w) dst;
           w \<leftarrow> set_next w src (nnext d);
           Some (Some (if ltail l = dst then l\<lparr>ltail := src\<rparr> else l), w, True)
         } else do {
           w \<leftarrow> set_next w src dst;
           d \<leftarrow> load (heap w) dst;
           w \<leftarrow> set_prev w src (nprev d);
           Some (Some (if lhead l = dst then l\<lparr>lhead := src\<rparr> else l), w, True)
         }
       })"

definition linklist_delete_node :: "linklist option \<Rightarrow> ptr \<Rightarrow> world \<Rightarrow> (linklist option \<times> world) option" where
  "linklist_delete_node lst node w = (case lst of
     None \<Rightarrow> None
   | Some l \<Rightarrow> do {
       (l, w) \<leftarrow> unlink l node w;
       nd \<leftarrow> load (heap w) node;
       let w = (if has_free l then w\<lparr>freed := freed w @ [nvalue nd]\<rparr> else w);
       h \<leftarrow> dealloc (heap w) node;
       Some (Some (l\<lparr>llen := llen l - 1\<rparr>), w\<lparr>heap := h\<rparr>)
     })"

section \<open>Linked segments\<close>

text \<open>
  \<open>links h a ps b\<close>: the nodes \<open>ps\<close> are linked in both directions, behind the node \<open>a\<close> and in front
  of the node \<open>b\<close>. \<open>dll\<close>: a list structure that stands for the nodes \<open>ps\<close>.
\<close>

fun links :: "(ptr \<rightharpoonup> list_node) \<Rightarrow> ptr \<Rightarrow> ptr list \<Rightarrow> ptr \<Rightarrow> bool" where
  "links h a [] b \<longleftrightarrow> True"
| "links h a (p # ps) b \<longleftrightarrow> p \<noteq> NULL
     \<and> (\<exists>v. h p = Some \<lparr>nprev = a, nnext = hd (ps @ [b]), nvalue = v\<rparr>) \<and> links h p ps b"

definition first_ptr :: "ptr list \<Rightarrow> ptr" where "first_ptr ps = hd (ps @ [NULL])"

definition last_ptr :: "ptr list \<Rightarrow> ptr" where "last_ptr ps = last (NULL # ps)"

definition value_at :: "(ptr \<rightharpoonup> list_node) \<Rightarrow> ptr \<Rightarrow> ptr" where
  "value_at h p = (case h p of None \<Rightarrow> NULL | Some nd \<Rightarrow> nvalue nd)"

definition dll :: "linklist \<Rightarrow> world \<Rightarrow> ptr list \<Rightarrow> bool" where
  "dll l w ps \<longleftrightarrow> links (heap w) NULL ps NULL \<and> distinct ps \<and> lhead l = first_ptr ps
     \<and> ltail l = last_ptr ps \<and> unat (llen l) = length ps"

definition values_of :: "world \<Rightarrow> ptr list \<Rightarrow> ptr list" where
  "values_of w ps = map (value_at (heap w)) ps"

text \<open>The two field updates as functions on heaps.\<close>

definition upd_prev :: "(ptr \<rightharpoonup> list_node) \<Rightarrow> ptr \<Rightarrow> ptr \<Rightarrow> (ptr \<rightharpoonup> list_node)" where
  "upd_prev h p v = h(p := map_option (nprev_update (\<lambda>_. v)) (h p))"

definition upd_next :: "(ptr \<rightharpoonup> list_node) \<Rightarrow> ptr \<Rightarrow> ptr \<Rightarrow> (ptr \<rightharpoonup> list_node)" where
  "upd_next h p v = h(p := map_option (nnext_update (\<lambda>_. v)) (h p))"

lemma set_prev_upd:
  "p \<noteq> NULL \<Longrightarrow> heap w p \<noteq> None \<Longrightarrow> set_prev w p v = Some (w\<lparr>heap := upd_prev (heap w) p v\<rparr>)"
  by (auto simp: set_prev_def upd_prev_def)

lemma set_next_upd:
  "p \<noteq> NULL \<Longrightarrow> heap w p \<noteq> None \<Longrightarrow> set_next w p v = Some (w\<lparr>heap := upd_next (heap w) p v\<rparr>)"
  by (auto simp: set_next_def upd_next_def)

lemma upd_other [simp]:
  "q \<noteq> p \<Longrightarrow> upd_prev h p v q = h q" "q \<noteq> p \<Longrightarrow> upd_next h p v q = h q"
  by (simp_all add: upd_prev_def upd_next_def)

lemma upd_end_other [simp]:
  "as \<noteq> [] \<Longrightarrow> q \<notin> set as \<Longrightarrow> upd_next h (last as) v q = h q"
  "bs \<noteq> [] \<Longrightarrow> q \<notin> set bs \<Longrightarrow> upd_prev h (hd bs) v q = h q"
  by (auto intro: upd_other)

lemma upd_None_iff [simp]:
  "upd_prev h p v q = None \<longleftrightarrow> h q = None" "upd_next h p v q = None \<longleftrightarrow> h q = None"
  by (simp_all add: upd_prev_def upd_next_def)

lemma upd_Some_iff [simp]:
  "(\<exists>y. upd_prev h p v q = Some y) \<longleftrightarrow> (\<exists>y. h q = Some y)"
  "(\<exists>y. upd_next h p v q = Some y) \<longleftrightarrow> (\<exists>y. h q = Some y)"
  by (auto simp: upd_prev_def upd_next_def)

lemma value_at_fresh [simp]:
  "value_at (h(p \<mapsto> nd)) q = (if q = p then nvalue nd else value_at h q)"
  by (simp add: value_at_def)

lemma upd_value [simp]:
  "value_at (upd_prev h p v) q = value_at h q" "value_at (upd_next h p v) q = value_at h q"
  by (auto simp: upd_prev_def upd_next_def value_at_def split: option.splits)

lemma links_frame:
  "(\<And>q. q \<in> set ps \<Longrightarrow> h' q = h q) \<Longrightarrow> links h' a ps b = links h a ps b"
  by (induction ps arbitrary: a) auto

lemma links_fresh [simp]: "p \<notin> set ps \<Longrightarrow> links (h(p := x)) a ps b = links h a ps b"
  by (rule links_frame) auto

lemma links_append:
  "links h a (ps @ qs) b \<longleftrightarrow> links h a ps (hd (qs @ [b])) \<and> links h (last (a # ps)) qs b"
  by (induction ps arbitrary: a) (auto simp: hd_append)

lemma links_mem: "links h a ps b \<Longrightarrow> p \<in> set ps \<Longrightarrow> p \<noteq> NULL \<and> (\<exists>nd. h p = Some nd)"
  by (induction ps arbitrary: a) auto

lemma links_upd_first:
  assumes "links h a (p # ps) b" and "p \<notin> set ps"
  shows "links (upd_prev h p a') a' (p # ps) b"
proof -
  have "links (upd_prev h p a') p ps b = links h p ps b"
    using assms(2) by (intro links_frame upd_other) auto
  then show ?thesis using assms(1) by (auto simp: upd_prev_def)
qed

lemma links_upd_last:
  assumes "links h a (ps @ [p]) b" and "p \<notin> set ps"
  shows "links (upd_next h p b') a (ps @ [p]) b'"
proof -
  have "links (upd_next h p b') a ps p = links h a ps p"
    using assms(2) by (intro links_frame upd_other) auto
  then show ?thesis using assms(1) by (auto simp: links_append upd_next_def)
qed

text \<open>
  \<open>join h as x y bs\<close> makes \<open>x\<close> the successor of the segment \<open>as\<close> and \<open>y\<close> the predecessor of the
  segment \<open>bs\<close>; an empty segment has no node to change.
\<close>

definition join :: "(ptr \<rightharpoonup> list_node) \<Rightarrow> ptr list \<Rightarrow> ptr \<Rightarrow> ptr \<Rightarrow> ptr list \<Rightarrow> (ptr \<rightharpoonup> list_node)" where
  "join h as x y bs =
     (let h1 = (if as = [] then h else upd_next h (last as) x)
      in if bs = [] then h1 else upd_prev h1 (hd bs) y)"

lemma join_other [simp]:
  "q \<notin> set as \<Longrightarrow> q \<notin> set bs \<Longrightarrow> join h as x y bs q = h q"
  by (auto simp: join_def Let_def)

lemma join_None_iff [simp]: "join h as x y bs q = None \<longleftrightarrow> h q = None"
  by (simp add: join_def Let_def)

lemma join_value [simp]: "value_at (join h as x y bs) q = value_at h q"
  by (simp add: join_def Let_def)

lemma join_links:
  assumes "links h a as x0" and "links h y0 bs b" and "distinct (as @ bs)"
  shows "links (join h as x y bs) a as x" and "links (join h as x y bs) y bs b"
proof -
  define h1 where "h1 = (if as = [] then h else upd_next h (last as) x)"
  have as: "links h1 a as x"
  proof (cases as rule: rev_cases)
    case (snoc as' p)
    then show ?thesis using links_upd_last [of h a as' p x0 x] assms(1,3) by (simp add: h1_def)
  qed simp
  have bs: "links h1 y0 bs b = links h y0 bs b"
    using assms(3) by (intro links_frame) (simp add: h1_def, blast intro: upd_end_other(1))
  have join: "join h as x y bs = (if bs = [] then h1 else upd_prev h1 (hd bs) y)"
    by (simp add: join_def h1_def)
  have "links (join h as x y bs) a as x = links h1 a as x"
    using assms(3) unfolding join by (intro links_frame) (simp, blast intro: upd_end_other(2))
  then show "links (join h as x y bs) a as x" using as by simp
  show "links (join h as x y bs) y bs b"
  proof (cases bs)
    case (Cons q qs)
    have "join h as x y bs = upd_prev h1 q y" unfolding join by (simp add: Cons)
    moreover have "links (upd_prev h1 q y) y (q # qs) b"
      using bs assms(2,3) by (intro links_upd_first [of h1 y0]) (simp_all add: Cons del: links.simps)
    ultimately show ?thesis by (simp add: Cons del: links.simps)
  qed simp
qed

text \<open>Taking a node out of a chain, and putting one in.\<close>

lemma links_remove:
  assumes "links h NULL (as @ p # bs) NULL" and "distinct (as @ p # bs)"
  shows "links (join h as (first_ptr bs) (last_ptr as) bs) NULL (as @ bs) NULL"
proof -
  have "links h NULL as p" "links h p bs NULL" using assms(1) by (auto simp: links_append)
  then show ?thesis
    using join_links [of h NULL as p p bs NULL "first_ptr bs" "last_ptr as"] assms(2)
    by (simp add: links_append first_ptr_def last_ptr_def)
qed

lemma links_insert:
  assumes "links h NULL (as @ bs) NULL" and "distinct (as @ p # bs)" and "p \<noteq> NULL"
    and h': "h' = h(p \<mapsto> \<lparr>nprev = last_ptr as, nnext = first_ptr bs, nvalue = v\<rparr>)"
  shows "links (join h' as p p bs) NULL (as @ p # bs) NULL"
proof -
  have p: "p \<notin> set as" "p \<notin> set bs" using assms(2) by auto
  have "links h NULL as (first_ptr bs)" "links h (last_ptr as) bs NULL"
    using assms(1) by (auto simp: links_append first_ptr_def last_ptr_def)
  then have "links h' NULL as (first_ptr bs)" "links h' (last_ptr as) bs NULL"
    using p by (simp_all add: h')
  then have "links (join h' as p p bs) NULL as p" "links (join h' as p p bs) p bs NULL"
    using join_links [of h' NULL as "first_ptr bs" "last_ptr as" bs NULL p p] assms(2) by auto
  moreover have "join h' as p p bs p = h' p" using p by simp
  ultimately show ?thesis using assms(3)
    by (simp add: links_append h' first_ptr_def last_ptr_def)
qed

lemma ptr_simps [simp]:
  "first_ptr [] = NULL" "first_ptr (p # ps) = p" "last_ptr [] = NULL" "last_ptr (ps @ [p]) = p"
  "as \<noteq> [] \<Longrightarrow> last_ptr as = last as" "bs \<noteq> [] \<Longrightarrow> first_ptr bs = hd bs"
  by (auto simp: first_ptr_def last_ptr_def neq_Nil_conv)

lemma ptr_append:
  "first_ptr (as @ bs) = (if as = [] then first_ptr bs else first_ptr as)"
  "last_ptr (as @ bs) = (if bs = [] then last_ptr as else last_ptr bs)"
  by auto

lemma ptr_NULL:
  "NULL \<notin> set as \<Longrightarrow> last_ptr as = NULL \<longleftrightarrow> as = []"
  "NULL \<notin> set bs \<Longrightarrow> first_ptr bs = NULL \<longleftrightarrow> bs = []"
  by (cases as rule: rev_cases; simp; blast) (cases bs; auto)

section \<open>The operations on a list\<close>

lemma dll_NULL: "dll l w ps \<Longrightarrow> NULL \<notin> set ps"
  using links_mem by (fastforce simp: dll_def)

lemma dll_len_zero: "dll l w ps \<Longrightarrow> llen l = 0 \<longleftrightarrow> ps = []"
  by (auto simp: dll_def unat_eq_zero)

lemma fresh_not_mem: "dll l w ps \<Longrightarrow> fresh (heap w) p \<Longrightarrow> p \<notin> set ps"
  using links_mem [of "heap w" NULL ps NULL p] by (auto simp: dll_def fresh_def)

text \<open>The world after a node was put between two segments.\<close>

definition inserted :: "world \<Rightarrow> ptr list \<Rightarrow> ptr \<Rightarrow> ptr \<Rightarrow> ptr list \<Rightarrow> world" where
  "inserted w as p v bs = w\<lparr>heap := join
     ((heap w)(p \<mapsto> \<lparr>nprev = last_ptr as, nnext = first_ptr bs, nvalue = v\<rparr>)) as p p bs\<rparr>"

lemma inserted_dll:
  assumes l: "dll l w (as @ bs)" and p: "fresh (heap w) p" and len: "length (as @ bs) + 1 < 2 ^ 64"
  shows "dll (l\<lparr>lhead := first_ptr (as @ p # bs), ltail := last_ptr (as @ p # bs), llen := llen l + 1\<rparr>)
      (inserted w as p v bs) (as @ p # bs)"
    and "values_of (inserted w as p v bs) (as @ p # bs) = values_of w as @ v # values_of w bs"
    and "dom (heap (inserted w as p v bs)) = insert p (dom (heap w))"
    and "freed (inserted w as p v bs) = freed w"
proof -
  have mem: "p \<notin> set as" "p \<notin> set bs" using fresh_not_mem [OF l p] by auto
  have dist: "distinct (as @ p # bs)" using l mem by (auto simp: dll_def)
  have "links (heap w) NULL (as @ bs) NULL" using l by (simp add: dll_def)
  then have "links (heap (inserted w as p v bs)) NULL (as @ p # bs) NULL"
    using links_insert [OF _ dist _ refl] p by (simp add: inserted_def fresh_def)
  moreover have "unat (llen l + 1) = length (as @ p # bs)"
    using l len by (simp add: dll_def unat_add_no_wrap)
  ultimately show "dll (l\<lparr>lhead := first_ptr (as @ p # bs), ltail := last_ptr (as @ p # bs), llen := llen l + 1\<rparr>)
      (inserted w as p v bs) (as @ p # bs)"
    using dist by (simp add: dll_def)
  show "values_of (inserted w as p v bs) (as @ p # bs) = values_of w as @ v # values_of w bs"
    using mem by (auto simp: values_of_def inserted_def)
  show "dom (heap (inserted w as p v bs)) = insert p (dom (heap w))"
    by (auto simp: inserted_def dom_def)
  show "freed (inserted w as p v bs) = freed w" by (simp add: inserted_def)
qed

lemma add_head_inserted:
  assumes "dll l w ps" and "fresh (heap w) p"
  shows "linklist_add_head p (Some l) v w = Some (Some
      (l\<lparr>lhead := first_ptr (p # ps), ltail := last_ptr (p # ps), llen := llen l + 1\<rparr>),
      inserted w [] p v ps, True)"
proof (cases ps)
  case Nil
  then show ?thesis using assms
    by (simp add: linklist_add_head_def new_node_def set_prev_upd set_next_upd fresh_def dll_len_zero
        inserted_def join_def upd_prev_def upd_next_def)
next
  case (Cons q qs)
  then have q: "q \<noteq> NULL" "heap w q \<noteq> None" "q \<noteq> p" "lhead l = q" "ltail l = last_ptr (p # ps)"
    using assms links_mem [of "heap w" NULL ps NULL q] fresh_not_mem [OF assms]
    by (auto simp: dll_def last_ptr_def)
  then show ?thesis using assms Cons dll_len_zero [OF assms(1)]
    by (simp add: linklist_add_head_def new_node_def set_prev_upd set_next_upd fresh_def
        inserted_def join_def) (simp add: upd_prev_def upd_next_def)
qed

lemma add_tail_inserted:
  assumes "dll l w ps" and "fresh (heap w) p"
  shows "linklist_add_tail p (Some l) v w = Some (Some
      (l\<lparr>lhead := first_ptr (ps @ [p]), ltail := last_ptr (ps @ [p]), llen := llen l + 1\<rparr>),
      inserted w ps p v [], True)"
proof (cases ps rule: rev_cases)
  case Nil
  then show ?thesis using assms
    by (simp add: linklist_add_tail_def new_node_def set_prev_upd set_next_upd fresh_def dll_len_zero
        inserted_def join_def upd_prev_def upd_next_def)
next
  case (snoc qs q)
  then have q: "q \<noteq> NULL" "heap w q \<noteq> None" "q \<noteq> p" "ltail l = q" "lhead l = first_ptr (ps @ [p])"
    using assms links_mem [of "heap w" NULL ps NULL q] fresh_not_mem [OF assms]
    by (auto simp: dll_def first_ptr_def hd_append)
  then show ?thesis using assms snoc dll_len_zero [OF assms(1)]
    by (simp add: linklist_add_tail_def new_node_def set_prev_upd set_next_upd fresh_def
        inserted_def join_def) (simp add: upd_prev_def upd_next_def)
qed

lemma dll_node:
  assumes "dll l w (as @ p # bs)"
  obtains v where "heap w p = Some \<lparr>nprev = last_ptr as, nnext = first_ptr bs, nvalue = v\<rparr>"
    and "p \<noteq> NULL" and "NULL \<notin> set as" and "NULL \<notin> set bs" and "p \<notin> set as" and "p \<notin> set bs"
proof -
  have "NULL \<notin> set (as @ p # bs)" using dll_NULL [OF assms] .
  moreover have "distinct (as @ p # bs)" using assms by (simp add: dll_def)
  moreover have "\<exists>v. heap w p = Some \<lparr>nprev = last_ptr as, nnext = first_ptr bs, nvalue = v\<rparr>"
    using assms by (simp add: dll_def links_append first_ptr_def last_ptr_def)
  ultimately show thesis using that by auto
qed

lemma dll_end_live:
  assumes "dll l w (as @ p # bs)"
  shows "as \<noteq> [] \<Longrightarrow> heap w (last as) \<noteq> None \<and> last as \<noteq> NULL \<and> last as \<noteq> p"
    and "bs \<noteq> [] \<Longrightarrow> heap w (hd bs) \<noteq> None \<and> hd bs \<noteq> NULL \<and> hd bs \<noteq> p"
proof -
  have "links (heap w) NULL (as @ p # bs) NULL" "distinct (as @ p # bs)"
    using assms by (auto simp: dll_def)
  then show "as \<noteq> [] \<Longrightarrow> heap w (last as) \<noteq> None \<and> last as \<noteq> NULL \<and> last as \<noteq> p"
    and "bs \<noteq> [] \<Longrightarrow> heap w (hd bs) \<noteq> None \<and> hd bs \<noteq> NULL \<and> hd bs \<noteq> p"
    using links_mem [of "heap w" NULL "as @ p # bs" NULL "last as"]
      links_mem [of "heap w" NULL "as @ p # bs" NULL "hd bs"] last_in_set [of as] hd_in_set [of bs]
    by auto
qed

lemma insert_inserted:
  assumes l: "dll l w (as @ node # bs)" and p: "fresh (heap w) p"
  shows "after \<Longrightarrow> linklist_insert_node p (Some l) node v after w = Some (Some
      (l\<lparr>lhead := first_ptr ((as @ [node]) @ p # bs), ltail := last_ptr ((as @ [node]) @ p # bs),
        llen := llen l + 1\<rparr>), inserted w (as @ [node]) p v bs, True)"
    and "\<not> after \<Longrightarrow> linklist_insert_node p (Some l) node v after w = Some (Some
      (l\<lparr>lhead := first_ptr (as @ p # node # bs), ltail := last_ptr (as @ p # node # bs),
        llen := llen l + 1\<rparr>), inserted w as p v (node # bs), True)"
proof -
  obtain u where node: "heap w node = Some \<lparr>nprev = last_ptr as, nnext = first_ptr bs, nvalue = u\<rparr>"
      "node \<noteq> NULL" "NULL \<notin> set as" "NULL \<notin> set bs" "node \<notin> set as" "node \<notin> set bs"
    using dll_node [OF l] .
  have new: "p \<noteq> NULL" "heap w p = None" using p by (auto simp: fresh_def)
  then have "p \<noteq> node" using node(1) by auto
  have ends: "lhead l = first_ptr (as @ [node])" "ltail l = last_ptr (node # bs)"
    using l by (simp_all add: dll_def ptr_append)
  have far: "bs \<noteq> [] \<Longrightarrow> last bs \<noteq> node" "as \<noteq> [] \<Longrightarrow> hd as \<noteq> node" using node(5,6) by auto
  note nodes = far \<open>p \<noteq> node\<close> \<open>p \<noteq> node\<close> [symmetric] new node
  note eval = linklist_insert_node_def new_node_def set_prev_upd set_next_upd inserted_def join_def Let_def
  show "linklist_insert_node p (Some l) node v after w = Some (Some
      (l\<lparr>lhead := first_ptr ((as @ [node]) @ p # bs), ltail := last_ptr ((as @ [node]) @ p # bs),
        llen := llen l + 1\<rparr>), inserted w (as @ [node]) p v bs, True)" if after
  proof (cases "bs = []")
    case True
    then show ?thesis using that nodes ends by (simp add: eval) (simp add: eval upd_prev_def upd_next_def hd_append)
  next
    case False
    then show ?thesis using that nodes ends dll_end_live(2) [OF l False]
      by (simp add: eval) (simp add: eval upd_prev_def upd_next_def hd_append)
  qed
  show "linklist_insert_node p (Some l) node v after w = Some (Some
      (l\<lparr>lhead := first_ptr (as @ p # node # bs), ltail := last_ptr (as @ p # node # bs),
        llen := llen l + 1\<rparr>), inserted w as p v (node # bs), True)" if "\<not> after"
  proof (cases "as = []")
    case True
    then show ?thesis using that nodes ends by (simp add: eval) (simp add: eval upd_prev_def upd_next_def hd_append)
  next
    case False
    then have "last as \<noteq> p" using dll_end_live(1) [OF l False] new(2) by auto
    then show ?thesis using that nodes ends False dll_end_live(1) [OF l False]
      by (simp add: eval) (simp add: eval upd_prev_def upd_next_def hd_append)
  qed
qed

text \<open>The world after a node was taken out from between two segments, and not freed yet.\<close>

definition removed :: "world \<Rightarrow> ptr list \<Rightarrow> ptr list \<Rightarrow> world" where
  "removed w as bs = w\<lparr>heap := join (heap w) as (first_ptr bs) (last_ptr as) bs\<rparr>"

lemma unlink_removed:
  assumes l: "dll l w (as @ p # bs)"
  shows "unlink l p w = Some (l\<lparr>lhead := first_ptr (as @ bs), ltail := last_ptr (as @ bs)\<rparr>, removed w as bs)"
proof -
  obtain u where node: "heap w p = Some \<lparr>nprev = last_ptr as, nnext = first_ptr bs, nvalue = u\<rparr>"
      "p \<noteq> NULL" "NULL \<notin> set as" "NULL \<notin> set bs" "p \<notin> set as" "p \<notin> set bs"
    using dll_node [OF l] .
  have ends: "lhead l = first_ptr (as @ [p])" "ltail l = last_ptr (p # bs)"
    using l by (simp_all add: dll_def ptr_append)
  note eval = unlink_def set_prev_upd set_next_upd removed_def join_def Let_def
  show ?thesis
  proof (cases "as = []")
    case as: True
    show ?thesis
    proof (cases "bs = []")
      case True
      then show ?thesis using as node ends by (simp add: eval)
    next
      case False
      then show ?thesis using as node ends dll_end_live(2) [OF l False] by (simp add: eval)
    qed
  next
    case as: False
    show ?thesis
    proof (cases "bs = []")
      case True
      then show ?thesis using as node ends dll_end_live(1) [OF l as] by (simp add: eval ptr_NULL)
    next
      case False
      then show ?thesis using as node ends dll_end_live(1) [OF l as] dll_end_live(2) [OF l False]
        by (simp add: eval)
    qed
  qed
qed

lemma removed_links:
  assumes "dll l w (as @ p # bs)"
  shows "links (heap (removed w as bs)) NULL (as @ bs) NULL"
  using links_remove [of "heap w" as p bs] assms by (simp add: dll_def removed_def)

lemma removed_node:
  assumes "dll l w (as @ p # bs)"
  shows "heap (removed w as bs) p = heap w p"
  by (rule dll_node [OF assms]) (simp add: removed_def)

definition deleted :: "linklist \<Rightarrow> world \<Rightarrow> ptr list \<Rightarrow> ptr \<Rightarrow> ptr list \<Rightarrow> world" where
  "deleted l w as p bs = \<lparr>heap = (heap (removed w as bs))(p := None),
     freed = (if has_free l then freed w @ [value_at (heap w) p] else freed w)\<rparr>"

lemma delete_deleted:
  assumes l: "dll l w (as @ p # bs)"
  shows "linklist_delete_node (Some l) p w = Some (Some (l\<lparr>lhead := first_ptr (as @ bs),
    ltail := last_ptr (as @ bs), llen := llen l - 1\<rparr>), deleted l w as p bs)"
proof -
  obtain u where "heap w p = Some \<lparr>nprev = last_ptr as, nnext = first_ptr bs, nvalue = u\<rparr>" "p \<noteq> NULL"
    using dll_node [OF l] .
  then show ?thesis using unlink_removed [OF l] removed_node [OF l]
    by (simp add: linklist_delete_node_def deleted_def removed_def value_at_def)
qed

lemma deleted_dll:
  assumes l: "dll l w (as @ p # bs)"
  shows "dll (l\<lparr>lhead := first_ptr (as @ bs), ltail := last_ptr (as @ bs), llen := llen l - 1\<rparr>)
      (deleted l w as p bs) (as @ bs)"
    and "values_of (deleted l w as p bs) (as @ bs) = values_of w as @ values_of w bs"
    and "dom (heap (deleted l w as p bs)) = dom (heap w) - {p}"
proof -
  have p: "p \<notin> set as" "p \<notin> set bs" using l by (auto simp: dll_def)
  have len: "unat (llen l) = Suc (length (as @ bs))" using l by (simp add: dll_def)
  then have "llen l \<noteq> 0" by auto
  then have "unat (llen l - 1) = length (as @ bs)" using len by (simp add: unat_minus_one)
  moreover have "links (heap (deleted l w as p bs)) NULL (as @ bs) NULL"
    using removed_links [OF l] p by (simp add: deleted_def)
  ultimately show "dll (l\<lparr>lhead := first_ptr (as @ bs), ltail := last_ptr (as @ bs), llen := llen l - 1\<rparr>)
      (deleted l w as p bs) (as @ bs)"
    using l by (simp add: dll_def)
  have "value_at (heap (deleted l w as p bs)) q = value_at (join (heap w) as (first_ptr bs) (last_ptr as) bs) q"
    if "q \<in> set (as @ bs)" for q
  proof -
    have "q \<noteq> p" using that p by auto
    then show ?thesis by (simp add: deleted_def removed_def value_at_def)
  qed
  then show "values_of (deleted l w as p bs) (as @ bs) = values_of w as @ values_of w bs"
    using p by (auto simp: values_of_def)
  show "dom (heap (deleted l w as p bs)) = dom (heap w) - {p}"
    by (rule set_eqI) (simp add: deleted_def removed_def domIff del: not_None_eq)
qed

section \<open>Freeing a list\<close>

lemma free_loop_step:
  assumes "heap w p = Some nd" and "p \<noteq> NULL"
  shows "free_loop func (Suc n) p w = free_loop func n (nnext nd)
    \<lparr>heap = (heap w)(p := None), freed = (if func then freed w @ [nvalue nd] else freed w)\<rparr>"
  using assms by (cases w) simp

lemma free_loop_links:
  assumes "links (heap w) a ps NULL" and "distinct ps"
  shows "\<exists>w'. free_loop func (length ps) (first_ptr ps) w = Some w'
    \<and> heap w' = (\<lambda>q. if q \<in> set ps then None else heap w q)
    \<and> freed w' = (if func then freed w @ values_of w ps else freed w)"
  using assms
proof (induction ps arbitrary: a w)
  case Nil
  then show ?case by (simp add: values_of_def)
next
  case (Cons p ps)
  then obtain v where p: "heap w p = Some \<lparr>nprev = a, nnext = first_ptr ps, nvalue = v\<rparr>" "p \<noteq> NULL"
    by (auto simp: first_ptr_def)
  define w1 where "w1 = \<lparr>heap = (heap w)(p := None), freed = (if func then freed w @ [v] else freed w)\<rparr>"
  have vals: "values_of w1 ps = values_of w ps"
    using Cons.prems(2) by (auto simp: values_of_def w1_def value_at_def)
  have "links (heap w1) p ps NULL" using Cons.prems by (simp add: w1_def)
  then obtain w' where w': "free_loop func (length ps) (first_ptr ps) w1 = Some w'"
      "heap w' = (\<lambda>q. if q \<in> set ps then None else heap w1 q)"
      "freed w' = (if func then freed w1 @ values_of w1 ps else freed w1)"
    using Cons.IH [of w1 p] Cons.prems(2) by auto
  have "free_loop func (length (p # ps)) (first_ptr (p # ps)) w = free_loop func (length ps) (first_ptr ps) w1"
    using free_loop_step [OF p] by (simp add: w1_def del: free_loop.simps)
  then show ?case using w' vals p by (auto simp: w1_def values_of_def value_at_def)
qed

text \<open>When the length field says more than the chain holds, the loop follows the null pointer.\<close>

lemma free_loop_short:
  assumes "links (heap w) a ps NULL" and "distinct ps" and "length ps < n"
  shows "free_loop func n (first_ptr ps) w = None"
  using assms
proof (induction ps arbitrary: a w n)
  case Nil
  then obtain m where "n = Suc m" by (cases n) auto
  then show ?case by simp
next
  case (Cons p ps)
  then obtain v where p: "heap w p = Some \<lparr>nprev = a, nnext = first_ptr ps, nvalue = v\<rparr>" "p \<noteq> NULL"
    by (auto simp: first_ptr_def)
  obtain m where m: "n = Suc m" "length ps < m" using Cons.prems(3) by (cases n) auto
  define w1 where "w1 = \<lparr>heap = (heap w)(p := None), freed = (if func then freed w @ [v] else freed w)\<rparr>"
  have "links (heap w1) p ps NULL" using Cons.prems by (simp add: w1_def)
  then have "free_loop func m (first_ptr ps) w1 = None"
    using Cons.IH [of w1 p m] Cons.prems(2) m(2) by simp
  moreover have "free_loop func n (first_ptr (p # ps)) w = free_loop func m (first_ptr ps) w1"
    using free_loop_step [OF p] m(1) by (simp add: w1_def del: free_loop.simps)
  ultimately show ?case by simp
qed

section \<open>The list as a sequence\<close>

text \<open>The nodes a client meets that walks the list from its head, and the values in them.\<close>

fun walk :: "(ptr \<rightharpoonup> list_node) \<Rightarrow> nat \<Rightarrow> ptr \<Rightarrow> ptr list" where
  "walk h 0 p = []"
| "walk h (Suc n) p = (case load h p of None \<Rightarrow> [] | Some nd \<Rightarrow> p # walk h n (nnext nd))"

definition contents_of :: "linklist \<times> world \<Rightarrow> ptr list" where
  "contents_of = (\<lambda>(l, w). values_of w (walk (heap w) (unat (llen l)) (lhead l)))"

definition ll_inv :: "linklist \<times> world \<Rightarrow> bool" where
  "ll_inv = (\<lambda>(l, w). \<exists>ps. dll l w ps)"

lemma walk_links: "links h a ps NULL \<Longrightarrow> walk h (length ps) (first_ptr ps) = ps"
proof (induction ps arbitrary: a)
  case (Cons p ps)
  then show ?case by (auto simp: first_ptr_def)
qed simp

lemma dll_walk: "dll l w ps \<Longrightarrow> walk (heap w) (unat (llen l)) (lhead l) = ps"
  using walk_links [of "heap w" NULL ps] by (simp add: dll_def)

lemma dll_contents: "dll l w ps \<Longrightarrow> contents_of (l, w) = values_of w ps"
  by (simp add: contents_of_def dll_walk)

definition ll_push ::
    "(ptr \<Rightarrow> linklist option \<Rightarrow> ptr \<Rightarrow> world \<Rightarrow> list_result) \<Rightarrow> ptr \<Rightarrow> ptr \<Rightarrow> linklist \<times> world \<Rightarrow>
     (linklist \<times> world) option" where
  "ll_push add a v = (\<lambda>(l, w). case add a (Some l) v w of
     Some (Some l', w', True) \<Rightarrow> Some (l', w') | _ \<Rightarrow> None)"

definition ll_pop :: "linklist \<times> world \<Rightarrow> (linklist \<times> world) option" where
  "ll_pop = (\<lambda>(l, w). case linklist_delete_node (Some l) (lhead l) w of
     Some (Some l', w') \<Rightarrow> Some (l', w') | _ \<Rightarrow> None)"

definition ll_usable :: "linklist \<times> world \<Rightarrow> ptr \<Rightarrow> bool" where
  "ll_usable = (\<lambda>(l, w) a. fresh (heap w) a)"

lemma inserted_usable:
  assumes "dom (heap w') = insert a (dom (heap w))"
  shows "\<forall>b. ll_usable (l, w) b \<and> b \<noteq> a \<longrightarrow> ll_usable (l', w') b"
  using assms by (auto simp: ll_usable_def fresh_def domIff set_eq_iff)

interpretation list_deque: deque ll_inv contents_of ll_usable
  "ll_push linklist_add_head" "ll_push linklist_add_tail" ll_pop "2 ^ 64 - 1"
proof
  fix s a v
  assume s: "ll_inv s" "ll_usable s a" "length (contents_of s) < 2 ^ 64 - 1"
  obtain l w ps where lw: "s = (l, w)" "dll l w ps" using s(1) by (cases s) (auto simp: ll_inv_def)
  then have a: "fresh (heap w) a" and len: "length ps + 1 < 2 ^ 64" and cont: "contents_of s = values_of w ps"
    using s(2,3) by (simp_all add: ll_usable_def dll_contents values_of_def)
  note front = inserted_dll [of l w "[]" ps a v, simplified, OF lw(2) a]
  let ?f = "(l\<lparr>lhead := first_ptr (a # ps), ltail := last_ptr (a # ps), llen := llen l + 1\<rparr>, inserted w [] a v ps)"
  have "ll_push linklist_add_head a v s = Some ?f"
    using add_head_inserted [OF lw(2) a] by (simp add: ll_push_def lw(1))
  moreover have "dll (fst ?f) (snd ?f) (a # ps)" and "contents_of ?f = v # contents_of s"
    using front len dll_contents [of "fst ?f" "snd ?f" "a # ps"] cont by (simp_all add: values_of_def)
  moreover have "\<forall>b. ll_usable s b \<and> b \<noteq> a \<longrightarrow> ll_usable ?f b"
    unfolding lw(1) using front(3) len by (intro inserted_usable) simp
  ultimately show "\<exists>s'. ll_push linklist_add_head a v s = Some s' \<and> ll_inv s' \<and> contents_of s' = v # contents_of s
      \<and> (\<forall>b. ll_usable s b \<and> b \<noteq> a \<longrightarrow> ll_usable s' b)"
    by (auto simp: ll_inv_def)
  note rear = inserted_dll [of l w ps "[]" a v, simplified, OF lw(2) a]
  let ?b = "(l\<lparr>lhead := first_ptr (ps @ [a]), ltail := last_ptr (ps @ [a]), llen := llen l + 1\<rparr>, inserted w ps a v [])"
  have "ll_push linklist_add_tail a v s = Some ?b"
    using add_tail_inserted [OF lw(2) a] by (simp add: ll_push_def lw(1))
  moreover have "dll (fst ?b) (snd ?b) (ps @ [a])" and "contents_of ?b = contents_of s @ [v]"
    using rear len dll_contents [of "fst ?b" "snd ?b" "ps @ [a]"] cont by (simp_all add: values_of_def)
  moreover have "\<forall>b. ll_usable s b \<and> b \<noteq> a \<longrightarrow> ll_usable ?b b"
    unfolding lw(1) using rear(3) len by (intro inserted_usable) simp
  ultimately show "\<exists>s'. ll_push linklist_add_tail a v s = Some s' \<and> ll_inv s' \<and> contents_of s' = contents_of s @ [v]
      \<and> (\<forall>b. ll_usable s b \<and> b \<noteq> a \<longrightarrow> ll_usable s' b)"
    by (auto simp: ll_inv_def)
next
  fix s
  assume s: "ll_inv s" "contents_of s \<noteq> []"
  obtain l w ps where lw: "s = (l, w)" "dll l w ps" using s(1) by (cases s) (auto simp: ll_inv_def)
  then obtain p qs where ps: "ps = p # qs"
    using s(2) by (cases ps) (auto simp: dll_contents values_of_def)
  then have l: "dll l w ([] @ p # qs)" and head: "lhead l = p" using lw(2) by (simp_all add: dll_def)
  let ?s = "(l\<lparr>lhead := first_ptr ([] @ qs), ltail := last_ptr ([] @ qs), llen := llen l - 1\<rparr>, deleted l w [] p qs)"
  have "ll_pop s = Some ?s" using delete_deleted [OF l] head by (simp add: ll_pop_def lw(1))
  moreover have "ll_inv ?s" using deleted_dll(1) [OF l] by (auto simp: ll_inv_def)
  moreover have "contents_of ?s = tl (contents_of s)"
    using dll_contents [OF deleted_dll(1) [OF l]] deleted_dll(2) [OF l] dll_contents [OF lw(2)]
    by (simp add: lw(1) ps values_of_def)
  ultimately show "\<exists>s'. ll_pop s = Some s' \<and> ll_inv s' \<and> contents_of s' = tl (contents_of s)" by blast
qed

section \<open>Moving a node\<close>

text \<open>
  \<^verbatim>\<open>linklist_move_node\<close> unlinks the node and writes its own two fields, but never those of its new
  neighbours: the chain without the node stays as it is.
\<close>

definition moved :: "world \<Rightarrow> ptr list \<Rightarrow> ptr \<Rightarrow> ptr list \<Rightarrow> ptr \<Rightarrow> ptr \<Rightarrow> world" where
  "moved w as src bs prv nxt = w\<lparr>heap := (heap (removed w as bs))
     (src \<mapsto> \<lparr>nprev = prv, nnext = nxt, nvalue = value_at (heap w) src\<rparr>)\<rparr>"

lemma move_node_moved:
  assumes l: "dll l w (as @ src # bs)" and dst: "as @ bs = cs @ dst # ds"
  shows "linklist_move_node (Some l) src dst after w = Some (Some
      (if after
       then l\<lparr>lhead := first_ptr (as @ bs), ltail := (if ds = [] then src else last_ptr (as @ bs))\<rparr>
       else l\<lparr>lhead := (if cs = [] then src else first_ptr (as @ bs)), ltail := last_ptr (as @ bs)\<rparr>),
      (if after then moved w as src bs dst (first_ptr ds) else moved w as src bs (last_ptr cs) dst), True)"
proof -
  obtain u where src: "heap w src = Some \<lparr>nprev = last_ptr as, nnext = first_ptr bs, nvalue = u\<rparr>"
      "src \<noteq> NULL" "src \<notin> set as" "src \<notin> set bs" "NULL \<notin> set as" "NULL \<notin> set bs"
    using dll_node [OF l] .
  have val: "value_at (heap w) src = u" by (simp add: src value_at_def)
  have "links (heap (removed w as bs)) NULL (cs @ dst # ds) NULL"
    using removed_links [OF l] dst by simp
  then obtain v where d: "heap (removed w as bs) dst = Some \<lparr>nprev = last_ptr cs, nnext = first_ptr ds, nvalue = v\<rparr>"
    by (auto simp: links_append first_ptr_def last_ptr_def)
  have dist: "distinct (cs @ dst # ds)" using l dst [symmetric] by (simp add: dll_def)
  have "dst \<in> set (as @ bs)" using dst by simp
  then have ne: "dst \<noteq> src" "src \<noteq> dst" "dst \<noteq> NULL"
    using src(3-6) by (auto simp del: gr0_conv_Suc intro!: gr0I)
  have tail: "last_ptr (as @ bs) = dst \<longleftrightarrow> ds = []" and head: "first_ptr (as @ bs) = dst \<longleftrightarrow> cs = []"
    using dist last_in_set [of ds] hd_in_set [of cs] unfolding dst by (auto simp: hd_append)
  have s: "heap (removed w as bs) src = Some \<lparr>nprev = last_ptr as, nnext = first_ptr bs, nvalue = u\<rparr>"
    using removed_node [OF l] src(1) by simp
  show ?thesis
    using unlink_removed [OF l] ne src(2) d s tail head
    by (cases after) (simp_all add: linklist_move_node_def set_prev_def set_next_def moved_def val removed_def)
qed

lemma moved_links:
  assumes "dll l w (as @ src # bs)"
  shows "links (heap (moved w as src bs prv nxt)) NULL (as @ bs) NULL" and "distinct (as @ bs)"
proof -
  have "src \<notin> set (as @ bs)" "distinct (as @ bs)" using assms by (auto simp: dll_def)
  then show "links (heap (moved w as src bs prv nxt)) NULL (as @ bs) NULL" and "distinct (as @ bs)"
    using removed_links [OF assms] by (simp_all add: moved_def)
qed

section \<open>Properties\<close>

text \<open>A list of three nodes, at the addresses 10, 20 and 30.\<close>

definition sample_list :: linklist where
  "sample_list = \<lparr>lhead = 10, ltail = 30, llen = 3, has_free = True\<rparr>"

definition sample_world :: world where
  "sample_world = \<lparr>heap = [10 \<mapsto> \<lparr>nprev = 0, nnext = 20, nvalue = 1\<rparr>,
     20 \<mapsto> \<lparr>nprev = 10, nnext = 30, nvalue = 2\<rparr>, 30 \<mapsto> \<lparr>nprev = 20, nnext = 0, nvalue = 3\<rparr>], freed = []\<rparr>"

lemma sample_dll: "dll sample_list sample_world [10, 20, 30]"
  by (simp add: dll_def sample_list_def sample_world_def)

lemma sample_values: "values_of sample_world [10, 20, 30] = [1, 2, 3]"
  by (simp add: values_of_def sample_world_def)

text \<open>
  C18. \<^verbatim>\<open>linklist_insert_node\<close> puts the new node right behind (or, with \<open>after\<close> false, right before)
  the given one: the list is linked consistently in both directions, the values are those of the
  list with the new value inserted, no other node is allocated or freed, and \<^verbatim>\<open>free_func\<close> is not called.
\<close>

theorem linklist_insert_node_spec:
  assumes "dll l w (as @ node # bs)" and "fresh (heap w) p" and "length (as @ node # bs) + 1 < 2 ^ 64"
  shows "\<exists>l' w'. linklist_insert_node p (Some l) node v after w = Some (Some l', w', True)
    \<and> dll l' w' (if after then as @ node # p # bs else as @ p # node # bs)
    \<and> contents_of (l', w') = values_of w as
        @ (if after then [value_at (heap w) node, v] else [v, value_at (heap w) node]) @ values_of w bs
    \<and> dom (heap w') = insert p (dom (heap w)) \<and> freed w' = freed w \<and> has_free l' = has_free l"
proof (cases after)
  case True
  have l: "dll l w ((as @ [node]) @ bs)" using assms(1) by simp
  show ?thesis
    using insert_inserted(1) [OF assms(1,2) True] inserted_dll [OF l assms(2), of v]
      dll_contents [OF inserted_dll(1) [OF l assms(2), of v]] assms(3) True
    by (simp add: values_of_def)
next
  case False
  show ?thesis
    using insert_inserted(2) [OF assms(1,2) False] inserted_dll [OF assms(1,2), of v]
      dll_contents [OF inserted_dll(1) [OF assms(1,2), of v]] assms(3) False
    by (simp add: values_of_def)
qed

theorem linklist_insert_node_spec_witness:
  "\<exists>l' w'. linklist_insert_node 40 (Some sample_list) 20 9 False sample_world = Some (Some l', w', True)
    \<and> dll l' w' [10, 40, 20, 30] \<and> contents_of (l', w') = [1, 9, 2, 3]"
  using linklist_insert_node_spec [of sample_list sample_world "[10]" 20 "[30]" 40 9 False] sample_dll
  by (auto simp: fresh_def) (auto simp: sample_world_def values_of_def value_at_def)

text \<open>
  C19. \<^verbatim>\<open>linklist_delete_node\<close> takes the node out of the list, which stays linked consistently, frees
  that node and no other, and passes its value to \<^verbatim>\<open>free_func\<close> when there is one.
\<close>

theorem linklist_delete_node_spec:
  assumes "dll l w (as @ node # bs)"
  shows "\<exists>l' w'. linklist_delete_node (Some l) node w = Some (Some l', w') \<and> dll l' w' (as @ bs)
    \<and> contents_of (l', w') = values_of w as @ values_of w bs \<and> dom (heap w') = dom (heap w) - {node}
    \<and> freed w' = (if has_free l then freed w @ [value_at (heap w) node] else freed w)"
  using delete_deleted [OF assms] deleted_dll [OF assms] dll_contents [OF deleted_dll(1) [OF assms]]
  by (simp add: deleted_def)

theorem linklist_delete_node_spec_witness:
  "\<exists>l' w'. linklist_delete_node (Some sample_list) 10 sample_world = Some (Some l', w')
    \<and> dll l' w' [20, 30] \<and> contents_of (l', w') = [2, 3] \<and> freed w' = [1]"
  using linklist_delete_node_spec [of sample_list sample_world "[]" 10 "[20, 30]"] sample_dll
  by (auto simp: sample_world_def sample_list_def values_of_def value_at_def)

text \<open>
  \<^verbatim>\<open>linklist_free\<close> frees exactly the nodes of the list, once each, and passes their values to
  \<^verbatim>\<open>free_func\<close> in list order when there is one.
\<close>

theorem linklist_free_spec:
  assumes "dll l w ps"
  shows "\<exists>w'. linklist_free (Some l) w = Some w'
    \<and> heap w' = (\<lambda>q. if q \<in> set ps then None else heap w q)
    \<and> freed w' = (if has_free l then freed w @ values_of w ps else freed w)"
  using free_loop_links [of w NULL ps "has_free l"] assms by (simp add: linklist_free_def dll_def)

theorem linklist_free_spec_witness:
  "\<exists>w'. linklist_free (Some sample_list) sample_world = Some w' \<and> heap w' = Map.empty \<and> freed w' = [1, 2, 3]"
  using linklist_free_spec [OF sample_dll] sample_values
  by (auto simp: sample_list_def fun_eq_iff) (auto simp: sample_world_def fun_eq_iff)

text \<open>
  A queue: starting from a new list, values added at the tail in nodes at distinct addresses and
  then taken from the head come out in the order they went in, whatever their number.
\<close>

theorem linklist_fifo:
  assumes "linklist_new mem func = Some l" and "distinct (map fst avs)" and "NULL \<notin> fst ` set avs"
    and "length avs < 2 ^ 64" and "n \<le> length avs"
  shows "\<exists>s1 s'. push_all (ll_push linklist_add_tail) avs (l, \<lparr>heap = Map.empty, freed = []\<rparr>) = Some s1
    \<and> pop_n ll_pop n s1 = Some s' \<and> ll_inv s' \<and> contents_of s' = drop n (map snd avs)"
proof -
  let ?s = "(l, \<lparr>heap = Map.empty, freed = []\<rparr>)"
  have dll: "dll (fst ?s) (snd ?s) []"
    using assms(1) by (auto simp: linklist_new_def dll_def split: if_splits)
  then have "ll_inv ?s" "contents_of ?s = []"
    using dll_contents [OF dll] by (auto simp: ll_inv_def values_of_def)
  moreover have "\<forall>a \<in> fst ` set avs. ll_usable ?s a"
    using assms(3) by (auto simp: ll_usable_def fresh_def intro!: gr0I)
  ultimately show ?thesis using list_deque.fifo [of ?s avs n] assms(2,4,5) by simp
qed

theorem linklist_fifo_witness:
  "\<exists>l s1 s'. linklist_new (\<lambda>_. True) False = Some l
    \<and> push_all (ll_push linklist_add_tail) [(8, 1), (16, 2), (24, 3)] (l, \<lparr>heap = Map.empty, freed = []\<rparr>) = Some s1
    \<and> pop_n ll_pop 2 s1 = Some s' \<and> contents_of s' = [3]"
  using linklist_fifo [of "\<lambda>_. True" False _ "[(8, 1), (16, 2), (24, 3)]" 2]
  by (force simp: linklist_new_def)

text \<open>
  C38. \<^verbatim>\<open>linklist_move_node\<close> loses the node it moves, except to the position before the head: the
  list still counts the node, but the chain that starts at the head has all the others only, and
  \<^verbatim>\<open>linklist_free\<close> on the result follows a null pointer.
\<close>

theorem linklist_move_node_loses:
  assumes "dll l w (as @ src # bs)" and "as @ bs = cs @ dst # ds" and "after \<or> cs \<noteq> []"
  shows "\<exists>l' w'. linklist_move_node (Some l) src dst after w = Some (Some l', w', True)
    \<and> walk (heap w') (length (as @ bs)) (lhead l') = as @ bs
    \<and> links (heap w') NULL (as @ bs) NULL \<and> unat (llen l') = length (as @ bs) + 1
    \<and> linklist_free (Some l') w' = None"
proof -
  have len: "unat (llen l) = length (as @ bs) + 1" using assms(1) by (simp add: dll_def)
  define w' where "w' = (if after then moved w as src bs dst (first_ptr ds) else moved w as src bs (last_ptr cs) dst)"
  have links: "links (heap w') NULL (as @ bs) NULL" and dist: "distinct (as @ bs)"
    using moved_links [OF assms(1)] by (simp_all add: w'_def)
  obtain l' where l': "linklist_move_node (Some l) src dst after w = Some (Some l', w', True)"
      "lhead l' = first_ptr (as @ bs)" "llen l' = llen l"
    using move_node_moved [OF assms(1,2), of after] assms(3) by (cases after) (auto simp: w'_def)
  have "free_loop (has_free l') (unat (llen l')) (first_ptr (as @ bs)) w' = None"
    using links dist by (rule free_loop_short) (simp add: l'(3) len)
  then show ?thesis using l' links walk_links [OF links] len by (auto simp: linklist_free_def)
qed

theorem linklist_move_node_loses_witness:
  "\<exists>l' w'. linklist_move_node (Some sample_list) 10 30 True sample_world = Some (Some l', w', True)
    \<and> walk (heap w') 2 (lhead l') = [20, 30] \<and> unat (llen l') = 3 \<and> linklist_free (Some l') w' = None"
  using linklist_move_node_loses [of sample_list sample_world "[]" 10 "[20, 30]" "[20]" 30 "[]" True] sample_dll
  by (auto simp: eval_nat_numeral)

text \<open>
  Moved before the head, the node is found from the head and \<^verbatim>\<open>linklist_free\<close> frees every node,
  but the old head still has no predecessor: when it is deleted next, the moved node falls out of the
  list, and \<^verbatim>\<open>linklist_free\<close> then follows a null pointer.
\<close>

theorem linklist_move_before_head:
  assumes "dll l w (as @ src # bs)" and "as @ bs = dst # ds"
  shows "\<exists>l' w'. linklist_move_node (Some l) src dst False w = Some (Some l', w', True)
    \<and> walk (heap w') (unat (llen l')) (lhead l') = src # as @ bs
    \<and> (\<exists>w2. linklist_free (Some l') w' = Some w2 \<and> (\<forall>q \<in> set (as @ src # bs). heap w2 q = None))
    \<and> (\<exists>l2 w2. linklist_delete_node (Some l') dst w' = Some (Some l2, w2)
        \<and> lhead l2 = first_ptr ds \<and> unat (llen l2) = length ds + 1 \<and> linklist_free (Some l2) w2 = None)"
proof -
  have len: "unat (llen l) = Suc (length (as @ bs))" using assms(1) by (simp add: dll_def)
  define w' where "w' = moved w as src bs NULL dst"
  define l' where "l' = l\<lparr>lhead := src, ltail := last_ptr (as @ bs)\<rparr>"
  have move: "linklist_move_node (Some l) src dst False w = Some (Some l', w', True)"
    using move_node_moved [of l w as src bs "[]" dst ds False] assms by (simp add: l'_def w'_def)
  have links: "links (heap w') NULL (as @ bs) NULL" and dist: "distinct (as @ bs)"
    using moved_links [OF assms(1)] by (simp_all add: w'_def)
  have src: "src \<notin> set (as @ bs)" "src \<noteq> NULL"
    using dll_node [OF assms(1)] by (metis UnE set_append)+
  obtain v where node: "heap w' src = Some \<lparr>nprev = NULL, nnext = first_ptr (as @ bs), nvalue = v\<rparr>"
    using assms(2) by (simp add: w'_def moved_def)
  have "walk (heap w') (length (as @ bs)) (first_ptr (as @ bs)) = as @ bs" using walk_links [OF links] .
  then have walk: "walk (heap w') (unat (llen l')) (lhead l') = src # as @ bs"
    using node src(2) len by (simp add: l'_def)
  \<comment> \<open>Freeing: the first turn frees the moved node, the others the rest of the chain.\<close>
  define w1 where "w1 = \<lparr>heap = (heap w')(src := None),
    freed = (if has_free l then freed w' @ [v] else freed w')\<rparr>"
  have "links (heap w1) NULL (as @ bs) NULL" using links src(1) by (simp add: w1_def)
  then obtain w2 where "free_loop (has_free l) (length (as @ bs)) (first_ptr (as @ bs)) w1 = Some w2"
      "heap w2 = (\<lambda>q. if q \<in> set (as @ bs) then None else heap w1 q)"
    using free_loop_links [OF _ dist] by blast
  moreover from this(1) have "linklist_free (Some l') w' = Some w2"
    using free_loop_step [OF node src(2)] len
    by (cases "has_free l") (simp_all add: linklist_free_def l'_def w1_def del: free_loop.simps)
  ultimately have free: "\<exists>w2. linklist_free (Some l') w' = Some w2
      \<and> (\<forall>q \<in> set (as @ src # bs). heap w2 q = None)"
    by (auto simp: w1_def)
  \<comment> \<open>Deleting the old head: the state is a list of the other nodes whose length is one too many.\<close>
  define l0 where "l0 = l'\<lparr>lhead := dst, llen := llen l' - 1\<rparr>"
  have "llen l' \<noteq> 0" using len by (auto simp: l'_def)
  then have len': "unat (llen l' - 1) = length (as @ bs)" using len by (simp add: l'_def unat_minus_one)
  then have l0: "dll l0 w' ([] @ dst # ds)" using links dist assms(2) by (simp add: dll_def l0_def l'_def)
  have d: "heap w' dst = Some \<lparr>nprev = NULL, nnext = first_ptr ds, nvalue = value_at (heap w') dst\<rparr>" "dst \<noteq> NULL"
    by (rule dll_node [OF l0]; simp add: value_at_def)+
  have unlink: "unlink l' dst w' = Some (l'\<lparr>lhead := first_ptr ds, ltail := last_ptr ds\<rparr>, removed w' [] ds)"
  proof (cases "ds = []")
    case True
    then show ?thesis using d by (simp add: unlink_def removed_def join_def)
  next
    case False
    have "ltail l' = last_ptr ds" using False assms(2) by (simp add: l'_def)
    then show ?thesis using d False dll_end_live(2) [OF l0 False]
      by (simp add: unlink_def removed_def join_def set_prev_upd)
  qed
  define l2 where "l2 = l'\<lparr>lhead := first_ptr ds, ltail := last_ptr ds, llen := llen l' - 1\<rparr>"
  define w2 where "w2 = deleted l' w' [] dst ds"
  have del: "linklist_delete_node (Some l') dst w' = Some (Some l2, w2)"
    using unlink d removed_node [OF l0]
    by (simp add: linklist_delete_node_def l2_def w2_def deleted_def removed_def)
  have "links (heap w2) NULL ds NULL"
    using removed_links [OF l0] l0 by (simp add: w2_def deleted_def dll_def)
  moreover have "distinct ds" using dist assms(2) by simp
  moreover have "length ds < unat (llen l2)" using len' assms(2) by (simp add: l2_def)
  ultimately have "free_loop (has_free l2) (unat (llen l2)) (first_ptr ds) w2 = None"
    by (rule free_loop_short)
  then have "linklist_free (Some l2) w2 = None" by (simp add: linklist_free_def l2_def)
  moreover have "lhead l2 = first_ptr ds" "unat (llen l2) = length ds + 1"
    using len' assms(2) by (simp_all add: l2_def)
  ultimately show ?thesis using move walk free del by blast
qed

theorem linklist_move_before_head_witness:
  "\<exists>l' w'. linklist_move_node (Some sample_list) 30 10 False sample_world = Some (Some l', w', True)
    \<and> walk (heap w') 3 (lhead l') = [30, 10, 20]
    \<and> (\<exists>l2 w2. linklist_delete_node (Some l') 10 w' = Some (Some l2, w2) \<and> linklist_free (Some l2) w2 = None)"
proof -
  obtain l' w' where m: "linklist_move_node (Some sample_list) 30 10 False sample_world = Some (Some l', w', True)"
      "walk (heap w') (unat (llen l')) (lhead l') = [30, 10, 20]"
      "\<exists>l2 w2. linklist_delete_node (Some l') 10 w' = Some (Some l2, w2) \<and> linklist_free (Some l2) w2 = None"
    using linklist_move_before_head [of sample_list sample_world "[10, 20]" 30 "[]" 10 "[20]"] sample_dll
    by auto
  have "llen l' = 3"
    using m(1) by (auto simp: linklist_move_node_def unlink_def sample_list_def sample_world_def
        set_prev_def set_next_def)
  then show ?thesis using m by auto
qed

end
