(* ===== verification/Unit_Tests.thy ===== *)
theory Unit_Tests
  imports Demo_Maps Demo_Sets Linklist
begin

text \<open>
  The unit tests of the containers, \<^verbatim>\<open>bitset_test.c\<close>, \<^verbatim>\<open>linklist_test.c\<close>, \<^verbatim>\<open>hashmap_test.c\<close>, \<^verbatim>\<open>skiplist_test.c\<close>
  and \<^verbatim>\<open>bloomfilter_test.c\<close>, with the macros of \<^verbatim>\<open>_test/minunit.h\<close>: what the tests of the library report on
  the model.

  A test works on the static variable of its file, the state \<open>'s\<close>, and returns the message of the first
  assertion that fails, or null (\<open>None\<close>). What is printed is left out.
\<close>

section \<open>The test macros\<close>

type_synonym message = "string option"

type_synonym 's unit_test = "'s \<Rightarrow> ('s \<times> message) prog"

definition mu_assert :: "bool \<Rightarrow> string \<Rightarrow> 's \<Rightarrow> ('s \<times> message) prog \<Rightarrow> ('s \<times> message) prog" where
  "mu_assert test message st rest = (if \<not> test then Some (Inr (st, Some message)) else rest)"

definition return_null :: "'s unit_test" where
  "return_null st = Some (Inr (st, None))"

text \<open>A sequence of \<^verbatim>\<open>mu_run_test\<close>; the number is \<^verbatim>\<open>tests_run\<close>. The test that fails is counted.\<close>

fun mu_run_tests :: "'s unit_test list \<Rightarrow> nat \<Rightarrow> 's \<Rightarrow> ('s \<times> message \<times> nat) prog" where
  "mu_run_tests [] tests_run st = Some (Inr (st, None, tests_run))"
| "mu_run_tests (test # tests) tests_run st =
     then_do (test st) (\<lambda>(st, message).
     if message \<noteq> None then Some (Inr (st, message, tests_run + 1))
     else mu_run_tests tests (tests_run + 1) st)"

text \<open>\<^verbatim>\<open>RUN_TESTS\<close>: what \<^verbatim>\<open>main\<close> reports, the result of \<^verbatim>\<open>all_tests\<close> and \<^verbatim>\<open>tests_run\<close>.\<close>

definition RUN_TESTS :: "('s \<times> message \<times> nat) prog \<Rightarrow> (message \<times> nat) prog" where
  "RUN_TESTS all_tests = then_do all_tests (\<lambda>(_, result, tests_run). Some (Inr (result, tests_run)))"

lemma mu_assert_True [simp]: "mu_assert True message st rest = rest"
  by (simp add: mu_assert_def)

section \<open>The tests of the bit set\<close>

definition test_bitset_new :: "(u64 \<Rightarrow> bool) \<Rightarrow> u8 list \<Rightarrow> bitset option unit_test" where
  "test_bitset_new mem slack st =
     (let st = bitset_new mem slack 100 in
     mu_assert (st \<noteq> None) ''new hashmap failed!'' st (return_null st))"

definition test_bitset_set :: "bitset option unit_test" where
  "test_bitset_set st =
     then_do (defined (bitset_set st 2 1)) (\<lambda>(st, _).
     then_do (defined (bitset_set st 89 1)) (\<lambda>(st, _).
     then_do (defined (bitset_count st)) (\<lambda>cnt.
     mu_assert (cnt = 2) ''bitset set failed!'' st (return_null st))))"

definition test_bitset_get :: "bitset option unit_test" where
  "test_bitset_get st =
     then_do (defined (bitset_get st 89)) (\<lambda>i.
     then_do (defined (bitset_get st 78)) (\<lambda>j.
     mu_assert (i = 1 \<and> j = 0) ''bitset get failed!'' st (return_null st)))"

definition test_bitset_count :: "bitset option unit_test" where
  "test_bitset_count st =
     then_do (defined (bitset_count st)) (\<lambda>cnt.
     mu_assert (cnt = 2) ''bitset count failed'' st (return_null st))"

definition test_bitset_clearall :: "bitset option unit_test" where
  "test_bitset_clearall st =
     then_do (defined (bitset_clearall st)) (\<lambda>st.
     then_do (defined (bitset_count st)) (\<lambda>cnt.
     mu_assert (cnt = 0) ''bitset clearall failed!'' st (return_null st)))"

definition test_bitset_setall :: "bitset option unit_test" where
  "test_bitset_setall st =
     then_do (defined (bitset_setall st)) (\<lambda>st.
     then_do (defined (bitset_count st)) (\<lambda>cnt.
     mu_assert (cnt = 100) ''bitset setall failed!'' st (return_null st)))"

definition test_bitset_length :: "bitset option unit_test" where
  "test_bitset_length st =
     (let l = bitset_length st in
     mu_assert (l = 100) ''bitset length failed!'' st (return_null st))"

definition bitset_tests :: "(u64 \<Rightarrow> bool) \<Rightarrow> u8 list \<Rightarrow> (message \<times> nat) prog" where
  "bitset_tests mem slack = RUN_TESTS (mu_run_tests
     [test_bitset_new mem slack, test_bitset_set, test_bitset_get, test_bitset_count, test_bitset_clearall,
      test_bitset_setall, test_bitset_length] 0 None)"

section \<open>The tests of the linked list\<close>

text \<open>
  \<open>a1\<close>, \<open>a2\<close> and \<open>a3\<close> are the addresses of the variables \<^verbatim>\<open>test1\<close>, \<^verbatim>\<open>test2\<close> and \<^verbatim>\<open>test3\<close>, and
  \<open>value_of\<close> is \<^verbatim>\<open>*(int *)LINKLIST_NODE_VALUE(node)\<close>. The state is the list and the heap of nodes.
\<close>

type_synonym list_state = "linklist option \<times> world"

definition ints :: "ptr \<Rightarrow> ptr \<Rightarrow> ptr \<Rightarrow> ptr \<rightharpoonup> int" where
  "ints a1 a2 a3 = [a3 \<mapsto> 3, a2 \<mapsto> 2, a1 \<mapsto> 1]"

definition value_of :: "(ptr \<rightharpoonup> int) \<Rightarrow> world \<Rightarrow> ptr \<Rightarrow> int option" where
  "value_of vars w node = do { nd \<leftarrow> load (heap w) node; load vars (nvalue nd) }"

definition test_linklist_new :: "(u64 \<Rightarrow> bool) \<Rightarrow> list_state unit_test" where
  "test_linklist_new mem st =
     (let st = (linklist_new mem False, snd st) in
     mu_assert (fst st \<noteq> None) ''skiplist new failed!'' st (return_null st))"

definition test_linklist_add_head :: "(ptr \<rightharpoonup> int) \<Rightarrow> ptr \<Rightarrow> ptr \<Rightarrow> list_state unit_test" where
  "test_linklist_add_head vars a1 node st =
     then_do (defined (linklist_add_head node (fst st) a1 (snd st))) (\<lambda>(lst, w, _).
     then_do (defined (do { l \<leftarrow> lst; value_of vars w (lhead l) })) (\<lambda>v.
     mu_assert (Some v = vars a1) ''linklist add head failed'' (lst, w) (return_null (lst, w))))"

definition test_linklist_add_tail :: "(ptr \<rightharpoonup> int) \<Rightarrow> ptr \<Rightarrow> ptr \<Rightarrow> list_state unit_test" where
  "test_linklist_add_tail vars a3 node st =
     then_do (defined (linklist_add_tail node (fst st) a3 (snd st))) (\<lambda>(lst, w, _).
     then_do (defined (do { l \<leftarrow> lst; value_of vars w (ltail l) })) (\<lambda>v.
     mu_assert (Some v = vars a3) ''linklist add tail failed'' (lst, w) (return_null (lst, w))))"

definition test_linklist_insert_node :: "(ptr \<rightharpoonup> int) \<Rightarrow> ptr \<Rightarrow> ptr \<Rightarrow> list_state unit_test" where
  "test_linklist_insert_node vars a2 node st =
     then_do (defined (fst st)) (\<lambda>l.
     then_do (defined (linklist_insert_node node (fst st) (lhead l) a2 True (snd st))) (\<lambda>(lst, w, _).
     then_do (defined (do { l \<leftarrow> lst; hd \<leftarrow> load (heap w) (lhead l); value_of vars w (nnext hd) })) (\<lambda>v.
     mu_assert (Some v = vars a2) ''linklist insert node failed'' (lst, w) (return_null (lst, w)))))"

definition test_linklist_move_node :: "(ptr \<rightharpoonup> int) \<Rightarrow> ptr \<Rightarrow> ptr \<Rightarrow> list_state unit_test" where
  "test_linklist_move_node vars a2 a3 st =
     then_do (defined (fst st)) (\<lambda>l.
     then_do (defined (linklist_move_node (fst st) (ltail l) (lhead l) False (snd st))) (\<lambda>(lst, w, _).
     then_do (defined (do { l \<leftarrow> lst; value_of vars w (lhead l) })) (\<lambda>h.
     then_do (defined (do { l \<leftarrow> lst; value_of vars w (ltail l) })) (\<lambda>t.
     mu_assert (Some h = vars a3 \<and> Some t = vars a2) ''linklist move node failed'' (lst, w) (return_null (lst, w))))))"

text \<open>The list is freed when all tests have passed.\<close>

definition linklist_tests ::
    "(u64 \<Rightarrow> bool) \<Rightarrow> ptr \<times> ptr \<times> ptr \<Rightarrow> ptr \<times> ptr \<times> ptr \<Rightarrow> world \<Rightarrow> (list_state \<times> message \<times> nat) prog" where
  "linklist_tests mem vars nodes w = (case vars of (a1, a2, a3) \<Rightarrow> case nodes of (n1, n2, n3) \<Rightarrow>
     let env = ints a1 a2 a3 in
     then_do (mu_run_tests [test_linklist_new mem, test_linklist_add_head env a1 n1, test_linklist_add_tail env a3 n2,
       test_linklist_insert_node env a2 n3, test_linklist_move_node env a2 a3] 0 (None, w)) (\<lambda>(st, message, n).
     if message \<noteq> None then Some (Inr (st, message, n))
     else then_do (defined (linklist_free (fst st) (snd st))) (\<lambda>w. Some (Inr ((fst st, w), None, n)))))"

section \<open>The tests of the hash map\<close>

text \<open>\<open>VALUE\<close> is the address of the string \<^verbatim>\<open>"testvalue"\<close>. The function mapped over the table only prints.\<close>

definition KEY :: cstr where
  "KEY = [116, 101, 115, 116, 107, 101, 121]"

definition compare_key :: "cstr \<Rightarrow> cstr \<Rightarrow> int" where
  "compare_key desc src = strcmp desc src"

definition print_func :: "cstr \<Rightarrow> ptr \<Rightarrow> unit \<Rightarrow> ptr \<times> unit" where
  "print_func key v other = (v, other)"

definition test_new_hashmap :: "(u64 \<Rightarrow> bool) \<Rightarrow> hashmap option unit_test" where
  "test_new_hashmap mem st =
     (let st = hashmap_new mem 0 compare_key in
     mu_assert (st \<noteq> None) ''new hashmap failed!'' st (return_null st))"

definition test_hashmap_put :: "(u64 \<Rightarrow> bool) \<Rightarrow> ptr \<Rightarrow> hashmap option unit_test" where
  "test_hashmap_put mem VALUE st =
     then_do (returned (hashmap_put mem st (Some KEY) VALUE)) (\<lambda>(st, r).
     mu_assert (r = 1) ''put hashmap failed!'' st (return_null st))"

definition test_hashmap_get :: "hashmap option unit_test" where
  "test_hashmap_get st =
     then_do (returned (hashmap_get st (Some KEY))) (\<lambda>v.
     mu_assert (v \<noteq> NULL) ''get from hashmap failed!'' st (return_null st))"

definition test_hashmap_map :: "hashmap option unit_test" where
  "test_hashmap_map st =
     then_do (returned (hashmap_map st (Some print_func) ())) (\<lambda>(st, _, r).
     mu_assert (r = 1) ''hashmap map failed'' st (return_null st))"

definition test_hashmap_delete :: "hashmap option unit_test" where
  "test_hashmap_delete st =
     then_do (returned (hashmap_delete st (Some KEY))) (\<lambda>(st, v).
     mu_assert (v \<noteq> NULL) ''delete from hashmap failed!'' st
     (then_do (returned (hashmap_get st (Some KEY))) (\<lambda>v.
     mu_assert (v = NULL) ''delete from hashmap failed!'' st (return_null st))))"

definition hashmap_tests :: "(u64 \<Rightarrow> bool) \<Rightarrow> ptr \<Rightarrow> (message \<times> nat) prog" where
  "hashmap_tests mem VALUE = RUN_TESTS (mu_run_tests
     [test_new_hashmap mem, test_hashmap_put mem VALUE, test_hashmap_get, test_hashmap_map, test_hashmap_delete]
     0 None)"

section \<open>The tests of the skip list\<close>

definition serho :: cstr where "serho = [115, 101, 114, 104, 111]"

definition yours :: cstr where "yours = [121, 111, 117, 114, 115]"

definition wahaha :: cstr where "wahaha = [119, 97, 104, 97, 104, 97]"

definition test_skiplist_new :: "(nat \<Rightarrow> ptr) \<Rightarrow> bool \<Rightarrow> ptr \<Rightarrow> skiplist option unit_test" where
  "test_skiplist_new junk ok node st =
     then_do (defined (skiplist_new junk ok node 0 compare_key)) (\<lambda>st.
     mu_assert (st \<noteq> None) ''skiplist new failed!'' st (return_null st))"

text \<open>A call of \<^verbatim>\<open>skiplist_insert\<close>, with the node the allocator gives in the state of that moment.\<close>

definition insert_key ::
    "(nat \<Rightarrow> u64) \<Rightarrow> (nat \<Rightarrow> ptr) \<Rightarrow> (skip_heap \<Rightarrow> ptr) \<Rightarrow> skiplist option \<Rightarrow> cstr \<Rightarrow> ptr \<Rightarrow> (skiplist option \<times> bool) prog" where
  "insert_key rnd junk alloc st key v =
     (let node = (case st of None \<Rightarrow> NULL | Some s \<Rightarrow> alloc (snodes s)) in
     defined (skiplist_insert rnd junk node st (Some key) v))"

definition test_skiplist_insert ::
    "(nat \<Rightarrow> u64) \<Rightarrow> (nat \<Rightarrow> ptr) \<Rightarrow> (skip_heap \<Rightarrow> ptr) \<Rightarrow> ptr \<Rightarrow> skiplist option unit_test" where
  "test_skiplist_insert rnd junk alloc v st =
     then_do (insert_key rnd junk alloc st serho v) (\<lambda>(st, r).
     mu_assert r ''skiplist insert failed!'' st
     (then_do (insert_key rnd junk alloc st yours v) (\<lambda>(st, r).
     mu_assert r ''skiplist insert failed!'' st
     (then_do (insert_key rnd junk alloc st serho NULL) (\<lambda>(st, r).
     mu_assert (\<not> r) ''skiplist insert failed!'' st (return_null st))))))"

definition test_skiplist_length :: "skiplist option unit_test" where
  "test_skiplist_length st =
     (let l = skiplist_length st in mu_assert (l = 2) ''skiplist length failed!'' st (return_null st))"

definition test_skiplist_search :: "ptr \<Rightarrow> skiplist option unit_test" where
  "test_skiplist_search a st =
     then_do (defined (skiplist_search st (Some serho))) (\<lambda>v.
     mu_assert (v = a) ''skiplist search failed!'' st
     (then_do (defined (skiplist_search st (Some wahaha))) (\<lambda>v.
     mu_assert (v = NULL) ''skiplist search failed!'' st (return_null st))))"

definition test_skiplist_delete :: "ptr \<Rightarrow> skiplist option unit_test" where
  "test_skiplist_delete a st =
     then_do (defined (skiplist_delete st (Some yours))) (\<lambda>(st, v).
     mu_assert (v = a) ''skiplist delete failed!'' st
     (let l = skiplist_length st in
     mu_assert (l = 1) ''skiplist delete failed!'' st
     (then_do (defined (skiplist_search st (Some yours))) (\<lambda>v.
     mu_assert (v = NULL) ''skiplist delete failed!'' st (return_null st)))))"

definition skiplist_tests ::
    "(nat \<Rightarrow> u64) \<Rightarrow> (nat \<Rightarrow> ptr) \<Rightarrow> (skip_heap \<Rightarrow> ptr) \<Rightarrow> bool \<Rightarrow> ptr \<Rightarrow> ptr \<Rightarrow> (message \<times> nat) prog" where
  "skiplist_tests rnd junk alloc ok node a =
     then_do (mu_run_tests [test_skiplist_new junk ok node, test_skiplist_insert rnd junk alloc a, test_skiplist_length,
       test_skiplist_search a, test_skiplist_delete a] 0 None) (\<lambda>(st, message, n).
     if message \<noteq> None then Some (Inr (message, n))
     else then_do (defined (skiplist_free st)) (\<lambda>_. Some (Inr (None, n))))"

section \<open>The tests of the Bloom filter\<close>

definition test_bloomfilter_new :: "(u64 \<Rightarrow> bool) \<Rightarrow> u8 list \<Rightarrow> (rat \<Rightarrow> int) \<Rightarrow> bloomfilter option unit_test" where
  "test_bloomfilter_new mem slack ceil_log2f st =
     then_do (defined (bloomfilter_new mem slack ceil_log2f 100000 demo_rate)) (\<lambda>st.
     mu_assert (st \<noteq> None) ''bloomfilter new failed!'' st (return_null st))"

definition test_bloomfilter_add :: "bloomfilter option unit_test" where
  "test_bloomfilter_add st =
     then_do (defined (bloomfilter_add st (Some serho))) (\<lambda>(st, r).
     mu_assert (r = 1) ''bloomfilter add failed!'' st (return_null st))"

definition test_bloomfilter_check :: "bloomfilter option unit_test" where
  "test_bloomfilter_check st =
     then_do (defined (bloomfilter_check st (Some serho))) (\<lambda>r.
     mu_assert (r = 1) ''bloomfilter check failed!'' st
     (then_do (defined (bloomfilter_check st (Some wahaha))) (\<lambda>r.
     mu_assert (r = 0) ''bloomfilter check failed!'' st (return_null st))))"

definition bloomfilter_tests :: "(u64 \<Rightarrow> bool) \<Rightarrow> u8 list \<Rightarrow> (rat \<Rightarrow> int) \<Rightarrow> (message \<times> nat) prog" where
  "bloomfilter_tests mem slack ceil_log2f = RUN_TESTS (mu_run_tests
     [test_bloomfilter_new mem slack ceil_log2f, test_bloomfilter_add, test_bloomfilter_check] 0 None)"

section \<open>What the tests report\<close>

lemma count_hundred:
  assumes "length xs = 13"
  shows "bitset_count (Some \<lparr>blen = 100, bytes = xs @ b # r\<rparr>) =
    Some (of_nat (sum_list (map popcount xs) + popcount b))"
proof -
  have "(\<Sum>j = 0..<13. popcount ((xs @ b # r) ! j)) = sum_list (map popcount xs)"
    unfolding sum_list_sum_nth by (rule sum.cong) (simp_all add: assms nth_append)
  moreover have "(xs @ b # r) ! 13 = b" by (simp add: nth_append assms)
  ultimately have "(\<Sum>j = 0..<Suc 13. popcount ((xs @ b # r) ! j)) = sum_list (map popcount xs) + popcount b"
    by (simp only: sum.atLeast0_lessThan_Suc)
  then show ?thesis
    using count_loop_sum [of 13 "xs @ b # r" 0 0] assms by (simp add: bitset_count_def nbytes_def)
qed

lemma linklist_suite_run:
  assumes "distinct [n1, n2, n3]" and "NULL \<notin> {n1, n2, n3}" and "distinct [a1, a2, a3]" and "NULL \<notin> {a1, a2, a3}"
  shows "linklist_tests (\<lambda>_. True) (a1, a2, a3) (n1, n2, n3) \<lparr>heap = Map.empty, freed = []\<rparr> =
    Some (Inr ((Some \<lparr>lhead = n2, ltail = n3, llen = 3, has_free = False\<rparr>, \<lparr>heap = Map.empty, freed = []\<rparr>), None, 5))"
proof -
  have "free_loop False (Suc (Suc (Suc 0))) n2 \<lparr>heap = [n1 \<mapsto> \<lparr>nprev = NULL, nnext = n3, nvalue = a1\<rparr>,
      n3 \<mapsto> \<lparr>nprev = n1, nnext = NULL, nvalue = a2\<rparr>, n2 \<mapsto> \<lparr>nprev = NULL, nnext = n1, nvalue = a3\<rparr>], freed = []\<rparr> =
      Some \<lparr>heap = Map.empty, freed = []\<rparr>"
    using assms(1,2) by (simp add: mem_defs fun_eq_iff)
  then have "free_loop False 3 n2 \<lparr>heap = [n1 \<mapsto> \<lparr>nprev = NULL, nnext = n3, nvalue = a1\<rparr>,
      n3 \<mapsto> \<lparr>nprev = n1, nnext = NULL, nvalue = a2\<rparr>, n2 \<mapsto> \<lparr>nprev = NULL, nnext = n1, nvalue = a3\<rparr>], freed = []\<rparr> =
      Some \<lparr>heap = Map.empty, freed = []\<rparr>"
    by (simp only: numeral_3_eq_3)
  with assms show ?thesis
    by (simp add: linklist_tests_def test_linklist_new_def test_linklist_add_head_def test_linklist_add_tail_def
        test_linklist_insert_node_def test_linklist_move_node_def return_null_def linklist_new_def linklist_add_head_def
        linklist_add_tail_def linklist_insert_node_def linklist_move_node_def unlink_def linklist_free_def
        mem_defs ints_def value_of_def)
qed

lemma hashmap_suite_run:
  assumes v: "v \<noteq> NULL"
  shows "hashmap_tests (\<lambda>_. True) v = Some (Inr (None, 5))"
proof -
  have cmp: "\<forall>a b. compare_key a b = 0 \<longleftrightarrow> a = b" by (simp add: compare_key_def strcmp_zero)
  obtain m where m: "hashmap_new (\<lambda>_. True) 0 compare_key = Some m" "growing m" "lookup m = Map.empty"
    using cmp by (rule new_growing)
  have "card (keys_of m) < 2 ^ 56" unfolding dom_lookup [symmetric] m(3) by simp
  then obtain m1 where m1: "put_at 2 (\<lambda>_. True) m KEY v = Some (Inr m1)" "growing m1" "lookup m1 = (lookup m)(KEY \<mapsto> v)"
    by (rule growing_put [OF m(2)])
  have c1: "clean m1" "unat (huse m1) = card (keys_of m1)" "card (keys_of m1) < table_size m1"
    using m1(2) by (auto simp: growing_def counted_def)
  then have inv: "hm_inv m1" "live (entrys m1) \<le> unat (huse m1)"
    using live_keys [of m1] by (auto simp: clean_def hm_inv_def)
  obtain m2 where m2: "hashmap_map (Some m1) (Some (\<lambda>k v st. (v, ()))) () =
        Some (Inr (Some m2, foldl (\<lambda>st (k, v). ()) () (bindings (entrys m1)), 1))"
      "lookup m2 = (\<lambda>k. map_option (\<lambda>v. v) (lookup m1 k))" "hsize m2 = hsize m1" "clean m2"
    by (rule map_entries [OF inv, of "\<lambda>_ v. v" "\<lambda>_ _ _. ()" "()"]) (use c1(1) in blast)
  have same: "lookup m2 = lookup m1" by (simp add: m2(2) fun_eq_iff option.map_ident)
  then have keys: "keys_of m2 = keys_of m1" "KEY \<in> keys_of m2" by (simp_all add: dom_lookup [symmetric] m1(3))
  obtain m3 where m3: "hashmap_delete (Some m2) (Some KEY) = Some (Inr (Some m3, v))"
      "hashmap_get (Some m3) (Some KEY) = Some (Inr NULL)"
    using remove_present [OF m2(4) _ keys(2)] c1(3) keys(1) m2(3) same m1(3) by fastforce
  have f: "print_func = (\<lambda>k v st. (v, ()))" by (simp add: print_func_def fun_eq_iff)
  show ?thesis
    using v m(1) m1(1,3) m2(1) m3 clean_get [OF c1(1,3), of KEY]
    by (simp add: hashmap_tests_def RUN_TESTS_def test_new_hashmap_def test_hashmap_put_def test_hashmap_get_def
        test_hashmap_map_def test_hashmap_delete_def return_null_def hashmap_put_def f)
qed

lemma skiplist_suite_run:
  assumes "v \<noteq> NULL" and "node \<noteq> NULL" and rnd: "always_fair rnd" and alloc: "good_alloc alloc"
  shows "skiplist_tests rnd junk alloc True node v = Some (Inr (None, 5))"
proof -
  have ord: "key_order compare_key" using strcmp_order by (simp add: compare_key_def [abs_def])
  have keys: "serho \<noteq> yours" "wahaha \<noteq> serho" "wahaha \<noteq> yours" by (simp_all add: serho_def yours_def wahaha_def)
  obtain s0 where s0: "skiplist_new junk True node 0 compare_key = Some (Some s0)" "skip_inv s0"
      "skip_binding s0 = Map.empty" "slength s0 = 0"
    using new_inv [OF assms(2) ord, of junk 0] by blast
  have step: "\<exists>s'. insert_key rnd junk alloc (Some s) k v = Some (Inr (Some s', True)) \<and> skip_inv s'
      \<and> skip_binding s' = (skip_binding s)(k \<mapsto> v)" if "skip_inv s" "card (dom (skip_binding s)) < 5" for s k
    using insert_update [OF that(1) assms(1), of "alloc (snodes s)" rnd junk k] that rnd alloc finite_nodes [OF that(1)]
    by (auto simp: insert_key_def always_fair_def good_alloc_def)
  obtain s1 where s1: "insert_key rnd junk alloc (Some s0) serho v = Some (Inr (Some s1, True))" "skip_inv s1"
      "skip_binding s1 = [serho \<mapsto> v]" using step [OF s0(2), of serho] s0(3) by auto
  obtain s2 where s2: "insert_key rnd junk alloc (Some s1) yours v = Some (Inr (Some s2, True))" "skip_inv s2"
      "skip_binding s2 = [serho \<mapsto> v, yours \<mapsto> v]" using step [OF s1(2), of yours] s1(3) by auto
  have none: "insert_key rnd junk alloc (Some s2) serho NULL = Some (Inr (Some s2, False))"
    by (simp add: insert_key_def skiplist_insert_def)
  obtain s3 where s3: "skiplist_delete (Some s2) (Some yours) = Some (Some s3, v)" "skip_inv s3"
      "skip_binding s3 = [serho \<mapsto> v]"
    using delete_present [OF s2(2), of yours v] s2(3) keys(1) by (auto simp: fun_upd_twist)
  have len: "unat (slength s2) = 2" "unat (slength s3) = 1"
    using card_inv [OF s2(2)] card_inv [OF s3(2)] keys(1) by (simp_all add: s2(3) s3(3))
  then have len': "slength s2 = 2" "slength s3 = 1" by (simp_all add: word_unat_eq_iff)
  have "skiplist_free (Some s3) = Some (\<lambda>_. None)"
    using free_rep [of s3 "skip_ptrs s3"] s3(2) by (simp add: skip_inv_def)
  then show ?thesis
    using s0(1) s1(1) s2(1) none s3(1) len' keys search_binding [OF s2(2)] search_binding [OF s3(2)] s2(3) s3(3)
    by (simp add: skiplist_tests_def test_skiplist_new_def test_skiplist_insert_def test_skiplist_length_def
        test_skiplist_search_def test_skiplist_delete_def return_null_def skiplist_length_def)
qed

text \<open>The two keys of the test have different positions in a filter of 17 hash rounds and 2500000 bits.\<close>

lemma wahaha_unmarked:
  "\<not> list_all (\<lambda>p. p \<in> set (positions 17 (bloom_hash serho) (drop_bit 17 (bloom_hash serho) OR push_bit 15 (bloom_hash serho)) 2500000))
    (positions 17 (bloom_hash wahaha) (drop_bit 17 (bloom_hash wahaha) OR push_bit 15 (bloom_hash wahaha)) 2500000)"
  by code_simp

lemma bloomfilter_suite_run:
  assumes c: "ceil_log2f (1 / demo_rate) = 17"
  shows "bloomfilter_tests (\<lambda>_. True) slack ceil_log2f = Some (Inr (None, 3))"
proof -
  obtain f where f: "bloomfilter_new (\<lambda>_. True) slack ceil_log2f 100000 demo_rate = Some (Some f)" "bf_inv f"
      "marked f = {}" "count f = 0" "capacity f = 100000" "bk f = 17" "unat (nbits f) = 2500000"
    using bloomfilter_new_spec [of "\<lambda>_. True" 100000 demo_rate slack ceil_log2f] c
    by (auto simp: demo_rate_def bits_per_key_def)
  have nb: "nbits f = 2500000" using f(7) by (simp add: word_unat_eq_iff)
  obtain f' where f': "bloomfilter_add (Some f) (Some serho) = Some (Some f', 1)" "bf_inv f'"
      "marked f' = marked f \<union> unat ` set (key_positions f serho)" "nbits f' = nbits f" "bk f' = bk f"
    by (rule bloomfilter_add_ok [OF f(2), of serho]) (simp_all add: f(4,5))
  have "\<not> set (key_positions f wahaha) \<subseteq> set (key_positions f serho)"
    using wahaha_unmarked by (auto simp: key_positions_def f(6) nb Let_def list_all_iff)
  then have "\<not> unat ` set (key_positions f wahaha) \<subseteq> unat ` set (key_positions f serho)"
    by (simp add: inj_image_subset_iff [OF inj_unsigned])
  then have "bloomfilter_check (Some f') (Some wahaha) = Some 0" "bloomfilter_check (Some f') (Some serho) = Some 1"
    using bloomfilter_check_ok [OF f'(2)] f'(3) f(3) key_positions_cong [OF f'(4,5)] by simp_all
  then show ?thesis using f(1) f'(1)
    by (simp add: bloomfilter_tests_def RUN_TESTS_def test_bloomfilter_new_def test_bloomfilter_add_def
        test_bloomfilter_check_def return_null_def)
qed

text \<open>The block of the tested set: empty, with position 2, with both, and with all positions set.\<close>

definition block0 :: "u8 list" where "block0 = [0, 0, 0, 0, 0, 0, 0, 0, 0, 0, 0, 0, 0]"

definition block1 :: "u8 list" where "block1 = [4, 0, 0, 0, 0, 0, 0, 0, 0, 0, 0, 0, 0]"

definition block2 :: "u8 list" where "block2 = [4, 0, 0, 0, 0, 0, 0, 0, 0, 0, 0, 2, 0]"

definition block_all :: "u8 list" where
  "block_all = [255, 255, 255, 255, 255, 255, 255, 255, 255, 255, 255, 255, 15]"

abbreviation tested :: "u8 list \<Rightarrow> u8 list \<Rightarrow> bitset option" where
  "tested xs slack \<equiv> Some \<lparr>blen = 100, bytes = xs @ slack\<rparr>"

lemma thirteen: "replicate 13 (x :: u8) = [x, x, x, x, x, x, x, x, x, x, x, x, x]"
  by (simp add: numeral_eq_Suc)

lemma tested_counts:
  "bitset_count (tested block0 (b # r)) = Some (of_nat (popcount b))"
  "bitset_count (tested block2 (b # r)) = Some (of_nat (2 + popcount b))"
  "bitset_count (tested block_all (b # r)) = Some (of_nat (100 + popcount b))"
proof -
  have "length block0 = 13" "length block2 = 13" "length block_all = 13"
    by (simp_all add: block0_def block2_def block_all_def)
  moreover have "sum_list (map popcount block0) = 0" "sum_list (map popcount block2) = 2"
      "sum_list (map popcount block_all) = 100"
    unfolding popcount_code by code_simp+
  ultimately show "bitset_count (tested block0 (b # r)) = Some (of_nat (popcount b))"
    "bitset_count (tested block2 (b # r)) = Some (of_nat (2 + popcount b))"
    "bitset_count (tested block_all (b # r)) = Some (of_nat (100 + popcount b))"
    by (simp_all only: count_hundred add_0)
qed

lemma tested_no_slack: "bitset_count (tested block2 []) = None"
  using count_loop_overrun [of 0 block2 13 0] by (simp add: bitset_count_def nbytes_def block2_def)

lemma tested_steps:
  "bitset_new (\<lambda>_. True) slack 100 = tested block0 slack"
  "bitset_set (tested block0 slack) 2 1 = Some (tested block1 slack, 0)"
  "bitset_set (tested block1 slack) 89 1 = Some (tested block2 slack, 0)"
  "bitset_get (tested block2 slack) 89 = Some 1"
  "bitset_get (tested block2 slack) 78 = Some 0"
  "bitset_clearall (tested block2 slack) = Some (tested block0 slack)"
  "bitset_setall (tested block0 slack) = Some (tested block_all slack)"
  by (simp_all add: bitset_new_def bitset_set_def bitset_get_def bitset_clearall_def bitset_setall_def nbytes_def
      thirteen block0_def block1_def block2_def block_all_def lsbmask_def)

lemma popcount_positive: "b \<noteq> (0 :: u8) \<Longrightarrow> popcount b \<noteq> 0"
proof -
  assume "b \<noteq> 0"
  then obtain n where "bit b n" using bit_eq_iff [of b 0] by auto
  then have "n \<in> {k. k < 8 \<and> bit b k}" using bit_imp_le_length [of b n] by auto
  then show ?thesis unfolding popcount_def using card_gt_0_iff [of "{k. k < 8 \<and> bit b k}"] by fastforce
qed

lemma count_differs: "b \<noteq> (0 :: u8) \<Longrightarrow> (of_nat (2 + popcount b) :: u64) \<noteq> 2"
proof
  assume b: "b \<noteq> 0" and two: "(of_nat (2 + popcount b) :: u64) = 2"
  have "2 + popcount b < 2 ^ 64" using popcount_le [of b] by simp
  then have "unat (of_nat (2 + popcount b) :: u64) = 2 + popcount b"
    unfolding unsigned_of_nat of_nat_id by (intro take_bit_nat_eq_self) simp
  then show False using popcount_positive [OF b] unfolding two by simp
qed

lemma bitset_suite_run:
  "bitset_tests (\<lambda>_. True) slack = (case slack of [] \<Rightarrow> Some (Inl Undefined)
    | b # _ \<Rightarrow> if b = 0 then Some (Inr (None, 7)) else Some (Inr (Some ''bitset set failed!'', 2)))"
proof (cases slack)
  case Nil
  then show ?thesis using tested_steps [of "[]"] tested_no_slack
    by (simp add: bitset_tests_def RUN_TESTS_def test_bitset_new_def test_bitset_set_def return_null_def)
next
  case (Cons b r)
  have zero: "popcount 0 = 0" by (simp add: popcount_def)
  show ?thesis
  proof (cases "b = 0")
    case True
    show ?thesis unfolding Cons True
      by (simp add: bitset_tests_def RUN_TESTS_def test_bitset_new_def test_bitset_set_def test_bitset_get_def
          test_bitset_count_def test_bitset_clearall_def test_bitset_setall_def test_bitset_length_def return_null_def
          tested_steps tested_counts bitset_length_def zero)
  next
    case False
    obtain c where "bitset_count (tested block2 (b # r)) = Some c" "c \<noteq> 2"
      using tested_counts(2) [of b r] count_differs [OF False] by blast
    then show ?thesis using False unfolding Cons
      by (simp add: bitset_tests_def RUN_TESTS_def test_bitset_new_def test_bitset_set_def return_null_def
          tested_steps mu_assert_def)
  qed
qed

section \<open>Property\<close>

text \<open>
  C33. With memory, a fair generator and the right logarithm, all unit tests of the containers pass, and the
  lists are freed, but for those of the bit set: \<^verbatim>\<open>bitset_count\<close> reads the byte behind the block, so that
  its second test passes exactly when the allocator left a 0 there, fails when another byte is there, and is
  undefined when there is none.
\<close>

theorem unit_tests_report:
  assumes "ceil_log2f (1 / demo_rate) = 17"
    and "v \<noteq> NULL" and "node \<noteq> NULL" and "always_fair rnd" and "good_alloc alloc"
    and "distinct [n1, n2, n3]" and "NULL \<notin> {n1, n2, n3}" and "distinct [a1, a2, a3]" and "NULL \<notin> {a1, a2, a3}"
  shows "bitset_tests (\<lambda>_. True) slack = (case slack of [] \<Rightarrow> Some (Inl Undefined)
      | b # _ \<Rightarrow> if b = 0 then Some (Inr (None, 7)) else Some (Inr (Some ''bitset set failed!'', 2)))
    \<and> bloomfilter_tests (\<lambda>_. True) slack ceil_log2f = Some (Inr (None, 3))
    \<and> hashmap_tests (\<lambda>_. True) v = Some (Inr (None, 5))
    \<and> skiplist_tests rnd junk alloc True node v = Some (Inr (None, 5))
    \<and> linklist_tests (\<lambda>_. True) (a1, a2, a3) (n1, n2, n3) \<lparr>heap = Map.empty, freed = []\<rparr> =
      Some (Inr ((Some \<lparr>lhead = n2, ltail = n3, llen = 3, has_free = False\<rparr>, \<lparr>heap = Map.empty, freed = []\<rparr>), None, 5))"
  using bitset_suite_run [of slack] bloomfilter_suite_run [of ceil_log2f slack, OF assms(1)] hashmap_suite_run [OF assms(2)]
    skiplist_suite_run [OF assms(2-5), of junk] linklist_suite_run [OF assms(6-9)]
  by (intro conjI) simp_all

theorem unit_tests_report_witness:
  "bitset_tests (\<lambda>_. True) [0] = Some (Inr (None, 7))
    \<and> bloomfilter_tests (\<lambda>_. True) [0] (\<lambda>_. 17) = Some (Inr (None, 3))
    \<and> hashmap_tests (\<lambda>_. True) 8 = Some (Inr (None, 5))
    \<and> skiplist_tests sample_rnd (\<lambda>_. 5) sample_alloc True 1 8 = Some (Inr (None, 5))"
  using unit_tests_report [OF _ _ _ sample_fair sample_alloc_good, of "\<lambda>_. 17" 8 1 1 2 3 4 5 6 "[0]" "\<lambda>_. 5"]
  by simp

end
