(* ===== verification/Spec2Isabelle.thy ===== *)
theory Spec2Isabelle
  imports Echo_Epoll Blocks Unit_Tests
begin

text \<open>
  A verification development for libakio, a C library of containers (\<^verbatim>\<open>src/bitset\<close>, \<^verbatim>\<open>src/bloomfilter\<close>,
  \<^verbatim>\<open>src/hashmap\<close>, \<^verbatim>\<open>src/linklist\<close>, \<^verbatim>\<open>src/skiplist\<close>) with an event loop for network programs (\<^verbatim>\<open>src/kznet\<close>).

  \<^bold>\<open>How the code is modelled.\<close> The definitions follow the C code statement by statement in the option
  monad. \<open>None\<close> is an execution the language gives no meaning to (an access outside a block, a null or
  dangling pointer, a division by zero, a failed assertion, signed overflow) or, for the functions
  defined by \<open>partial_function\<close>, a loop that does not end; where the two must be told apart (the hash
  map, the timer loop) the undefined results are values of their own. Unsigned integers are words of
  their width, signed ones are integers with their range checked where they can leave it. A structure
  is a record. Blocks of memory are lists with checked access (\<open>aload\<close>, \<open>astore\<close>), linked structures
  live in heaps of nodes by address (\<open>load\<close>, \<open>store\<close>, \<open>dealloc\<close>). The address \<^verbatim>\<open>malloc\<close> returns, the
  requests the allocator serves, the contents of fresh memory, the clock, random numbers, the kernel
  and what callbacks do are arguments of the definitions; what is assumed of them stands in the
  theorems. Fields named \<open>trace\<close>, \<open>etrace\<close>, \<open>cin\<close> and \<open>cout\<close> are not in the code: they record calls and
  bytes for the statements.

  \<^bold>\<open>The parts.\<close>
  \<^item> \<open>Prelude\<close>: machine types, blocks, heaps, chains of pointers, word arithmetic.
  \<^item> Bit set, \<^verbatim>\<open>bitset.c\<close>: \<open>Bitset\<close>. Reading and writing bits, \<^verbatim>\<open>setall\<close> with its padding, counting by a table
    of nibbles, with the position and counting errors. \<open>Bit_Store\<close> is the interface (a locale) by which
    the Bloom filter uses it.
  \<^item> Bloom filter, \<^verbatim>\<open>bloomfilter.c\<close>: \<open>Bloomfilter\<close>. MurmurHash2 word by word, sizes, adding and checking;
    no false negatives, capacity, injectivity of the hash on aligned blocks.
  \<^item> Hash map, \<^verbatim>\<open>hashmap.c\<close>: \<open>Probe\<close> (the probe sequence visits every slot), \<open>Hashmap\<close> (the table, its
    loops and the map it stands for), \<open>Hashmap_Growth\<close> (resizing, the dictionary, deletions and the
    states they lead to). The loops have no bound in the code and are \<open>partial_function\<close>s; the theorems
    show when they return.
  \<^item> Skip list, \<^verbatim>\<open>skiplist.c\<close>: \<open>Skiplist\<close> (nodes with their forward arrays, the invariant over all levels,
    search, insertion, deletion), \<open>Skiplist_Dict\<close> (the order of strings, the dictionary).
    \<open>Dict\<close> is the contract of a dictionary, interpreted on the hash map and on the skip list.
  \<^item> Linked list, \<^verbatim>\<open>linklist.c\<close>: \<open>Linklist\<close>, with \<open>Deque\<close>, the contract of a list used at both ends.
  \<^item> Timers, \<^verbatim>\<open>kznet/timer.c\<close>: \<open>Min_Heap\<close> (heaps in arrays), \<open>Timer\<close> (the array heap with back indices,
    the pool of structures, the clock), \<open>Timer_Loop\<close> (creating, deleting and firing timers), \<open>Min_Queue\<close>
    (the contracts between the heap and the loop that fires timers, and \<open>fires\<close>, what the loop does on
    the table of expiry times alone, with callbacks that may ask to be called again).
  \<^item> Event loop, \<^verbatim>\<open>kznet/event.c\<close>: \<open>Event\<close> (the table of events, registration, dispatch, the loop). Its
    record extends that of the timers, as the C structure holds them.
  \<^item> Back ends, \<^verbatim>\<open>kznet/poller.c\<close>: \<open>Poller\<close> (on \<^verbatim>\<open>epoll\<close> and on \<^verbatim>\<open>select\<close>). \<open>Event_Poller\<close> states what the loop
    needs of a back end as a locale and proves the loop's operations on it; \<open>Event_Backends\<close> interprets
    it on both back ends; \<open>Event_Turn\<close> joins descriptors and timers in one turn of the loop.
  \<^item> Buffers, \<^verbatim>\<open>kznet/buffer.c\<close>: \<open>Buffer\<close> (pool and chains of blocks between \<^verbatim>\<open>readv\<close> and \<^verbatim>\<open>writev\<close>),
    \<open>Buffer_Chain\<close> (their invariant, step by step), \<open>Buffer_Pipe\<close> (the bytes a chain holds; the echo);
    \<open>Byte_Pipe\<close> is the contract of a byte queue. \<open>Chain_Family\<close>: several chains that share a pool.
  \<^item> Sockets, \<^verbatim>\<open>kznet/socket.c\<close>: \<open>Socket\<close> (the functions over the open descriptors of the process, whose
    system calls may fail one by one), \<open>Socket_Spec\<close> (which descriptors connecting and serving leave
    open).
  \<^item> The echo server, \<^verbatim>\<open>kznet/demo.c\<close>: \<open>Echo\<close> (the callbacks and \<^verbatim>\<open>main\<close>; its record extends the event loop
    by the connections, the buffers and the descriptors), \<open>Echo_Server\<close> (the invariant that ties them
    together, and that every callback returns and keeps it, for back ends that may refuse a new
    descriptor and fail in no other way), \<open>Echo_Program\<close> (the setup and the turns for any such back end, with
    the timer, and the program on \<^verbatim>\<open>select\<close>), \<open>Echo_Epoll\<close> (the program on \<^verbatim>\<open>epoll\<close>).
  \<^item> Memory: \<open>Blocks\<close>. The addresses of the blocks that creating a structure takes from the allocator and
    deleting it gives back: \<^verbatim>\<open>bitset_free\<close>, \<^verbatim>\<open>bloomfilter_free\<close>, \<^verbatim>\<open>hashmap_free\<close>, the resize step of the hash map,
    \<^verbatim>\<open>timer_heap_delete\<close>, \<^verbatim>\<open>poller_delete\<close>, \<^verbatim>\<open>event_loop_delete\<close> and the error paths of creation.
    \<open>block_owner\<close> is the contract. When creation fails is stated on the level of values.
  \<^item> The other demo programs: \<open>Demo_Words\<close> (reading a file word by word, the clock, programs that return,
    crash or never end), \<open>Demo_Sets\<close> (\<^verbatim>\<open>bitset_demo.c\<close>, \<^verbatim>\<open>bloomfilter_demo.c\<close>), \<open>Demo_Maps\<close>
    (\<^verbatim>\<open>hashmap_demo.c\<close>, \<^verbatim>\<open>skiplist_demo.c\<close>): what they print, from the specifications of the containers.
  \<^item> The unit tests of the containers, \<^verbatim>\<open>*_test.c\<close> and \<^verbatim>\<open>_test/minunit.h\<close>: \<open>Unit_Tests\<close>. What they report on the
    model: all pass, but those of the bit set, which depend on the byte behind its block.

  \<^bold>\<open>What is shown.\<close> Every component has an invariant that its operations keep, and a view (a map, a list,
  a set of positions, a queue of bytes) on which each operation does what its name says, on every
  branch of the code; that it returns is part of each statement. Where the code breaks its promise, the theorem says
  how: deletion in the hash map (and the demo program that runs into it), moving list nodes, callbacks that delete their own timer, the
  \<^verbatim>\<open>select\<close> back end without timers.

  \<^bold>\<open>Bounds.\<close> The probe sequence is shown to cover a table of \<open>size\<close> slots within \<open>13 + size\<close> turns (13
  turns shift the 64-bit hash out, the rest runs through a full period). The random level of a skip
  list returns when some draw is not in the lowest quarter. The timer loop ends at once for callbacks that
  return 0. A callback that asks to be called again after an interval can be due again before the loop is
  done with the other timers, so that the loop ends only if the clock lets it: with \<open>n\<close> timers it is enough
  that \<open>2 n + 2\<close> readings in a row lie within the shortest interval (\<open>paced\<close>: again and again there is such a
  stretch), two readings for each timer called and one for the last look. Nothing else is asked of the
  clock; it may run backwards. (Without it the loop may run on for ever: \<open>process_runs_on\<close>.) Receiving ends at the first \<^verbatim>\<open>readv\<close> that does
  not fill both blocks, sending when not every \<^verbatim>\<open>writev\<close> is interrupted. The table of the event loop is
  limited by the range of descriptors on \<^verbatim>\<open>epoll\<close> and by \<^verbatim>\<open>FD_SETSIZE\<close> on \<^verbatim>\<open>select\<close>; the timer heap by
  \<open>2 ^ 29\<close> timers, below which its index arithmetic does not overflow. The accepting loop of the
  echo server ends when \<^verbatim>\<open>accept\<close> fails, as it does when no client waits; all that is assumed is that this
  happens again and again, in whatever way the other calls turn out. Its one timer has an interval of a
  second, so four readings of the clock in a row within a second are enough, again and again; the four
  that belong together are those around a call of \<^verbatim>\<open>print_info\<close>, with no call in between that waits, and the
  clock \<open>idle_clock\<close> of the examples is that of a server that sleeps for a second in every turn. The
  loop that reads a file of words ends because every turn shortens the file or comes to its end.

  \<^bold>\<open>Where the model decides.\<close> Three places follow the usual compilers on Linux rather than the letter of
  the standard, or have no bound where the code has a large one: the hash of a string shifts characters
  above 127 as two's complement; the level a skip list draws is counted without a bound before it is
  cut to the maximum, where the code's \<^verbatim>\<open>int\<close> would overflow after \<open>2 ^ 31\<close> draws in a row; and milliseconds,
  64 bits wide in the code, are integers.

  \<^bold>\<open>Not modelled.\<close> What the echo server prints, and the headings and messages the other demos and the
  tests print; \<^verbatim>\<open>poller_name\<close> and \<^verbatim>\<open>event_loop_poller_name\<close>, which return a constant string. The demo programs
  are modelled up to the calls that free their containers, which \<open>Blocks\<close> covers; the makefiles.
\<close>

end
